(* ===== verification/Prelude.thy ===== *)
theory Prelude
  imports Main "HOL-Library.Word" "HOL-Library.Monad_Syntax"
begin

unbundle bit_operations_syntax

text \<open>
  Shared vocabulary of the development: the machine types of the Go program, the byte
  orders of the standard package \<open>encoding/binary\<close>, the copy of a byte slice into
  another one, and the generic list and word lemmas every component uses.
\<close>

type_synonym byte = "8 word"
type_synonym uint16 = "16 word"
type_synonym uint32 = "32 word"
type_synonym uint64 = "64 word"
type_synonym int64 = "64 word"

text \<open>
  The collections of the development: \<open>io_simps\<close> unfolds the input/output layer,
  \<open>codec\<close> holds the laws of the byte orders.
\<close>

named_theorems io_simps
named_theorems codec

section \<open>Byte orders\<close>

text \<open>
  \<open>le_word\<close> reads a little-endian byte list as a machine word of any width
  (\<open>binary.LittleEndian.Uint32\<close>, \<open>Uint64\<close>) and \<open>le_bytes\<close> writes the low
  bytes of a word; the big-endian pair reverses the list.
\<close>

fun le_word :: "byte list \<Rightarrow> 'a::len word" where
  "le_word [] = 0"
| "le_word (b # bs) = ucast b OR push_bit 8 (le_word bs)"

fun le_bytes :: "nat \<Rightarrow> 'a::len word \<Rightarrow> byte list" where
  "le_bytes 0 w = []"
| "le_bytes (Suc n) w = ucast w # le_bytes n (drop_bit 8 w)"

definition be_word :: "byte list \<Rightarrow> 'a::len word" where
  "be_word bs = le_word (rev bs)"

definition be_bytes :: "nat \<Rightarrow> 'a::len word \<Rightarrow> byte list" where
  "be_bytes n w = rev (le_bytes n w)"

lemma length_le_bytes [simp]: "length (le_bytes n w) = n"
  by (induction n arbitrary: w) auto

lemma length_be_bytes [simp]: "length (be_bytes n w) = n"
  by (simp add: be_bytes_def)

lemma nth_le_bytes: "k < n \<Longrightarrow> le_bytes n w ! k = ucast (drop_bit (8 * k) w)"
proof (induction n arbitrary: w k)
  case 0
  then show ?case by simp
next
  case (Suc n)
  then show ?case
    by (cases k) (simp_all add: algebra_simps)
qed

lemma bit_le_word:
  "bit (le_word bs :: 'a::len word) i \<longleftrightarrow>
     i < LENGTH('a) \<and> i < 8 * length bs \<and> bit (bs ! (i div 8)) (i mod 8)"
proof (induction bs arbitrary: i)
  case Nil
  then show ?case by simp
next
  case (Cons b bs)
  show ?case
  proof (cases "i < 8")
    case True
    then show ?thesis
      by (auto simp: bit_simps)
  next
    case False
    then obtain j where j: "i = j + 8"
      by (metis add.commute le_add_diff_inverse not_less)
    have "\<not> bit b (j + 8)"
      using bit_imp_le_length [of b "j + 8"] by auto
    moreover have "(j + 8) div 8 = Suc (j div 8)" by simp
    ultimately show ?thesis
      using Cons.IH [of j] by (auto simp: j bit_simps)
  qed
qed

lemma le_bytes_word [codec]:
  assumes "8 * length bs \<le> LENGTH('a::len)"
  shows "le_bytes (length bs) (le_word bs :: 'a word) = bs"
proof (rule nth_equalityI)
  fix k assume "k < length (le_bytes (length bs) (le_word bs :: 'a word))"
  then have k: "k < length bs" by simp
  show "le_bytes (length bs) (le_word bs :: 'a word) ! k = bs ! k"
  proof (rule bit_eqI)
    fix i assume "possible_bit TYPE(byte) i"
    then have i: "i < 8" by simp
    have "8 * k + i < 8 * length bs" using k i by arith
    then show "bit (le_bytes (length bs) (le_word bs :: 'a word) ! k) i = bit (bs ! k) i"
      using assms i by (simp add: nth_le_bytes [OF k] bit_simps bit_le_word)
  qed
qed simp

lemma le_word_bytes [codec]:
  assumes "LENGTH('a::len) \<le> 8 * n"
  shows "le_word (le_bytes n (w :: 'a word)) = w"
proof (rule bit_eqI)
  fix i assume "possible_bit TYPE('a word) i"
  then have i: "i < LENGTH('a)" by simp
  then have "i div 8 < n" using assms by auto
  then show "bit (le_word (le_bytes n w) :: 'a word) i = bit w i"
    using assms i by (simp add: bit_le_word nth_le_bytes bit_simps)
qed

lemma be_word_bytes [codec]:
  "LENGTH('a::len) \<le> 8 * n \<Longrightarrow> be_word (be_bytes n (w :: 'a word)) = w"
  by (simp add: be_word_def be_bytes_def le_word_bytes)

lemma be_bytes_word [codec]:
  "8 * length bs \<le> LENGTH('a::len) \<Longrightarrow> be_bytes (length bs) (be_word bs :: 'a word) = bs"
  using le_bytes_word [of "rev bs", where 'a = 'a] by (simp add: be_word_def be_bytes_def)

lemma le_word_append:
  "le_word (xs @ ys) = (le_word xs OR push_bit (8 * length xs) (le_word ys) :: 'a::len word)"
proof (induction xs)
  case Nil
  then show ?case by simp
next
  case (Cons x xs)
  then show ?case
    by (simp add: push_bit_or algebra_simps or.assoc)
qed

lemma ucast_le_word [codec]:
  assumes "8 * length bs \<le> LENGTH('a::len)"
  shows "ucast (le_word bs :: 'a word) = (le_word bs :: 'b::len word)"
  using assms by (auto intro!: bit_eqI simp: bit_simps bit_le_word)

lemma le_bytes_xor [codec]:
  "le_bytes n (v XOR w) = map2 (XOR) (le_bytes n v) (le_bytes n w)"
  by (rule nth_equalityI) (simp_all add: nth_le_bytes drop_bit_xor unsigned_xor_eq)

section \<open>Slices\<close>

text \<open>
  \<open>put_at i xs bts\<close> is the array \<open>bts\<close> after \<open>copy(bts[i:], xs)\<close>: Go copies
  as many bytes as fit and returns that number, \<open>copy_len i xs bts\<close>.
\<close>

definition copy_len :: "nat \<Rightarrow> 'a list \<Rightarrow> 'a list \<Rightarrow> nat" where
  "copy_len i xs bts = min (length bts - i) (length xs)"

definition put_at :: "nat \<Rightarrow> 'a list \<Rightarrow> 'a list \<Rightarrow> 'a list" where
  "put_at i xs bts =
     take i bts @ take (copy_len i xs bts) xs @ drop (i + copy_len i xs bts) bts"

lemma length_put_at [simp]: "length (put_at i xs bts) = length bts"
  by (simp add: put_at_def copy_len_def)

lemma put_at_fits:
  "i + length xs \<le> length bts \<Longrightarrow> put_at i xs bts = take i bts @ xs @ drop (i + length xs) bts"
  by (simp add: put_at_def copy_len_def)

lemma take_put_at:
  "i + length xs \<le> length bts \<Longrightarrow> take (i + length xs) (put_at i xs bts) = take i bts @ xs"
  by (simp add: put_at_fits)

lemma drop_put_at:
  "i + length xs \<le> length bts \<Longrightarrow> j \<le> i \<Longrightarrow>
     drop j (put_at i xs bts) = drop j (take i bts) @ xs @ drop (i + length xs) bts"
  by (simp add: put_at_fits)

lemma take_put_at_before: "j \<le> i \<Longrightarrow> take j (put_at i xs bts) = take j bts"
  by (cases "i \<le> length bts") (auto simp: put_at_def min_def copy_len_def)

section \<open>Lemmas on lists and options\<close>

lemma bind_Some_iff [io_simps]:
  "Option.bind m f = Some y \<longleftrightarrow> (\<exists>x. m = Some x \<and> f x = Some y)"
  by (cases m) auto

lemma zip_map_upt: "map2 f xs (map g [0..<length xs]) = map (\<lambda>i. f (xs ! i) (g i)) [0..<length xs]"
  by (rule nth_equalityI) auto

lemma nth_drop_take_chunk:
  "j + k \<le> length xs \<Longrightarrow> i < k \<Longrightarrow> take k (drop j xs) ! i = xs ! (j + i)"
  by simp

lemma length_2E: "length xs = 2 \<Longrightarrow> (\<And>a b. xs = [a, b] \<Longrightarrow> P) \<Longrightarrow> P"
  by (auto simp: numeral_eq_Suc length_Suc_conv)

lemma length_4E: "length xs = 4 \<Longrightarrow> (\<And>a b c d. xs = [a, b, c, d] \<Longrightarrow> P) \<Longrightarrow> P"
  by (auto simp: numeral_eq_Suc length_Suc_conv)

lemma length_8E:
  "length xs = 8 \<Longrightarrow> (\<And>a b c d e f g h. xs = [a, b, c, d, e, f, g, h] \<Longrightarrow> P) \<Longrightarrow> P"
  by (auto simp: numeral_eq_Suc length_Suc_conv)

section \<open>Lemmas on words\<close>

lemma uint_eq_sint: "0 \<le> sint w \<Longrightarrow> uint w = sint (w :: 'a::len word)"
proof -
  assume nn: "0 \<le> sint w"
  have "sint w < 2 ^ (LENGTH('a) - 1)" by (rule sint_lt)
  also have "\<dots> \<le> 2 ^ LENGTH('a)" by simp
  finally show ?thesis using nn by (simp add: uint_sint take_bit_int_eq_self)
qed

lemma bit_less_exp: "(w :: 'a::len word) < 2 ^ n \<Longrightarrow> bit w i \<Longrightarrow> i < n"
  by (drule less_mask_eq) (metis bit_and_iff bit_mask_iff)

lemma bit_if: "bit (if b then x else y) i = (if b then bit x i else bit y i)"
  by simp

lemma bit_byte_consts:
  "bit (0x80 :: byte) i \<longleftrightarrow> i = 7"
  "bit (0x70 :: byte) i \<longleftrightarrow> 4 \<le> i \<and> i < 7"
  "bit (0x0f :: byte) i \<longleftrightarrow> i < 4"
  "bit (0x7f :: byte) i \<longleftrightarrow> i < 7"
proof -
  have "(0x80 :: byte) = 2 ^ 7" by simp
  then show "bit (0x80 :: byte) i \<longleftrightarrow> i = 7" by (simp only: bit_exp_iff) auto
  have "(0x0f :: byte) = mask 4" by (simp add: mask_eq_exp_minus_1)
  then show "bit (0x0f :: byte) i \<longleftrightarrow> i < 4" by (simp only: bit_mask_iff) auto
  have "(0x7f :: byte) = mask 7" by (simp add: mask_eq_exp_minus_1)
  then show "bit (0x7f :: byte) i \<longleftrightarrow> i < 7" by (simp only: bit_mask_iff) auto
  have "(0x70 :: byte) = push_bit 4 (mask 3)" by (simp add: mask_eq_exp_minus_1)
  then show "bit (0x70 :: byte) i \<longleftrightarrow> 4 \<le> i \<and> i < 7"
    by (simp only: bit_push_bit_iff bit_mask_iff) auto
qed

lemma unat_ucast_up:
  assumes "LENGTH('a::len) \<le> LENGTH('b::len)"
  shows "unat (ucast (w :: 'a word) :: 'b word) = unat w"
proof -
  have "unat w < 2 ^ LENGTH('a)" by (rule unsigned_less)
  also have "(2 :: nat) ^ LENGTH('a) \<le> 2 ^ LENGTH('b)" using assms by simp
  finally show ?thesis
    by (simp add: unsigned_ucast_eq take_bit_nat_eq_self)
qed

lemma unat_byte_less: "unat (b :: byte) < 256"
  using unsigned_less [of b, where 'a = nat] by simp

end
