(* ===== verification/Errors.thy ===== *)
theory Errors
  imports Prelude
begin

text \<open>
  The error values of the program. A Go error is a value of an interface and is compared by
  identity: the errors made once, at load time, are constructors, and the error of a rejected
  handshake (errors.go), a pointer, carries its address and what it points to.
\<close>

section \<open>Texts\<close>

text \<open>A Go string literal as the bytes it holds.\<close>

definition str_bytes :: "string \<Rightarrow> byte list" where
  "str_bytes s = map of_char s"

lemma length_str_bytes [simp]: "length (str_bytes s) = length s"
  by (simp add: str_bytes_def)

definition CRLF :: "byte list" where
  "CRLF = [13, 10]"

text \<open>\<open>strconv.FormatUint(n, 10)\<close>, and \<open>strconv.Itoa\<close>.\<close>

fun itoa :: "nat \<Rightarrow> byte list" where
  "itoa n = (if n < 10 then [of_nat (48 + n)] else itoa (n div 10) @ [of_nat (48 + n mod 10)])"

declare itoa.simps [simp del]

definition Itoa :: "int \<Rightarrow> byte list" where
  "Itoa n = (if n < 0 then str_bytes ''-'' @ itoa (nat (- n)) else itoa (nat n))"

section \<open>Rejected handshakes\<close>

text \<open>
  The headers a handshake may add. A \<open>HandshakeHeaderFunc\<close> is any function that writes, so
  it is named by a number and what it does is an argument of the model; an \<open>http.Header\<close>
  is a map from keys to values, listed.
\<close>

datatype HandshakeHeader =
    HandshakeHeaderString "byte list"
  | HandshakeHeaderBytes "byte list"
  | HandshakeHeaderFunc nat
  | HandshakeHeaderHTTP "(byte list \<times> byte list list) list"

record ConnectionRejectedError =
  reject_reason :: "byte list"
  reject_code :: int
  reject_header :: "HandshakeHeader option"

type_synonym RejectOption = "ConnectionRejectedError \<Rightarrow> ConnectionRejectedError"

definition RejectionReason :: "byte list \<Rightarrow> RejectOption" where
  "RejectionReason r = (\<lambda>e. e\<lparr>reject_reason := r\<rparr>)"

definition RejectionStatus :: "int \<Rightarrow> RejectOption" where
  "RejectionStatus c = (\<lambda>e. e\<lparr>reject_code := c\<rparr>)"

definition RejectionHeader :: "HandshakeHeader \<Rightarrow> RejectOption" where
  "RejectionHeader h = (\<lambda>e. e\<lparr>reject_header := Some h\<rparr>)"

definition RejectConnectionError :: "RejectOption list \<Rightarrow> ConnectionRejectedError" where
  "RejectConnectionError opts =
     fold (\<lambda>opt e. opt e) opts \<lparr>reject_reason = [], reject_code = 0, reject_header = None\<rparr>"

section \<open>Errors\<close>

text \<open>
  Every error value the modelled code returns. \<open>NetErr\<close> and \<open>ExtErr\<close> are the errors
  of the connection and of callbacks of the application, which come from outside the program.
  \<open>ProtocolError\<close> is a string type in the source (check.go), \<open>ClosedError\<close> carries
  the code and the reason of a received close frame (msutil/handler.go), \<open>FmtError\<close> is
  the result of a call of \<open>fmt.Errorf\<close> at run time, and \<open>ConnectionRejected a r\<close> is the
  pointer \<open>a\<close> to the rejection \<open>r\<close>.
\<close>

datatype err =
    EOF
  | ErrUnexpectedEOF
  | ErrShortWrite
  | ErrNoProgress
  | ErrBufferFull
  | NetErr nat
  | ExtErr nat
  | FmtError "byte list"
  | ErrHeaderLengthMSB
  | ErrHeaderLengthUnexpected
  | ProtocolError string
  | ErrNoFrameAdvance
  | ErrFrameTooLarge
  | ErrInvalidUTF8
  | ErrNotEmpty
  | ErrControlOverflow
  | ErrNoSpace
  | ErrNotControlFrame
  | ErrNoURL
  | ErrClientClosed
  | ErrMalformedResponse
  | ErrHandshakeBadStatus
  | ErrHandshakeBadSubProtocol
  | ErrHandshakeBadExtensions
  | ClosedError uint16 "byte list"
  | StatusError int
  | ConnectionRejected nat ConnectionRejectedError

definition ClosedError_Error :: "uint16 \<Rightarrow> byte list \<Rightarrow> byte list" where
  "ClosedError_Error code reason =
     str_bytes ''ws closed: '' @ itoa (unat code) @ str_bytes '' '' @ reason"

definition StatusError_Error :: "int \<Rightarrow> byte list" where
  "StatusError_Error s = str_bytes ''unexpected HTTP response status: '' @ Itoa s"

definition ConnectionRejectedError_Error :: "ConnectionRejectedError \<Rightarrow> byte list" where
  "ConnectionRejectedError_Error r = reject_reason r"

definition StatusCode :: "ConnectionRejectedError \<Rightarrow> int" where
  "StatusCode r = reject_code r"

text \<open>
  The method \<open>Error\<close> of the error values; the texts of the errors of the connection and of
  callbacks are not known (\<open>None\<close>).
\<close>

fun err_Error :: "err \<Rightarrow> byte list option" where
  "err_Error EOF = Some (str_bytes ''EOF'')"
| "err_Error ErrUnexpectedEOF = Some (str_bytes ''unexpected EOF'')"
| "err_Error (FmtError t) = Some t"
| "err_Error (ProtocolError s) = Some (str_bytes s)"
| "err_Error (ClosedError code reason) = Some (ClosedError_Error code reason)"
| "err_Error (StatusError s) = Some (StatusError_Error s)"
| "err_Error (ConnectionRejected a r) = Some (ConnectionRejectedError_Error r)"
| "err_Error ErrNoFrameAdvance = Some (str_bytes ''no frame advance'')"
| "err_Error ErrFrameTooLarge = Some (str_bytes ''frame too large'')"
| "err_Error ErrInvalidUTF8 = Some (str_bytes ''invalid utf8'')"
| "err_Error ErrNoSpace = Some (str_bytes ''not enough buffer space'')"
| "err_Error ErrNotControlFrame = Some (str_bytes ''not a control frame'')"
| "err_Error ErrNoURL = Some (str_bytes ''frame socket is no url config'')"
| "err_Error ErrClientClosed = Some (str_bytes ''client connect closed'')"
| "err_Error ErrMalformedResponse = Some (str_bytes ''malformed HTTP response'')"
| "err_Error ErrHandshakeBadStatus = Some (str_bytes ''unexpected http status'')"
| "err_Error ErrHandshakeBadSubProtocol =
     Some (str_bytes ''unexpected protocol in \"Sec-WebSocket-Protocol\" header'')"
| "err_Error ErrHandshakeBadExtensions =
     Some (str_bytes ''unexpected extensions in \"Sec-WebSocket-Protocol\" header'')"
| "err_Error _ = None"

section \<open>The errors of a handshake\<close>

text \<open>The reasons \<open>fmt.Sprintf("handshake error: bad %q header", h)\<close>.\<close>

definition bad_header_reason :: "string \<Rightarrow> byte list" where
  "bad_header_reason h = str_bytes (''handshake error: bad '' @ [CHR 0x22] @ h @ [CHR 0x22] @ '' header'')"

definition ErrHandshakeBadProtocol :: err where
  "ErrHandshakeBadProtocol = ConnectionRejected 0 (RejectConnectionError
     [RejectionStatus 505, RejectionReason (str_bytes ''handshake error: bad HTTP protocol version'')])"

definition ErrHandshakeBadMethod :: err where
  "ErrHandshakeBadMethod = ConnectionRejected 1 (RejectConnectionError
     [RejectionStatus 405, RejectionReason (str_bytes ''handshake error: bad HTTP request method'')])"

definition ErrHandshakeBadHost :: err where
  "ErrHandshakeBadHost = ConnectionRejected 2 (RejectConnectionError
     [RejectionStatus 400, RejectionReason (bad_header_reason ''Host'')])"

definition ErrHandshakeBadUpgrade :: err where
  "ErrHandshakeBadUpgrade = ConnectionRejected 3 (RejectConnectionError
     [RejectionStatus 400, RejectionReason (bad_header_reason ''Upgrade'')])"

definition ErrHandshakeBadConnection :: err where
  "ErrHandshakeBadConnection = ConnectionRejected 4 (RejectConnectionError
     [RejectionStatus 400, RejectionReason (bad_header_reason ''Connection'')])"

definition ErrHandshakeBadSecAccept :: err where
  "ErrHandshakeBadSecAccept = ConnectionRejected 5 (RejectConnectionError
     [RejectionStatus 400, RejectionReason (bad_header_reason ''Sec-WebSocket-Accept'')])"

definition ErrHandshakeBadSecKey :: err where
  "ErrHandshakeBadSecKey = ConnectionRejected 6 (RejectConnectionError
     [RejectionStatus 400, RejectionReason (bad_header_reason ''Sec-WebSocket-Key'')])"

definition ErrHandshakeBadSecVersion :: err where
  "ErrHandshakeBadSecVersion = ConnectionRejected 7 (RejectConnectionError
     [RejectionStatus 400, RejectionReason (bad_header_reason ''Sec-WebSocket-Version'')])"

definition ErrMalformedRequest :: err where
  "ErrMalformedRequest = ConnectionRejected 8 (RejectConnectionError
     [RejectionStatus 400, RejectionReason (str_bytes ''malformed HTTP request'')])"

definition ErrHandshakeUpgradeRequired :: err where
  "ErrHandshakeUpgradeRequired = ConnectionRejected 9 (RejectConnectionError
     [RejectionStatus 426,
      RejectionHeader (HandshakeHeaderString (str_bytes ''Sec-WebSocket-Version: 13'' @ CRLF)),
      RejectionReason (bad_header_reason ''Sec-WebSocket-Version'')])"

definition ErrNotHijacker :: err where
  "ErrNotHijacker = ConnectionRejected 10 (RejectConnectionError
     [RejectionStatus 500, RejectionReason (str_bytes ''given http.ResponseWriter is not a http.Hijacker'')])"

lemmas reject_defs = ErrHandshakeBadProtocol_def ErrHandshakeBadMethod_def ErrHandshakeBadHost_def
  ErrHandshakeBadUpgrade_def ErrHandshakeBadConnection_def ErrHandshakeBadSecAccept_def
  ErrHandshakeBadSecKey_def ErrHandshakeBadSecVersion_def ErrMalformedRequest_def
  ErrHandshakeUpgradeRequired_def ErrNotHijacker_def

end
