(* ===== verification/GoIO.thy ===== *)
theory GoIO
  imports Errors
begin

text \<open>
  The Go interfaces the program is written against, and the standard package \<open>io\<close>.

  An \<open>io.Reader\<close> is a function on a state: asked for at most \<open>n\<close> bytes it answers the
  bytes it stored and an optional error. An \<open>io.Writer\<close> answers how many bytes it took
  and an optional error. Both are partial: \<open>None\<close> is a call that does not return
  normally (it panics or runs forever). The loops of package \<open>io\<close> that the program
  calls (\<open>ReadFull\<close>, \<open>ReadAll\<close>, \<open>Copy\<close> and the discarding copy) are written over any
  reader. The contracts are the locales \<open>io_reader\<close>, \<open>io_stream\<close> and
  \<open>io_writer\<close>; they are interpreted on the network connection, on \<open>io.LimitedReader\<close>
  and \<open>bytes.Reader\<close> here, and on the readers and writers of the program in their theories.
\<close>

section \<open>Allocation\<close>

text \<open>
  \<open>make([]byte, n)\<close> panics when \<open>n\<close> is negative or above what the runtime can address, on the usual 64-bit
  platforms \<open>2 ^ 48\<close> bytes (\<open>maxAlloc\<close> of package runtime). That a machine has less memory than
  that is not modelled.
\<close>

definition maxAlloc :: int where "maxAlloc = 2 ^ 48"

definition make_bytes :: "int \<Rightarrow> byte list option" where
  "make_bytes n = (if n < 0 \<or> maxAlloc < n then None else Some (replicate (nat n) 0))"

lemma make_bytes_Some: "int n \<le> maxAlloc \<Longrightarrow> make_bytes (int n) = Some (replicate n 0)"
  by (simp add: make_bytes_def)

lemma make_bytes_None: "maxAlloc < n \<Longrightarrow> make_bytes n = None"
  by (simp add: make_bytes_def)

section \<open>Readers and the loops over them\<close>

type_synonym 's rd = "nat \<Rightarrow> 's \<Rightarrow> (byte list \<times> err option \<times> 's) option"
type_synonym 'd wr = "byte list \<Rightarrow> 'd \<Rightarrow> (nat \<times> err option \<times> 'd) option"

text \<open>
  \<open>io.ReadFull(r, buf)\<close> with \<open>len(buf) = k\<close>: the bytes stored so far, the error and the
  reader afterwards. The loop stops when \<open>k\<close> bytes are there or the reader reports an
  error; an error together with the last wanted byte is dropped, and \<open>EOF\<close> after some but
  not all bytes becomes \<open>ErrUnexpectedEOF\<close>.
\<close>

definition read_full_err :: "nat \<Rightarrow> byte list \<Rightarrow> err \<Rightarrow> err option" where
  "read_full_err k got e =
     (if k \<le> length got then None
      else if got \<noteq> [] \<and> e = EOF then Some ErrUnexpectedEOF
      else Some e)"

partial_function (option) read_full_loop ::
  "'s rd \<Rightarrow> nat \<Rightarrow> byte list \<Rightarrow> 's \<Rightarrow> (byte list \<times> err option \<times> 's) option" where
  "read_full_loop rd k got s =
     (if length got < k then
        Option.bind (rd (k - length got) s) (\<lambda>(bs, e, s').
          case e of
            None \<Rightarrow> read_full_loop rd k (got @ bs) s'
          | Some er \<Rightarrow> Some (got @ bs, read_full_err k (got @ bs) er, s'))
      else Some (got, None, s))"

definition io_ReadFull :: "'s rd \<Rightarrow> nat \<Rightarrow> 's \<Rightarrow> (byte list \<times> err option \<times> 's) option" where
  "io_ReadFull rd k s = read_full_loop rd k [] s"

text \<open>
  \<open>io.ReadAll\<close> and \<open>bytes.Buffer.ReadFrom\<close>: read until an error, \<open>EOF\<close> being success.
  How much free space each read offers is decided by the growth of the runtime's slices:
  the argument \<open>room\<close>, a function of the bytes read so far.
\<close>

partial_function (option) read_all_loop ::
  "'s rd \<Rightarrow> (nat \<Rightarrow> nat) \<Rightarrow> byte list \<Rightarrow> 's \<Rightarrow> (byte list \<times> err option \<times> 's) option" where
  "read_all_loop rd room got s =
     Option.bind (rd (room (length got)) s) (\<lambda>(bs, e, s').
       case e of
         None \<Rightarrow> read_all_loop rd room (got @ bs) s'
       | Some er \<Rightarrow> Some (got @ bs, (if er = EOF then None else Some er), s'))"

definition io_ReadAll ::
  "'s rd \<Rightarrow> (nat \<Rightarrow> nat) \<Rightarrow> 's \<Rightarrow> (byte list \<times> err option \<times> 's) option" where
  "io_ReadAll rd room s = read_all_loop rd room [] s"

text \<open>
  \<open>io.Copy(io.Discard, r)\<close>: the discarding writer implements \<open>io.ReaderFrom\<close> with a
  buffer of 8192 bytes and reads until an error, \<open>EOF\<close> being success.
\<close>

partial_function (option) io_Discard :: "'s rd \<Rightarrow> 's \<Rightarrow> (err option \<times> 's) option" where
  "io_Discard rd s =
     Option.bind (rd 8192 s) (\<lambda>(bs, e, s').
       case e of
         None \<Rightarrow> io_Discard rd s'
       | Some er \<Rightarrow> Some ((if er = EOF then None else Some er), s'))"

text \<open>
  \<open>io.Copy(w, r)\<close> for a writer that is no \<open>ReaderFrom\<close>. A source that implements
  \<open>io.WriterTo\<close> (\<open>bytes.Reader\<close>) writes itself, given as \<open>wto\<close>; any other source is
  read into a buffer of \<open>sz\<close> bytes and each chunk is written out.
\<close>

partial_function (option) io_copy_loop ::
  "'s rd \<Rightarrow> 'd wr \<Rightarrow> nat \<Rightarrow> 's \<Rightarrow> 'd \<Rightarrow> (err option \<times> 's \<times> 'd) option" where
  "io_copy_loop rd wr sz s d =
     Option.bind (rd sz s) (\<lambda>(bs, er, s').
       if bs = [] then
         (case er of
            None \<Rightarrow> io_copy_loop rd wr sz s' d
          | Some e \<Rightarrow> Some ((if e = EOF then None else Some e), s', d))
       else
         Option.bind (wr bs d) (\<lambda>(nw, ew, d').
           case ew of
             Some e \<Rightarrow> Some (Some e, s', d')
           | None \<Rightarrow>
               if nw \<noteq> length bs then Some (Some ErrShortWrite, s', d')
               else (case er of
                       None \<Rightarrow> io_copy_loop rd wr sz s' d'
                     | Some e \<Rightarrow> Some ((if e = EOF then None else Some e), s', d'))))"

definition io_Copy ::
  "('s \<Rightarrow> 'd \<Rightarrow> (err option \<times> 's \<times> 'd) option) option \<Rightarrow> 's rd \<Rightarrow> 'd wr \<Rightarrow> nat \<Rightarrow> 's \<Rightarrow> 'd \<Rightarrow>
     (err option \<times> 's \<times> 'd) option" where
  "io_Copy wto rd wr sz s d =
     (case wto of Some f \<Rightarrow> f s d | None \<Rightarrow> io_copy_loop rd wr sz s d)"

declare read_full_loop.simps [code] read_all_loop.simps [code] io_Discard.simps [code]
  io_copy_loop.simps [code]

section \<open>The contract of a reader\<close>

text \<open>
  \<open>inv\<close> is the invariant of the reader's state and \<open>fin\<close> a measure that every
  non-empty request decreases when it stores bytes or reports no error: under it every loop
  of package \<open>io\<close> returns.
\<close>

locale io_reader =
  fixes rd :: "'s rd"
    and inv :: "'s \<Rightarrow> bool"
    and fin :: "'s \<Rightarrow> nat"
  assumes rd_returns: "inv s \<Longrightarrow> \<exists>bs e s'. rd n s = Some (bs, e, s')"
    and rd_length: "inv s \<Longrightarrow> rd n s = Some (bs, e, s') \<Longrightarrow> length bs \<le> n"
    and rd_inv: "inv s \<Longrightarrow> rd n s = Some (bs, e, s') \<Longrightarrow> inv s'"
    and rd_progress: "inv s \<Longrightarrow> 0 < n \<Longrightarrow> rd n s = Some (bs, e, s') \<Longrightarrow> e = None \<or> bs \<noteq> [] \<Longrightarrow>
      fin s' < fin s"
    and rd_fin: "inv s \<Longrightarrow> rd n s = Some (bs, e, s') \<Longrightarrow> fin s' \<le> fin s"
begin

lemma read_full_loop_returns:
  "inv s \<Longrightarrow> length got \<le> k \<Longrightarrow>
     \<exists>bs e s'. read_full_loop rd k got s = Some (bs, e, s') \<and> inv s' \<and> fin s' \<le> fin s \<and>
       (e = None \<longleftrightarrow> length bs = k) \<and> length bs \<le> k \<and>
       (length got < k \<and> e = None \<longrightarrow> fin s' < fin s)"
proof (induction "fin s" arbitrary: got s rule: less_induct)
  case less
  show ?case
  proof (cases "length got < k")
    case False
    with less.prems show ?thesis by (simp add: read_full_loop.simps)
  next
    case True
    from less.prems(1) obtain bs e s' where r: "rd (k - length got) s = Some (bs, e, s')"
      using rd_returns by blast
    note s' = rd_inv [OF less.prems(1) r] rd_fin [OF less.prems(1) r]
    have len: "length (got @ bs) \<le> k"
      using rd_length [OF less.prems(1) r] True by simp
    show ?thesis
    proof (cases e)
      case None
      have lt: "fin s' < fin s"
        using rd_progress [OF less.prems(1) _ r] None True by simp
      from less.hyps [OF lt s'(1) len] lt show ?thesis
        by (subst read_full_loop.simps) (auto simp: True r None)
    next
      case (Some er)
      have "length (got @ bs) = k \<Longrightarrow> fin s' < fin s"
        using rd_progress [OF less.prems(1) _ r] True by auto
      with Some len s' show ?thesis
        by (subst read_full_loop.simps) (auto simp: True r read_full_err_def)
    qed
  qed
qed

lemma io_ReadFull_returns:
  "inv s \<Longrightarrow> \<exists>bs e s'. io_ReadFull rd k s = Some (bs, e, s') \<and> inv s' \<and> fin s' \<le> fin s \<and>
     (e = None \<longleftrightarrow> length bs = k) \<and> length bs \<le> k \<and> (0 < k \<and> e = None \<longrightarrow> fin s' < fin s)"
  unfolding io_ReadFull_def using read_full_loop_returns [of s "[]" k] by simp

lemma io_ReadFull_lengthD:
  assumes "inv s" and "io_ReadFull rd k s = Some (bs, e, s')"
  shows "inv s'" and "fin s' \<le> fin s" and "e = None \<Longrightarrow> length bs = k" and "length bs \<le> k"
    and "0 < k \<Longrightarrow> e = None \<Longrightarrow> fin s' < fin s"
  using io_ReadFull_returns [OF assms(1), of k] assms(2) by auto

lemma read_all_loop_returns:
  "inv s \<Longrightarrow> (\<And>k. 0 < room k) \<Longrightarrow>
     \<exists>bs e s'. read_all_loop rd room got s = Some (bs, e, s') \<and> inv s' \<and> fin s' \<le> fin s"
proof (induction "fin s" arbitrary: got s rule: less_induct)
  case less
  from less.prems(1) obtain bs e s' where r: "rd (room (length got)) s = Some (bs, e, s')"
    using rd_returns by blast
  note s' = rd_inv [OF less.prems(1) r] rd_fin [OF less.prems(1) r]
  show ?case
  proof (cases e)
    case None
    have lt: "fin s' < fin s"
      using rd_progress [OF less.prems(1) _ r] None less.prems(2) [of "length got"]
      by simp
    from less.hyps [OF lt s'(1) less.prems(2), of "got @ bs"] lt show ?thesis
      by (subst read_all_loop.simps) (auto simp: r None)
  next
    case (Some er)
    with s' show ?thesis
      by (subst read_all_loop.simps) (auto simp: r)
  qed
qed

lemma io_ReadAll_returns:
  "inv s \<Longrightarrow> (\<And>k. 0 < room k) \<Longrightarrow>
     \<exists>bs e s'. io_ReadAll rd room s = Some (bs, e, s') \<and> inv s' \<and> fin s' \<le> fin s"
  unfolding io_ReadAll_def by (rule read_all_loop_returns)

lemma io_Discard_returns:
  "inv s \<Longrightarrow> \<exists>e s'. io_Discard rd s = Some (e, s') \<and> inv s' \<and> fin s' \<le> fin s"
proof (induction "fin s" arbitrary: s rule: less_induct)
  case less
  from less.prems obtain bs e s' where r: "rd 8192 s = Some (bs, e, s')"
    using rd_returns by blast
  note s' = rd_inv [OF less.prems r] rd_fin [OF less.prems r]
  show ?case
  proof (cases e)
    case None
    have lt: "fin s' < fin s"
      using rd_progress [OF less.prems _ r] None by simp
    from less.hyps [OF lt s'(1)] lt show ?thesis
      by (subst io_Discard.simps) (auto simp: r None)
  next
    case (Some er)
    with s' show ?thesis
      by (subst io_Discard.simps) (auto simp: r)
  qed
qed

text \<open>
  What holds when a loop ends with an error: \<open>P\<close> is kept by the reads before, and the read
  that reports the error gives \<open>Q\<close>.
\<close>

lemma io_Discard_ends:
  assumes step: "\<And>n s bs s'. inv s \<Longrightarrow> P s \<Longrightarrow> rd n s = Some (bs, None, s') \<Longrightarrow> P s'"
    and last: "\<And>n s bs e s'. inv s \<Longrightarrow> P s \<Longrightarrow> rd n s = Some (bs, Some e, s') \<Longrightarrow> Q s'"
  shows "inv s \<Longrightarrow> P s \<Longrightarrow> io_Discard rd s = Some (e, s') \<Longrightarrow> Q s'"
proof (induction "fin s" arbitrary: s rule: less_induct)
  case less
  obtain bs er s1 where r: "rd 8192 s = Some (bs, er, s1)" using rd_returns [OF less.prems(1)] by blast
  show ?case
  proof (cases er)
    case None
    note s1 = rd_inv [OF less.prems(1) r] step [OF less.prems(1,2) r [unfolded None]]
    have lt: "fin s1 < fin s" using rd_progress [OF less.prems(1) _ r] None by simp
    have "io_Discard rd s1 = Some (e, s')"
      using less.prems(3) by (subst (asm) io_Discard.simps) (simp add: r None)
    then show ?thesis by (rule less.hyps [OF lt s1])
  next
    case (Some x)
    with less.prems(3) last [OF less.prems(1,2) r [unfolded Some]] show ?thesis
      by (subst (asm) io_Discard.simps) (simp add: r)
  qed
qed

lemma read_all_loop_ends:
  assumes step: "\<And>n s bs s'. inv s \<Longrightarrow> P s \<Longrightarrow> rd n s = Some (bs, None, s') \<Longrightarrow> P s'"
    and last: "\<And>n s bs e s'. inv s \<Longrightarrow> P s \<Longrightarrow> rd n s = Some (bs, Some e, s') \<Longrightarrow> Q s'"
    and room: "\<And>k. 0 < room k"
  shows "inv s \<Longrightarrow> P s \<Longrightarrow> read_all_loop rd room got s = Some (bs, e, s') \<Longrightarrow> Q s'"
proof (induction "fin s" arbitrary: s got rule: less_induct)
  case less
  obtain b1 er s1 where r: "rd (room (length got)) s = Some (b1, er, s1)" using rd_returns [OF less.prems(1)] by blast
  show ?case
  proof (cases er)
    case None
    note s1 = rd_inv [OF less.prems(1) r] step [OF less.prems(1,2) r [unfolded None]]
    have lt: "fin s1 < fin s" using rd_progress [OF less.prems(1) room r] None by simp
    have "read_all_loop rd room (got @ b1) s1 = Some (bs, e, s')"
      using less.prems(3) by (subst (asm) read_all_loop.simps) (simp add: r None)
    then show ?thesis by (rule less.hyps [OF lt s1])
  next
    case (Some x)
    with less.prems(3) last [OF less.prems(1,2) r [unfolded Some]] show ?thesis
      by (subst (asm) read_all_loop.simps) (simp add: r)
  qed
qed

end

text \<open>
  A source keeps a promise about the bytes: \<open>data\<close> is what is still to come before
  \<open>ending\<close>, the error that follows it. Every read takes a prefix of \<open>data\<close>, and an error
  comes with the last bytes or alone, once \<open>data\<close> is used up.
\<close>

locale io_source = io_reader +
  fixes data :: "'s \<Rightarrow> byte list"
    and ending :: "'s \<Rightarrow> err"
  assumes rd_data: "inv s \<Longrightarrow> rd n s = Some (bs, None, s') \<Longrightarrow>
      data s = bs @ data s' \<and> ending s' = ending s"
    and rd_last: "inv s \<Longrightarrow> rd n s = Some (bs, Some e, s') \<Longrightarrow> data s = bs \<and> ending s = e"
begin

lemma io_Discard_all:
  "inv s \<Longrightarrow> \<exists>s'. io_Discard rd s =
      Some ((if ending s = EOF then None else Some (ending s)), s') \<and> inv s' \<and> fin s' \<le> fin s"
proof (induction "fin s" arbitrary: s rule: less_induct)
  case less
  from less.prems obtain bs e s' where r: "rd 8192 s = Some (bs, e, s')"
    using rd_returns by blast
  note s' = rd_inv [OF less.prems r] rd_fin [OF less.prems r]
  show ?case
  proof (cases e)
    case None
    have lt: "fin s' < fin s"
      using rd_progress [OF less.prems _ r] None by simp
    from less.hyps [OF lt s'(1)] rd_data [OF less.prems r [unfolded None]] lt show ?thesis
      by (subst io_Discard.simps) (auto simp: r None)
  next
    case (Some er)
    with s' rd_last [OF less.prems r [unfolded Some]] show ?thesis
      by (subst io_Discard.simps) (auto simp: r)
  qed
qed

text \<open>Reading exactly what is left, whether the end is reported with the last bytes or not.\<close>

lemma read_full_loop_exact:
  "inv s \<Longrightarrow> k = length got + length (data s) \<Longrightarrow>
     \<exists>s'. read_full_loop rd k got s = Some (got @ data s, None, s') \<and> inv s'"
proof (induction "fin s" arbitrary: got s rule: less_induct)
  case less
  show ?case
  proof (cases "length got < k")
    case False
    with less.prems show ?thesis by (simp add: read_full_loop.simps)
  next
    case True
    obtain bs e s' where r: "rd (k - length got) s = Some (bs, e, s')"
      using rd_returns [OF less.prems(1)] by blast
    note s' = rd_inv [OF less.prems(1) r]
    show ?thesis
    proof (cases e)
      case None
      note d = rd_data [OF less.prems(1) r [unfolded None]]
      have lt: "fin s' < fin s" using rd_progress [OF less.prems(1) _ r] None True by simp
      have st: "read_full_loop rd k got s = read_full_loop rd k (got @ bs) s'"
        by (subst read_full_loop.simps) (simp add: True r None)
      have "k = length (got @ bs) + length (data s')" using d less.prems(2) by simp
      from less.hyps [OF lt s' this] d show ?thesis unfolding st by simp
    next
      case (Some er)
      have "read_full_loop rd k got s = Some (got @ bs, read_full_err k (got @ bs) er, s')"
        by (subst read_full_loop.simps) (simp add: True r Some)
      with s' rd_last [OF less.prems(1) r [unfolded Some]] less.prems(2) show ?thesis
        by (simp add: read_full_err_def)
    qed
  qed
qed

lemma io_ReadFull_exact:
  "inv s \<Longrightarrow> \<exists>s'. io_ReadFull rd (length (data s)) s = Some (data s, None, s') \<and> inv s'"
  unfolding io_ReadFull_def using read_full_loop_exact [of s "length (data s)" "[]"] by simp

lemma read_all_loop_data:
  "inv s \<Longrightarrow> (\<And>k. 0 < room k) \<Longrightarrow>
     \<exists>s'. read_all_loop rd room got s =
       Some (got @ data s, (if ending s = EOF then None else Some (ending s)), s') \<and>
       inv s' \<and> fin s' \<le> fin s"
proof (induction "fin s" arbitrary: got s rule: less_induct)
  case less
  from less.prems(1) obtain bs e s' where r: "rd (room (length got)) s = Some (bs, e, s')"
    using rd_returns by blast
  note s' = rd_inv [OF less.prems(1) r] rd_fin [OF less.prems(1) r]
  show ?case
  proof (cases e)
    case None
    note d = rd_data [OF less.prems(1) r [unfolded None]]
    have lt: "fin s' < fin s"
      using rd_progress [OF less.prems(1) _ r] None less.prems(2) [of "length got"]
      by simp
    from less.hyps [OF lt s'(1) less.prems(2), of "got @ bs"] d lt show ?thesis
      by (subst read_all_loop.simps) (auto simp: r None)
  next
    case (Some er)
    with s' rd_last [OF less.prems(1) r [unfolded Some]] show ?thesis
      by (subst read_all_loop.simps) (auto simp: r)
  qed
qed

lemma io_ReadAll_data:
  "inv s \<Longrightarrow> (\<And>k. 0 < room k) \<Longrightarrow>
     \<exists>s'. io_ReadAll rd room s =
       Some (data s, (if ending s = EOF then None else Some (ending s)), s') \<and>
       inv s' \<and> fin s' \<le> fin s"
  unfolding io_ReadAll_def using read_all_loop_data [of s room "[]"] by simp

end

text \<open>
  A stream reports an error only by itself, so that a loop that stops before the end leaves
  the error for the next call.
\<close>

locale io_stream = io_source +
  assumes rd_alone: "inv s \<Longrightarrow> rd n s = Some (bs, Some e, s') \<Longrightarrow> bs = []"
begin

lemma rd_end: "inv s \<Longrightarrow> rd n s = Some (bs, Some e, s') \<Longrightarrow> bs = [] \<and> data s = [] \<and> ending s = e"
  using rd_last rd_alone by blast

text \<open>
  Reading \<open>k\<close> bytes gives the first \<open>k\<close> bytes of the stream, however the stream was cut
  into reads; a stream that is too short ends the read with its own error, or with
  \<open>ErrUnexpectedEOF\<close> when it ended in the middle.
\<close>

lemma read_full_loop_enough:
  "inv s \<Longrightarrow> length got \<le> k \<Longrightarrow> k \<le> length got + length (data s) \<Longrightarrow>
     \<exists>s'. read_full_loop rd k got s = Some (got @ take (k - length got) (data s), None, s') \<and>
       data s' = drop (k - length got) (data s) \<and> ending s' = ending s \<and> inv s' \<and> fin s' \<le> fin s"
proof (induction "fin s" arbitrary: got s rule: less_induct)
  case less
  show ?case
  proof (cases "length got < k")
    case False
    with less.prems show ?thesis by (simp add: read_full_loop.simps)
  next
    case True
    from less.prems(1) obtain bs e s' where r: "rd (k - length got) s = Some (bs, e, s')"
      using rd_returns by blast
    have e: "e = None"
    proof (rule ccontr)
      assume "e \<noteq> None"
      with r rd_end [OF less.prems(1)] have "data s = []" by fastforce
      with True less.prems(3) show False by simp
    qed
    note s' = rd_inv [OF less.prems(1) r] rd_data [OF less.prems(1) r [unfolded e]]
      rd_length [OF less.prems(1) r]
    have lt: "fin s' < fin s"
      using rd_progress [OF less.prems(1) _ r] e True by simp
    have l1: "length (got @ bs) \<le> k" using s'(3) True by simp
    have l2: "k \<le> length (got @ bs) + length (data s')" using less.prems(3) s'(2) by simp
    have t: "bs @ take (k - length (got @ bs)) (data s') = take (k - length got) (data s)"
      "drop (k - length (got @ bs)) (data s') = drop (k - length got) (data s)"
      using s'(2,3) by simp_all
    from less.hyps [OF lt s'(1) l1 l2] t s'(2) lt show ?thesis
      by (subst read_full_loop.simps) (auto simp: True r e)
  qed
qed

lemma io_ReadFull_enough:
  assumes "inv s" and "k \<le> length (data s)"
  shows "\<exists>s'. io_ReadFull rd k s = Some (take k (data s), None, s') \<and>
      data s' = drop k (data s) \<and> ending s' = ending s \<and> inv s' \<and> fin s' \<le> fin s"
  using read_full_loop_enough [of s "[]" k] assms by (simp add: io_ReadFull_def)

lemma read_full_loop_short:
  "inv s \<Longrightarrow> length got + length (data s) < k \<Longrightarrow>
     \<exists>s'. read_full_loop rd k got s =
       Some (got @ data s, read_full_err k (got @ data s) (ending s), s') \<and> inv s' \<and> fin s' \<le> fin s"
proof (induction "fin s" arbitrary: got s rule: less_induct)
  case less
  then have True: "length got < k" by simp
  from less.prems(1) obtain bs e s' where r: "rd (k - length got) s = Some (bs, e, s')"
    using rd_returns by blast
  note s' = rd_inv [OF less.prems(1) r] rd_fin [OF less.prems(1) r]
  show ?case
  proof (cases e)
    case None
    note d = rd_data [OF less.prems(1) r [unfolded None]]
    have lt: "fin s' < fin s"
      using rd_progress [OF less.prems(1) _ r] None True by simp
    have "length (got @ bs) + length (data s') < k" using less.prems(2) d by simp
    from less.hyps [OF lt s'(1) this] d lt show ?thesis
      by (subst read_full_loop.simps) (auto simp: True r None)
  next
    case (Some er)
    with s' rd_end [OF less.prems(1) r [unfolded Some]] show ?thesis
      by (subst read_full_loop.simps) (auto simp: True r)
  qed
qed

lemma io_ReadFull_short:
  assumes "inv s" and "length (data s) < k"
  shows "\<exists>s'. io_ReadFull rd k s =
      Some (data s, (if data s \<noteq> [] \<and> ending s = EOF then Some ErrUnexpectedEOF
                     else Some (ending s)), s') \<and> inv s' \<and> fin s' \<le> fin s"
  using read_full_loop_short [of s "[]" k] assms
  by (auto simp: io_ReadFull_def read_full_err_def)

end

section \<open>io.LimitedReader\<close>

text \<open>
  \<open>io.LimitedReader\<close>: the state is the remaining count \<open>N\<close> and the reader below. It
  answers \<open>EOF\<close> once \<open>N\<close> is used up, without touching the reader below.
\<close>

fun limited_read :: "'s rd \<Rightarrow> (int \<times> 's) rd" where
  "limited_read rd n (N, s) =
     (if N \<le> 0 then Some ([], Some EOF, (N, s))
      else Option.bind (rd (min n (nat N)) s) (\<lambda>(bs, e, s').
        Some (bs, e, (N - int (length bs), s'))))"

declare limited_read.simps [simp del]

lemma limited_readE:
  assumes "limited_read rd n (N, s) = Some (bs, e, t)"
  obtains (Empty) "N \<le> 0" "bs = []" "e = Some EOF" "t = (N, s)"
  | (Below) s' where "0 < N" "rd (min n (nat N)) s = Some (bs, e, s')"
      "t = (N - int (length bs), s')"
  using assms by (auto simp: limited_read.simps bind_Some_iff split: if_splits)

definition limited_data :: "('s \<Rightarrow> byte list) \<Rightarrow> int \<times> 's \<Rightarrow> byte list" where
  "limited_data data = (\<lambda>(N, s). take (nat N) (data s))"

definition limited_end :: "('s \<Rightarrow> byte list) \<Rightarrow> ('s \<Rightarrow> err) \<Rightarrow> int \<times> 's \<Rightarrow> err" where
  "limited_end data ending = (\<lambda>(N, s). if nat N \<le> length (data s) then EOF else ending s)"

text \<open>
  A limited reader over a reader keeps both contracts. The locales \<open>limited_reader\<close> and
  \<open>limited_stream\<close> name the readers that are read through a limit.
\<close>

locale limited_reader = io_reader rd inv fin
  for rd :: "'s rd" and inv and fin

sublocale limited_reader \<subseteq> limited: io_reader "limited_read rd" "inv \<circ> snd" "fin \<circ> snd"
proof unfold_locales
  fix n s bs e s'
  assume i: "(inv \<circ> snd) s" and r: "limited_read rd n s = Some (bs, e, s')"
  obtain N t where s: "s = (N, t)" by (cases s)
  show "length bs \<le> n" and "(inv \<circ> snd) s'" and "(fin \<circ> snd) s' \<le> (fin \<circ> snd) s"
    using i r [unfolded s] rd_length [of t "min n (nat N)" bs e] rd_inv [of t "min n (nat N)" bs e]
      rd_fin [of t "min n (nat N)" bs e]
    by (auto simp: s elim!: limited_readE)
next
  fix n s bs e s'
  assume i: "(inv \<circ> snd) s" "0 < n" and r: "limited_read rd n s = Some (bs, e, s')"
    and p: "e = None \<or> bs \<noteq> []"
  obtain N t where s: "s = (N, t)" by (cases s)
  show "(fin \<circ> snd) s' < (fin \<circ> snd) s"
    using i p r [unfolded s] rd_progress [of t "min n (nat N)" bs e]
    by (auto simp: s elim!: limited_readE)
next
  fix n and s :: "int \<times> 's"
  assume i: "(inv \<circ> snd) s"
  obtain N t where s: "s = (N, t)" by (cases s)
  show "\<exists>bs e s'. limited_read rd n s = Some (bs, e, s')"
    using i rd_returns [of t "min n (nat N)"] by (auto simp: s limited_read.simps)
qed

locale limited_stream = limited_reader rd inv fin + io_stream rd inv fin data ending
  for rd :: "'s rd" and inv and fin and data and ending

sublocale limited_stream \<subseteq> limited: io_stream "limited_read rd" "inv \<circ> snd" "fin \<circ> snd"
  "limited_data data" "limited_end data ending"
proof unfold_locales
  fix n s bs s'
  assume i: "(inv \<circ> snd) s" and r: "limited_read rd n s = Some (bs, None, s')"
  obtain N t where s: "s = (N, t)" by (cases s)
  show "limited_data data s = bs @ limited_data data s' \<and>
      limited_end data ending s' = limited_end data ending s"
    using i r [unfolded s] rd_data [of t "min n (nat N)" bs] rd_length [of t "min n (nat N)" bs None]
    by (auto simp: s limited_data_def limited_end_def nat_diff_distrib
        elim!: limited_readE)
next
  fix n s bs e s'
  assume i: "(inv \<circ> snd) s" and r: "limited_read rd n s = Some (bs, Some e, s')"
  obtain N t where s: "s = (N, t)" by (cases s)
  show "limited_data data s = bs \<and> limited_end data ending s = e" and "bs = []"
    using i r [unfolded s] rd_end [of t "min n (nat N)" bs e]
    by (auto simp: s limited_data_def limited_end_def elim!: limited_readE)
qed

text \<open>
  Discarding what is left of a limit skips exactly those bytes of the stream.
\<close>

context limited_stream
begin

lemma limited_Discard:
  "inv s \<Longrightarrow> m \<le> length (data s) \<Longrightarrow>
     \<exists>s'. io_Discard (limited_read rd) (int m, s) = Some (None, (0, s')) \<and> inv s' \<and>
       data s' = drop m (data s) \<and> ending s' = ending s \<and> fin s' \<le> fin s"
proof (induction "fin s" arbitrary: m s rule: less_induct)
  case less
  show ?case
  proof (cases "m = 0")
    case True
    with less.prems show ?thesis
      by (subst io_Discard.simps) (simp add: limited_read.simps)
  next
    case False
    obtain bs e s' where r: "rd (min 8192 m) s = Some (bs, e, s')"
      using rd_returns [OF less.prems(1)] by blast
    have e: "e = None"
    proof (rule ccontr)
      assume "e \<noteq> None"
      with r rd_end [OF less.prems(1)] have "data s = []" by fastforce
      with False less.prems(2) show False by simp
    qed
    note s' = rd_inv [OF less.prems(1) r] rd_data [OF less.prems(1) r [unfolded e]]
      rd_length [OF less.prems(1) r]
    have lt: "fin s' < fin s" using rd_progress [OF less.prems(1) _ r] e False by simp
    have m': "m - length bs \<le> length (data s')" "length bs \<le> m" using s' less.prems(2) by simp_all
    from less.hyps [OF lt s'(1) m'(1)] lt s'(2) m'(2) False r show ?thesis
      by (subst io_Discard.simps) (auto simp: limited_read.simps e of_nat_diff)
  qed
qed

end

section \<open>The connection\<close>

text \<open>
  What the network delivers is not in the program's hands: a connection is the list of the
  answers it will give. \<open>REv d None\<close> makes the bytes \<open>d\<close> available (a request for fewer
  bytes leaves the rest for the next one), \<open>REv d (Some e)\<close> also reports \<open>e\<close> with the last
  of them; after the last event the peer has closed and every read answers \<open>EOF\<close>.
  Theorems quantify over all such lists.
\<close>

datatype rd_event = REv "byte list" "err option"

fun conn_read :: "rd_event list rd" where
  "conn_read n [] = Some ([], Some EOF, [])"
| "conn_read n (REv d e # es) =
     (if length d \<le> n then Some (d, e, es) else Some (take n d, None, REv (drop n d) e # es))"

fun conn_fin :: "rd_event list \<Rightarrow> nat" where
  "conn_fin [] = 0"
| "conn_fin (REv d e # es) = Suc (length d) + conn_fin es"

text \<open>
  A socket reports an error by itself, not together with bytes; \<open>conn_sane\<close> says so.
  \<open>conn_data\<close> is what arrives before the first error and \<open>conn_end\<close> is that error.
\<close>

fun conn_sane :: "rd_event list \<Rightarrow> bool" where
  "conn_sane [] = True"
| "conn_sane (REv d e # es) = ((e = None \<or> d = []) \<and> conn_sane es)"

fun conn_data :: "rd_event list \<Rightarrow> byte list" where
  "conn_data [] = []"
| "conn_data (REv d e # es) = d @ (case e of None \<Rightarrow> conn_data es | Some _ \<Rightarrow> [])"

fun conn_end :: "rd_event list \<Rightarrow> err" where
  "conn_end [] = EOF"
| "conn_end (REv d e # es) = (case e of None \<Rightarrow> conn_end es | Some er \<Rightarrow> er)"

lemma conn_read_cases:
  obtains (EOF) "es = []" "conn_read n es = Some ([], Some EOF, [])"
  | (All) d e es' where "es = REv d e # es'" "length d \<le> n" "conn_read n es = Some (d, e, es')"
  | (Part) d e es' where "es = REv d e # es'" "n < length d"
      "conn_read n es = Some (take n d, None, REv (drop n d) e # es')"
proof (cases es)
  case Nil
  with EOF show thesis by simp
next
  case (Cons ev es')
  obtain d e where "ev = REv d e" by (cases ev)
  with Cons All Part show thesis by (cases "length d \<le> n") auto
qed

interpretation conn: limited_reader conn_read "\<lambda>_. True" conn_fin
proof unfold_locales
  fix n s bs e s'
  assume r: "conn_read n s = Some (bs, e, s')"
  show "length bs \<le> n" by (rule conn_read_cases [of s n]) (use r in auto)
  show "conn_fin s' \<le> conn_fin s" by (rule conn_read_cases [of s n]) (use r in auto)
next
  fix n s bs e s'
  assume "0 < n" and r: "conn_read n s = Some (bs, e, s')" and "e = None \<or> bs \<noteq> []"
  then show "conn_fin s' < conn_fin s"
    by (cases rule: conn_read_cases [of s n]) auto
next
  fix n s
  show "\<exists>bs e s'. conn_read n s = Some (bs, e, s')"
    by (cases rule: conn_read_cases [of s n]) auto
qed simp

interpretation net: limited_stream conn_read conn_sane conn_fin conn_data conn_end
proof unfold_locales
  fix n s bs e s'
  assume "conn_sane s" and r: "conn_read n s = Some (bs, e, s')"
  then show "conn_sane s'" by (cases rule: conn_read_cases [of s n]) auto
next
  fix n s bs s'
  assume "conn_sane s" and r: "conn_read n s = Some (bs, None, s')"
  then show "conn_data s = bs @ conn_data s' \<and> conn_end s' = conn_end s"
    by (cases rule: conn_read_cases [of s n]) (auto split: option.splits)
next
  fix n s bs e s'
  assume "conn_sane s" and r: "conn_read n s = Some (bs, Some e, s')"
  then show "conn_data s = bs \<and> conn_end s = e" and "bs = []"
    by (cases rule: conn_read_cases [of s n]; auto)+
qed (use conn.rd_returns conn.rd_length conn.rd_progress conn.rd_fin in auto)

section \<open>bytes.Reader\<close>

text \<open>
  \<open>bytes.Reader\<close>: a reader over a byte slice, the state being the bytes left; it writes
  itself in one call (\<open>WriteTo\<close>).
\<close>

fun bytes_read :: "byte list rd" where
  "bytes_read n [] = Some ([], Some EOF, [])"
| "bytes_read n (b # bs) = Some (take n (b # bs), None, drop n (b # bs))"

definition bytes_WriteTo ::
  "'d wr \<Rightarrow> byte list \<Rightarrow> 'd \<Rightarrow> (err option \<times> byte list \<times> 'd) option" where
  "bytes_WriteTo wr bs d =
     (if bs = [] then Some (None, [], d)
      else Option.bind (wr bs d) (\<lambda>(m, e, d').
        Some ((if m \<noteq> length bs \<and> e = None then Some ErrShortWrite else e), drop m bs, d')))"

interpretation mem: io_stream bytes_read "\<lambda>_. True" length "\<lambda>bs. bs" "\<lambda>_. EOF"
proof unfold_locales
  fix n s bs e s'
  assume "bytes_read n s = Some (bs, e, s')"
  then show "length bs \<le> n" and "length s' \<le> length s" by (cases s; auto)+
next
  fix n s bs e s'
  assume "0 < n" "bytes_read n s = Some (bs, e, s')" "e = None \<or> bs \<noteq> []"
  then show "length s' < length s" by (cases s) auto
next
  fix n s
  show "\<exists>bs e s'. bytes_read n s = Some (bs, e, s')" by (cases s) auto
next
  fix n s bs s'
  assume "bytes_read n s = Some (bs, None, s')"
  then show "s = bs @ s' \<and> EOF = EOF" by (cases s) auto
next
  fix n s bs e s'
  assume "bytes_read n s = Some (bs, Some e, s')"
  then show "s = bs \<and> EOF = e" and "bs = []" by (cases s; auto)+
qed simp

section \<open>The contract of a writer\<close>

text \<open>
  \<open>out\<close> is what has reached the destination. A call appends a prefix of its argument; it
  takes all of it unless it reports an error.
\<close>

locale io_writer =
  fixes wr :: "'d wr"
    and winv :: "'d \<Rightarrow> bool"
    and out :: "'d \<Rightarrow> byte list"
  assumes wr_returns: "winv d \<Longrightarrow> \<exists>n e d'. wr p d = Some (n, e, d')"
    and wr_out: "winv d \<Longrightarrow> wr p d = Some (n, e, d') \<Longrightarrow> out d' = out d @ take n p"
    and wr_full: "winv d \<Longrightarrow> wr p d = Some (n, e, d') \<Longrightarrow>
      n \<le> length p \<and> (e = None \<longrightarrow> n = length p)"
    and wr_inv: "winv d \<Longrightarrow> wr p d = Some (n, e, d') \<Longrightarrow> winv d'"
begin

lemma wr_ok: "winv d \<Longrightarrow> wr p d = Some (n, None, d') \<Longrightarrow> n = length p \<and> out d' = out d @ p"
  using wr_full wr_out by fastforce

end

text \<open>
  The write side of the connection: \<open>sent\<close> lists the byte slices that reached the peer,
  one per \<open>Write\<close> call, and \<open>faults\<close> is what the network will do to the next calls:
  \<open>None\<close> lets the call through, \<open>Some (k, e)\<close> takes \<open>k\<close> bytes and reports \<open>e\<close>.
  Calls beyond the list go through. \<open>rands\<close> is the sequence of values the global random
  source will give (\<open>rand.Uint32\<close>), which the program draws masks from.
\<close>

record dest =
  sent :: "byte list list"
  faults :: "(nat \<times> err) option list"
  rands :: "nat \<Rightarrow> uint32"

fun conn_write :: "dest wr" where
  "conn_write p d =
     (case faults d of
        [] \<Rightarrow> Some (length p, None, d\<lparr>sent := sent d @ [p]\<rparr>)
      | None # fs \<Rightarrow> Some (length p, None, d\<lparr>sent := sent d @ [p], faults := fs\<rparr>)
      | Some (k, e) # fs \<Rightarrow>
          Some (min k (length p), Some e, d\<lparr>sent := sent d @ [take k p], faults := fs\<rparr>))"

definition conn_out :: "dest \<Rightarrow> byte list" where
  "conn_out d = concat (sent d)"

text \<open>\<open>rand.Uint32()\<close>: the next value of the random source.\<close>

definition rand_Uint32 :: "dest \<Rightarrow> uint32 \<times> dest" where
  "rand_Uint32 d = (rands d 0, d\<lparr>rands := (\<lambda>i. rands d (Suc i))\<rparr>)"

interpretation conn_w: io_writer conn_write "\<lambda>_. True" conn_out
  by unfold_locales
    (auto simp: conn_out_def min_def split: list.splits option.splits prod.splits if_splits)

text \<open>\<open>bytes.Buffer\<close> as a writer: it takes everything.\<close>

definition buffer_write :: "byte list wr" where
  "buffer_write p b = Some (length p, None, b @ p)"

interpretation buffer_w: io_writer buffer_write "\<lambda>_. True" "\<lambda>b. b"
  by unfold_locales (auto simp: buffer_write_def)

end
