(* ===== verification/CipherXor.thy ===== *)
theory CipherXor
  imports Prelude
begin

text \<open>
  The masking cipher of RFC 6455 (cipher.go). \<open>Cipher\<close> is the optimised routine: it
  handles up to three bytes at the front one by one until the mask position is 0, the last
  bytes one by one, and everything between in words of eight bytes. \<open>cipher_spec\<close> is the
  byte-by-byte definition of the RFC. A slice is a list; the routine changes it in place,
  so the model returns its new contents. Offsets are counts of bytes already processed, so
  natural numbers.
\<close>

section \<open>The routine\<close>

type_synonym mask = "byte \<times> byte \<times> byte \<times> byte"

fun mask_bytes :: "mask \<Rightarrow> byte list" where
  "mask_bytes (a, b, c, d) = [a, b, c, d]"

definition zeroMask :: mask where
  "zeroMask = (0, 0, 0, 0)"

text \<open>The array \<open>remain\<close>: bytes to handle by hand for each mask position.\<close>

definition remain :: "nat list" where
  "remain = [0, 3, 2, 1]"

text \<open>\<open>for i := i; i < hi; i++ { payload[i] ^= mask[(off+i)%4] }\<close>\<close>

function xor_loop :: "mask \<Rightarrow> nat \<Rightarrow> nat \<Rightarrow> nat \<Rightarrow> byte list \<Rightarrow> byte list" where
  "xor_loop m off i hi p =
     (if i < hi
      then xor_loop m off (Suc i) hi (p[i := p ! i XOR mask_bytes m ! ((off + i) mod 4)])
      else p)"
  by pat_completeness auto
termination
  by (relation "measure (\<lambda>(m, off, i, hi, p). hi - i)") auto

text \<open>The main loop: the chunk at \<open>ln + (i << 3)\<close> is read as a little-endian word,
  xored with the doubled mask and written back.\<close>

function chunk_loop :: "uint64 \<Rightarrow> nat \<Rightarrow> nat \<Rightarrow> nat \<Rightarrow> byte list \<Rightarrow> byte list" where
  "chunk_loop m2 ln i n p =
     (if i < n
      then (let j = ln + push_bit 3 i;
                chunk = take 8 (drop j p);
                w = le_word chunk XOR m2
            in chunk_loop m2 ln (Suc i) n (put_at j (le_bytes 8 w) p))
      else p)"
  by pat_completeness auto
termination
  by (relation "measure (\<lambda>(m2, ln, i, n, p). n - i)") auto

declare xor_loop.simps [simp del] chunk_loop.simps [simp del]

definition Cipher :: "byte list \<Rightarrow> mask \<Rightarrow> nat \<Rightarrow> byte list" where
  "Cipher payload mk offset =
     (let n = length payload
      in if n < 8 then xor_loop mk offset 0 n payload
         else (let mpos = offset mod 4;
                   ln = remain ! mpos;
                   rn = (n - ln) mod 8;
                   p1 = xor_loop mk mpos 0 ln payload;
                   p2 = xor_loop mk mpos (n - rn) n p1;
                   m = (le_word (mask_bytes mk) :: uint32);
                   m2 = (push_bit 32 (ucast m) OR ucast m :: uint64);
                   n' = drop_bit 3 (n - ln - rn)
               in chunk_loop m2 ln 0 n' p2))"

section \<open>The reference definition\<close>

definition cipher_spec :: "byte list \<Rightarrow> mask \<Rightarrow> nat \<Rightarrow> byte list" where
  "cipher_spec p m off =
     map (\<lambda>i. p ! i XOR mask_bytes m ! ((off + i) mod 4)) [0..<length p]"

lemma length_mask_bytes [simp]: "length (mask_bytes m) = 4"
  by (cases m) simp

lemma length_cipher_spec [simp]: "length (cipher_spec p m off) = length p"
  by (simp add: cipher_spec_def)

lemma nth_cipher_spec:
  "k < length p \<Longrightarrow> cipher_spec p m off ! k = p ! k XOR mask_bytes m ! ((off + k) mod 4)"
  by (simp add: cipher_spec_def)

lemma cipher_spec_append:
  "cipher_spec (xs @ ys) m off = cipher_spec xs m off @ cipher_spec ys m (off + length xs)"
  by (rule nth_equalityI) (auto simp: nth_cipher_spec nth_append algebra_simps)

lemma cipher_spec_twice: "cipher_spec (cipher_spec p m off) m off = p"
  by (rule nth_equalityI) (auto simp: nth_cipher_spec xor.assoc)

lemma cipher_spec_zero: "cipher_spec p zeroMask off = p"
proof (rule nth_equalityI)
  fix k assume "k < length (cipher_spec p zeroMask off)"
  then have k: "k < length p" by simp
  have "(off + k) mod 4 < 4" by simp
  then have "(off + k) mod 4 = 0 \<or> (off + k) mod 4 = 1 \<or> (off + k) mod 4 = 2 \<or> (off + k) mod 4 = 3"
    by arith
  then have "mask_bytes zeroMask ! ((off + k) mod 4) = 0"
    by (auto simp: zeroMask_def)
  then show "cipher_spec p zeroMask off ! k = p ! k"
    by (simp add: nth_cipher_spec [OF k])
qed simp

section \<open>The routine computes the reference\<close>

lemma xor_loop_nth:
  "hi \<le> length p \<Longrightarrow> length (xor_loop m off i hi p) = length p \<and>
     (\<forall>k < length p. xor_loop m off i hi p ! k =
        (if i \<le> k \<and> k < hi then p ! k XOR mask_bytes m ! ((off + k) mod 4) else p ! k))"
proof (induction m off i hi p rule: xor_loop.induct)
  case (1 m off i hi p)
  show ?case
  proof (cases "i < hi")
    case True
    let ?p = "p[i := p ! i XOR mask_bytes m ! ((off + i) mod 4)]"
    from "1.IH" [OF True] "1.prems"
    have IH: "length (xor_loop m off (Suc i) hi ?p) = length p"
      "\<And>k. k < length p \<Longrightarrow> xor_loop m off (Suc i) hi ?p ! k =
        (if Suc i \<le> k \<and> k < hi then ?p ! k XOR mask_bytes m ! ((off + k) mod 4) else ?p ! k)"
      by simp_all
    from True have e: "xor_loop m off i hi p = xor_loop m off (Suc i) hi ?p"
      by (subst xor_loop.simps) simp
    show ?thesis
      using True IH(1) by (auto simp: e IH(2) nth_list_update Suc_le_eq le_less)
  next
    case False
    then show ?thesis by (auto simp: xor_loop.simps [of m off i])
  qed
qed

lemma doubled_mask:
  "(push_bit 32 (ucast (le_word (mask_bytes m) :: uint32)) OR
      ucast (le_word (mask_bytes m) :: uint32) :: uint64) = le_word (mask_bytes m @ mask_bytes m)"
proof -
  have "ucast (le_word (mask_bytes m) :: uint32) = (le_word (mask_bytes m) :: uint64)"
    by (rule ucast_le_word) simp
  then show ?thesis by (simp add: le_word_append or.commute)
qed

lemma xor_chunk:
  assumes "length c = 8"
  shows "le_bytes 8 (le_word c XOR le_word (mask_bytes m @ mask_bytes m) :: uint64) =
    map2 (XOR) c (mask_bytes m @ mask_bytes m)"
proof -
  have "le_bytes 8 (le_word c :: uint64) = c"
    using le_bytes_word [of c, where 'a = 64] assms by simp
  moreover have "le_bytes 8 (le_word (mask_bytes m @ mask_bytes m) :: uint64) = mask_bytes m @ mask_bytes m"
    using le_bytes_word [of "mask_bytes m @ mask_bytes m", where 'a = 64] by simp
  ultimately show ?thesis by (simp add: le_bytes_xor)
qed

lemma nth_doubled_mask: "i < 8 \<Longrightarrow> (mask_bytes m @ mask_bytes m) ! i = mask_bytes m ! (i mod 4)"
proof -
  assume "i < 8"
  moreover have "\<not> i < 4 \<Longrightarrow> i < 8 \<Longrightarrow> i mod 4 = i - 4"
    by (metis add_diff_inverse_nat less_diff_conv2 mod_add_self1 mod_less not_le numeral_Bit0)
  ultimately show ?thesis by (simp add: nth_append)
qed

lemma chunk_loop_nth:
  "m2 = le_word (mask_bytes m @ mask_bytes m) \<Longrightarrow> ln + 8 * n \<le> length p \<Longrightarrow>
     length (chunk_loop m2 ln i n p) = length p \<and>
     (\<forall>k < length p. chunk_loop m2 ln i n p ! k =
        (if ln + 8 * i \<le> k \<and> k < ln + 8 * n
         then p ! k XOR mask_bytes m ! ((k - ln) mod 4) else p ! k))"
proof (induction m2 ln i n p rule: chunk_loop.induct)
  case (1 m2 ln i n p)
  show ?case
  proof (cases "i < n")
    case False
    then show ?thesis by (auto simp: chunk_loop.simps [of m2 ln i])
  next
    case True
    let ?j = "ln + 8 * i"
    let ?c = "take 8 (drop ?j p)"
    let ?p = "put_at ?j (le_bytes 8 (le_word ?c XOR m2)) p"
    from True "1.prems" have fit: "?j + 8 \<le> length p" by simp
    have c: "le_bytes 8 (le_word ?c XOR m2) = map2 (XOR) ?c (mask_bytes m @ mask_bytes m)"
      using "1.prems" fit xor_chunk [of ?c m] by simp
    have p: "?p = take ?j p @ map2 (XOR) ?c (mask_bytes m @ mask_bytes m) @ drop (?j + 8) p"
      using fit unfolding c by (simp add: put_at_fits)
    have q: "?p ! k = (if ?j \<le> k \<and> k < ?j + 8 then p ! k XOR mask_bytes m ! ((k - ln) mod 4) else p ! k)"
      if "k < length p" for k
    proof -
      have "(k - ?j) mod 4 = (k - ln) mod 4" if "?j \<le> k"
      proof -
        from that obtain d where "k = ?j + d" by (metis le_add_diff_inverse)
        then have "k - ln = d + 4 * (2 * i)" "k - ?j = d" by simp_all
        then show ?thesis by (metis mod_mult_self2)
      qed
      moreover define x where "x = map2 (XOR) ?c (mask_bytes m @ mask_bytes m)"
      moreover have "x ! d = p ! (?j + d) XOR mask_bytes m ! (d mod 4)" if "d < 8" for d
        unfolding x_def using that fit by (simp add: nth_doubled_mask)
      moreover have "length x = 8"
        using fit by (simp add: x_def)
      ultimately show ?thesis
        unfolding p x_def [symmetric] using that fit by (auto simp: nth_append)
    qed
    have e: "chunk_loop m2 ln i n p = chunk_loop m2 ln (Suc i) n ?p"
      using True by (subst chunk_loop.simps) (simp add: Let_def push_bit_eq_mult mult.commute)
    have IH: "length (chunk_loop m2 ln (Suc i) n ?p) = length ?p"
      "\<And>k. k < length ?p \<Longrightarrow> chunk_loop m2 ln (Suc i) n ?p ! k =
        (if ln + 8 * Suc i \<le> k \<and> k < ln + 8 * n
         then ?p ! k XOR mask_bytes m ! ((k - ln) mod 4) else ?p ! k)"
      using "1.IH" [OF True refl refl refl "1.prems"(1)] "1.prems"(2)
      by (simp_all add: push_bit_eq_mult mult.commute)
    show ?thesis
      using True IH(1) by (auto simp: e IH(2) q)
  qed
qed

lemma remain_aligns: "(off mod 4 + remain ! (off mod 4)) mod 4 = 0 \<and> remain ! (off mod 4) \<le> 3"
proof -
  have "off mod 4 < 4" by simp
  then have "off mod 4 = 0 \<or> off mod 4 = 1 \<or> off mod 4 = 2 \<or> off mod 4 = 3" by arith
  then show ?thesis by (auto simp: remain_def)
qed

text \<open>The byte a mask position selects only depends on the position modulo 4.\<close>

lemma aligned_position:
  assumes "(mp + ln) mod 4 = 0" and "mp = off mod 4" and "ln \<le> k"
  shows "(k - ln) mod 4 = (off + k) mod (4 :: nat)"
proof -
  from assms(3) obtain d where k: "k = ln + d" by (metis le_add_diff_inverse)
  have "(off + k) mod 4 = ((off mod 4 + ln) mod 4 + d) mod 4"
    by (simp add: k mod_simps add.assoc)
  also have "\<dots> = d mod 4" using assms(1,2) by simp
  finally show ?thesis by (simp add: k)
qed

lemma Cipher_is_spec: "Cipher p m off = cipher_spec p m off"
proof (cases "length p < 8")
  case True
  then show ?thesis
    using xor_loop_nth [of "length p" p m off 0]
    by (auto simp: Cipher_def nth_cipher_spec intro: nth_equalityI)
next
  case False
  define mp where "mp = off mod 4"
  define ln where "ln = remain ! mp"
  define rn where "rn = (length p - ln) mod 8"
  define p1 where "p1 = xor_loop m mp 0 ln p"
  define p2 where "p2 = xor_loop m mp (length p - rn) (length p) p1"
  define n where "n = (length p - ln - rn) div 8"
  have al: "(mp + ln) mod 4 = 0" "ln \<le> 3"
    using remain_aligns [of off] by (simp_all add: mp_def ln_def)
  have n: "ln + 8 * n = length p - rn"
  proof -
    have "8 * n = length p - ln - rn"
      unfolding n_def rn_def by (metis dvd_minus_mod dvd_mult_div_cancel)
    moreover have "rn \<le> length p - ln" by (simp add: rn_def)
    ultimately show ?thesis using al False by simp
  qed
  have p1: "length p1 = length p" "\<And>k. k < length p \<Longrightarrow> p1 ! k =
      (if k < ln then p ! k XOR mask_bytes m ! ((mp + k) mod 4) else p ! k)"
    using xor_loop_nth [of ln p m mp 0] al False by (simp_all add: p1_def)
  have p2: "length p2 = length p" "\<And>k. k < length p \<Longrightarrow> p2 ! k =
      (if length p - rn \<le> k then p1 ! k XOR mask_bytes m ! ((mp + k) mod 4) else p1 ! k)"
    using xor_loop_nth [of "length p" p1 m mp "length p - rn"] p1 by (simp_all add: p2_def)
  let ?m2 = "le_word (mask_bytes m @ mask_bytes m) :: uint64"
  have c: "Cipher p m off = chunk_loop ?m2 ln 0 n p2"
    using False
    by (simp add: Cipher_def Let_def doubled_mask drop_bit_eq_div del: diff_diff_left
        flip: mp_def ln_def rn_def p1_def p2_def n_def)
  have l: "length (chunk_loop ?m2 ln 0 n p2) = length p"
    "\<And>k. k < length p \<Longrightarrow> chunk_loop ?m2 ln 0 n p2 ! k =
      (if ln \<le> k \<and> k < length p - rn then p2 ! k XOR mask_bytes m ! ((k - ln) mod 4) else p2 ! k)"
    using chunk_loop_nth [OF refl, of ln n p2 m 0] p2(1) n by simp_all
  have pos: "(mp + k) mod 4 = (off + k) mod 4" for k
    by (simp add: mp_def mod_simps)
  show ?thesis
    unfolding c
  proof (rule nth_equalityI)
    fix k assume "k < length (chunk_loop ?m2 ln 0 n p2)"
    then have k: "k < length p" using l by simp
    show "chunk_loop ?m2 ln 0 n p2 ! k = cipher_spec p m off ! k"
      using k n aligned_position [OF al(1) mp_def, of k]
      by (auto simp: l(2) p2(2) p1(2) nth_cipher_spec pos)
  qed (simp add: l)
qed

lemma length_Cipher [simp]: "length (Cipher p m off) = length p"
  by (simp add: Cipher_is_spec)

lemma Cipher_Nil [simp]: "Cipher [] m off = []"
  by (simp add: Cipher_is_spec cipher_spec_def)

lemma Cipher_append:
  "Cipher (xs @ ys) m off = Cipher xs m off @ Cipher ys m (off + length xs)"
  by (simp add: Cipher_is_spec cipher_spec_append)

lemma Cipher_twice: "Cipher (Cipher p m off) m off = p"
  by (simp add: Cipher_is_spec cipher_spec_twice)

lemma Cipher_zero: "Cipher p zeroMask off = p"
  by (simp add: Cipher_is_spec cipher_spec_zero)

section \<open>Property\<close>

text \<open>
  C3: the optimised cipher, with its hand-written head and tail and its eight-byte words,
  xors every byte with the mask byte at its position, for every length, offset and mask.
\<close>

theorem cipher_correct:
  "Cipher p m off = map (\<lambda>i. p ! i XOR mask_bytes m ! ((off + i) mod 4)) [0..<length p]"
  by (simp add: Cipher_is_spec cipher_spec_def)

end
