(* ===== verification/Frames.thy ===== *)
theory Frames
  imports GoIO CipherXor
begin

text \<open>
  Frames (frame.go): operation codes, status codes, the header and frame records with their
  constructors, close bodies, and masking. \<open>OpCode\<close> is a Go \<open>byte\<close>, \<open>StatusCode\<close> a
  \<open>uint16\<close>, the header length an \<open>int64\<close>, so an 8-, 16- and 64-bit word, the last read
  as signed. Go strings are byte lists.

  A frame value shares its payload slice with the frame it was copied from. Functions that
  work in place return the frame with the new contents; a caller that keeps its own copy of
  the frame sees those contents in its payload, and its own header.
\<close>

section \<open>Operation codes\<close>

definition MaxControlFramePayloadSize :: nat where
  "MaxControlFramePayloadSize = 125"

definition OpContinuation :: byte where "OpContinuation = 0x0"
definition OpText :: byte where "OpText = 0x1"
definition OpBinary :: byte where "OpBinary = 0x2"
definition OpClose :: byte where "OpClose = 0x8"
definition OpPing :: byte where "OpPing = 0x9"
definition OpPong :: byte where "OpPong = 0xa"

lemmas op_defs = OpContinuation_def OpText_def OpBinary_def OpClose_def OpPing_def OpPong_def

definition IsControl :: "byte \<Rightarrow> bool" where
  "IsControl c \<longleftrightarrow> c AND 0x8 \<noteq> 0"

definition IsData :: "byte \<Rightarrow> bool" where
  "IsData c \<longleftrightarrow> c AND 0x8 = 0"

definition IsReserved :: "byte \<Rightarrow> bool" where
  "IsReserved c \<longleftrightarrow> (0x3 \<le> c \<and> c \<le> 0x7) \<or> (0xb \<le> c \<and> c \<le> 0xf)"

lemma IsData_iff: "IsData c \<longleftrightarrow> \<not> IsControl c"
  by (simp add: IsData_def IsControl_def)

lemma IsControl_ops [simp]:
  "IsControl OpClose" "IsControl OpPing" "IsControl OpPong"
  "\<not> IsControl OpContinuation" "\<not> IsControl OpText" "\<not> IsControl OpBinary"
  by (simp_all add: IsControl_def op_defs)

section \<open>Status codes\<close>

record StatusCodeRange =
  rMin :: uint16
  rMax :: uint16

definition StatusRangeNotInUse :: StatusCodeRange where
  "StatusRangeNotInUse = \<lparr>rMin = 0, rMax = 999\<rparr>"
definition StatusRangeProtocol :: StatusCodeRange where
  "StatusRangeProtocol = \<lparr>rMin = 1000, rMax = 2999\<rparr>"
definition StatusRangeApplication :: StatusCodeRange where
  "StatusRangeApplication = \<lparr>rMin = 3000, rMax = 3999\<rparr>"
definition StatusRangePrivate :: StatusCodeRange where
  "StatusRangePrivate = \<lparr>rMin = 4000, rMax = 4999\<rparr>"

definition StatusNormalClosure :: uint16 where "StatusNormalClosure = 1000"
definition StatusGoingAway :: uint16 where "StatusGoingAway = 1001"
definition StatusProtocolError :: uint16 where "StatusProtocolError = 1002"
definition StatusUnsupportedData :: uint16 where "StatusUnsupportedData = 1003"
definition StatusNoMeaningYet :: uint16 where "StatusNoMeaningYet = 1004"
definition StatusInvalidFramePayloadData :: uint16 where "StatusInvalidFramePayloadData = 1007"
definition StatusPolicyViolation :: uint16 where "StatusPolicyViolation = 1008"
definition StatusMessageTooBig :: uint16 where "StatusMessageTooBig = 1009"
definition StatusMandatoryExt :: uint16 where "StatusMandatoryExt = 1010"
definition StatusInternalServerError :: uint16 where "StatusInternalServerError = 1011"
definition StatusTLSHandshake :: uint16 where "StatusTLSHandshake = 1015"
definition StatusAbnormalClosure :: uint16 where "StatusAbnormalClosure = 1006"
definition StatusNoStatusRcvd :: uint16 where "StatusNoStatusRcvd = 1005"

lemmas status_defs = StatusNormalClosure_def StatusGoingAway_def StatusProtocolError_def
  StatusUnsupportedData_def StatusNoMeaningYet_def StatusInvalidFramePayloadData_def
  StatusPolicyViolation_def StatusMessageTooBig_def StatusMandatoryExt_def
  StatusInternalServerError_def StatusTLSHandshake_def StatusAbnormalClosure_def
  StatusNoStatusRcvd_def

definition In :: "uint16 \<Rightarrow> StatusCodeRange \<Rightarrow> bool" where
  "In s r \<longleftrightarrow> rMin r \<le> s \<and> s \<le> rMax r"

definition Empty :: "uint16 \<Rightarrow> bool" where
  "Empty s \<longleftrightarrow> s = 0"

definition IsNotUsed :: "uint16 \<Rightarrow> bool" where
  "IsNotUsed s = In s StatusRangeNotInUse"

definition IsApplicationSpec :: "uint16 \<Rightarrow> bool" where
  "IsApplicationSpec s = In s StatusRangeApplication"

definition IsPrivateSpec :: "uint16 \<Rightarrow> bool" where
  "IsPrivateSpec s = In s StatusRangePrivate"

definition IsProtocolSpec :: "uint16 \<Rightarrow> bool" where
  "IsProtocolSpec s = In s StatusRangeProtocol"

definition IsProtocolDefined :: "uint16 \<Rightarrow> bool" where
  "IsProtocolDefined s \<longleftrightarrow> List.member
     [StatusNormalClosure, StatusGoingAway, StatusProtocolError, StatusUnsupportedData,
      StatusInvalidFramePayloadData, StatusPolicyViolation, StatusMessageTooBig,
      StatusMandatoryExt, StatusInternalServerError, StatusNoStatusRcvd,
      StatusAbnormalClosure, StatusTLSHandshake] s"

definition IsProtocolReserved :: "uint16 \<Rightarrow> bool" where
  "IsProtocolReserved s \<longleftrightarrow>
     List.member [StatusNoStatusRcvd, StatusAbnormalClosure, StatusTLSHandshake] s"

lemmas status_range_defs = StatusRangeNotInUse_def StatusRangeProtocol_def
  StatusRangeApplication_def StatusRangePrivate_def In_def
  IsNotUsed_def IsApplicationSpec_def IsPrivateSpec_def IsProtocolSpec_def

section \<open>Headers and frames\<close>

record header =
  Fin :: bool
  Rsv :: byte
  OpCode :: byte
  Masked :: bool
  Mask :: mask
  Length :: int64

record frame =
  Header :: header
  Payload :: "byte list"

text \<open>The zero value of a header, which \<open>var h Header\<close> and omitted fields give.\<close>

definition zero_header :: header where
  "zero_header = \<lparr>Fin = False, Rsv = 0, OpCode = 0, Masked = False, Mask = zeroMask, Length = 0\<rparr>"

lemma zero_header_sel [simp]:
  "Fin zero_header = False" "Rsv zero_header = 0" "OpCode zero_header = 0"
  "Masked zero_header = False" "Mask zero_header = zeroMask" "Length zero_header = 0"
  by (simp_all add: zero_header_def)

text \<open>The bits of util.go's constant block (write.go), numbered from the left.\<close>

definition bit0 :: byte where "bit0 = 0x80"
definition bit5 :: byte where "bit5 = 0x04"
definition bit6 :: byte where "bit6 = 0x02"
definition bit7 :: byte where "bit7 = 0x01"

definition Rsv1 :: "header \<Rightarrow> bool" where "Rsv1 h \<longleftrightarrow> Rsv h AND bit5 \<noteq> 0"
definition Rsv2 :: "header \<Rightarrow> bool" where "Rsv2 h \<longleftrightarrow> Rsv h AND bit6 \<noteq> 0"
definition Rsv3 :: "header \<Rightarrow> bool" where "Rsv3 h \<longleftrightarrow> Rsv h AND bit7 \<noteq> 0"

definition Rsv_fn :: "bool \<Rightarrow> bool \<Rightarrow> bool \<Rightarrow> byte" where
  "Rsv_fn r1 r2 r3 =
     (let rsv = 0;
          rsv = (if r1 then rsv OR bit5 else rsv);
          rsv = (if r2 then rsv OR bit6 else rsv)
      in if r3 then rsv OR bit7 else rsv)"

definition RsvBits :: "byte \<Rightarrow> bool \<times> bool \<times> bool" where
  "RsvBits rsv = (rsv AND bit5 \<noteq> 0, rsv AND bit6 \<noteq> 0, rsv AND bit7 \<noteq> 0)"

definition NewFrame :: "byte \<Rightarrow> bool \<Rightarrow> byte list \<Rightarrow> frame" where
  "NewFrame op fin p =
     \<lparr>Header = zero_header\<lparr>Fin := fin, OpCode := op, Length := of_nat (length p)\<rparr>, Payload = p\<rparr>"

definition NewTextFrame :: "byte list \<Rightarrow> frame" where "NewTextFrame p = NewFrame OpText True p"
definition NewBinaryFrame :: "byte list \<Rightarrow> frame" where "NewBinaryFrame p = NewFrame OpBinary True p"
definition NewPingFrame :: "byte list \<Rightarrow> frame" where "NewPingFrame p = NewFrame OpPing True p"
definition NewPongFrame :: "byte list \<Rightarrow> frame" where "NewPongFrame p = NewFrame OpPong True p"
definition NewCloseFrame :: "byte list \<Rightarrow> frame" where "NewCloseFrame p = NewFrame OpClose True p"

section \<open>Close bodies\<close>

text \<open>
  \<open>PutCloseFrameBody\<close> first touches \<open>p[1+len(reason)]\<close>, which panics (\<open>None\<close>) when the
  buffer is too small.
\<close>

definition PutCloseFrameBody :: "byte list \<Rightarrow> uint16 \<Rightarrow> byte list \<Rightarrow> byte list option" where
  "PutCloseFrameBody p code reason =
     (if 1 + length reason < length p
      then Some (put_at 2 reason (put_at 0 (be_bytes 2 code) p))
      else None)"

definition NewCloseFrameBody :: "uint16 \<Rightarrow> byte list \<Rightarrow> byte list option" where
  "NewCloseFrameBody code reason =
     (let n = min (2 + length reason) MaxControlFramePayloadSize;
          p = replicate n 0;
          crop = min (MaxControlFramePayloadSize - 2) (length reason)
      in PutCloseFrameBody p code (take crop reason))"

definition ParseCloseFrameData :: "byte list \<Rightarrow> uint16 \<times> byte list" where
  "ParseCloseFrameData payload =
     (if length payload < 2 then (0, [])
      else (be_word (take 2 payload), drop 2 payload))"

definition ParseCloseFrameDataUnsafe :: "byte list \<Rightarrow> uint16 \<times> byte list" where
  "ParseCloseFrameDataUnsafe payload =
     (if length payload < 2 then (0, [])
      else (be_word (take 2 payload), drop 2 payload))"

definition makeCloseFrame :: "uint16 \<Rightarrow> frame option" where
  "makeCloseFrame code = map_option NewCloseFrame (NewCloseFrameBody code [])"

lemma PutCloseFrameBody_fits:
  "length p = 2 + length reason \<Longrightarrow>
     PutCloseFrameBody p code reason = Some (be_bytes 2 code @ reason)"
  by (simp add: PutCloseFrameBody_def put_at_fits)

lemma NewCloseFrameBody_eq:
  "NewCloseFrameBody code reason = Some (be_bytes 2 code @ take 123 reason)"
  unfolding NewCloseFrameBody_def Let_def MaxControlFramePayloadSize_def
  by (subst PutCloseFrameBody_fits) (auto simp: min_def)

lemma ParseCloseFrameData_body:
  "ParseCloseFrameData (be_bytes 2 code @ reason) = (code, reason)"
  by (simp add: ParseCloseFrameData_def be_word_bytes)

section \<open>Masking frames\<close>

definition mask_of :: "byte list \<Rightarrow> mask" where
  "mask_of bs = (bs ! 0, bs ! 1, bs ! 2, bs ! 3)"

lemma mask_of_mask_bytes [simp]: "mask_of (mask_bytes m) = m"
  by (cases m) (simp add: mask_of_def)

text \<open>\<open>NewMask\<close> draws 32 bits from the random source of the environment.\<close>

definition NewMask :: "dest \<Rightarrow> mask \<times> dest" where
  "NewMask d = (let (r, d') = rand_Uint32 d in (mask_of (be_bytes 4 r), d'))"

definition MaskFrameInPlaceWith :: "frame \<Rightarrow> mask \<Rightarrow> frame" where
  "MaskFrameInPlaceWith f m =
     f\<lparr>Header := (Header f)\<lparr>Masked := True, Mask := m\<rparr>, Payload := Cipher (Payload f) m 0\<rparr>"

definition MaskFrameInPlace :: "frame \<Rightarrow> dest \<Rightarrow> frame \<times> dest" where
  "MaskFrameInPlace f d = (let (m, d') = NewMask d in (MaskFrameInPlaceWith f m, d'))"

text \<open>
  The copying variants work on a fresh array of the same length, so that the payload the
  caller holds keeps its contents; the second component is that payload after the call.
\<close>

definition MaskFrameWith :: "frame \<Rightarrow> mask \<Rightarrow> frame \<times> byte list" where
  "MaskFrameWith f m =
     (let p = put_at 0 (Payload f) (replicate (length (Payload f)) 0)
      in (MaskFrameInPlaceWith (f\<lparr>Payload := p\<rparr>) m, Payload f))"

definition MaskFrame :: "frame \<Rightarrow> dest \<Rightarrow> (frame \<times> byte list) \<times> dest" where
  "MaskFrame f d = (let (m, d') = NewMask d in (MaskFrameWith f m, d'))"

definition UnmaskFrameInPlace :: "frame \<Rightarrow> frame" where
  "UnmaskFrameInPlace f =
     f\<lparr>Header := (Header f)\<lparr>Masked := False, Mask := zeroMask\<rparr>,
       Payload := Cipher (Payload f) (Mask (Header f)) 0\<rparr>"

definition UnmaskFrame :: "frame \<Rightarrow> frame \<times> byte list" where
  "UnmaskFrame f =
     (let p = put_at 0 (Payload f) (replicate (length (Payload f)) 0)
      in (UnmaskFrameInPlace (f\<lparr>Payload := p\<rparr>), Payload f))"

lemma put_at_whole [simp]: "put_at 0 p (replicate (length p) x) = p"
  by (simp add: put_at_fits)

lemma Unmask_Mask:
  "UnmaskFrameInPlace (MaskFrameInPlaceWith f m) =
     f\<lparr>Header := (Header f)\<lparr>Masked := False, Mask := zeroMask\<rparr>\<rparr>"
  by (simp add: UnmaskFrameInPlace_def MaskFrameInPlaceWith_def Cipher_twice)

section \<open>Properties\<close>

text \<open>
  Building a close body never panics, keeps to the control frame limit by cropping the
  reason to 123 bytes, and parses back to the code and the cropped reason.
\<close>

theorem close_body_roundtrip:
  "\<exists>body. NewCloseFrameBody code reason = Some body \<and> length body \<le> MaxControlFramePayloadSize \<and>
     ParseCloseFrameData body = (code, take 123 reason)"
  by (simp add: NewCloseFrameBody_eq ParseCloseFrameData_body MaxControlFramePayloadSize_def)

text \<open>
  Masking a frame and unmasking the result gives back the frame with its mask bit and
  mask cleared, whatever they were; the copying variants leave the caller's payload alone.
\<close>

theorem mask_unmask_roundtrip:
  "UnmaskFrame (fst (MaskFrameWith f m)) =
     (f\<lparr>Header := (Header f)\<lparr>Masked := False, Mask := zeroMask\<rparr>\<rparr>, Cipher (Payload f) m 0) \<and>
   snd (MaskFrameWith f m) = Payload f"
  using Unmask_Mask [of f m]
  by (simp add: UnmaskFrame_def MaskFrameWith_def put_at_fits Let_def)
     (simp add: MaskFrameInPlaceWith_def)

end
