(* ===== verification/HeaderIO.thy ===== *)
theory HeaderIO
  imports Frames
begin

text \<open>
  The wire form of headers and frames (write.go, read.go, and the compiling functions of
  frame.go). The writing functions take any writer, the reading functions any reader; their
  results are the error, if any, and the writer or reader afterwards.
\<close>

section \<open>Writing (write.go)\<close>

definition MaxHeaderSize :: nat where "MaxHeaderSize = 14"
definition MinHeaderSize :: nat where "MinHeaderSize = 2"

definition len7 :: int where "len7 = 125"
definition len16 :: int where "len16 = 65535"
definition len64 :: int where "len64 = 2 ^ 63 - 1"

lemmas len_defs = len7_def len16_def len64_def

definition HeaderSize :: "header \<Rightarrow> int" where
  "HeaderSize h =
     (let l = sint (Length h);
          n = (if l < 126 then Some 2
               else if l \<le> len16 then Some 4
               else if l \<le> len64 then Some 10
               else None)
      in case n of
           None \<Rightarrow> -1
         | Some n \<Rightarrow> if Masked h then n + int (length (mask_bytes (Mask h))) else n)"

text \<open>
  The bytes \<open>bts[:n]\<close> that \<open>WriteHeader\<close> prepares in an array of \<open>MaxHeaderSize\<close> zero
  bytes, or \<open>None\<close> where it answers \<open>ErrHeaderLengthUnexpected\<close>.
\<close>

definition header_bytes :: "header \<Rightarrow> byte list option" where
  "header_bytes h =
     (let bts = replicate MaxHeaderSize 0;
          bts = (if Fin h then bts[0 := bts ! 0 OR bit0] else bts);
          bts = bts[0 := bts ! 0 OR push_bit 4 (Rsv h)];
          bts = bts[0 := bts ! 0 OR OpCode h];
          l = sint (Length h);
          r = (if l \<le> len7 then Some (bts[1 := ucast (Length h)], 2)
               else if l \<le> len16 then
                 Some (put_at 2 (be_bytes 2 (ucast (Length h) :: uint16)) (bts[1 := 126]), 4)
               else if l \<le> len64 then
                 Some (put_at 2 (be_bytes 8 (Length h)) (bts[1 := 127]), 10)
               else None)
      in case r of
           None \<Rightarrow> None
         | Some (bts, n) \<Rightarrow>
             if Masked h then
               (let bts = bts[1 := bts ! 1 OR bit0];
                    k = copy_len n (mask_bytes (Mask h)) bts;
                    bts = put_at n (mask_bytes (Mask h)) bts
                in Some (take (n + k) bts))
             else Some (take n bts))"

definition WriteHeader :: "'d wr \<Rightarrow> header \<Rightarrow> 'd \<Rightarrow> (err option \<times> 'd) option" where
  "WriteHeader wr h d =
     (case header_bytes h of
        None \<Rightarrow> Some (Some ErrHeaderLengthUnexpected, d)
      | Some bts \<Rightarrow> do {
          (n, e, d') \<leftarrow> wr bts d;
          Some (e, d')
        })"

definition WriteFrame :: "'d wr \<Rightarrow> frame \<Rightarrow> 'd \<Rightarrow> (err option \<times> 'd) option" where
  "WriteFrame wr f d = do {
     (e, d') \<leftarrow> WriteHeader wr (Header f) d;
     case e of
       Some er \<Rightarrow> Some (Some er, d')
     | None \<Rightarrow> do {
         (n, e, d'') \<leftarrow> wr (Payload f) d';
         Some (e, d'')
       }
   }"

text \<open>\<open>MustWriteFrame\<close> panics (\<open>None\<close>) on an error.\<close>

definition MustWriteFrame :: "'d wr \<Rightarrow> frame \<Rightarrow> 'd \<Rightarrow> 'd option" where
  "MustWriteFrame wr f d = do {
     (e, d') \<leftarrow> WriteFrame wr f d;
     (case e of None \<Rightarrow> Some d' | Some _ \<Rightarrow> None)
   }"

section \<open>Compiling frames (frame.go)\<close>

definition CompileFrame :: "frame \<Rightarrow> (byte list \<times> err option) option" where
  "CompileFrame f = do {
     (e, b) \<leftarrow> WriteFrame buffer_write f [];
     Some (b, e)
   }"

definition MustCompileFrame :: "frame \<Rightarrow> byte list option" where
  "MustCompileFrame f = do {
     (bts, e) \<leftarrow> CompileFrame f;
     (case e of None \<Rightarrow> Some bts | Some _ \<Rightarrow> None)
   }"

definition CompiledPing :: "byte list option" where
  "CompiledPing = MustCompileFrame (NewPingFrame [])"
definition CompiledPong :: "byte list option" where
  "CompiledPong = MustCompileFrame (NewPongFrame [])"
definition CompiledClose :: "byte list option" where
  "CompiledClose = MustCompileFrame (NewCloseFrame [])"

text \<open>The eleven close frames with a status code, and the same compiled.\<close>

definition closeFrames :: "frame option list" where
  "closeFrames =
     map makeCloseFrame
       [StatusNormalClosure, StatusGoingAway, StatusProtocolError, StatusUnsupportedData,
        StatusNoMeaningYet, StatusInvalidFramePayloadData, StatusPolicyViolation,
        StatusMessageTooBig, StatusMandatoryExt, StatusInternalServerError, StatusTLSHandshake]"

definition CompiledCloseFrames :: "byte list option list" where
  "CompiledCloseFrames = map (\<lambda>f. Option.bind f MustCompileFrame) closeFrames"

section \<open>Reading (read.go)\<close>

text \<open>The header after the first two bytes, the 7-bit length and the bytes still to read.\<close>

definition header_first :: "byte \<Rightarrow> byte \<Rightarrow> header \<times> nat" where
  "header_first b0 b1 =
     (let h = zero_header\<lparr>Fin := b0 AND bit0 \<noteq> 0, Rsv := drop_bit 4 (b0 AND 0x70),
                OpCode := b0 AND 0x0f\<rparr>
      in if b1 AND bit0 \<noteq> 0 then (h\<lparr>Masked := True\<rparr>, 4) else (h, 0))"

text \<open>
  The second part of \<open>ReadHeader\<close>, over the \<open>extra\<close> bytes it has read. The mask is
  copied from what is left of them.
\<close>

definition header_rest :: "header \<Rightarrow> byte \<Rightarrow> byte list \<Rightarrow> header \<times> err option" where
  "header_rest h len bts =
     (let r = (if len = 126 then
                 Inr (h\<lparr>Length := ucast (be_word (take 2 bts) :: uint16)\<rparr>, drop 2 bts)
               else if len = 127 then
                 (if bts ! 0 AND 0x80 \<noteq> 0 then Inl ErrHeaderLengthMSB
                  else Inr (h\<lparr>Length := be_word (take 8 bts)\<rparr>, drop 8 bts))
               else Inr (h, bts))
      in case r of
           Inl e \<Rightarrow> (h, Some e)
         | Inr (h, bts) \<Rightarrow>
             (if Masked h then h\<lparr>Mask := mask_of (put_at 0 bts (mask_bytes (Mask h)))\<rparr> else h, None))"

definition ReadHeader :: "'s rd \<Rightarrow> 's \<Rightarrow> (header \<times> err option \<times> 's) option" where
  "ReadHeader rd s = do {
     (bts, e, s1) \<leftarrow> io_ReadFull rd 2 s;
     case e of
       Some er \<Rightarrow> Some (zero_header, Some er, s1)
     | None \<Rightarrow>
         (let (h, extra) = header_first (bts ! 0) (bts ! 1);
              len = bts ! 1 AND 0x7f;
              r = (if len < 126 then Some (h\<lparr>Length := ucast len\<rparr>, extra)
                   else if len = 126 then Some (h, extra + 2)
                   else if len = 127 then Some (h, extra + 8)
                   else None)
          in case r of
               None \<Rightarrow> Some (h, Some ErrHeaderLengthUnexpected, s1)
             | Some (h, extra) \<Rightarrow>
                 if extra = 0 then Some (h, None, s1)
                 else do {
                   (bts, e, s2) \<leftarrow> io_ReadFull rd extra s1;
                   case e of
                     Some er \<Rightarrow> Some (h, Some er, s2)
                   | None \<Rightarrow> (let (h', e') = header_rest h len bts in Some (h', e', s2))
                 })
   }"

definition ReadFrame :: "'s rd \<Rightarrow> 's \<Rightarrow> (frame \<times> err option \<times> 's) option" where
  "ReadFrame rd s = do {
     (h, e, s1) \<leftarrow> ReadHeader rd s;
     case e of
       Some er \<Rightarrow> Some (\<lparr>Header = h, Payload = []\<rparr>, Some er, s1)
     | None \<Rightarrow>
         if 0 < sint (Length h) then do {
           buf \<leftarrow> make_bytes (sint (Length h));
           (p, e, s2) \<leftarrow> io_ReadFull rd (length buf) s1;
           Some (\<lparr>Header = h, Payload = put_at 0 p buf\<rparr>, e, s2)
         }
         else Some (\<lparr>Header = h, Payload = []\<rparr>, None, s1)
   }"

definition MustReadFrame :: "'s rd \<Rightarrow> 's \<Rightarrow> (frame \<times> 's) option" where
  "MustReadFrame rd s = do {
     (f, e, s') \<leftarrow> ReadFrame rd s;
     (case e of None \<Rightarrow> Some (f, s') | Some _ \<Rightarrow> None)
   }"

section \<open>The shape of an encoded header\<close>

definition first_byte :: "header \<Rightarrow> byte" where
  "first_byte h = (if Fin h then bit0 else 0) OR push_bit 4 (Rsv h) OR OpCode h"

definition mask_bit :: "header \<Rightarrow> byte" where
  "mask_bit h = (if Masked h then bit0 else 0)"

definition mask_part :: "header \<Rightarrow> byte list" where
  "mask_part h = (if Masked h then mask_bytes (Mask h) else [])"

text \<open>The 7-bit length code and the extended length bytes.\<close>

definition len_code :: "header \<Rightarrow> byte" where
  "len_code h = (let l = sint (Length h) in
     if l \<le> len7 then ucast (Length h) else if l \<le> len16 then 126 else 127)"

definition len_part :: "header \<Rightarrow> byte list" where
  "len_part h = (let l = sint (Length h) in
     if l \<le> len7 then []
     else if l \<le> len16 then be_bytes 2 (ucast (Length h) :: uint16)
     else be_bytes 8 (Length h))"

lemma sint_int64_le: "sint (w :: int64) \<le> 2 ^ 63 - 1"
  using sint_lt [of w] by simp

lemma sint_int64_ge: "- (2 ^ 63) \<le> sint (w :: int64)"
  using sint_ge [of w] by simp

lemma take2_update: "length bts = 14 \<Longrightarrow> take 2 (bts[0 := a, Suc 0 := b]) = [a, b]"
  by (cases bts; cases "tl bts") (auto simp: numeral_2_eq_2)

lemma header_bytes_eq:
  "header_bytes h = Some ([first_byte h, len_code h OR mask_bit h] @ len_part h @ mask_part h)"
proof -
  have le: "sint (Length h) \<le> len64"
    using sint_int64_le [of "Length h"] by (simp add: len64_def)
  have r: "replicate 14 (0::byte) = [0,0,0,0,0,0,0,0,0,0,0,0,0,0]"
    by (simp add: numeral_eq_Suc)
  obtain a b c d where m: "Mask h = (a, b, c, d)" by (cases "Mask h")
  obtain e f where b2: "be_bytes 2 (ucast (Length h) :: uint16) = [e, f]"
    by (rule length_2E [OF length_be_bytes])
  obtain p q r s t u v w where b8: "be_bytes 8 (Length h) = [p, q, r, s, t, u, v, w]"
    by (rule length_8E [OF length_be_bytes])
  consider (a) "sint (Length h) \<le> len7" | (b) "len7 < sint (Length h)" "sint (Length h) \<le> len16"
    | (c) "len16 < sint (Length h)" "len7 < sint (Length h)"
    by (fastforce simp: len_defs)
  then show ?thesis
  proof cases
    case a
    then show ?thesis
      by (simp add: header_bytes_def Let_def MaxHeaderSize_def r m first_byte_def len_code_def
          len_part_def mask_bit_def mask_part_def put_at_def copy_len_def or.assoc)
  next
    case b
    then show ?thesis
      by (simp add: header_bytes_def Let_def MaxHeaderSize_def r m b2 first_byte_def len_code_def
          len_part_def mask_bit_def mask_part_def put_at_def copy_len_def or.assoc)
  next
    case c
    then show ?thesis using le
      by (simp add: header_bytes_def Let_def MaxHeaderSize_def r m b8 first_byte_def len_code_def
          len_part_def mask_bit_def mask_part_def put_at_def copy_len_def or.assoc)
  qed
qed

section \<open>Parsing an encoded header\<close>

text \<open>
  \<open>wf_header\<close>: the headers the protocol can carry. The length is not negative, the
  reserved bits are three bits, the operation code is four bits, and an unmasked header has
  the zero mask.
\<close>

definition wf_header :: "header \<Rightarrow> bool" where
  "wf_header h \<longleftrightarrow> 0 \<le> sint (Length h) \<and> Rsv h < 8 \<and> OpCode h < 16 \<and>
     (Masked h \<or> Mask h = zeroMask)"

lemma bit_small:
  "(w :: byte) < 8 \<Longrightarrow> bit w i \<Longrightarrow> i < 3" "(w :: byte) < 16 \<Longrightarrow> bit w i \<Longrightarrow> i < 4"
  "(w :: byte) < 128 \<Longrightarrow> bit w i \<Longrightarrow> i < 7"
  using bit_less_exp [of w 3 i] bit_less_exp [of w 4 i] bit_less_exp [of w 7 i] by simp_all

lemma bit_first_byte:
  assumes "Rsv h < 8" "OpCode h < 16"
  shows "bit (first_byte h) i \<longleftrightarrow>
    (if i < 4 then bit (OpCode h) i else if i < 7 then bit (Rsv h) (i - 4) else i = 7 \<and> Fin h)"
proof -
  have "bit (first_byte h) i \<longleftrightarrow>
      Fin h \<and> i = 7 \<or> 4 \<le> i \<and> i < 8 \<and> bit (Rsv h) (i - 4) \<or> bit (OpCode h) i"
    by (auto simp: first_byte_def bit0_def bit_if bit_byte_consts bit_or_iff bit_push_bit_iff
        simp del: bit_numeral_word_iff split: if_splits)
  then show ?thesis
    using bit_small(1) [OF assms(1), of "i - 4"] bit_small(2) [OF assms(2), of i] by auto
qed

lemma first_byte_parts:
  assumes "Rsv h < 8" "OpCode h < 16"
  shows "first_byte h AND bit0 \<noteq> 0 \<longleftrightarrow> Fin h"
    and "drop_bit 4 (first_byte h AND 0x70) = Rsv h"
    and "first_byte h AND 0x0f = OpCode h"
proof -
  note b = bit_first_byte [OF assms] bit_if bit_byte_consts bit_and_iff bit_drop_bit_eq
  have "first_byte h AND 0x80 = (if Fin h then 0x80 else 0)"
    by (rule bit_eqI) (auto simp: b simp del: bit_numeral_word_iff split: if_splits)
  then show "first_byte h AND bit0 \<noteq> 0 \<longleftrightarrow> Fin h"
    by (simp add: bit0_def)
  show "drop_bit 4 (first_byte h AND 0x70) = Rsv h"
    by (rule bit_eqI) (use bit_small(1) [OF assms(1)] in \<open>auto simp: b simp del: bit_numeral_word_iff drop_bit_and split: if_splits\<close>)
  show "first_byte h AND 0x0f = OpCode h"
    by (rule bit_eqI) (use bit_small(2) [OF assms(2)] in \<open>auto simp: b simp del: bit_numeral_word_iff split: if_splits\<close>)
qed

lemma len_code_less:
  assumes "0 \<le> sint (Length h)"
  shows "len_code h < 128"
proof (cases "sint (Length h) \<le> len7")
  case True
  then have "uint (ucast (Length h) :: byte) \<le> 125"
    using assms by (simp add: len7_def unsigned_ucast_eq uint_eq_sint take_bit_eq_mod)
  then show ?thesis using True by (simp add: len_code_def word_less_def)
next
  case False
  then show ?thesis by (simp add: len_code_def Let_def)
qed

lemma second_byte_parts:
  assumes "0 \<le> sint (Length h)"
  shows "(len_code h OR mask_bit h) AND bit0 \<noteq> 0 \<longleftrightarrow> Masked h"
    and "(len_code h OR mask_bit h) AND 0x7f = len_code h"
proof -
  note s = bit_small(3) [OF len_code_less [OF assms]]
  note b = bit_if bit_byte_consts bit_and_iff bit_or_iff mask_bit_def bit0_def
  have "(len_code h OR mask_bit h) AND 0x80 = (if Masked h then 0x80 else 0)"
    by (rule bit_eqI) (use s [of 7] in \<open>auto simp: b simp del: bit_numeral_word_iff split: if_splits\<close>)
  then show "(len_code h OR mask_bit h) AND bit0 \<noteq> 0 \<longleftrightarrow> Masked h"
    by (simp add: bit0_def)
  show "(len_code h OR mask_bit h) AND 0x7f = len_code h"
    by (rule bit_eqI) (use s in \<open>auto simp: b simp del: bit_numeral_word_iff split: if_splits\<close>)
qed

lemma header_first_encoded:
  assumes "wf_header h"
  shows "header_first (first_byte h) (len_code h OR mask_bit h) =
    (zero_header\<lparr>Fin := Fin h, Rsv := Rsv h, OpCode := OpCode h, Masked := Masked h\<rparr>,
     length (mask_part h))"
  using assms first_byte_parts [of h] second_byte_parts(1) [of h]
  by (simp add: wf_header_def header_first_def Let_def mask_part_def zero_header_def)

lemma ucast_small:
  assumes "0 \<le> sint (w :: int64)" and "sint w < 2 ^ LENGTH('a::len)"
  shows "ucast (ucast w :: 'a word) = w"
proof -
  have "uint w < 2 ^ LENGTH('a)"
    using assms by (simp add: uint_eq_sint)
  then have "take_bit LENGTH('a) (uint w) = uint w"
    by (simp add: take_bit_int_eq_self)
  then show ?thesis
    by (intro word_uint_eqI) (simp add: unsigned_ucast_eq unsigned_take_bit_eq)
qed

lemma int64_top_byte:
  assumes "0 \<le> sint (w :: int64)"
  shows "be_bytes 8 w ! 0 AND 0x80 = 0"
proof -
  have "\<not> bit w 63"
    using assms bit_last_iff [of w] by simp
  moreover have "be_bytes 8 w ! 0 = ucast (drop_bit 56 w)"
    by (simp add: be_bytes_def rev_nth nth_le_bytes)
  ultimately show ?thesis
    by (intro bit_eqI) (auto simp: bit_and_iff bit_ucast_iff bit_drop_bit_eq bit_byte_consts
        simp del: bit_numeral_word_iff)
qed

lemma put_at_mask: "length m = 4 \<Longrightarrow> put_at 0 m (mask_bytes k) = m"
  by (simp add: put_at_fits)

lemma length_len_part:
  "length (len_part h) = (if len_code h = 127 \<and> 125 < sint (Length h) then 8
     else if len_code h = 126 \<and> 125 < sint (Length h) then 2 else 0)"
  by (auto simp: len_part_def len_code_def Let_def len_defs)

text \<open>What \<open>ReadHeader\<close> has before its second read, for the header \<open>h\<close> being parsed.\<close>

definition half_header :: "header \<Rightarrow> header" where
  "half_header h =
     (let h0 = zero_header\<lparr>Fin := Fin h, Rsv := Rsv h, OpCode := OpCode h, Masked := Masked h\<rparr>
      in if sint (Length h) \<le> len7 then h0\<lparr>Length := Length h\<rparr> else h0)"

lemma len_code_cases:
  assumes "wf_header h"
  obtains (Short) "sint (Length h) \<le> len7" "len_code h < 126" "ucast (len_code h) = Length h"
      "len_part h = []"
  | (Mid) "len7 < sint (Length h)" "sint (Length h) \<le> len16" "len_code h = 126"
      "len_part h = be_bytes 2 (ucast (Length h) :: uint16)"
  | (Long) "len7 < sint (Length h)" "len16 < sint (Length h)" "len_code h = 127"
      "len_part h = be_bytes 8 (Length h)"
proof -
  have nn: "0 \<le> sint (Length h)" using assms by (simp add: wf_header_def)
  consider "sint (Length h) \<le> len7" | "len7 < sint (Length h)" "sint (Length h) \<le> len16"
    | "len7 < sint (Length h)" "len16 < sint (Length h)"
    by linarith
  then show thesis
  proof cases
    case 1
    then have c: "len_code h = ucast (Length h)" by (simp add: len_code_def)
    have "uint (ucast (Length h) :: byte) = uint (Length h)"
      using 1 nn by (simp add: len7_def unsigned_ucast_eq take_bit_int_eq_self uint_eq_sint)
    then have "len_code h < 126"
      using 1 nn by (simp add: c word_less_def uint_eq_sint len7_def)
    moreover have "ucast (len_code h) = Length h"
      using 1 nn unfolding c by (intro ucast_small) (simp_all add: len7_def)
    ultimately show thesis
      using Short 1 by (simp add: len_part_def)
  next
    case 2
    then show thesis by (intro Mid) (simp_all add: len_code_def len_part_def Let_def)
  next
    case 3
    then show thesis by (intro Long) (simp_all add: len_code_def len_part_def Let_def)
  qed
qed

lemma header_rest_encoded:
  assumes "wf_header h"
  shows "header_rest (half_header h) (len_code h) (len_part h @ mask_part h) = (h, None)"
proof -
  have nn: "0 \<le> sint (Length h)" using assms by (simp add: wf_header_def)
  have m: "(if Masked h then mask_of (put_at 0 (mask_part h) (mask_bytes k)) else zeroMask) = Mask h" for k
    using assms by (auto simp: mask_part_def put_at_mask wf_header_def)
  show ?thesis
    using assms
  proof (cases rule: len_code_cases)
    case Short
    then show ?thesis
      using m [of zeroMask] by (auto simp: header_rest_def half_header_def split: if_splits)
  next
    case Mid
    then have "ucast (ucast (Length h) :: uint16) = Length h"
      using nn by (intro ucast_small) (simp_all add: len16_def)
    with Mid show ?thesis
      using m [of zeroMask]
      by (auto simp: header_rest_def half_header_def Let_def be_word_bytes split: if_splits)
  next
    case Long
    have "(be_bytes 8 (Length h) @ mask_part h) ! 0 AND 0x80 = 0"
      using int64_top_byte [OF nn] by (simp add: nth_append)
    with Long show ?thesis
      using m [of zeroMask]
      by (auto simp: header_rest_def half_header_def Let_def be_word_bytes split: if_splits)
  qed
qed

context io_stream
begin

lemma ReadHeader_encoded:
  assumes "inv s" and "wf_header h" and "header_bytes h = Some bs" and "data s = bs @ rest"
  shows "\<exists>s'. ReadHeader rd s = Some (h, None, s') \<and> data s' = rest \<and> ending s' = ending s \<and>
    inv s' \<and> fin s' \<le> fin s"
proof -
  define b1 where "b1 = len_code h OR mask_bit h"
  have d: "data s = [first_byte h, b1] @ len_part h @ mask_part h @ rest"
    using assms(3,4) by (simp add: header_bytes_eq b1_def)
  obtain s1 where s1: "io_ReadFull rd 2 s = Some ([first_byte h, b1], None, s1)"
      "data s1 = len_part h @ mask_part h @ rest" "ending s1 = ending s" "inv s1" "fin s1 \<le> fin s"
    using io_ReadFull_enough [of s 2] assms(1) d by auto
  have nn: "0 \<le> sint (Length h)" using assms(2) by (simp add: wf_header_def)
  note first = header_first_encoded [OF assms(2), folded b1_def]
    second_byte_parts(2) [OF nn, folded b1_def]
  define extra where "extra = length (mask_part h) + length (len_part h)"
  obtain s2 where s2: "io_ReadFull rd extra s1 = Some (len_part h @ mask_part h, None, s2)"
      "data s2 = rest" "ending s2 = ending s" "inv s2" "fin s2 \<le> fin s"
    using io_ReadFull_enough [of s1 extra] s1 by (auto simp: extra_def)
  have "ReadHeader rd s =
    (if extra = 0 then Some (half_header h, None, s1)
     else Option.bind (io_ReadFull rd extra s1) (\<lambda>(bts, e, s2).
       case e of Some er \<Rightarrow> Some (half_header h, Some er, s2)
       | None \<Rightarrow> (let (h', e') = header_rest (half_header h) (len_code h) bts in Some (h', e', s2))))"
    using assms(2)
  proof (cases rule: len_code_cases)
    case Short
    then show ?thesis
      using s1(1) first nn by (simp add: ReadHeader_def half_header_def Let_def extra_def cong: option.case_cong)
  next
    case Mid
    then show ?thesis
      using s1(1) first nn by (simp add: ReadHeader_def half_header_def Let_def extra_def cong: option.case_cong)
  next
    case Long
    then show ?thesis
      using s1(1) first nn by (simp add: ReadHeader_def half_header_def Let_def extra_def cong: option.case_cong)
  qed
  moreover have "half_header h = h \<and> s1 = s1 \<and> data s1 = rest" if "extra = 0"
  proof -
    from that have e: "len_part h = []" "mask_part h = []" by (simp_all add: extra_def)
    have "\<not> Masked h" using e(2) by (cases "Mask h") (auto simp: mask_part_def split: if_splits)
    moreover have "sint (Length h) \<le> len7"
      using e(1) by (cases rule: len_code_cases [OF assms(2)]) (auto dest: arg_cong [of _ _ length])
    ultimately show ?thesis
      using assms(2) e s1(2) by (simp add: half_header_def wf_header_def)
  qed
  ultimately show ?thesis
    using s1 s2 header_rest_encoded [OF assms(2)] by (cases "extra = 0") auto
qed

end

section \<open>Sizes\<close>

lemma mask_part_length: "length (mask_part h) = (if Masked h then 4 else 0)"
  by (simp add: mask_part_def)

lemma HeaderSize_eq:
  "HeaderSize h = 2 + int (length (len_part h)) + int (length (mask_part h))"
  using sint_int64_le [of "Length h"]
  by (auto simp: HeaderSize_def Let_def mask_part_length len_part_def len_defs)

lemma HeaderSize_bytes: "header_bytes h = Some bs \<Longrightarrow> HeaderSize h = int (length bs)"
  by (auto simp: header_bytes_eq HeaderSize_eq)

lemma header_bytes_bounds:
  "header_bytes h = Some bs \<Longrightarrow> MinHeaderSize \<le> length bs \<and> length bs \<le> MaxHeaderSize"
  by (auto simp: header_bytes_eq mask_part_length len_part_def Let_def MinHeaderSize_def
      MaxHeaderSize_def)

section \<open>Writing through any writer\<close>

definition frame_bytes :: "frame \<Rightarrow> byte list" where
  "frame_bytes f = the (header_bytes (Header f)) @ Payload f"

text \<open>A frame the protocol can carry whose length field is the length of its payload.\<close>

definition wf_frame :: "frame \<Rightarrow> bool" where
  "wf_frame f \<longleftrightarrow> wf_header (Header f) \<and> sint (Length (Header f)) = int (length (Payload f))"

context io_writer
begin

lemma WriteHeader_returns:
  assumes "winv d"
  shows "\<exists>e d' k. WriteHeader wr h d = Some (e, d') \<and> winv d' \<and>
    out d' = out d @ take k (the (header_bytes h)) \<and>
    (e = None \<longrightarrow> out d' = out d @ the (header_bytes h))"
proof -
  define bs where "bs = the (header_bytes h)"
  have b: "header_bytes h = Some bs" by (simp add: bs_def header_bytes_eq)
  obtain n e d' where w: "wr bs d = Some (n, e, d')" using wr_returns [OF assms] by blast
  show ?thesis
    using wr_out [OF assms w] wr_full [OF assms w] wr_inv [OF assms w]
    by (auto simp: WriteHeader_def b w)
qed

lemma WriteFrame_returns:
  assumes "winv d"
  shows "\<exists>e d' k. WriteFrame wr f d = Some (e, d') \<and> winv d' \<and>
    out d' = out d @ take k (frame_bytes f) \<and> (e = None \<longrightarrow> out d' = out d @ frame_bytes f)"
proof -
  let ?hb = "the (header_bytes (Header f))"
  obtain e d1 k where h: "WriteHeader wr (Header f) d = Some (e, d1)" "winv d1"
      "out d1 = out d @ take k ?hb" "e = None \<longrightarrow> out d1 = out d @ ?hb"
    using WriteHeader_returns [OF assms] by blast
  show ?thesis
  proof (cases e)
    case (Some er)
    have "take k ?hb = take (min k (length ?hb)) (frame_bytes f)"
      by (simp add: frame_bytes_def min_def)
    with h Some show ?thesis by (auto simp: WriteFrame_def)
  next
    case None
    obtain n e2 d2 where w: "wr (Payload f) d1 = Some (n, e2, d2)"
      using wr_returns [OF h(2)] by blast
    have "out d2 = out d @ take (length ?hb + n) (frame_bytes f)"
      using h(4) None wr_out [OF h(2) w] by (simp add: frame_bytes_def)
    moreover have "e2 = None \<Longrightarrow> out d2 = out d @ frame_bytes f"
      using h(4) None wr_out [OF h(2) w] wr_full [OF h(2) w] by (simp add: frame_bytes_def)
    ultimately show ?thesis
      using h None wr_inv [OF h(2) w] by (auto simp: WriteFrame_def w)
  qed
qed

end

lemma CompileFrame_eq: "CompileFrame f = Some (frame_bytes f, None)"
  by (simp add: CompileFrame_def WriteFrame_def WriteHeader_def buffer_write_def frame_bytes_def
      header_bytes_eq)

section \<open>Reading from any reader\<close>

lemma wf_zero_header: "wf_header zero_header"
  by (simp add: wf_header_def)

lemma byte_and_less: "(b :: byte) AND 0x0f < 16" "drop_bit 4 ((b :: byte) AND 0x70) < 8"
proof -
  have "b AND 0x0f = take_bit 4 b" by (simp add: take_bit_eq_mask mask_eq_exp_minus_1)
  then have "uint (b AND 0x0f) < 16"
    using take_bit_int_less_exp [of 4 "uint b"] by (simp add: unsigned_take_bit_eq)
  then show "b AND 0x0f < 16" by (simp add: word_less_def)
  have "drop_bit 4 (b AND 0x70) = take_bit 3 (drop_bit 4 b)"
    by (rule bit_eqI)
      (auto simp: bit_drop_bit_eq bit_and_iff bit_byte_consts bit_take_bit_iff
        simp del: bit_numeral_word_iff drop_bit_and)
  then have "uint (drop_bit 4 (b AND 0x70)) < 8"
    using take_bit_int_less_exp [of 3 "uint (drop_bit 4 b)"] by (simp add: unsigned_take_bit_eq)
  then show "drop_bit 4 (b AND 0x70) < 8" by (simp add: word_less_def)
qed

lemma sint_ucast_nonneg:
  assumes "LENGTH('a::len) < 64"
  shows "0 \<le> sint (ucast (w :: 'a word) :: int64)"
proof -
  have "\<not> bit (ucast w :: int64) 63"
    using assms bit_imp_le_length [of w 63] by (auto simp: bit_ucast_iff)
  then show ?thesis using bit_last_iff [of "ucast w :: int64"] by simp
qed

lemma header_first_wf:
  "header_first b0 b1 = (h, extra) \<Longrightarrow> Rsv h < 8 \<and> OpCode h < 16 \<and> Mask h = zeroMask \<and> Length h = 0 \<and>
     (extra = 0 \<longleftrightarrow> \<not> Masked h) \<and> extra \<le> 4"
  using byte_and_less [of b0]
  by (auto simp: header_first_def Let_def zero_header_def split: if_splits)

lemma be_word_nonneg:
  assumes "length bts = 8" and "bts ! 0 AND 0x80 = 0"
  shows "0 \<le> sint (be_word bts :: int64)"
proof -
  have "\<not> bit (bts ! 0) 7"
  proof
    assume "bit (bts ! 0) 7"
    then have "bit (bts ! 0 AND 0x80) 7"
      by (simp add: bit_and_iff bit_byte_consts del: bit_numeral_word_iff)
    with assms show False by simp
  qed
  then have "\<not> bit (be_word bts :: int64) 63"
    using assms(1) by (simp add: be_word_def bit_le_word rev_nth)
  then show ?thesis using bit_last_iff [of "be_word bts :: int64"] by simp
qed

lemma header_rest_wf:
  assumes "header_rest h len bts = (h', None)" and "len = 127 \<Longrightarrow> 8 \<le> length bts"
    and "Rsv h < 8 \<and> OpCode h < 16 \<and> Mask h = zeroMask \<and> 0 \<le> sint (Length h)"
  shows "wf_header h'"
  using assms be_word_nonneg [of "take 8 bts"] sint_ucast_nonneg [of "be_word (take 2 bts) :: uint16"]
  by (auto simp: header_rest_def wf_header_def Let_def split: if_splits)

text \<open>
  \<open>ReadHeader\<close> as its two reads: what it does with the first two bytes, and then with the
  extra ones.
\<close>

definition first_step :: "byte \<Rightarrow> byte \<Rightarrow> (header \<times> nat) option" where
  "first_step b0 b1 =
     (let (h, extra) = header_first b0 b1; len = b1 AND 0x7f
      in if len < 126 then Some (h\<lparr>Length := ucast len\<rparr>, extra)
         else if len = 126 then Some (h, extra + 2)
         else if len = 127 then Some (h, extra + 8)
         else None)"

lemma ReadHeader_steps:
  "ReadHeader rd s = Option.bind (io_ReadFull rd 2 s) (\<lambda>(bts, e, s1).
     case e of
       Some er \<Rightarrow> Some (zero_header, Some er, s1)
     | None \<Rightarrow>
         (case first_step (bts ! 0) (bts ! 1) of
            None \<Rightarrow> Some (fst (header_first (bts ! 0) (bts ! 1)), Some ErrHeaderLengthUnexpected, s1)
          | Some (h, extra) \<Rightarrow>
              if extra = 0 then Some (h, None, s1)
              else Option.bind (io_ReadFull rd extra s1) (\<lambda>(bts2, e2, s2).
                case e2 of
                  Some er \<Rightarrow> Some (h, Some er, s2)
                | None \<Rightarrow> Some (fst (header_rest h (bts ! 1 AND 0x7f) bts2),
                    snd (header_rest h (bts ! 1 AND 0x7f) bts2), s2))))"
  unfolding ReadHeader_def first_step_def
  by (rule arg_cong [of _ _ "Option.bind (io_ReadFull rd 2 s)"])
    (auto simp: fun_eq_iff Let_def split_beta split: option.splits intro!: arg_cong [of _ _ "Option.bind _"])

lemma first_step_SomeD:
  assumes "first_step b0 b1 = Some (h, extra)"
  shows "Rsv h < 8 \<and> OpCode h < 16 \<and> Mask h = zeroMask \<and> 0 \<le> sint (Length h)"
    and "extra = 0 \<Longrightarrow> wf_header h" and "b1 AND 0x7f = 127 \<Longrightarrow> 8 \<le> extra"
proof -
  obtain h0 e0 where f: "header_first b0 b1 = (h0, e0)" by (cases "header_first b0 b1")
  note w = header_first_wf [OF f]
  show "Rsv h < 8 \<and> OpCode h < 16 \<and> Mask h = zeroMask \<and> 0 \<le> sint (Length h)"
    using assms w sint_ucast_nonneg [of "b1 AND 0x7f"]
    by (auto simp: first_step_def f Let_def split: if_splits)
  then show "extra = 0 \<Longrightarrow> wf_header h"
    using assms w by (auto simp: first_step_def f Let_def wf_header_def split: if_splits)
  show "b1 AND 0x7f = 127 \<Longrightarrow> 8 \<le> extra"
    using assms by (auto simp: first_step_def f Let_def split: if_splits)
qed

lemma first_step_total: "first_step b0 b1 \<noteq> None"
proof -
  have "b1 AND 0x7f = take_bit 7 b1" by (simp add: take_bit_eq_mask mask_eq_exp_minus_1)
  then have "uint (b1 AND 0x7f) < 128"
    using take_bit_int_less_exp [of 7 "uint b1"] by (simp add: unsigned_take_bit_eq)
  then have "b1 AND 0x7f < 126 \<or> b1 AND 0x7f = 126 \<or> b1 AND 0x7f = 127"
    by (auto simp: word_less_def word_uint_eq_iff)
  then show ?thesis by (auto simp: first_step_def Let_def split: prod.splits)
qed

context io_reader
begin

lemma ReadHeader_returns:
  assumes "inv s"
  shows "\<exists>h e s'. ReadHeader rd s = Some (h, e, s') \<and> inv s' \<and> fin s' \<le> fin s \<and>
    (e = None \<longrightarrow> fin s' < fin s \<and> wf_header h)"
proof -
  obtain bts e s1 where r: "io_ReadFull rd 2 s = Some (bts, e, s1)" "inv s1" "fin s1 \<le> fin s"
      "e = None \<longrightarrow> fin s1 < fin s"
    using io_ReadFull_returns [OF assms, of 2] by auto
  show ?thesis
  proof (cases e)
    case (Some er)
    with r show ?thesis by (simp add: ReadHeader_steps)
  next
    case None
    obtain h extra where f: "first_step (bts ! 0) (bts ! 1) = Some (h, extra)"
      using first_step_total [of "bts ! 0" "bts ! 1"] by (cases "first_step (bts ! 0) (bts ! 1)") auto
    note fD = first_step_SomeD [OF f]
    obtain bts2 e2 s2 where r2: "io_ReadFull rd extra s1 = Some (bts2, e2, s2)" "inv s2" "fin s2 \<le> fin s1"
        "e2 = None \<longrightarrow> length bts2 = extra"
      using io_ReadFull_returns [OF r(2), of extra] by auto
    show ?thesis
    proof (cases "extra = 0 \<or> e2 \<noteq> None")
      case True
      with r r2 None f fD show ?thesis by (auto simp: ReadHeader_steps)
    next
      case False
      then have "wf_header h'" if "header_rest h (bts ! 1 AND 0x7f) bts2 = (h', None)" for h'
        using header_rest_wf [OF that] fD r2 by simp
      then have "snd (header_rest h (bts ! 1 AND 0x7f) bts2) = None \<Longrightarrow>
          wf_header (fst (header_rest h (bts ! 1 AND 0x7f) bts2))"
        by (metis prod.collapse)
      with False r r2 None f show ?thesis by (auto simp: ReadHeader_steps)
    qed
  qed
qed

lemma ReadHeaderD:
  assumes "inv s" and "ReadHeader rd s = Some (h, e, s')"
  shows "inv s'" and "fin s' \<le> fin s" and "e = None \<Longrightarrow> fin s' < fin s" and "e = None \<Longrightarrow> wf_header h"
  using ReadHeader_returns [OF assms(1)] assms(2) by auto

text \<open>The panic of \<open>make\<close> is the only way in which \<open>ReadFrame\<close> does not return.\<close>

lemma ReadFrame_returns:
  assumes "inv s"
  shows "(\<exists>f e s'. ReadFrame rd s = Some (f, e, s') \<and> inv s' \<and> fin s' \<le> fin s \<and> (e = None \<longrightarrow> wf_frame f)) \<or>
    (ReadFrame rd s = None \<and> (\<exists>h s1. ReadHeader rd s = Some (h, None, s1) \<and> maxAlloc < sint (Length h)))"
proof -
  obtain h e s1 where r: "ReadHeader rd s = Some (h, e, s1)" "inv s1" "fin s1 \<le> fin s"
      "e = None \<longrightarrow> wf_header h"
    using ReadHeader_returns [OF assms] by blast
  consider (small) "e \<noteq> None \<or> sint (Length h) \<le> 0" | (big) "e = None" "0 < sint (Length h)" "maxAlloc < sint (Length h)"
    | (fits) "e = None" "0 < sint (Length h)" "sint (Length h) \<le> maxAlloc" by linarith
  then show ?thesis
  proof cases
    case small
    with r show ?thesis
      by (cases e) (auto simp: ReadFrame_def wf_frame_def wf_header_def)
  next
    case big
    with r(1) show ?thesis by (auto simp: ReadFrame_def make_bytes_None)
  next
    case fits
    obtain p e2 s2 where r2: "io_ReadFull rd (nat (sint (Length h))) s1 = Some (p, e2, s2)"
        "inv s2" "fin s2 \<le> fin s1"
      using io_ReadFull_returns [OF r(2)] by blast
    with fits r show ?thesis
      by (auto simp: ReadFrame_def wf_frame_def make_bytes_def)
  qed
qed

end

context io_stream
begin

lemma ReadFrame_encoded:
  assumes "inv s" and "wf_frame f" and "data s = frame_bytes f @ rest"
  shows "if int (length (Payload f)) \<le> maxAlloc
    then \<exists>s'. ReadFrame rd s = Some (f, None, s') \<and> data s' = rest \<and> ending s' = ending s \<and> inv s'
    else ReadFrame rd s = None"
proof -
  obtain s1 where h: "ReadHeader rd s = Some (Header f, None, s1)"
      "data s1 = Payload f @ rest" "ending s1 = ending s" "inv s1"
    using ReadHeader_encoded [OF assms(1), of "Header f" _ "Payload f @ rest"] assms(2,3)
    by (auto simp: wf_frame_def frame_bytes_def header_bytes_eq)
  have l: "sint (Length (Header f)) = int (length (Payload f))"
    using assms(2) by (simp add: wf_frame_def)
  consider (empty) "Payload f = []" | (fits) "Payload f \<noteq> []" "int (length (Payload f)) \<le> maxAlloc" | (big) "maxAlloc < int (length (Payload f))"
    by linarith
  then show ?thesis
  proof cases
    case empty
    with h l show ?thesis by (cases f) (simp add: ReadFrame_def maxAlloc_def)
  next
    case fits
    obtain s2 where "io_ReadFull rd (length (Payload f)) s1 = Some (Payload f, None, s2)"
        "data s2 = rest" "ending s2 = ending s" "inv s2"
      using io_ReadFull_enough [of s1 "length (Payload f)"] h by auto
    with h l fits show ?thesis
      by (cases f) (simp add: ReadFrame_def make_bytes_Some)
  next
    case big
    then have "Payload f \<noteq> []" by (auto simp: maxAlloc_def)
    with big h l show ?thesis by (simp add: ReadFrame_def make_bytes_None)
  qed
qed

end

section \<open>Properties\<close>

text \<open>
  C5: a frame the protocol can carry, written by \<open>WriteFrame\<close> and read back by
  \<open>ReadFrame\<close> from a connection that delivers the bytes in any pieces, is the same frame,
  and the connection is left exactly after it. A payload that no Go slice can hold makes
  \<open>ReadFrame\<close> panic.
\<close>

theorem frame_wire_roundtrip:
  assumes "wf_frame f" and "WriteFrame buffer_write f [] = Some (None, bs)"
    and "conn_sane s" and "conn_data s = bs @ rest"
  shows "if int (length (Payload f)) \<le> maxAlloc
    then \<exists>s'. ReadFrame conn_read s = Some (f, None, s') \<and> conn_data s' = rest \<and> conn_end s' = conn_end s
    else ReadFrame conn_read s = None"
proof -
  have "bs = frame_bytes f"
    using assms(2) buffer_w.WriteFrame_returns [where d = "[]" and f = f] by auto
  then show ?thesis using net.ReadFrame_encoded [OF assms(3,1)] assms(4) by auto
qed

theorem frame_wire_roundtrip_witness:
  "\<exists>s'. ReadFrame conn_read [REv [0x81] None, REv [0x02, 104] None, REv [105, 7] None] =
     Some (NewTextFrame [104, 105], None, s') \<and> conn_data s' = [7] \<and> conn_end s' = EOF"
proof -
  let ?s = "[REv [0x81] None, REv [0x02, 104] None, REv [105, 7] None]"
  have w: "WriteFrame buffer_write (NewTextFrame [104, 105]) [] = Some (None, [0x81, 0x02, 104, 105])"
    by code_simp
  have f: "wf_frame (NewTextFrame [104, 105])"
    by (simp add: wf_frame_def wf_header_def NewTextFrame_def NewFrame_def op_defs)
  have "conn_end ?s = EOF" "conn_sane ?s" "conn_data ?s = [0x81, 0x02, 104, 105] @ [7]" by simp_all
  with frame_wire_roundtrip [OF f w, of ?s "[7]"] show ?thesis by (simp add: maxAlloc_def NewTextFrame_def NewFrame_def)
qed

text \<open>
  \<open>ReadHeader\<close> returns on every connection, whatever it delivers and however it fails,
  and a header read without an error is one the protocol can carry: its length is not
  negative, and its reserved bits and operation code fit their fields.
\<close>

theorem ReadHeader_total:
  "\<exists>h e s'. ReadHeader conn_read s = Some (h, e, s') \<and> (e = None \<longrightarrow> wf_header h)"
  using conn.ReadHeader_returns [of s] by auto

theorem ReadHeader_total_witness:
  "\<exists>h s'. ReadHeader conn_read [REv [0x81, 0x05] None] = Some (h, None, s') \<and> wf_header h"
proof -
  have "ReadHeader conn_read [REv [0x81, 0x05] None] =
      Some (zero_header\<lparr>Fin := True, OpCode := 1, Length := 5\<rparr>, None, [])"
    by code_simp
  with ReadHeader_total [of "[REv [0x81, 0x05] None]"] show ?thesis by simp
qed

text \<open>
  How many bytes a header has, as far as its first bytes tell: 2, and from the second byte on the 4 of the
  mask and the 2 or 8 of a longer length.
\<close>

definition header_need :: "byte list \<Rightarrow> nat" where
  "header_need bs =
     (if length bs < 2 then 2
      else 2 + (if bs ! 1 AND bit0 \<noteq> 0 then 4 else 0) +
        (if bs ! 1 AND 0x7f = 126 then 2 else if bs ! 1 AND 0x7f = 127 then 8 else 0))"

lemma first_step_need:
  assumes "first_step b0 b1 = Some (h, extra)"
  shows "2 + extra = header_need (b0 # b1 # bs)"
proof -
  have "header_need (b0 # b1 # bs) = 2 + (if b1 AND bit0 \<noteq> 0 then 4 else 0) + (if b1 AND 0x7f = 126 then 2 else if b1 AND 0x7f = 127 then 8 else 0)"
    by (simp add: header_need_def)
  with assms show ?thesis
    by (auto simp: first_step_def header_first_def Let_def split: if_splits)
qed

text \<open>
  C37: a connection that ends inside of a frame header, after any number of bytes and whatever the header's
  length field and mask need: the error is \<open>ErrUnexpectedEOF\<close>, but it is \<open>EOF\<close>, the error of a clean end,
  after no byte and also after exactly two. A connection that breaks with another error reports that error.
\<close>

theorem ReadHeader_truncated:
  assumes "conn_sane s" and "length (conn_data s) < header_need (conn_data s)"
  shows "\<exists>h s'. ReadHeader conn_read s =
    Some (h, Some (if conn_end s = EOF \<and> length (conn_data s) \<notin> {0, 2} then ErrUnexpectedEOF else conn_end s), s')"
proof (cases "length (conn_data s) < 2")
  case True
  then show ?thesis
    using net.io_ReadFull_short [OF assms(1) True] by (auto simp: ReadHeader_def)
next
  case False
  then obtain b0 b1 more where d: "conn_data s = b0 # b1 # more" by (cases "conn_data s"; cases "tl (conn_data s)") auto
  obtain s1 where s1: "io_ReadFull conn_read 2 s = Some ([b0, b1], None, s1)" "conn_data s1 = more"
      "conn_end s1 = conn_end s" "conn_sane s1"
    using net.io_ReadFull_enough [OF assms(1), of 2] d by auto
  obtain h extra where f: "first_step b0 b1 = Some (h, extra)"
    using first_step_total [of b0 b1] by auto
  have x: "length more < extra" using assms(2) first_step_need [OF f, of more] d by simp
  then obtain s2 where "io_ReadFull conn_read extra s1 =
      Some (more, Some (if more \<noteq> [] \<and> conn_end s = EOF then ErrUnexpectedEOF else conn_end s), s2)"
    using net.io_ReadFull_short [OF s1(4), of extra] s1(2,3) by (auto split: if_splits)
  with s1(1) f x d show ?thesis by (auto simp: ReadHeader_steps)
qed

text \<open>A masked header with a 16-bit length, cut after its fifth byte, and cut after its second.\<close>

theorem ReadHeader_truncated_witness:
  "(\<exists>h s'. ReadHeader conn_read [REv [0x81] None, REv [0xFE, 1, 0, 9] None] = Some (h, Some ErrUnexpectedEOF, s')) \<and>
   (\<exists>h s'. ReadHeader conn_read [REv [0x81, 0x7E] None] = Some (h, Some EOF, s'))"
  using ReadHeader_truncated [of "[REv [0x81] None, REv [0xFE, 1, 0, 9] None]"] ReadHeader_truncated [of "[REv [0x81, 0x7E] None]"]
  by (simp add: bit0_def header_need_def)

text \<open>
  Whatever the network does to the two writes, \<open>WriteFrame\<close> returns, what reached the
  peer is a prefix of the frame's encoding, and all of it when no error is reported.
\<close>

theorem WriteFrame_prefix:
  "\<exists>e d' k. WriteFrame conn_write f d = Some (e, d') \<and>
     conn_out d' = conn_out d @ take k (frame_bytes f) \<and>
     (e = None \<longrightarrow> conn_out d' = conn_out d @ frame_bytes f)"
  using conn_w.WriteFrame_returns [where d = d and f = f] by auto

theorem WriteFrame_prefix_witness:
  "\<exists>d'. WriteFrame conn_write (NewPingFrame [1]) \<lparr>sent = [], faults = [], rands = \<lambda>_. 0\<rparr> = Some (None, d') \<and>
     conn_out d' = frame_bytes (NewPingFrame [1])"
proof -
  let ?d = "\<lparr>sent = [], faults = [], rands = \<lambda>_. 0\<rparr>"
  obtain d' where "WriteFrame conn_write (NewPingFrame [1]) ?d = Some (None, d')"
    by (simp add: WriteFrame_def WriteHeader_def header_bytes_eq)
  with WriteFrame_prefix [of "NewPingFrame [1]" ?d] show ?thesis by (auto simp: conn_out_def)
qed

text \<open>
  C38: \<open>HeaderSize\<close> is the number of bytes \<open>WriteHeader\<close> writes, between 2 and 14, for
  every 64-bit length, negative ones included: neither its answer -1 nor the error of
  \<open>WriteHeader\<close> is ever used.
\<close>

theorem HeaderSize_correct:
  "\<exists>bs. header_bytes h = Some bs \<and> HeaderSize h = int (length bs) \<and>
     MinHeaderSize \<le> length bs \<and> length bs \<le> MaxHeaderSize"
  using HeaderSize_bytes header_bytes_bounds by (simp add: header_bytes_eq)

text \<open>
  The frames compiled when the package is loaded never panic, and their bytes are the
  two-byte header of an empty control frame, or the close header followed by the code.
\<close>

theorem compiled_frames:
  "CompiledPing = Some [0x89, 0] \<and> CompiledPong = Some [0x8a, 0] \<and> CompiledClose = Some [0x88, 0] \<and>
   CompiledCloseFrames = map (\<lambda>c :: uint16. Some ([0x88, 2] @ be_bytes 2 c))
     [1000, 1001, 1002, 1003, 1004, 1007, 1008, 1009, 1010, 1011, 1015]"
proof -
  have "be_bytes 2 c = [ucast (drop_bit 8 c), ucast c]" for c :: uint16
    by (simp add: be_bytes_def numeral_2_eq_2)
  moreover have "CompiledPing = Some [0x89, 0]" "CompiledPong = Some [0x8a, 0]" "CompiledClose = Some [0x88, 0]"
    by code_simp+
  moreover have "CompiledCloseFrames = map (\<lambda>c :: uint16. Some ([0x88, 2] @ be_bytes 2 c))
     [1000, 1001, 1002, 1003, 1004, 1007, 1008, 1009, 1010, 1011, 1015]"
    by code_simp
  ultimately show ?thesis by blast
qed

end
