(* ===== verification/Check.thy ===== *)
theory Check
  imports Frames
begin

text \<open>
  Protocol checks (check.go): the endpoint state as a set of flags in one byte, the check
  of a frame header against that state, and the check of close information. The standard
  library's \<open>utf8.ValidString\<close>, which the close check uses, is written out here: a string
  is valid when it is a sequence of well-formed encodings of Unicode scalar values.
\<close>

section \<open>Endpoint state\<close>

definition StateServerSide :: byte where "StateServerSide = 0x1"
definition StateClientSide :: byte where "StateClientSide = 0x2"
definition StateExtended :: byte where "StateExtended = 0x4"
definition StateFragmented :: byte where "StateFragmented = 0x8"

lemmas state_defs = StateServerSide_def StateClientSide_def StateExtended_def StateFragmented_def

definition Is :: "byte \<Rightarrow> byte \<Rightarrow> bool" where "Is s v \<longleftrightarrow> s AND v \<noteq> 0"
definition Set :: "byte \<Rightarrow> byte \<Rightarrow> byte" where "Set s v = s OR v"
definition Clear :: "byte \<Rightarrow> byte \<Rightarrow> byte" where "Clear s v = s AND NOT v"

definition ServerSide :: "byte \<Rightarrow> bool" where "ServerSide s = Is s StateServerSide"
definition ClientSide :: "byte \<Rightarrow> bool" where "ClientSide s = Is s StateClientSide"
definition Extended :: "byte \<Rightarrow> bool" where "Extended s = Is s StateExtended"
definition Fragmented :: "byte \<Rightarrow> bool" where "Fragmented s = Is s StateFragmented"

lemma Is_bit: "Is s (2 ^ n) \<longleftrightarrow> bit s n"
proof
  assume "Is s (2 ^ n)"
  then obtain i where "bit (s AND 2 ^ n) i"
    by (metis Is_def bit_eqI bit_0_eq bot_fun_def bot_bool_def)
  then show "bit s n" by (auto simp: bit_and_iff bit_exp_iff)
next
  assume b: "bit s n"
  then have "bit (s AND 2 ^ n) n" using bit_imp_le_length [OF b] by (auto simp: bit_and_iff bit_exp_iff)
  then show "Is s (2 ^ n)" by (auto simp: Is_def)
qed

lemma state_exp:
  "StateServerSide = 2 ^ 0" "StateClientSide = 2 ^ 1" "StateExtended = 2 ^ 2" "StateFragmented = 2 ^ 3"
  by (simp_all add: state_defs)

lemma flag_bits:
  "ServerSide s \<longleftrightarrow> bit s 0" "ClientSide s \<longleftrightarrow> bit s 1" "Extended s \<longleftrightarrow> bit s 2" "Fragmented s \<longleftrightarrow> bit s 3"
  by (simp_all only: ServerSide_def ClientSide_def Extended_def Fragmented_def state_exp Is_bit)

lemma bit_Set_Fragmented: "bit (Set s StateFragmented) i \<longleftrightarrow> i = 3 \<or> bit s i"
  unfolding Set_def state_exp by (auto simp: bit_or_iff bit_exp_iff simp del: power_numeral)

lemma bit_Clear_Fragmented: "bit (Clear s StateFragmented) i \<longleftrightarrow> i \<noteq> 3 \<and> bit s i"
  unfolding Clear_def state_exp
  using bit_imp_le_length [of s i] by (auto simp: bit_and_iff bit_not_iff bit_exp_iff simp del: power_numeral)

lemma Set_Clear_flags [simp]:
  "Fragmented (Set s StateFragmented)" "\<not> Fragmented (Clear s StateFragmented)"
  "ServerSide (Set s StateFragmented) = ServerSide s" "ServerSide (Clear s StateFragmented) = ServerSide s"
  "ClientSide (Set s StateFragmented) = ClientSide s" "ClientSide (Clear s StateFragmented) = ClientSide s"
  "Extended (Set s StateFragmented) = Extended s" "Extended (Clear s StateFragmented) = Extended s"
  by (simp_all add: flag_bits bit_Set_Fragmented bit_Clear_Fragmented)

lemma Clear_unfragmented: "\<not> Fragmented s \<Longrightarrow> Clear s StateFragmented = s"
  by (rule bit_eqI) (auto simp: bit_Clear_Fragmented flag_bits)

lemma Clear_Set_Fragmented:
  "\<not> Fragmented s \<Longrightarrow> Clear (Set s StateFragmented) StateFragmented = s"
  by (rule bit_eqI) (auto simp: bit_Clear_Fragmented bit_Set_Fragmented flag_bits)

lemma Clear_again [simp]:
  "Clear (Clear s StateFragmented) StateFragmented = Clear s StateFragmented"
  "Clear (Set s StateFragmented) StateFragmented = Clear s StateFragmented"
  by (rule bit_eqI, auto simp: bit_Clear_Fragmented bit_Set_Fragmented)+

section \<open>Errors of the checkers\<close>

definition ErrProtocolOpCodeReserved :: err where
  "ErrProtocolOpCodeReserved = ProtocolError ''use of reserved op code''"
definition ErrProtocolControlPayloadOverflow :: err where
  "ErrProtocolControlPayloadOverflow = ProtocolError ''control frame payload limit exceeded''"
definition ErrProtocolControlNotFinal :: err where
  "ErrProtocolControlNotFinal = ProtocolError ''control frame is not final''"
definition ErrProtocolNonZeroRsv :: err where
  "ErrProtocolNonZeroRsv = ProtocolError ''non-zero rsv bits with no extension negotiated''"
definition ErrProtocolMaskRequired :: err where
  "ErrProtocolMaskRequired = ProtocolError ''frames from client to server must be masked''"
definition ErrProtocolMaskUnexpected :: err where
  "ErrProtocolMaskUnexpected = ProtocolError ''frames from server to client must be not masked''"
definition ErrProtocolContinuationExpected :: err where
  "ErrProtocolContinuationExpected = ProtocolError ''unexpected non-continuation data frame''"
definition ErrProtocolContinuationUnexpected :: err where
  "ErrProtocolContinuationUnexpected = ProtocolError ''unexpected continuation data frame''"
definition ErrProtocolStatusCodeNotInUse :: err where
  "ErrProtocolStatusCodeNotInUse = ProtocolError ''status code is not in use''"
definition ErrProtocolStatusCodeApplicationLevel :: err where
  "ErrProtocolStatusCodeApplicationLevel = ProtocolError ''status code is only application level''"
definition ErrProtocolStatusCodeNoMeaning :: err where
  "ErrProtocolStatusCodeNoMeaning = ProtocolError ''status code has no meaning yet''"
definition ErrProtocolStatusCodeUnknown :: err where
  "ErrProtocolStatusCodeUnknown = ProtocolError ''status code is not defined in spec''"
definition ErrProtocolInvalidUTF8 :: err where
  "ErrProtocolInvalidUTF8 = ProtocolError ''invalid utf8 sequence in close reason''"

section \<open>Checking a header\<close>

definition CheckHeader :: "header \<Rightarrow> byte \<Rightarrow> err option" where
  "CheckHeader h s =
     (if IsReserved (OpCode h) then Some ErrProtocolOpCodeReserved
      else if IsControl (OpCode h) \<and> sint (Length h) > int MaxControlFramePayloadSize then
        Some ErrProtocolControlPayloadOverflow
      else if IsControl (OpCode h) \<and> \<not> Fin h then Some ErrProtocolControlNotFinal
      else if Rsv h \<noteq> 0 \<and> \<not> Extended s then Some ErrProtocolNonZeroRsv
      else if ServerSide s \<and> \<not> Masked h then Some ErrProtocolMaskRequired
      else if ClientSide s \<and> Masked h then Some ErrProtocolMaskUnexpected
      else if Fragmented s \<and> \<not> IsControl (OpCode h) \<and> OpCode h \<noteq> OpContinuation then
        Some ErrProtocolContinuationExpected
      else if \<not> Fragmented s \<and> OpCode h = OpContinuation then
        Some ErrProtocolContinuationUnexpected
      else None)"

section \<open>Valid UTF-8 strings (standard library)\<close>

definition in_range :: "byte \<Rightarrow> byte \<Rightarrow> byte \<Rightarrow> bool" where
  "in_range lo hi b \<longleftrightarrow> lo \<le> b \<and> b \<le> hi"

definition cont :: "byte \<Rightarrow> bool" where
  "cont b = in_range 0x80 0xBF b"

text \<open>
  The well-formed byte sequences of the Unicode standard (its table 3-7), which the accept
  ranges of package \<open>unicode/utf8\<close> follow: no overlong forms, no surrogates, nothing
  above U+10FFFF.
\<close>

fun ValidString :: "byte list \<Rightarrow> bool" where
  "ValidString [] = True"
| "ValidString (a # r) =
     (if a < 0x80 then ValidString r
      else case r of
        [] \<Rightarrow> False
      | b # r1 \<Rightarrow>
          (if in_range 0xC2 0xDF a then cont b \<and> ValidString r1
           else case r1 of
             [] \<Rightarrow> False
           | c # r2 \<Rightarrow>
               (if a = 0xE0 then in_range 0xA0 0xBF b \<and> cont c \<and> ValidString r2
                else if a = 0xED then in_range 0x80 0x9F b \<and> cont c \<and> ValidString r2
                else if in_range 0xE1 0xEF a then cont b \<and> cont c \<and> ValidString r2
                else case r2 of
                  [] \<Rightarrow> False
                | d # r3 \<Rightarrow>
                    (if a = 0xF0 then in_range 0x90 0xBF b \<and> cont c \<and> cont d \<and> ValidString r3
                     else if a = 0xF4 then in_range 0x80 0x8F b \<and> cont c \<and> cont d \<and> ValidString r3
                     else if in_range 0xF1 0xF3 a then cont b \<and> cont c \<and> cont d \<and> ValidString r3
                     else False))))"

section \<open>Checking close information\<close>

definition CheckCloseFrameData :: "uint16 \<Rightarrow> byte list \<Rightarrow> err option" where
  "CheckCloseFrameData code reason =
     (if IsNotUsed code then Some ErrProtocolStatusCodeNotInUse
      else if IsProtocolReserved code then Some ErrProtocolStatusCodeApplicationLevel
      else if code = StatusNoMeaningYet then Some ErrProtocolStatusCodeNoMeaning
      else if IsProtocolSpec code \<and> \<not> IsProtocolDefined code then Some ErrProtocolStatusCodeUnknown
      else if \<not> ValidString reason then Some ErrProtocolInvalidUTF8
      else None)"

section \<open>What the checks accept\<close>

text \<open>The control operation codes are those with the fourth bit set.\<close>

lemma opcode_kinds:
  assumes "c < 16"
  shows "IsControl c \<longleftrightarrow> 8 \<le> c" and
    "\<not> IsReserved c \<longleftrightarrow> c \<in> {OpContinuation, OpText, OpBinary, OpClose, OpPing, OpPong}"
proof -
  have all: "\<forall>n \<in> set [0..<16]. let c = of_nat n :: byte in (IsControl c \<longleftrightarrow> 8 \<le> c) \<and>
      (\<not> IsReserved c \<longleftrightarrow> c \<in> {OpContinuation, OpText, OpBinary, OpClose, OpPing, OpPong})"
    by code_simp
  have "unat c < 16" using assms by (simp add: word_less_nat_alt)
  with all have "let d = of_nat (unat c) :: byte in (IsControl d \<longleftrightarrow> 8 \<le> d) \<and>
      (\<not> IsReserved d \<longleftrightarrow> d \<in> {OpContinuation, OpText, OpBinary, OpClose, OpPing, OpPong})"
    by (metis atLeastLessThan_iff set_upt zero_le)
  then show "IsControl c \<longleftrightarrow> 8 \<le> c" and
    "\<not> IsReserved c \<longleftrightarrow> c \<in> {OpContinuation, OpText, OpBinary, OpClose, OpPing, OpPong}"
    by (simp_all add: Let_def)
qed

lemma CheckHeader_None:
  "CheckHeader h s = None \<longleftrightarrow>
     \<not> IsReserved (OpCode h) \<and>
     (IsControl (OpCode h) \<longrightarrow> sint (Length h) \<le> 125 \<and> Fin h) \<and>
     (Rsv h = 0 \<or> Extended s) \<and>
     (ServerSide s \<longrightarrow> Masked h) \<and> (ClientSide s \<longrightarrow> \<not> Masked h) \<and>
     (if Fragmented s then IsControl (OpCode h) \<or> OpCode h = OpContinuation
      else OpCode h \<noteq> OpContinuation)"
  by (auto simp: CheckHeader_def MaxControlFramePayloadSize_def)

lemma CheckCloseFrameData_None:
  "CheckCloseFrameData code reason = None \<longleftrightarrow>
     (unat code \<in> {1000..1003} \<union> {1007..1011} \<or> 3000 \<le> unat code) \<and> ValidString reason"
  (is "?l \<longleftrightarrow> ?r")
proof -
  have e: "code = c \<longleftrightarrow> unat code = unat c" for c
    by (simp add: word_unat_eq_iff)
  show ?thesis
    unfolding CheckCloseFrameData_def IsProtocolReserved_def IsProtocolDefined_def status_range_defs
      status_defs word_le_nat_alt
    by (simp add: e) auto
qed

section \<open>Fragmentation\<close>

text \<open>
  How an endpoint's state follows the headers it accepts (the end of \<open>Reader.NextFrame\<close> in
  msutil/reader.go): control frames leave it alone, the other frames set or clear the
  fragmented flag. \<open>check_all\<close> checks a sequence of headers one after the other and
  answers the final state if every check passes.
\<close>

definition next_state :: "byte \<Rightarrow> header \<Rightarrow> byte" where
  "next_state s h =
     (if Fragmented s \<and> IsControl (OpCode h) then s
      else if Fin h then Clear s StateFragmented
      else Set s StateFragmented)"

fun check_all :: "byte \<Rightarrow> header list \<Rightarrow> byte option" where
  "check_all s [] = Some s"
| "check_all s (h # hs) =
     (case CheckHeader h s of Some e \<Rightarrow> None | None \<Rightarrow> check_all (next_state s h) hs)"

text \<open>
  The grammar of RFC 6455, section 5.4: a stream is a sequence of control frames and
  messages; a message is one final data frame, or a data frame that is not final followed by
  continuation frames, the last one final, with control frames anywhere between them.
\<close>

definition control_hdr :: "header \<Rightarrow> bool" where
  "control_hdr h \<longleftrightarrow> OpCode h \<in> {OpClose, OpPing, OpPong} \<and> Fin h \<and> sint (Length h) \<le> 125"

definition data_hdr :: "header \<Rightarrow> bool" where
  "data_hdr h \<longleftrightarrow> OpCode h \<in> {OpText, OpBinary}"

inductive rfc_tail :: "header list \<Rightarrow> bool" and rfc_stream :: "header list \<Rightarrow> bool" where
  stream_nil: "rfc_stream []"
| stream_control: "control_hdr h \<Longrightarrow> rfc_stream hs \<Longrightarrow> rfc_stream (h # hs)"
| stream_single: "data_hdr h \<Longrightarrow> Fin h \<Longrightarrow> rfc_stream hs \<Longrightarrow> rfc_stream (h # hs)"
| stream_first: "data_hdr h \<Longrightarrow> \<not> Fin h \<Longrightarrow> rfc_tail hs \<Longrightarrow> rfc_stream (h # hs)"
| tail_control: "control_hdr h \<Longrightarrow> rfc_tail hs \<Longrightarrow> rfc_tail (h # hs)"
| tail_next: "OpCode h = OpContinuation \<Longrightarrow> \<not> Fin h \<Longrightarrow> rfc_tail hs \<Longrightarrow> rfc_tail (h # hs)"
| tail_last: "OpCode h = OpContinuation \<Longrightarrow> Fin h \<Longrightarrow> rfc_stream hs \<Longrightarrow> rfc_tail (h # hs)"

inductive_simps rfc_stream_simps: "rfc_stream []" "rfc_stream (h # hs)"
inductive_simps rfc_tail_simps: "rfc_tail []" "rfc_tail (h # hs)"

text \<open>What a header must say apart from its place in the stream.\<close>

definition hdr_bits_ok :: "byte \<Rightarrow> header \<Rightarrow> bool" where
  "hdr_bits_ok s h \<longleftrightarrow> (Rsv h = 0 \<or> Extended s) \<and>
     (ServerSide s \<longrightarrow> Masked h) \<and> (ClientSide s \<longrightarrow> \<not> Masked h)"

lemma hdr_kinds:
  assumes "OpCode h < 16"
  shows "\<not> IsReserved (OpCode h) \<and> (IsControl (OpCode h) \<longrightarrow> sint (Length h) \<le> 125 \<and> Fin h) \<longleftrightarrow>
      control_hdr h \<or> data_hdr h \<or> OpCode h = OpContinuation"
    and "control_hdr h \<Longrightarrow> IsControl (OpCode h) \<and> OpCode h \<noteq> OpContinuation \<and> \<not> data_hdr h \<and> Fin h"
    and "data_hdr h \<Longrightarrow> \<not> IsControl (OpCode h) \<and> OpCode h \<noteq> OpContinuation"
  using opcode_kinds (2) [OF assms] by (auto simp: control_hdr_def data_hdr_def op_defs IsControl_def)

lemma next_state_flags [simp]:
  "Extended (next_state s h) = Extended s" "ServerSide (next_state s h) = ServerSide s"
  "ClientSide (next_state s h) = ClientSide s"
  by (simp_all add: next_state_def)

lemma hdr_bits_ok_next [simp]: "hdr_bits_ok (next_state s h) = hdr_bits_ok s"
  by (simp add: hdr_bits_ok_def fun_eq_iff)

lemma next_state_Fragmented:
  "Fragmented (next_state s h) \<longleftrightarrow> (Fragmented s \<and> IsControl (OpCode h)) \<or> \<not> Fin h"
  by (simp add: next_state_def)

lemma CheckHeader_grammar:
  assumes "OpCode h < 16"
  shows "CheckHeader h s = None \<longleftrightarrow> hdr_bits_ok s h \<and>
    (control_hdr h \<or> (if Fragmented s then OpCode h = OpContinuation else data_hdr h))"
  using hdr_kinds [OF assms] by (auto simp: CheckHeader_None hdr_bits_ok_def)

lemma check_all_grammar:
  "\<forall>h \<in> set hs. OpCode h < 16 \<Longrightarrow>
     (\<exists>s'. check_all s hs = Some s' \<and> \<not> Fragmented s') \<longleftrightarrow>
       (if Fragmented s then rfc_tail hs else rfc_stream hs) \<and> (\<forall>h \<in> set hs. hdr_bits_ok s h)"
proof (induction hs arbitrary: s)
  case Nil
  then show ?case by (simp add: rfc_stream_simps rfc_tail_simps)
next
  case (Cons h hs)
  then have op: "OpCode h < 16" by simp
  have IH: "(\<exists>s'. check_all (next_state s h) hs = Some s' \<and> \<not> Fragmented s') \<longleftrightarrow>
      (if Fragmented (next_state s h) then rfc_tail hs else rfc_stream hs) \<and>
      (\<forall>h \<in> set hs. hdr_bits_ok s h)"
    using Cons.IH [of "next_state s h"] Cons.prems by simp
  show ?case
  proof (cases "CheckHeader h s")
    case None
    then have "hdr_bits_ok s h"
      and "control_hdr h \<or> (if Fragmented s then OpCode h = OpContinuation else data_hdr h)"
      by (simp_all add: CheckHeader_grammar [OF op])
    with None IH hdr_kinds(2,3) [OF op] show ?thesis
      by (cases "Fragmented s"; cases "Fin h")
        (auto simp: rfc_stream_simps rfc_tail_simps next_state_Fragmented)
  next
    case (Some e)
    then have "\<not> (hdr_bits_ok s h \<and>
        (control_hdr h \<or> (if Fragmented s then OpCode h = OpContinuation else data_hdr h)))"
      by (simp flip: CheckHeader_grammar [OF op])
    with Some show ?thesis
      by (auto simp: rfc_stream_simps rfc_tail_simps)
  qed
qed

section \<open>Properties\<close>

text \<open>
  \<open>CheckCloseFrameData\<close> accepts exactly the codes 1000 to 1003, 1007 to 1011 and all
  from 3000 on, with a reason that is valid UTF-8.
\<close>

theorem close_data_accepted:
  "CheckCloseFrameData code reason = None \<longleftrightarrow>
     (unat code \<in> {1000..1003} \<union> {1007..1011} \<or> 3000 \<le> unat code) \<and> ValidString reason"
  by (rule CheckCloseFrameData_None)

text \<open>
  C1: the header check, applied along a sequence of headers while the state follows them,
  accepts exactly the streams of RFC 6455: control frames anywhere, each message one final
  data frame or a fragmented one, and every header with the mask and reserved bits its side
  and its extensions require. Operation codes are the four bits a header can carry.
\<close>

theorem check_stream_grammar:
  assumes "\<not> Fragmented s" and "\<forall>h \<in> set hs. OpCode h < 16"
  shows "(\<exists>s'. check_all s hs = Some s' \<and> \<not> Fragmented s') \<longleftrightarrow>
    rfc_stream hs \<and> (\<forall>h \<in> set hs. hdr_bits_ok s h)"
  using check_all_grammar [OF assms(2), of s] assms(1) by simp

theorem check_stream_grammar_witness:
  "\<exists>s'. check_all 0 [zero_header\<lparr>OpCode := OpText\<rparr>, zero_header\<lparr>Fin := True, OpCode := OpPing\<rparr>,
     zero_header\<lparr>Fin := True\<rparr>] = Some s' \<and> \<not> Fragmented s'"
proof -
  let ?hs = "[zero_header\<lparr>OpCode := OpText\<rparr>, zero_header\<lparr>Fin := True, OpCode := OpPing\<rparr>, zero_header\<lparr>Fin := True\<rparr>]"
  have "\<forall>h \<in> set ?hs. OpCode h < 16" by (simp add: op_defs)
  moreover have "rfc_stream ?hs"
    by (simp add: rfc_stream_simps rfc_tail_simps data_hdr_def control_hdr_def op_defs)
  moreover have "\<forall>h \<in> set ?hs. hdr_bits_ok 0 h" by (simp add: hdr_bits_ok_def flag_bits)
  moreover have "\<not> Fragmented 0" by (simp add: flag_bits)
  ultimately show ?thesis
    using check_stream_grammar [of 0 ?hs] by blast
qed

end
