(* ===== verification/Utf8.thy ===== *)
theory Utf8
  imports Check
begin

text \<open>
  The streaming UTF-8 check (msutil/utf8.go): the table-driven automaton \<open>decode\<close> and
  \<open>UTF8Reader\<close>, which runs it over the bytes read from its source. The lemmas relate the
  table to \<open>ValidString\<close>: the automaton accepts the valid strings, and rejects at the first
  byte after which no continuation can make the string valid.
\<close>

section \<open>The automaton\<close>

definition utf8Accept :: uint32 where "utf8Accept = 0"
definition utf8Reject :: uint32 where "utf8Reject = 12"

definition utf8d :: "byte list" where
  "utf8d =
   [0, 0, 0, 0, 0, 0, 0, 0, 0, 0, 0, 0, 0, 0, 0, 0, 0, 0, 0, 0, 0, 0, 0, 0, 0, 0, 0, 0, 0, 0, 0, 0,
    0, 0, 0, 0, 0, 0, 0, 0, 0, 0, 0, 0, 0, 0, 0, 0, 0, 0, 0, 0, 0, 0, 0, 0, 0, 0, 0, 0, 0, 0, 0, 0,
    0, 0, 0, 0, 0, 0, 0, 0, 0, 0, 0, 0, 0, 0, 0, 0, 0, 0, 0, 0, 0, 0, 0, 0, 0, 0, 0, 0, 0, 0, 0, 0,
    0, 0, 0, 0, 0, 0, 0, 0, 0, 0, 0, 0, 0, 0, 0, 0, 0, 0, 0, 0, 0, 0, 0, 0, 0, 0, 0, 0, 0, 0, 0, 0,
    1, 1, 1, 1, 1, 1, 1, 1, 1, 1, 1, 1, 1, 1, 1, 1, 9, 9, 9, 9, 9, 9, 9, 9, 9, 9, 9, 9, 9, 9, 9, 9,
    7, 7, 7, 7, 7, 7, 7, 7, 7, 7, 7, 7, 7, 7, 7, 7, 7, 7, 7, 7, 7, 7, 7, 7, 7, 7, 7, 7, 7, 7, 7, 7,
    8, 8, 2, 2, 2, 2, 2, 2, 2, 2, 2, 2, 2, 2, 2, 2, 2, 2, 2, 2, 2, 2, 2, 2, 2, 2, 2, 2, 2, 2, 2, 2,
    10, 3, 3, 3, 3, 3, 3, 3, 3, 3, 3, 3, 3, 4, 3, 3, 11, 6, 6, 6, 5, 8, 8, 8, 8, 8, 8, 8, 8, 8, 8, 8,
    0, 12, 24, 36, 60, 96, 84, 12, 12, 12, 48, 72, 12, 12, 12, 12, 12, 12, 12, 12, 12, 12, 12, 12,
    12, 0, 12, 12, 12, 12, 12, 0, 12, 0, 12, 12, 12, 24, 12, 12, 12, 12, 12, 24, 12, 24, 12, 12,
    12, 12, 12, 12, 12, 12, 12, 24, 12, 12, 12, 12, 12, 24, 12, 12, 12, 12, 12, 12, 12, 24, 12, 12,
    12, 12, 12, 12, 12, 12, 12, 36, 12, 36, 12, 12, 12, 36, 12, 12, 12, 12, 12, 36, 12, 36, 12, 12,
    12, 36, 12, 12, 12, 12, 12, 12, 12, 12, 12, 12]"

text \<open>An index beyond the table panics (\<open>None\<close>).\<close>

definition decode :: "uint32 \<Rightarrow> uint32 \<Rightarrow> byte \<Rightarrow> (uint32 \<times> uint32) option" where
  "decode state codep b =
     (let t = ucast (utf8d ! unat b) :: uint32;
          codep = (if state \<noteq> utf8Accept then (ucast b AND 0x3f) OR push_bit 6 codep
                   else drop_bit (unat t) 0xff AND ucast b);
          i = unat (256 + state + t)
      in if i < length utf8d then Some (codep, ucast (utf8d ! i)) else None)"

section \<open>The reader\<close>

text \<open>A \<open>nil\<close> source is \<open>None\<close>; reading from it panics.\<close>

record 's UTF8Reader =
  Source :: "'s option"
  accepted :: nat
  state :: uint32
  codep :: uint32

definition NewUTF8Reader :: "'s option \<Rightarrow> 's UTF8Reader" where
  "NewUTF8Reader r = \<lparr>Source = r, accepted = 0, state = 0, codep = 0\<rparr>"

definition UTF8Reader_Reset :: "'s UTF8Reader \<Rightarrow> 's option \<Rightarrow> 's UTF8Reader" where
  "UTF8Reader_Reset u r = u\<lparr>Source := r, state := 0, codep := 0\<rparr>"

text \<open>
  The loop of \<open>Read\<close> over the bytes from index \<open>i\<close> on: whether it stopped on a rejected
  byte, the state and code point, and the accepted count.
\<close>

fun utf8_scan :: "nat \<Rightarrow> uint32 \<Rightarrow> uint32 \<Rightarrow> nat \<Rightarrow> byte list \<Rightarrow> (bool \<times> uint32 \<times> uint32 \<times> nat) option" where
  "utf8_scan i s c acc [] = Some (False, s, c, acc)"
| "utf8_scan i s c acc (b # bs) =
     (case decode s c b of
        None \<Rightarrow> None
      | Some (c', s') \<Rightarrow>
          if s' = utf8Reject then Some (True, s', c', acc)
          else utf8_scan (Suc i) s' c' (if s' = utf8Accept then i + 1 else acc) bs)"

text \<open>
  \<open>Read\<close> answers the count it reports, the bytes stored at the front of the buffer, the
  error and the reader. On a rejected byte the count is less than what was stored, and the
  fields \<open>codep\<close> and \<open>accepted\<close> keep their values.
\<close>

definition UTF8Reader_Read ::
  "'s rd \<Rightarrow> nat \<Rightarrow> 's UTF8Reader \<Rightarrow> (nat \<times> byte list \<times> err option \<times> 's UTF8Reader) option" where
  "UTF8Reader_Read rd k u =
     (case Source u of
        None \<Rightarrow> None
      | Some s \<Rightarrow> do {
          (bs, e, s') \<leftarrow> rd k s;
          (rejected, st, cp, acc) \<leftarrow> utf8_scan 0 (state u) (codep u) 0 bs;
          (if rejected then Some (acc, bs, Some ErrInvalidUTF8, u\<lparr>Source := Some s', state := st\<rparr>)
           else Some (length bs, bs, e,
             u\<lparr>Source := Some s', state := st, codep := cp, accepted := acc\<rparr>))
        })"

text \<open>The same call seen through \<open>io.Reader\<close>: a caller uses the reported count only.\<close>

definition utf8_read :: "'s rd \<Rightarrow> 's UTF8Reader rd" where
  "utf8_read rd k u =
     map_option (\<lambda>(n, bs, e, u'). (take n bs, e, u')) (UTF8Reader_Read rd k u)"

definition UTF8Reader_Valid :: "'s UTF8Reader \<Rightarrow> bool" where
  "UTF8Reader_Valid u \<longleftrightarrow> state u = utf8Accept"

definition UTF8Reader_Accepted :: "'s UTF8Reader \<Rightarrow> nat" where
  "UTF8Reader_Accepted u = accepted u"

section \<open>The table\<close>

text \<open>The class of a byte, and the transition on classes.\<close>

definition utf8_class :: "nat \<Rightarrow> nat" where
  "utf8_class n =
     (if n < 0x80 then 0 else if n < 0x90 then 1 else if n < 0xA0 then 9 else if n < 0xC0 then 7
      else if n < 0xC2 then 8 else if n < 0xE0 then 2 else if n = 0xE0 then 10 else if n = 0xED then 4
      else if n < 0xF0 then 3 else if n = 0xF0 then 11 else if n < 0xF4 then 6 else if n = 0xF4 then 5
      else 8)"

lemma length_utf8d: "length utf8d = 364"
  unfolding utf8d_def by simp

lemma utf8d_classes: "map unat (take 256 utf8d) = map utf8_class [0..<256]"
  by code_simp

definition utf8_rows :: "(nat \<times> nat list) list" where
  "utf8_rows =
    [(0, [0, 12, 24, 36, 60, 96, 84, 12, 12, 12, 48, 72]),
     (12, [12, 12, 12, 12, 12, 12, 12, 12, 12, 12, 12, 12]),
     (24, [12, 0, 12, 12, 12, 12, 12, 0, 12, 0, 12, 12]),
     (36, [12, 24, 12, 12, 12, 12, 12, 24, 12, 24, 12, 12]),
     (48, [12, 12, 12, 12, 12, 12, 12, 24, 12, 12, 12, 12]),
     (60, [12, 24, 12, 12, 12, 12, 12, 12, 12, 24, 12, 12]),
     (72, [12, 12, 12, 12, 12, 12, 12, 36, 12, 36, 12, 12]),
     (84, [12, 36, 12, 12, 12, 12, 12, 36, 12, 36, 12, 12]),
     (96, [12, 36, 12, 12, 12, 12, 12, 12, 12, 12, 12, 12])]"

lemma utf8d_rows: "map (\<lambda>(s, row). map unat (take 12 (drop (256 + s) utf8d))) utf8_rows = map snd utf8_rows"
  by code_simp

definition utf8_states :: "uint32 set" where
  "utf8_states = {0, 12, 24, 36, 48, 60, 72, 84, 96}"

text \<open>The automaton written out: what each state expects next.\<close>

definition utf8_step :: "uint32 \<Rightarrow> byte \<Rightarrow> uint32" where
  "utf8_step s b =
     (if s = 0 then
        (if b < 0x80 then 0 else if in_range 0xC2 0xDF b then 24 else if b = 0xE0 then 48
         else if b = 0xED then 60 else if in_range 0xE1 0xEF b then 36 else if b = 0xF0 then 72
         else if b = 0xF4 then 96 else if in_range 0xF1 0xF3 b then 84 else 12)
      else if s = 24 then (if cont b then 0 else 12)
      else if s = 36 then (if cont b then 24 else 12)
      else if s = 48 then (if in_range 0xA0 0xBF b then 24 else 12)
      else if s = 60 then (if in_range 0x80 0x9F b then 24 else 12)
      else if s = 72 then (if in_range 0x90 0xBF b then 36 else 12)
      else if s = 84 then (if cont b then 36 else 12)
      else if s = 96 then (if in_range 0x80 0x8F b then 36 else 12)
      else 12)"

lemma utf8d_class: "unat (utf8d ! unat (b :: byte)) = utf8_class (unat b)"
proof -
  have l: "unat b < 256" by (rule unat_byte_less)
  then have "map unat (take 256 utf8d) ! unat b = unat (utf8d ! unat b)"
    by (simp add: length_utf8d)
  then show ?thesis using l by (simp add: utf8d_classes)
qed

lemma utf8_class_less: "utf8_class n < 12"
  by (simp add: utf8_class_def)

lemma utf8d_row:
  assumes "(s, row) \<in> set utf8_rows" and "k < 12"
  shows "unat (utf8d ! (256 + s + k)) = row ! k"
proof -
  have "map (\<lambda>(s, row). map unat (take 12 (drop (256 + s) utf8d)) = row) utf8_rows =
      map (\<lambda>x. True) utf8_rows"
    using utf8d_rows unfolding list_eq_iff_nth_eq by (auto simp: split_beta)
  then have r: "map unat (take 12 (drop (256 + s) utf8d)) = row"
    using assms(1) by (auto simp: map_eq_conv)
  have "256 + s \<le> length utf8d \<and> k < length (take 12 (drop (256 + s) utf8d))"
    using assms by (auto simp: utf8_rows_def length_utf8d)
  then show ?thesis
    unfolding r [symmetric] by simp
qed

lemma utf8_states_rows: "s \<in> utf8_states \<Longrightarrow> \<exists>row. (unat s, row) \<in> set utf8_rows"
  by (auto simp: utf8_states_def utf8_rows_def)

text \<open>The ranges of the step in terms of byte classes.\<close>

lemma utf8_class_iff:
  "b < 0x80 \<longleftrightarrow> utf8_class (unat b) = 0" "in_range 0xC2 0xDF b \<longleftrightarrow> utf8_class (unat b) = 2"
  "b = 0xE0 \<longleftrightarrow> utf8_class (unat b) = 10" "b = 0xED \<longleftrightarrow> utf8_class (unat b) = 4"
  "in_range 0xE1 0xEF b \<longleftrightarrow> utf8_class (unat b) = 3 \<or> utf8_class (unat b) = 4"
  "b = 0xF0 \<longleftrightarrow> utf8_class (unat b) = 11" "b = 0xF4 \<longleftrightarrow> utf8_class (unat b) = 5"
  "in_range 0xF1 0xF3 b \<longleftrightarrow> utf8_class (unat b) = 6"
  "in_range 0x80 0x8F b \<longleftrightarrow> utf8_class (unat b) = 1"
  "in_range 0x80 0x9F b \<longleftrightarrow> utf8_class (unat b) = 1 \<or> utf8_class (unat b) = 9"
  "in_range 0x90 0xBF b \<longleftrightarrow> utf8_class (unat b) = 7 \<or> utf8_class (unat b) = 9"
  "in_range 0xA0 0xBF b \<longleftrightarrow> utf8_class (unat b) = 7"
  "cont b \<longleftrightarrow> utf8_class (unat b) = 1 \<or> utf8_class (unat b) = 7 \<or> utf8_class (unat b) = 9"
  by (simp_all add: in_range_def cont_def utf8_class_def word_less_nat_alt word_le_nat_alt
      word_unat_eq_iff)

lemma utf8_row_step:
  assumes "s \<in> utf8_states" and "(unat s, row) \<in> set utf8_rows"
  shows "row ! utf8_class (unat b) = unat (utf8_step s b)"
proof -
  have c: "utf8_class (unat b) \<in> set [0..<12]"
    using utf8_class_less [of "unat b"] by simp
  define k where "k = utf8_class (unat b)"
  have "row ! k = unat (utf8_step s b)"
    using assms c unfolding utf8_states_def utf8_step_def utf8_class_iff k_def [symmetric]
    by (elim insertE emptyE) (auto simp: utf8_rows_def upt_rec)
  then show ?thesis by (simp add: k_def)
qed

lemma utf8_step_states: "utf8_step s b \<in> utf8_states"
  by (simp add: utf8_step_def utf8_states_def)

lemma decode_step:
  assumes "s \<in> utf8_states"
  shows "\<exists>c'. decode s c b = Some (c', utf8_step s b)"
proof -
  obtain row where row: "(unat s, row) \<in> set utf8_rows"
    using utf8_states_rows [OF assms] by blast
  define t where "t = (ucast (utf8d ! unat b) :: uint32)"
  have "unat t = utf8_class (unat b)"
    by (simp add: t_def utf8d_class unat_ucast_up)
  moreover have "unat s \<le> 96" using assms by (auto simp: utf8_states_def)
  ultimately have i: "unat (256 + s + t) = 256 + unat s + utf8_class (unat b)"
    using utf8_class_less [of "unat b"] by (simp add: unat_word_ariths)
  have "unat (utf8d ! (256 + unat s + utf8_class (unat b))) = unat (utf8_step s b)"
    using utf8d_row [OF row utf8_class_less] utf8_row_step [OF assms row] by simp
  then have "ucast (utf8d ! (256 + unat s + utf8_class (unat b))) = utf8_step s b"
    by (simp add: word_unat_eq_iff unat_ucast_up)
  then show ?thesis
    using i \<open>unat s \<le> 96\<close> utf8_class_less [of "unat b"]
    by (simp add: decode_def Let_def length_utf8d flip: t_def)
qed

section \<open>The automaton accepts the valid strings\<close>

definition utf8_run :: "uint32 \<Rightarrow> byte list \<Rightarrow> uint32" where
  "utf8_run s bs = foldl utf8_step s bs"

lemma utf8_run_simps [simp]:
  "utf8_run s [] = s" "utf8_run s (b # bs) = utf8_run (utf8_step s b) bs"
  "utf8_run s (xs @ ys) = utf8_run (utf8_run s xs) ys"
  by (simp_all add: utf8_run_def)

lemma utf8_run_reject [simp]: "utf8_run 12 bs = 12"
  by (induction bs) (simp_all add: utf8_step_def)

lemma utf8_run_states: "s \<in> utf8_states \<Longrightarrow> utf8_run s bs \<in> utf8_states"
  by (induction bs arbitrary: s) (simp_all add: utf8_step_states)

text \<open>What the other states still expect, in terms of the initial one.\<close>

lemma utf8_run_cont:
  "utf8_run 24 bs = 0 \<longleftrightarrow> (case bs of [] \<Rightarrow> False | b # r \<Rightarrow> cont b \<and> utf8_run 0 r = 0)"
  "utf8_run 36 bs = 0 \<longleftrightarrow> (case bs of [] \<Rightarrow> False | b # r \<Rightarrow> cont b \<and> utf8_run 24 r = 0)"
  "utf8_run 48 bs = 0 \<longleftrightarrow> (case bs of [] \<Rightarrow> False | b # r \<Rightarrow> in_range 0xA0 0xBF b \<and> utf8_run 24 r = 0)"
  "utf8_run 60 bs = 0 \<longleftrightarrow> (case bs of [] \<Rightarrow> False | b # r \<Rightarrow> in_range 0x80 0x9F b \<and> utf8_run 24 r = 0)"
  "utf8_run 72 bs = 0 \<longleftrightarrow> (case bs of [] \<Rightarrow> False | b # r \<Rightarrow> in_range 0x90 0xBF b \<and> utf8_run 36 r = 0)"
  "utf8_run 84 bs = 0 \<longleftrightarrow> (case bs of [] \<Rightarrow> False | b # r \<Rightarrow> cont b \<and> utf8_run 36 r = 0)"
  "utf8_run 96 bs = 0 \<longleftrightarrow> (case bs of [] \<Rightarrow> False | b # r \<Rightarrow> in_range 0x80 0x8F b \<and> utf8_run 36 r = 0)"
  by (simp_all add: utf8_step_def split: list.split)

lemma utf8_run_first:
  "utf8_run 0 (a # r) = 0 \<longleftrightarrow>
     (if a < 0x80 then utf8_run 0 r = 0 else if in_range 0xC2 0xDF a then utf8_run 24 r = 0
      else if a = 0xE0 then utf8_run 48 r = 0 else if a = 0xED then utf8_run 60 r = 0
      else if in_range 0xE1 0xEF a then utf8_run 36 r = 0 else if a = 0xF0 then utf8_run 72 r = 0
      else if a = 0xF4 then utf8_run 96 r = 0 else if in_range 0xF1 0xF3 a then utf8_run 84 r = 0
      else False)"
  by (simp add: utf8_step_def)

text \<open>The same reading of \<open>ValidString\<close>: what must follow the first byte of a character.\<close>

fun tail1 :: "byte list \<Rightarrow> bool" where
  "tail1 [] = False"
| "tail1 (b # r) = (cont b \<and> ValidString r)"

fun tail2 :: "byte \<Rightarrow> byte \<Rightarrow> byte list \<Rightarrow> bool" where
  "tail2 lo hi [] = False"
| "tail2 lo hi (b # r) = (in_range lo hi b \<and> tail1 r)"

fun tail3 :: "byte \<Rightarrow> byte \<Rightarrow> byte list \<Rightarrow> bool" where
  "tail3 lo hi [] = False"
| "tail3 lo hi (b # r) = (in_range lo hi b \<and> tail2 0x80 0xBF r)"

lemma ValidString_first:
  "ValidString (a # r) \<longleftrightarrow>
     (if a < 0x80 then ValidString r else if in_range 0xC2 0xDF a then tail1 r
      else if a = 0xE0 then tail2 0xA0 0xBF r else if a = 0xED then tail2 0x80 0x9F r
      else if in_range 0xE1 0xEF a then tail2 0x80 0xBF r else if a = 0xF0 then tail3 0x90 0xBF r
      else if a = 0xF4 then tail3 0x80 0x8F r else if in_range 0xF1 0xF3 a then tail3 0x80 0xBF r
      else False)"
proof -
  have n: "\<not> in_range 0xC2 0xDF 0xE0" "\<not> in_range 0xC2 0xDF 0xED"
    by (simp_all add: in_range_def)
  have cd: "cont = in_range 0x80 0xBF" by (simp add: fun_eq_iff cont_def)
  consider (A) "a < 0x80" | (B) "\<not> a < 0x80" "in_range 0xC2 0xDF a"
    | (C) "\<not> a < 0x80" "\<not> in_range 0xC2 0xDF a" "a = 0xE0 \<or> a = 0xED \<or> in_range 0xE1 0xEF a"
    | (D) "\<not> a < 0x80" "\<not> in_range 0xC2 0xDF a" "\<not> (a = 0xE0 \<or> a = 0xED \<or> in_range 0xE1 0xEF a)"
    by blast
  then show ?thesis
  proof cases
    case A
    then show ?thesis by simp
  next
    case B
    then show ?thesis by (cases r) simp_all
  next
    case C
    then show ?thesis
      by (cases r; cases "tl r") (auto simp: cd n)
  next
    case D
    then show ?thesis
      by (cases r; cases "tl r"; cases "tl (tl r)") (auto simp: cd)
  qed
qed

lemma utf8_run_valid: "utf8_run 0 bs = 0 \<longleftrightarrow> ValidString bs"
proof (induction bs rule: length_induct)
  case (1 bs)
  show ?case
  proof (cases bs)
    case Nil
    then show ?thesis by simp
  next
    case (Cons a r)
    have IH: "length ys < Suc (length r) \<Longrightarrow> utf8_run 0 ys = 0 \<longleftrightarrow> ValidString ys" for ys
      using 1 Cons by auto
    have t1: "utf8_run 24 ys = 0 \<longleftrightarrow> tail1 ys" if "length ys < Suc (length r)" for ys
      using that by (cases ys) (simp_all add: IH utf8_run_cont(1) del: utf8_run_simps(2))
    have t2: "utf8_run 36 ys = 0 \<longleftrightarrow> tail2 0x80 0xBF ys" "utf8_run 48 ys = 0 \<longleftrightarrow> tail2 0xA0 0xBF ys"
      "utf8_run 60 ys = 0 \<longleftrightarrow> tail2 0x80 0x9F ys" if "length ys < Suc (length r)" for ys
      using that by (cases ys; simp add: t1 cont_def utf8_run_cont(2-4) del: utf8_run_simps(2))+
    have t3: "utf8_run 72 ys = 0 \<longleftrightarrow> tail3 0x90 0xBF ys" "utf8_run 84 ys = 0 \<longleftrightarrow> tail3 0x80 0xBF ys"
      "utf8_run 96 ys = 0 \<longleftrightarrow> tail3 0x80 0x8F ys" if "length ys < Suc (length r)" for ys
      using that by (cases ys; simp add: t2 cont_def utf8_run_cont(5-7) del: utf8_run_simps(2))+
    show ?thesis
      unfolding Cons utf8_run_first ValidString_first by (simp only: IH t1 t2 t3 lessI)
  qed
qed

text \<open>
  No state but the rejecting one is hopeless, so that the automaton rejects a string exactly
  when no continuation makes it valid.
\<close>

lemma utf8_completion: "s \<in> utf8_states \<Longrightarrow> s \<noteq> 12 \<Longrightarrow> \<exists>zs. utf8_run s zs = 0"
proof -
  assume s: "s \<in> utf8_states" "s \<noteq> 12"
  have "utf8_run 0 [] = 0" "utf8_run 24 [0x80] = 0" "utf8_run 36 [0x80, 0x80] = 0"
    "utf8_run 48 [0xA0, 0x80] = 0" "utf8_run 60 [0x80, 0x80] = 0" "utf8_run 72 [0x90, 0x80, 0x80] = 0"
    "utf8_run 84 [0x80, 0x80, 0x80] = 0" "utf8_run 96 [0x80, 0x80, 0x80] = 0"
    by (simp_all add: utf8_step_def cont_def in_range_def)
  with s show ?thesis unfolding utf8_states_def by blast
qed

lemma utf8_rejects_iff: "utf8_run 0 bs = 12 \<longleftrightarrow> \<not> (\<exists>zs. ValidString (bs @ zs))"
proof
  assume "utf8_run 0 bs = 12"
  then show "\<not> (\<exists>zs. ValidString (bs @ zs))" by (simp flip: utf8_run_valid)
next
  assume "\<not> (\<exists>zs. ValidString (bs @ zs))"
  then have "\<not> (\<exists>zs. utf8_run (utf8_run 0 bs) zs = 0)" by (simp flip: utf8_run_valid)
  then show "utf8_run 0 bs = 12"
    using utf8_completion [OF utf8_run_states [of 0 bs]] by (auto simp: utf8_states_def)
qed

section \<open>The scan\<close>

text \<open>The number of bytes up to the last accepting state, counting from \<open>i\<close>.\<close>

lemma utf8_scan_run:
  "s \<in> utf8_states \<Longrightarrow> acc \<le> i \<Longrightarrow>
     \<exists>rj c' acc'. utf8_scan i s c acc bs = Some (rj, utf8_run s bs, c', acc') \<and>
       (s \<noteq> 12 \<or> bs \<noteq> [] \<longrightarrow> (rj \<longleftrightarrow> utf8_run s bs = 12)) \<and> acc' \<le> i + length bs \<and>
       (bs \<noteq> [] \<and> utf8_run s bs \<noteq> 0 \<longrightarrow> acc' < i + length bs)"
proof (induction bs arbitrary: i s c acc)
  case Nil
  then show ?case by auto
next
  case (Cons b bs)
  obtain c' where d: "decode s c b = Some (c', utf8_step s b)"
    using decode_step [OF Cons.prems(1)] by blast
  show ?case
  proof (cases "utf8_step s b = 12")
    case True
    with Cons.prems show ?thesis by (auto simp: d utf8Reject_def)
  next
    case False
    then show ?thesis
      using Cons.IH [OF utf8_step_states [of s b], of "if utf8_step s b = 0 then i + 1 else acc" "Suc i" c']
        Cons.prems(2)
      by (cases bs) (auto simp: d utf8Reject_def utf8Accept_def)
  qed
qed

section \<open>The reader keeps the contract\<close>

definition utf8_inv :: "('s \<Rightarrow> bool) \<Rightarrow> 's UTF8Reader \<Rightarrow> bool" where
  "utf8_inv iv u \<longleftrightarrow> (case Source u of None \<Rightarrow> False | Some s \<Rightarrow> iv s) \<and> state u \<in> utf8_states"

definition utf8_fin :: "('s \<Rightarrow> nat) \<Rightarrow> 's UTF8Reader \<Rightarrow> nat" where
  "utf8_fin fin u = (case Source u of None \<Rightarrow> 0 | Some s \<Rightarrow> fin s)"

text \<open>
  The count reported for bytes that end outside the accepting state, or the accepted count,
  is less than their number.
\<close>

definition utf8_short :: "uint32 \<Rightarrow> byte list \<Rightarrow> nat \<Rightarrow> nat \<Rightarrow> bool" where
  "utf8_short st bs n acc \<longleftrightarrow> (bs \<noteq> [] \<and> utf8_run st bs \<noteq> 0 \<longrightarrow>
     (if utf8_run st bs = 12 then n else acc) < length bs)"

lemma utf8_readD:
  assumes "utf8_inv iv u" and "Source u = Some s" and "rd k s = Some (bs, e, s')"
  shows "\<exists>n e' u'. UTF8Reader_Read rd k u = Some (n, bs, e', u') \<and> n \<le> length bs \<and>
    Source u' = Some s' \<and> state u' = utf8_run (state u) bs \<and>
    (if bs \<noteq> [] \<and> utf8_run (state u) bs = 12 then e' = Some ErrInvalidUTF8
     else n = length bs \<and> e' = e) \<and>
    utf8_short (state u) bs n (accepted u')"
proof -
  have st: "state u \<in> utf8_states" using assms(1) by (simp add: utf8_inv_def)
  obtain rj c' acc where sc: "utf8_scan 0 (state u) (codep u) 0 bs = Some (rj, utf8_run (state u) bs, c', acc)"
      "state u \<noteq> 12 \<or> bs \<noteq> [] \<longrightarrow> (rj \<longleftrightarrow> utf8_run (state u) bs = 12)" "acc \<le> length bs"
      "bs \<noteq> [] \<and> utf8_run (state u) bs \<noteq> 0 \<longrightarrow> acc < length bs"
    using utf8_scan_run [OF st, of 0 0 "codep u" bs] by auto
  have "bs = [] \<Longrightarrow> \<not> rj" using sc(1) by auto
  with sc(2) have "rj \<longleftrightarrow> bs \<noteq> [] \<and> utf8_run (state u) bs = 12" by auto
  with sc(1,3,4) assms(2,3) show ?thesis
    by (auto simp: UTF8Reader_Read_def utf8_short_def)
qed

locale utf8_checked = io_reader rd inv fin
  for rd :: "'s rd" and inv and fin
begin

lemma utf8_read_from:
  assumes "utf8_inv inv u" and s: "Source u = Some s"
  obtains bs e s' n e' u' where "inv s" "rd k s = Some (bs, e, s')"
    "utf8_read rd k u = Some (take n bs, e', u')" "Source u' = Some s'"
    "state u' = utf8_run (state u) bs" "utf8_inv inv u'"
    "if bs \<noteq> [] \<and> utf8_run (state u) bs = 12 then e' = Some ErrInvalidUTF8 else n = length bs \<and> e' = e"
proof -
  have i: "inv s"
    using assms by (auto simp: utf8_inv_def split: option.splits)
  obtain bs e s' where r: "rd k s = Some (bs, e, s')"
    using rd_returns [OF i] by blast
  have "utf8_run (state u) bs \<in> utf8_states"
    using assms utf8_run_states by (simp add: utf8_inv_def)
  then show thesis
    using utf8_readD [where rd = rd, OF assms r] i r rd_inv [OF i r] that
    by (auto simp: utf8_read_def utf8_inv_def)
qed

lemma utf8_read_cases:
  assumes "utf8_inv inv u"
  obtains s bs e s' n e' u' where "Source u = Some s" "inv s" "rd k s = Some (bs, e, s')"
    "utf8_read rd k u = Some (take n bs, e', u')" "Source u' = Some s'"
    "state u' = utf8_run (state u) bs" "utf8_inv inv u'"
    "if bs \<noteq> [] \<and> utf8_run (state u) bs = 12 then e' = Some ErrInvalidUTF8 else n = length bs \<and> e' = e"
proof -
  obtain s where s: "Source u = Some s"
    using assms by (auto simp: utf8_inv_def split: option.splits)
  show thesis by (rule utf8_read_from [OF assms s, of k]) (use s that in blast)
qed

end

sublocale utf8_checked \<subseteq> utf8: io_reader "utf8_read rd" "utf8_inv inv" "utf8_fin fin"
proof unfold_locales
  fix n u bs e u'
  assume i: "utf8_inv inv u" and r: "utf8_read rd n u = Some (bs, e, u')"
  show "length bs \<le> n"
    by (rule utf8_read_cases [OF i, of n]) (use r rd_length in \<open>fastforce simp: min_def\<close>)
  show "utf8_inv inv u'"
    by (rule utf8_read_cases [OF i, of n]) (use r in auto)
  show "utf8_fin fin u' \<le> utf8_fin fin u"
    by (rule utf8_read_cases [OF i, of n]) (use r rd_fin in \<open>auto simp: utf8_fin_def\<close>)
next
  fix n u bs e u'
  assume i: "utf8_inv inv u" and p: "0 < n" "e = None \<or> bs \<noteq> []" and r: "utf8_read rd n u = Some (bs, e, u')"
  show "utf8_fin fin u' < utf8_fin fin u"
    by (rule utf8_read_cases [OF i, of n])
      (use p r rd_progress in \<open>auto simp: utf8_fin_def split: if_splits\<close>)
next
  fix n u
  assume i: "utf8_inv inv u"
  show "\<exists>bs e s'. utf8_read rd n u = Some (bs, e, s')"
    by (rule utf8_read_cases [OF i, of n]) auto
qed

text \<open>
  Reading a source to its end through the check: it stops with \<open>ErrInvalidUTF8\<close> when the
  automaton rejects the data, and otherwise delivers all of it.
\<close>

locale utf8_stream = utf8_checked rd inv fin + io_source rd inv fin data ending
  for rd :: "'s rd" and inv and fin and data and ending
begin

lemma utf8_read_all:
  "utf8_inv inv u \<Longrightarrow> Source u = Some s \<Longrightarrow> state u \<noteq> 12 \<Longrightarrow> (\<And>k. 0 < room k) \<Longrightarrow>
     \<exists>bs e u'. read_all_loop (utf8_read rd) room got u = Some (bs, e, u') \<and>
       (if utf8_run (state u) (data s) = 12 then e = Some ErrInvalidUTF8
        else bs = got @ data s \<and> e = (if ending s = EOF then None else Some (ending s)) \<and>
          state u' = utf8_run (state u) (data s))"
proof (induction "fin s" arbitrary: got u s rule: less_induct)
  case less
  let ?k = "room (length got)"
  obtain bs e s' n e' u' where r: "inv s" "rd ?k s = Some (bs, e, s')"
      "utf8_read rd ?k u = Some (take n bs, e', u')" "Source u' = Some s'"
      "state u' = utf8_run (state u) bs" "utf8_inv inv u'"
      "if bs \<noteq> [] \<and> utf8_run (state u) bs = 12 then e' = Some ErrInvalidUTF8 else n = length bs \<and> e' = e"
    by (rule utf8_read_from [OF less.prems(1,2), of ?k])
  have data: "\<exists>zs. data s = bs @ zs"
    using rd_data [OF r(1)] rd_last [OF r(1)] r(2) by (cases e) auto
  show ?case
  proof (cases "utf8_run (state u) bs = 12")
    case True
    then have "bs \<noteq> []" using less.prems(3) by auto
    with True r(3,7) data show ?thesis
      by (subst read_all_loop.simps) auto
  next
    case False
    then have e: "e' = e" "take n bs = bs" using r(7) by (auto split: if_splits)
    show ?thesis
    proof (cases e)
      case (Some er)
      then have "data s = bs" "ending s = er" using rd_last [OF r(1)] r(2) by auto
      with Some e r(3,5) False show ?thesis
        by (subst read_all_loop.simps) auto
    next
      case None
      have d: "data s = bs @ data s'" "ending s' = ending s"
        using rd_data [OF r(1) r(2) [unfolded None]] by simp_all
      have "fin s' < fin s"
        using rd_progress [OF r(1) _ r(2)] None less.prems(4) by auto
      from less.hyps [OF this r(6,4) _ less.prems(4), of "got @ bs"] False r(5)
      obtain bs2 e2 u2 where "read_all_loop (utf8_read rd) room (got @ bs) u' = Some (bs2, e2, u2)"
        "if utf8_run (state u') (data s') = 12 then e2 = Some ErrInvalidUTF8
         else bs2 = (got @ bs) @ data s' \<and> e2 = (if ending s' = EOF then None else Some (ending s')) \<and>
           state u2 = utf8_run (state u') (data s')"
        by auto
      then show ?thesis
        using r(5) by (subst read_all_loop.simps) (simp add: e r(3) None d split: if_splits)
    qed
  qed
qed

lemma utf8_ReadAll:
  assumes "inv s" and "\<And>k. 0 < room k"
  shows "\<exists>bs e u. io_ReadAll (utf8_read rd) room (NewUTF8Reader (Some s)) = Some (bs, e, u) \<and>
    (e = None \<and> UTF8Reader_Valid u \<longleftrightarrow> ending s = EOF \<and> ValidString (data s)) \<and>
    (ValidString (data s) \<longrightarrow> bs = data s)"
proof -
  let ?u = "NewUTF8Reader (Some s)"
  have "utf8_inv inv ?u" "Source ?u = Some s" "state ?u = 0"
    using assms(1) by (simp_all add: utf8_inv_def NewUTF8Reader_def utf8_states_def)
  with utf8_read_all [of ?u s room "[]"] assms(2) show ?thesis
    by (auto simp: io_ReadAll_def UTF8Reader_Valid_def utf8Accept_def utf8_run_valid [symmetric] split: if_splits)
qed

end

interpretation conn_utf8: utf8_stream conn_read conn_sane conn_fin conn_data conn_end
  by unfold_locales

section \<open>Properties\<close>

text \<open>
  C4: the table-driven scan never indexes outside its table; it ends in the accepting state
  exactly on valid UTF-8, and rejects exactly the byte strings that no continuation makes
  valid.
\<close>

theorem utf8_scan_correct:
  "\<exists>rejected st cp acc. utf8_scan 0 utf8Accept 0 0 bs = Some (rejected, st, cp, acc) \<and>
     (st = utf8Accept \<longleftrightarrow> ValidString bs) \<and> (rejected \<longleftrightarrow> (\<nexists>zs. ValidString (bs @ zs)))"
  using utf8_scan_run [of 0 0 0 0 bs] utf8_rejects_iff [of bs] utf8_run_valid [of bs]
  by (auto simp: utf8Accept_def utf8_states_def)

text \<open>
  Reading a connection to its end through \<open>UTF8Reader\<close> succeeds with a valid final
  state exactly when everything that arrives is valid UTF-8 and the peer closed cleanly,
  wherever the network cuts the characters; valid data is delivered unchanged.
\<close>

theorem UTF8Reader_stream:
  assumes "conn_sane s" and "\<And>k. 0 < room k"
  shows "\<exists>bs e u. io_ReadAll (utf8_read conn_read) room (NewUTF8Reader (Some s)) = Some (bs, e, u) \<and>
    (e = None \<and> UTF8Reader_Valid u \<longleftrightarrow> conn_end s = EOF \<and> ValidString (conn_data s)) \<and>
    (ValidString (conn_data s) \<longrightarrow> bs = conn_data s)"
  by (rule conn_utf8.utf8_ReadAll [OF assms])

theorem UTF8Reader_stream_witness:
  "\<exists>u. io_ReadAll (utf8_read conn_read) (\<lambda>_. 2)
     (NewUTF8Reader (Some [REv [0xE2, 0x82] None, REv [0xAC, 65] None])) = Some ([0xE2, 0x82, 0xAC, 65], None, u) \<and>
     UTF8Reader_Valid u"
proof -
  let ?s = "[REv [0xE2, 0x82] None, REv [0xAC, 65] None]"
  have v: "ValidString (conn_data ?s)" by (simp add: in_range_def cont_def)
  obtain bs e u where "io_ReadAll (utf8_read conn_read) (\<lambda>_. 2) (NewUTF8Reader (Some ?s)) = Some (bs, e, u)"
      "e = None \<and> UTF8Reader_Valid u \<longleftrightarrow> conn_end ?s = EOF \<and> ValidString (conn_data ?s)"
      "ValidString (conn_data ?s) \<longrightarrow> bs = conn_data ?s"
    using UTF8Reader_stream [of ?s "\<lambda>_. 2"] by auto
  with v show ?thesis by simp
qed

end
