(* ===== verification/CipherIO.thy ===== *)
theory CipherIO
  imports Frames
begin

text \<open>
  The ciphering reader and writer (msutil/cipher.go). Each keeps the position in the mask, so
  that a payload that is read or written in pieces is ciphered as if it came in one.
\<close>

section \<open>CipherReader\<close>

record 's CipherReader =
  cr_r :: 's
  cr_mask :: mask
  cr_pos :: nat

definition NewCipherReader :: "'s \<Rightarrow> mask \<Rightarrow> 's CipherReader" where
  "NewCipherReader r mk = \<lparr>cr_r = r, cr_mask = mk, cr_pos = 0\<rparr>"

definition CipherReader_Reset :: "'s CipherReader \<Rightarrow> 's \<Rightarrow> mask \<Rightarrow> 's CipherReader" where
  "CipherReader_Reset c r mk = c\<lparr>cr_r := r, cr_mask := mk, cr_pos := 0\<rparr>"

definition CipherReader_Read :: "'s rd \<Rightarrow> 's CipherReader rd" where
  "CipherReader_Read rd k c = do {
     (bs, e, s') \<leftarrow> rd k (cr_r c);
     Some (Cipher bs (cr_mask c) (cr_pos c), e, c\<lparr>cr_r := s', cr_pos := cr_pos c + length bs\<rparr>)
   }"

lemma CipherReader_ReadE:
  assumes "CipherReader_Read rd k c = Some (bs, e, c')"
  obtains raw s' where "rd k (cr_r c) = Some (raw, e, s')" "bs = Cipher raw (cr_mask c) (cr_pos c)"
    "c' = c\<lparr>cr_r := s', cr_pos := cr_pos c + length raw\<rparr>"
  using assms by (auto simp: CipherReader_Read_def io_simps)

locale ciphered_reader = io_reader rd inv fin
  for rd :: "'s rd" and inv and fin

sublocale ciphered_reader \<subseteq> ciphered: io_reader "CipherReader_Read rd" "inv \<circ> cr_r" "fin \<circ> cr_r"
proof unfold_locales
  fix n c bs e c'
  assume i: "(inv \<circ> cr_r) c" and r: "CipherReader_Read rd n c = Some (bs, e, c')"
  from i r show "length bs \<le> n" and "(inv \<circ> cr_r) c'" and "(fin \<circ> cr_r) c' \<le> (fin \<circ> cr_r) c"
    by (auto elim!: CipherReader_ReadE dest: rd_length rd_inv rd_fin)
next
  fix n c bs e c'
  assume "(inv \<circ> cr_r) c" "0 < n" "e = None \<or> bs \<noteq> []"
    and "CipherReader_Read rd n c = Some (bs, e, c')"
  then show "(fin \<circ> cr_r) c' < (fin \<circ> cr_r) c"
    by (auto elim!: CipherReader_ReadE dest: rd_progress)
next
  fix n and c :: "'s CipherReader"
  assume "(inv \<circ> cr_r) c"
  then show "\<exists>bs e s'. CipherReader_Read rd n c = Some (bs, e, s')"
    using rd_returns [of "cr_r c" n] by (auto simp: CipherReader_Read_def)
qed

text \<open>Over a stream, the ciphered reader delivers the ciphered stream.\<close>

definition cipher_data :: "('s \<Rightarrow> byte list) \<Rightarrow> 's CipherReader \<Rightarrow> byte list" where
  "cipher_data data c = Cipher (data (cr_r c)) (cr_mask c) (cr_pos c)"

locale ciphered_stream = ciphered_reader rd inv fin + io_stream rd inv fin data ending
  for rd :: "'s rd" and inv and fin and data and ending

sublocale ciphered_stream \<subseteq> ciphered: io_stream "CipherReader_Read rd" "inv \<circ> cr_r" "fin \<circ> cr_r"
  "cipher_data data" "ending \<circ> cr_r"
proof unfold_locales
  fix n c bs c'
  assume "(inv \<circ> cr_r) c" and "CipherReader_Read rd n c = Some (bs, None, c')"
  then show "cipher_data data c = bs @ cipher_data data c' \<and> (ending \<circ> cr_r) c' = (ending \<circ> cr_r) c"
    by (auto elim!: CipherReader_ReadE dest!: rd_data simp: cipher_data_def Cipher_append)
next
  fix n c bs e c'
  assume "(inv \<circ> cr_r) c" and "CipherReader_Read rd n c = Some (bs, Some e, c')"
  then show "cipher_data data c = bs \<and> (ending \<circ> cr_r) c = e" and "bs = []"
    by (auto elim!: CipherReader_ReadE dest!: rd_end simp: cipher_data_def)
qed

section \<open>CipherWriter\<close>

record 'd CipherWriter =
  cw_w :: 'd
  cw_mask :: mask
  cw_pos :: nat

definition NewCipherWriter :: "'d \<Rightarrow> mask \<Rightarrow> 'd CipherWriter" where
  "NewCipherWriter w mk = \<lparr>cw_w = w, cw_mask = mk, cw_pos = 0\<rparr>"

definition CipherWriter_Reset :: "'d CipherWriter \<Rightarrow> 'd \<Rightarrow> mask \<Rightarrow> 'd CipherWriter" where
  "CipherWriter_Reset c w mk = c\<lparr>cw_w := w, cw_mask := mk, cw_pos := 0\<rparr>"

text \<open>
  \<open>Write\<close> works on a copy in a slice from a pool; the slice has the length asked for and
  the copy overwrites all of it, so its former contents do not matter (zeros here).
\<close>

definition CipherWriter_Write :: "'d wr \<Rightarrow> 'd CipherWriter wr" where
  "CipherWriter_Write wr p c =
     (let cp = put_at 0 p (replicate (length p) 0);
          cp = Cipher cp (cw_mask c) (cw_pos c)
      in do {
        (n, e, d') \<leftarrow> wr cp (cw_w c);
        Some (n, e, c\<lparr>cw_w := d', cw_pos := cw_pos c + n\<rparr>)
      })"

lemma CipherWriter_WriteE:
  assumes "CipherWriter_Write wr p c = Some (n, e, c')"
  obtains d' where "wr (Cipher p (cw_mask c) (cw_pos c)) (cw_w c) = Some (n, e, d')"
    "c' = c\<lparr>cw_w := d', cw_pos := cw_pos c + n\<rparr>"
  using assms by (auto simp: CipherWriter_Write_def io_simps)

text \<open>
  The writer's output is what the peer will see after unmasking: the bytes sent since the
  last reset, ciphered again from position 0.
\<close>

definition cipher_sent :: "('d \<Rightarrow> byte list) \<Rightarrow> 'd CipherWriter \<Rightarrow> byte list" where
  "cipher_sent out c =
     Cipher (drop (length (out (cw_w c)) - cw_pos c) (out (cw_w c))) (cw_mask c) 0"

definition cipher_winv :: "('d \<Rightarrow> bool) \<Rightarrow> ('d \<Rightarrow> byte list) \<Rightarrow> 'd CipherWriter \<Rightarrow> bool" where
  "cipher_winv winv out c \<longleftrightarrow> winv (cw_w c) \<and> cw_pos c \<le> length (out (cw_w c))"

lemma Cipher_take: "Cipher (take n p) mk off = take n (Cipher p mk off)"
  by (cases "n \<le> length p") (auto simp: Cipher_is_spec list_eq_iff_nth_eq nth_cipher_spec)

locale ciphered_writer = io_writer wr winv out
  for wr :: "'d wr" and winv and out

sublocale ciphered_writer \<subseteq> ciphered: io_writer "CipherWriter_Write wr" "cipher_winv winv out"
  "cipher_sent out"
proof unfold_locales
  fix p n e and c c' :: "'d CipherWriter"
  assume i: "cipher_winv winv out c" and w: "CipherWriter_Write wr p c = Some (n, e, c')"
  obtain d' where d': "wr (Cipher p (cw_mask c) (cw_pos c)) (cw_w c) = Some (n, e, d')"
      "c' = c\<lparr>cw_w := d', cw_pos := cw_pos c + n\<rparr>"
    using w by (rule CipherWriter_WriteE)
  have wi: "winv (cw_w c)" and pos: "cw_pos c \<le> length (out (cw_w c))"
    using i by (simp_all add: cipher_winv_def)
  note o = wr_out [OF wi d'(1)] and f = wr_full [OF wi d'(1)]
  from f show "n \<le> length p \<and> (e = None \<longrightarrow> n = length p)" by simp
  from o f pos show "cipher_winv winv out c'"
    using wr_inv [OF wi d'(1)] by (simp add: cipher_winv_def d'(2))
  from o f pos show "cipher_sent out c' = cipher_sent out c @ take n p"
    by (simp add: cipher_sent_def d'(2) Cipher_append Cipher_twice flip: Cipher_take)
next
  fix p and c :: "'d CipherWriter"
  assume "cipher_winv winv out c"
  then show "\<exists>n e d'. CipherWriter_Write wr p c = Some (n, e, d')"
    using wr_returns [of "cw_w c" "Cipher p (cw_mask c) (cw_pos c)"] by (auto simp: CipherWriter_Write_def cipher_winv_def)
qed

interpretation conn_ciphered: ciphered_stream conn_read conn_sane conn_fin conn_data conn_end
  by unfold_locales

interpretation conn_w_ciphered: ciphered_writer conn_write "\<lambda>_. True" conn_out
  by unfold_locales

section \<open>Properties\<close>

text \<open>
  Reading a connection to its end through \<open>CipherReader\<close> gives the cipher of all that
  arrives, however the network cuts it, and reports the connection's own error.
\<close>

theorem CipherReader_stream:
  assumes "conn_sane s" and "\<And>k. 0 < room k"
  shows "\<exists>c. io_ReadAll (CipherReader_Read conn_read) room (NewCipherReader s mk) =
    Some (Cipher (conn_data s) mk 0, (if conn_end s = EOF then None else Some (conn_end s)), c)"
  using conn_ciphered.ciphered.io_ReadAll_data [of "NewCipherReader s mk" room] assms
  by (auto simp: NewCipherReader_def cipher_data_def)

theorem CipherReader_stream_witness:
  "\<exists>c. io_ReadAll (CipherReader_Read conn_read) (\<lambda>_. 2)
     (NewCipherReader [REv [1, 2, 3] None, REv [4, 5] None] (1, 2, 3, 4)) = Some ([0, 0, 0, 0, 4], None, c)"
proof -
  have "Cipher [1, 2, 3, 4, 5] (1, 2, 3, 4) 0 = [0, 0, 0, 0, 4]" by code_simp
  with CipherReader_stream [of "[REv [1, 2, 3] None, REv [4, 5] None]" "\<lambda>_. 2" "(1, 2, 3, 4)"]
  show ?thesis by simp
qed

text \<open>
  C36: after any write through \<open>CipherWriter\<close>, the bytes that reached the peer since the
  last reset, unmasked, are extended by the part of the argument that was taken, and by all
  of it when no error is reported, whatever the connection does.
\<close>

theorem CipherWriter_stream:
  assumes "cw_pos c \<le> length (conn_out (cw_w c))"
  shows "\<exists>n e c'. CipherWriter_Write conn_write p c = Some (n, e, c') \<and>
    cipher_sent conn_out c' = cipher_sent conn_out c @ take n p \<and> (e = None \<longrightarrow> n = length p) \<and>
    cw_pos c' \<le> length (conn_out (cw_w c'))"
proof -
  have i: "cipher_winv (\<lambda>_. True) conn_out c" using assms by (simp add: cipher_winv_def)
  obtain n e c' where w: "CipherWriter_Write conn_write p c = Some (n, e, c')"
    using conn_w_ciphered.ciphered.wr_returns [OF i] by blast
  with conn_w_ciphered.ciphered.wr_out [OF i w] conn_w_ciphered.ciphered.wr_full [OF i w]
    conn_w_ciphered.ciphered.wr_inv [OF i w]
  show ?thesis by (simp add: cipher_winv_def)
qed

theorem CipherWriter_stream_witness:
  "\<exists>n e c'. CipherWriter_Write conn_write [7, 8]
      (NewCipherWriter \<lparr>sent = [], faults = [Some (1, NetErr 3)], rands = \<lambda>_. 0\<rparr> (1, 2, 3, 4)) = Some (n, e, c') \<and>
    cipher_sent conn_out c' = take n [7, 8]"
  using CipherWriter_stream [of "NewCipherWriter \<lparr>sent = [], faults = [Some (1, NetErr 3)], rands = \<lambda>_. 0\<rparr> (1, 2, 3, 4)" "[7, 8]"]
  by (auto simp: NewCipherWriter_def cipher_sent_def conn_out_def)

end
