(* ===== verification/FrameReader.thy ===== *)
theory FrameReader
  imports HeaderIO Check Utf8 CipherIO
begin

text \<open>
  The message reader (msutil/reader.go). \<open>Reader\<close> reads headers from its source, gives
  the payload of the current frame through a stack of readers (a limit, the unmasking cipher,
  the UTF-8 check), joins the fragments of a message and hands the control frames between
  them to a callback.

  The field \<open>frame\<close> of the source points to \<open>r.raw\<close>, to a cipher over \<open>r.raw\<close> or to
  \<open>r.utf8\<close>, whose source is one of the first two. Here it is a description of that
  stack, while the states the pointers share, the count of \<open>raw\<close> and the source, stay
  fields of the reader. A reset \<open>raw\<close> has count 0 and so never touches its source. The
  exported options are the record \<open>ReaderConf\<close>; callbacks and extensions are functions,
  and \<open>'w\<close> is the state of the world the callbacks work on.
\<close>

section \<open>Extensions (msutil/extenstion.go)\<close>

type_synonym bits_fn = "header \<Rightarrow> header \<times> err option"

text \<open>The adapters \<open>RecvExtensionFunc\<close> and \<open>SendExtensionFunc\<close> call the function.\<close>

definition RecvExtensionFunc_UnsetBits :: "bits_fn \<Rightarrow> bits_fn" where
  "RecvExtensionFunc_UnsetBits fn h = fn h"

definition SendExtensionFunc_SetBits :: "bits_fn \<Rightarrow> bits_fn" where
  "SendExtensionFunc_SetBits fn h = fn h"

text \<open>The loop over the extensions: the header so far and the first error.\<close>

fun apply_bits :: "bits_fn list \<Rightarrow> header \<Rightarrow> header \<times> err option" where
  "apply_bits [] h = (h, None)"
| "apply_bits (x # xs) h =
     (case x h of
        (h', Some e) \<Rightarrow> (h', Some e)
      | (h', None) \<Rightarrow> apply_bits xs h')"

section \<open>The readers of one frame\<close>

text \<open>
  \<open>Raw\<close> is \<open>&r.raw\<close>, \<open>Ciph m pos\<close> the cipher reader over it with its mask and
  position; both read through the count and the source.
\<close>

datatype base = Raw | Ciph mask nat

type_synonym 's framed = "base \<times> int \<times> 's"

fun base_read :: "'s rd \<Rightarrow> 's framed rd" where
  "base_read rd k (Raw, L) = do {
     (bs, e, L') \<leftarrow> limited_read rd k L;
     Some (bs, e, (Raw, L'))
   }"
| "base_read rd k (Ciph mk pos, L) = do {
     (bs, e, c) \<leftarrow> CipherReader_Read (limited_read rd) k \<lparr>cr_r = L, cr_mask = mk, cr_pos = pos\<rparr>;
     Some (bs, e, (Ciph (cr_mask c) (cr_pos c), cr_r c))
   }"

datatype frame_ref = FBase base | FUtf8

record 's Reader =
  src :: 's
  RState :: byte
  opCode :: byte
  rframe :: "frame_ref option"
  rawN :: int
  utf8 :: "base UTF8Reader"

record ('s, 'w) ReaderConf =
  SkipHeaderCheck :: bool
  CheckUTF8 :: bool
  RExtensions :: "bits_fn list"
  MaxFrameSize :: int64
  OnContinuation :: "(header \<Rightarrow> 's Reader \<times> 'w \<Rightarrow> (err option \<times> 's Reader \<times> 'w) option) option"
  OnIntermediate :: "(header \<Rightarrow> 's framed \<times> 'w \<Rightarrow> (err option \<times> 's framed \<times> 'w) option) option"

text \<open>The options \<open>NewReader\<close> leaves at their zero values.\<close>

definition zero_conf :: "('s, 'w) ReaderConf" where
  "zero_conf = \<lparr>SkipHeaderCheck = False, CheckUTF8 = False, RExtensions = [], MaxFrameSize = 0,
     OnContinuation = None, OnIntermediate = None\<rparr>"

definition NewReader :: "'s \<Rightarrow> byte \<Rightarrow> 's Reader" where
  "NewReader s st = \<lparr>src = s, RState = st, opCode = 0, rframe = None, rawN = 0,
     utf8 = NewUTF8Reader None\<rparr>"

definition NewClientSideReader :: "'s \<Rightarrow> 's Reader" where
  "NewClientSideReader s = NewReader s StateClientSide"

definition NewServerSideReader :: "'s \<Rightarrow> 's Reader" where
  "NewServerSideReader s = NewReader s StateServerSide"

definition fragmented :: "'s Reader \<Rightarrow> bool" where
  "fragmented r = Fragmented (RState r)"

definition resetFragment :: "'s Reader \<Rightarrow> 's Reader" where
  "resetFragment r = r\<lparr>rawN := 0, rframe := None, utf8 := (utf8 r)\<lparr>Source := None\<rparr>\<rparr>"

definition reset :: "'s Reader \<Rightarrow> 's Reader" where
  "reset r = r\<lparr>rawN := 0, rframe := None, utf8 := NewUTF8Reader None, opCode := 0\<rparr>"

text \<open>
  \<open>r.utf8\<close> seen with its source attached: the description of the source is completed with
  the count and the connection it reads from.
\<close>

definition utf8_attach :: "base UTF8Reader \<Rightarrow> int \<times> 's \<Rightarrow> 's framed UTF8Reader" where
  "utf8_attach u L = \<lparr>Source = map_option (\<lambda>b. (b, L)) (Source u), accepted = accepted u,
     state = state u, codep = codep u\<rparr>"

definition utf8_detach :: "'s framed UTF8Reader \<Rightarrow> base UTF8Reader" where
  "utf8_detach u = \<lparr>Source = map_option fst (Source u), accepted = accepted u,
     state = state u, codep = codep u\<rparr>"

text \<open>
  \<open>r.frame.Read(p)\<close> for a buffer of \<open>k\<close> bytes: the reported count, the bytes stored at
  the front of the buffer, the error and the reader. A \<open>nil\<close> frame panics.
\<close>

definition frame_Read :: "'s rd \<Rightarrow> nat \<Rightarrow> 's Reader \<Rightarrow> (nat \<times> byte list \<times> err option \<times> 's Reader) option" where
  "frame_Read rd k r =
     (case rframe r of
        None \<Rightarrow> None
      | Some (FBase b) \<Rightarrow> do {
          (bs, e, b', N', s') \<leftarrow> base_read rd k (b, rawN r, src r);
          Some (length bs, bs, e, r\<lparr>rframe := Some (FBase b'), rawN := N', src := s'\<rparr>)
        }
      | Some FUtf8 \<Rightarrow> do {
          (n, bs, e, u) \<leftarrow> UTF8Reader_Read (base_read rd) k (utf8_attach (utf8 r) (rawN r, src r));
          (case Source u of
             None \<Rightarrow> None
           | Some (b', N', s') \<Rightarrow> Some (n, bs, e, r\<lparr>utf8 := utf8_detach u, rawN := N', src := s'\<rparr>))
        })"

section \<open>NextFrame\<close>

text \<open>
  The control frame between two fragments: the callback, then discarding what it left. The
  reader it gets is not stored in the field \<open>frame\<close>.
\<close>

definition intermediate ::
  "'s rd \<Rightarrow> ('s, 'w) ReaderConf \<Rightarrow> header \<Rightarrow> base \<Rightarrow> 's Reader \<times> 'w \<Rightarrow>
     (header \<times> err option \<times> 's Reader \<times> 'w) option" where
  "intermediate rd cf hdr frame = (\<lambda>(r, w). do {
     (e, (b, N, s), w) \<leftarrow>
       (case OnIntermediate cf of
          Some cb \<Rightarrow> cb hdr ((frame, rawN r, src r), w)
        | None \<Rightarrow> Some (None, (frame, rawN r, src r), w));
     (case e of
        Some er \<Rightarrow> Some (hdr, Some er, r\<lparr>rawN := N, src := s\<rparr>, w)
      | None \<Rightarrow> do {
          (e, N, s) \<leftarrow> io_Discard (limited_read rd) (N, s);
          Some (hdr, e, r\<lparr>rawN := N, src := s\<rparr>, w)
        })
   })"

text \<open>A frame of the message: storing its reader, the callback, and the new state.\<close>

definition load_frame ::
  "('s, 'w) ReaderConf \<Rightarrow> header \<Rightarrow> base \<Rightarrow> 's Reader \<times> 'w \<Rightarrow>
     (header \<times> err option \<times> 's Reader \<times> 'w) option" where
  "load_frame cf hdr frame = (\<lambda>(r, w).
     let r = (if fragmented r then r else r\<lparr>opCode := OpCode hdr\<rparr>);
         r = (if CheckUTF8 cf \<and> (OpCode hdr = OpText \<or> (fragmented r \<and> opCode r = OpText))
              then r\<lparr>utf8 := (utf8 r)\<lparr>Source := Some frame\<rparr>, rframe := Some FUtf8\<rparr>
              else r\<lparr>rframe := Some (FBase frame)\<rparr>)
     in do {
       (e, r, w) \<leftarrow>
         (case OnContinuation cf of
            Some cb \<Rightarrow> if OpCode hdr = OpContinuation then cb hdr (r, w) else Some (None, r, w)
          | None \<Rightarrow> Some (None, r, w));
       Some (hdr, e,
         r\<lparr>RState := (if Fin hdr then Clear (RState r) StateFragmented
                      else Set (RState r) StateFragmented)\<rparr>, w)
     })"

text \<open>
  The error after reading a header: the end of the source in the middle of a message is
  unexpected, and a header that was read is checked unless the checks are off.
\<close>

definition frame_error ::
  "('s, 'w) ReaderConf \<Rightarrow> 's Reader \<Rightarrow> header \<Rightarrow> err option \<Rightarrow> err option" where
  "frame_error cf r hdr e =
     (let e = (if e = Some EOF \<and> fragmented r then Some ErrUnexpectedEOF else e)
      in if e = None \<and> \<not> SkipHeaderCheck cf then CheckHeader hdr (RState r) else e)"

definition NextFrame ::
  "'s rd \<Rightarrow> ('s, 'w) ReaderConf \<Rightarrow> 's Reader \<times> 'w \<Rightarrow> (header \<times> err option \<times> 's Reader \<times> 'w) option" where
  "NextFrame rd cf = (\<lambda>(r, w). do {
     (hdr, e, s) \<leftarrow> ReadHeader rd (src r);
     (let r = r\<lparr>src := s\<rparr>
      in case frame_error cf r hdr e of
           Some er \<Rightarrow> Some (hdr, Some er, r, w)
         | None \<Rightarrow>
             if 0 < sint (MaxFrameSize cf) \<and> sint (MaxFrameSize cf) < sint (Length hdr)
             then Some (hdr, Some ErrFrameTooLarge, r, w)
             else
               (let r = r\<lparr>rawN := sint (Length hdr)\<rparr>;
                    frame = (if Masked hdr then Ciph (Mask hdr) 0 else Raw)
                in case apply_bits (RExtensions cf) hdr of
                     (hdr, Some er) \<Rightarrow> Some (hdr, Some er, r, w)
                   | (hdr, None) \<Rightarrow>
                       if fragmented r \<and> IsControl (OpCode hdr)
                       then intermediate rd cf hdr frame (r, w)
                       else load_frame cf hdr frame (r, w)))
   })"

section \<open>Read and Discard\<close>

text \<open>\<open>Read\<close> once a frame is loaded.\<close>

definition read_loaded ::
  "'s rd \<Rightarrow> ('s, 'w) ReaderConf \<Rightarrow> nat \<Rightarrow> 's Reader \<times> 'w \<Rightarrow>
     (nat \<times> byte list \<times> err option \<times> 's Reader \<times> 'w) option" where
  "read_loaded rd cf k = (\<lambda>(r, w). do {
     (n, bs, e, r) \<leftarrow> frame_Read rd k r;
     (if e \<noteq> None \<and> e \<noteq> Some EOF then Some (n, bs, e, r, w)
      else if e = None \<and> rawN r \<noteq> 0 then Some (n, bs, None, r, w)
      else if rawN r \<noteq> 0 then Some (n, bs, Some ErrUnexpectedEOF, r, w)
      else if fragmented r then Some (n, bs, None, resetFragment r, w)
      else if CheckUTF8 cf \<and> \<not> UTF8Reader_Valid (utf8 r) then
        Some (UTF8Reader_Accepted (utf8 r), bs, Some ErrInvalidUTF8, r, w)
      else Some (n, bs, Some EOF, reset r, w))
   })"

definition Reader_Read ::
  "'s rd \<Rightarrow> ('s, 'w) ReaderConf \<Rightarrow> nat \<Rightarrow> 's Reader \<times> 'w \<Rightarrow>
     (nat \<times> byte list \<times> err option \<times> 's Reader \<times> 'w) option" where
  "Reader_Read rd cf k = (\<lambda>(r, w).
     if rframe r = None then
       (if \<not> fragmented r then Some (0, [], Some ErrNoFrameAdvance, r, w)
        else do {
          (hdr, e, r, w) \<leftarrow> NextFrame rd cf (r, w);
          (case e of
             Some er \<Rightarrow> Some (0, [], Some er, r, w)
           | None \<Rightarrow>
               if rframe r = None then Some (0, [], None, r, w)
               else read_loaded rd cf k (r, w))
        })
     else read_loaded rd cf k (r, w))"

text \<open>The reader as an \<open>io.Reader\<close>: a caller uses the reported count of bytes.\<close>

definition reader_rd :: "'s rd \<Rightarrow> ('s, 'w) ReaderConf \<Rightarrow> ('s Reader \<times> 'w) rd" where
  "reader_rd rd cf k x =
     map_option (\<lambda>(n, bs, e, y). (take n bs, e, y)) (Reader_Read rd cf k x)"

partial_function (option) Discard ::
  "'s rd \<Rightarrow> ('s, 'w) ReaderConf \<Rightarrow> 's Reader \<Rightarrow> 'w \<Rightarrow> (err option \<times> 's Reader \<times> 'w) option" where
  "Discard rd cf r w =
     Option.bind (io_Discard (limited_read rd) (rawN r, src r)) (\<lambda>(e, N, s).
       let r = r\<lparr>rawN := N, src := s\<rparr> in
       case e of
         Some er \<Rightarrow> Some (Some er, reset r, w)
       | None \<Rightarrow>
           if \<not> fragmented r then Some (None, reset r, w)
           else Option.bind (NextFrame rd cf (r, w)) (\<lambda>(hdr, e, r, w).
             case e of
               Some er \<Rightarrow> Some (Some er, reset r, w)
             | None \<Rightarrow> Discard rd cf r w))"

text \<open>\<open>NextReader\<close> answers the reader only when the first frame was read.\<close>

definition NextReader ::
  "'s rd \<Rightarrow> 's \<Rightarrow> byte \<Rightarrow> (header \<times> 's Reader option \<times> err option) option" where
  "NextReader rd s st = do {
     (hdr, e, r, w) \<leftarrow> NextFrame rd zero_conf (NewReader s st, ());
     (case e of
        Some er \<Rightarrow> Some (hdr, None, Some er)
      | None \<Rightarrow> Some (hdr, Some r, None))
   }"

section \<open>The readers of one frame keep the contract\<close>

definition framed_inv :: "('s \<Rightarrow> bool) \<Rightarrow> 's framed \<Rightarrow> bool" where
  "framed_inv iv = (\<lambda>(b, N, s). iv s)"

definition framed_fin :: "('s \<Rightarrow> nat) \<Rightarrow> 's framed \<Rightarrow> nat" where
  "framed_fin fin = (\<lambda>(b, N, s). fin s)"

text \<open>What the frame's reader still delivers: the rest of the frame, unmasked.\<close>

fun framed_data :: "('s \<Rightarrow> byte list) \<Rightarrow> 's framed \<Rightarrow> byte list" where
  "framed_data data (Raw, L) = limited_data data L"
| "framed_data data (Ciph mk pos, L) = Cipher (limited_data data L) mk pos"

definition framed_end :: "('s \<Rightarrow> byte list) \<Rightarrow> ('s \<Rightarrow> err) \<Rightarrow> 's framed \<Rightarrow> err" where
  "framed_end data ending = (\<lambda>(b, L). limited_end data ending L)"

lemma base_readE:
  assumes "base_read rd k (b, L) = Some (bs, e, x)"
  obtains raw L' b' where "limited_read rd k L = Some (raw, e, L')" "x = (b', L')"
    "length bs = length raw"
    "(b = Raw \<and> b' = Raw \<and> bs = raw) \<or>
       (\<exists>mk pos. b = Ciph mk pos \<and> b' = Ciph mk (pos + length raw) \<and> bs = Cipher raw mk pos)"
  using assms by (cases b) (auto simp: io_simps elim!: CipherReader_ReadE)

text \<open>The count falls by the bytes delivered, and a frame of count 0 is at its end.\<close>

lemma base_read_count:
  assumes "base_read rd k (b, N, s) = Some (bs, e, (b', N', s'))"
  shows "N' = N - int (length bs)" and "N \<le> 0 \<Longrightarrow> bs = [] \<and> e = Some EOF \<and> s' = s"
  using assms by (auto elim!: base_readE limited_readE)

locale framed_reader = limited_reader rd inv fin
  for rd :: "'s rd" and inv and fin

sublocale framed_reader \<subseteq> base: io_reader "base_read rd" "framed_inv inv" "framed_fin fin"
proof unfold_locales
  fix n x bs e x'
  assume i: "framed_inv inv x" and r: "base_read rd n x = Some (bs, e, x')"
  obtain b L where x: "x = (b, L)" by (cases x)
  have iL: "(inv \<circ> snd) L" using i by (cases L) (simp add: x framed_inv_def)
  from r [unfolded x] obtain raw L' b' where r': "limited_read rd n L = Some (raw, e, L')" "x' = (b', L')"
      "length bs = length raw"
    by (rule base_readE)
  show "length bs \<le> n" and "framed_inv inv x'" and "framed_fin fin x' \<le> framed_fin fin x"
    using limited.rd_length [OF iL r'(1)] limited.rd_inv [OF iL r'(1)] limited.rd_fin [OF iL r'(1)] r'(2,3)
    by (cases L; cases L'; simp add: x framed_inv_def framed_fin_def)+
next
  fix n x bs e x'
  assume i: "framed_inv inv x" and p: "0 < n" "e = None \<or> bs \<noteq> []" and r: "base_read rd n x = Some (bs, e, x')"
  obtain b L where x: "x = (b, L)" by (cases x)
  have iL: "(inv \<circ> snd) L" using i by (cases L) (simp add: x framed_inv_def)
  from r [unfolded x] obtain raw L' b' where r': "limited_read rd n L = Some (raw, e, L')" "x' = (b', L')"
      "length bs = length raw"
    by (rule base_readE)
  have "e = None \<or> raw \<noteq> []" using p(2) r'(3) by auto
  then show "framed_fin fin x' < framed_fin fin x"
    using limited.rd_progress [OF iL p(1) r'(1)] r'(2)
    by (cases L; cases L'; simp add: x framed_fin_def)
next
  fix n and x :: "'s framed"
  assume i: "framed_inv inv x"
  obtain b L where x: "x = (b, L)" by (cases x)
  have iL: "(inv \<circ> snd) L" using i by (cases L) (simp add: x framed_inv_def)
  obtain bs e L' where "limited_read rd n L = Some (bs, e, L')"
    using limited.rd_returns [OF iL] by blast
  then show "\<exists>bs e s'. base_read rd n x = Some (bs, e, s')"
    by (cases b) (auto simp: x CipherReader_Read_def)
qed

sublocale framed_reader \<subseteq> checked: utf8_checked "base_read rd" "framed_inv inv" "framed_fin fin"
  by unfold_locales

locale framed_stream = framed_reader rd inv fin + limited_stream rd inv fin data ending
  for rd :: "'s rd" and inv and fin and data and ending

sublocale framed_stream \<subseteq> base: io_stream "base_read rd" "framed_inv inv" "framed_fin fin"
  "framed_data data" "framed_end data ending"
proof unfold_locales
  fix n x bs x'
  assume i: "framed_inv inv x" and r: "base_read rd n x = Some (bs, None, x')"
  obtain b L where x: "x = (b, L)" by (cases x)
  have iL: "(inv \<circ> snd) L" using i by (cases L) (simp add: x framed_inv_def)
  from r [unfolded x] show "framed_data data x = bs @ framed_data data x' \<and>
      framed_end data ending x' = framed_end data ending x"
  proof (rule base_readE)
    fix raw L' b'
    assume l: "limited_read rd n L = Some (raw, None, L')"
      and b: "(b = Raw \<and> b' = Raw \<and> bs = raw) \<or>
       (\<exists>mk pos. b = Ciph mk pos \<and> b' = Ciph mk (pos + length raw) \<and> bs = Cipher raw mk pos)"
      and x': "x' = (b', L')"
    show ?thesis
      using limited.rd_data [OF iL l] b by (auto simp: x x' framed_end_def Cipher_append)
  qed
next
  fix n x bs e x'
  assume i: "framed_inv inv x" and r: "base_read rd n x = Some (bs, Some e, x')"
  obtain b L where x: "x = (b, L)" by (cases x)
  have iL: "(inv \<circ> snd) L" using i by (cases L) (simp add: x framed_inv_def)
  from r [unfolded x] have "framed_data data x = bs \<and> framed_end data ending x = e \<and> bs = []"
  proof (rule base_readE)
    fix raw L' b'
    assume l: "limited_read rd n L = Some (raw, Some e, L')" and n: "length bs = length raw"
      and b: "(b = Raw \<and> b' = Raw \<and> bs = raw) \<or>
       (\<exists>mk pos. b = Ciph mk pos \<and> b' = Ciph mk (pos + length raw) \<and> bs = Cipher raw mk pos)"
    show ?thesis
      using limited.rd_end [OF iL l] b n by (auto simp: x framed_end_def)
  qed
  then show "framed_data data x = bs \<and> framed_end data ending x = e" and "bs = []" by auto
qed

end
