(* ===== verification/FrameWriter.thy ===== *)
theory FrameWriter
  imports HeaderIO Check FrameReader
begin

text \<open>
  The message writer (msutil/writer.go). \<open>Writer\<close> collects data in a buffer whose first
  bytes are reserved for a frame header, and sends it as the frames of one message; a
  \<open>ControlWriter\<close> guards it for control frames.

  The slice \<open>buf\<close> of the source is always \<open>raw[offset:]\<close>; the record holds \<open>raw\<close> and
  that offset. The destination is the connection, whose faults stand for any behaviour of an
  \<open>io.Writer\<close>, and which carries the random source masks are drawn from. Operations that
  may panic answer an option.
\<close>

section \<open>Sizes\<close>

definition DefaultWriteBuffer :: int where "DefaultWriteBuffer = 4096"

text \<open>The bytes to reserve for a header in a buffer of \<open>n\<close> bytes.\<close>

definition reserve :: "byte \<Rightarrow> int \<Rightarrow> int" where
  "reserve st n =
     (let mk = (if ClientSide st then 4 else 0)
      in if n \<le> len7 + mk + 2 then mk + 2
         else if n \<le> len16 + mk + 4 then mk + 4
         else mk + 10)"

definition headerSize :: "byte \<Rightarrow> int \<Rightarrow> int" where
  "headerSize st n = HeaderSize (zero_header\<lparr>Length := of_int n, Masked := ClientSide st\<rparr>)"

text \<open>
  \<open>ceilPowerOfTwo\<close> on a 64-bit \<open>int\<close>, whose shift to the right keeps the sign.
\<close>

definition ceilPowerOfTwo :: "int64 \<Rightarrow> int64" where
  "ceilPowerOfTwo n =
     (let n = n OR signed_drop_bit 1 n;
          n = n OR signed_drop_bit 2 n;
          n = n OR signed_drop_bit 4 n;
          n = n OR signed_drop_bit 8 n;
          n = n OR signed_drop_bit 16 n;
          n = n OR signed_drop_bit 32 n
      in n + 1)"

section \<open>The writer\<close>

record Writer =
  wdest :: dest
  wop :: byte
  wstate :: byte
  extensions :: "bits_fn list"
  noFlush :: bool
  raw :: "byte list"
  offset :: nat
  wn :: nat
  dirty :: bool
  fseq :: nat
  werr :: "err option"

definition Size :: "Writer \<Rightarrow> nat" where
  "Size w = length (raw w) - offset w"

definition Buffered :: "Writer \<Rightarrow> nat" where
  "Buffered w = wn w"

definition Available :: "Writer \<Rightarrow> nat" where
  "Available w = Size w - wn w"

definition opCode_of :: "Writer \<Rightarrow> byte" where
  "opCode_of w = (if 0 < fseq w then OpContinuation else wop w)"

definition initBuf :: "Writer \<Rightarrow> Writer option" where
  "initBuf w =
     (let off = reserve (wstate w) (int (length (raw w)))
      in if int (length (raw w)) \<le> off then None else Some (w\<lparr>offset := nat off\<rparr>))"

definition NewWriterBuffer :: "dest \<Rightarrow> byte \<Rightarrow> byte \<Rightarrow> byte list \<Rightarrow> Writer option" where
  "NewWriterBuffer d st op buf =
     initBuf \<lparr>wdest = d, wop = op, wstate = st, extensions = [], noFlush = False, raw = buf,
       offset = 0, wn = 0, dirty = False, fseq = 0, werr = None\<rparr>"

definition NewWriterBufferSize :: "dest \<Rightarrow> byte \<Rightarrow> byte \<Rightarrow> int \<Rightarrow> Writer option" where
  "NewWriterBufferSize d st op n =
     (let n = (if n \<le> int MinHeaderSize then DefaultWriteBuffer else n)
      in do { buf \<leftarrow> make_bytes n; NewWriterBuffer d st op buf })"

definition NewWriterSize :: "dest \<Rightarrow> byte \<Rightarrow> byte \<Rightarrow> int \<Rightarrow> Writer option" where
  "NewWriterSize d st op n =
     NewWriterBufferSize d st op (if 0 < n then n + headerSize st n else n)"

definition NewWriter :: "dest \<Rightarrow> byte \<Rightarrow> byte \<Rightarrow> Writer option" where
  "NewWriter d st op = NewWriterBufferSize d st op 0"

text \<open>\<open>Reset\<close> does not touch the stored error.\<close>

definition Writer_Reset :: "Writer \<Rightarrow> dest \<Rightarrow> byte \<Rightarrow> byte \<Rightarrow> Writer option" where
  "Writer_Reset w d st op = do {
     w \<leftarrow> initBuf (w\<lparr>wdest := d, wstate := st, wop := op\<rparr>);
     Some (w\<lparr>wn := 0, dirty := False, fseq := 0, extensions := [], noFlush := False\<rparr>)
   }"

definition ResetOp :: "Writer \<Rightarrow> byte \<Rightarrow> Writer" where
  "ResetOp w op = w\<lparr>wop := op, wn := 0, dirty := False, fseq := 0\<rparr>"

definition SetExtensions :: "Writer \<Rightarrow> bits_fn list \<Rightarrow> Writer" where
  "SetExtensions w xs = w\<lparr>extensions := xs\<rparr>"

definition DisableFlush :: "Writer \<Rightarrow> Writer" where
  "DisableFlush w = w\<lparr>noFlush := True\<rparr>"

text \<open>
  The pool of writers is outside the program: \<open>get n\<close> is what it answers, a writer put
  back before, if any, and the size class of \<open>n\<close>.
\<close>

definition GetWriter ::
  "(int \<Rightarrow> Writer option \<times> int) \<Rightarrow> dest \<Rightarrow> byte \<Rightarrow> byte \<Rightarrow> int \<Rightarrow> Writer option" where
  "GetWriter get d st op n =
     (case get n of
        (Some w, m) \<Rightarrow> Writer_Reset w d st op
      | (None, m) \<Rightarrow> NewWriterBufferSize d st op m)"

section \<open>Sending frames\<close>

text \<open>The writer over the reserved bytes that the header is dumped through.\<close>

record bytesWriter =
  bbuf :: "byte list"
  bpos :: nat

definition bytesWriter_Write :: "bytesWriter wr" where
  "bytesWriter_Write p w =
     (let n = copy_len (bpos w) p (bbuf w);
          w = w\<lparr>bbuf := put_at (bpos w) p (bbuf w), bpos := bpos w + n\<rparr>
      in Some (n, (if n \<noteq> length p then Some ErrNoSpace else None), w))"

text \<open>
  \<open>flushFragment\<close>: the header goes right before the payload in \<open>raw\<close>, and both are sent
  in one call. A header that does not fit the reserved bytes panics.
\<close>

definition flushFragment :: "bool \<Rightarrow> Writer \<Rightarrow> (err option \<times> Writer) option" where
  "flushFragment fin w =
     (let payload = take (wn w) (drop (offset w) (raw w));
          h = zero_header\<lparr>OpCode := opCode_of w, Fin := fin, Length := of_nat (length payload)\<rparr>
      in case apply_bits (extensions w) h of
           (h, Some e) \<Rightarrow> Some (Some e, w)
         | (h, None) \<Rightarrow>
             (let (h, w) =
                (if ClientSide (wstate w)
                 then (let (m, d) = NewMask (wdest w)
                       in (h\<lparr>Masked := True, Mask := m\<rparr>,
                           w\<lparr>wdest := d, raw := put_at (offset w) (Cipher payload m 0) (raw w)\<rparr>))
                 else (h, w));
                skip = int (offset w) - HeaderSize h
              in if skip < 0 then None
                 else do {
                   (e, b) \<leftarrow> WriteHeader bytesWriter_Write h
                     \<lparr>bbuf = take (offset w - nat skip) (drop (nat skip) (raw w)), bpos = 0\<rparr>;
                   (case e of
                      Some er \<Rightarrow> None
                    | None \<Rightarrow>
                        (let w = w\<lparr>raw := put_at (nat skip) (bbuf b) (raw w)\<rparr>
                         in do {
                           (n, e, d) \<leftarrow> conn_write
                             (take (offset w + wn w - nat skip) (drop (nat skip) (raw w))) (wdest w);
                           Some (e, w\<lparr>wdest := d\<rparr>)
                         }))
                 }))"

definition Flush :: "Writer \<Rightarrow> (err option \<times> Writer) option" where
  "Flush w =
     (if (\<not> dirty w \<and> Buffered w = 0) \<or> werr w \<noteq> None then Some (werr w, w)
      else do {
        (e, w) \<leftarrow> flushFragment True w;
        Some (e, w\<lparr>werr := e, wn := 0, dirty := False, fseq := 0\<rparr>)
      })"

definition FlushFragment :: "Writer \<Rightarrow> (err option \<times> Writer) option" where
  "FlushFragment w =
     (if Buffered w = 0 \<or> werr w \<noteq> None then Some (werr w, w)
      else do {
        (e, w) \<leftarrow> flushFragment False w;
        Some (e, w\<lparr>werr := e, wn := 0, fseq := fseq w + 1\<rparr>)
      })"

text \<open>
  \<open>WriteThrough\<close> sends the argument as a frame of its own, through a copy when it has to be
  masked. An error of an extension is returned and not stored.
\<close>

definition WriteThrough :: "byte list \<Rightarrow> Writer \<Rightarrow> (nat \<times> err option \<times> Writer) option" where
  "WriteThrough p w =
     (case werr w of
        Some e \<Rightarrow> Some (0, Some e, w)
      | None \<Rightarrow>
          if Buffered w \<noteq> 0 then Some (0, Some ErrNotEmpty, w)
          else
            (let h = zero_header\<lparr>OpCode := opCode_of w, Fin := False, Length := of_nat (length p)\<rparr>
             in case apply_bits (extensions w) h of
                  (h, Some e) \<Rightarrow> Some (0, Some e, w)
                | (h, None) \<Rightarrow>
                    (let (f, d) =
                       (if ClientSide (wstate w)
                        then MaskFrameInPlace \<lparr>Header = h, Payload = put_at 0 p (replicate (length p) 0)\<rparr> (wdest w)
                        else (\<lparr>Header = h, Payload = p\<rparr>, wdest w))
                     in do {
                       (e, d) \<leftarrow> WriteFrame conn_write f d;
                       Some ((if e = None then length p else 0), e,
                         w\<lparr>werr := e, wdest := d, dirty := True, fseq := fseq w + 1\<rparr>)
                     })))"

section \<open>Grow\<close>

partial_function (option) grow_loop :: "byte \<Rightarrow> int \<Rightarrow> int \<Rightarrow> int \<Rightarrow> int \<Rightarrow> (int \<times> int) option" where
  "grow_loop st buffered n sz nx =
     (if sz - nx - buffered < n
      then (let sz = sint (ceilPowerOfTwo (of_int (nx + buffered + n)))
            in grow_loop st buffered n sz (reserve st sz))
      else Some (sz, nx))"

definition Grow :: "nat \<Rightarrow> Writer \<Rightarrow> Writer option" where
  "Grow n w = do {
     (sz, nx) \<leftarrow> grow_loop (wstate w) (int (Buffered w)) (int n) (int (length (raw w))) (int (offset w));
     (if sz < int (length (raw w)) then None
      else if sz = int (length (raw w)) then Some w
      else if nx < int (offset w) then None
      else do {
        p \<leftarrow> make_bytes sz;
        Some (w\<lparr>raw := put_at (nat nx - offset w) (take (offset w + Buffered w) (raw w)) p, offset := nat nx\<rparr>)
      })
   }"

section \<open>Write and ReadFrom\<close>

text \<open>\<open>nn = copy(w.buf[w.n:], p); w.n += nn\<close>\<close>

definition fill :: "byte list \<Rightarrow> Writer \<Rightarrow> Writer" where
  "fill p w = w\<lparr>raw := put_at (offset w + wn w) p (raw w),
     wn := wn w + copy_len (offset w + wn w) p (raw w)\<rparr>"

partial_function (option) write_loop :: "byte list \<Rightarrow> nat \<Rightarrow> Writer \<Rightarrow> (byte list \<times> nat \<times> Writer) option" where
  "write_loop p n w =
     (if Available w < length p \<and> werr w = None then
        (if noFlush w then Option.bind (Grow (length p) w) (write_loop p n)
         else if Buffered w = 0 then
           Option.bind (WriteThrough p w) (\<lambda>(nn, e, w). write_loop (drop nn p) (n + nn) w)
         else
           (let nn = copy_len (offset w + wn w) p (raw w) in
            Option.bind (FlushFragment (fill p w)) (\<lambda>(e, w). write_loop (drop nn p) (n + nn) w)))
      else Some (p, n, w))"

definition Writer_Write :: "Writer wr" where
  "Writer_Write p w = do {
     (p, n, w) \<leftarrow> write_loop p 0 (w\<lparr>dirty := True\<rparr>);
     (case werr w of
        Some e \<Rightarrow> Some (n, Some e, w)
      | None \<Rightarrow>
          Some (n + copy_len (offset w + wn w) p (raw w), werr (fill p w), fill p w))
   }"

definition maxEmptyReads :: nat where "maxEmptyReads = 100"

text \<open>
  The inner loop of \<open>ReadFrom\<close>: at most \<open>i\<close> more reads without bytes; the last component
  tells whether they were used up.
\<close>

fun read_try :: "'s rd \<Rightarrow> nat \<Rightarrow> nat \<Rightarrow> 's \<Rightarrow> (byte list \<times> err option \<times> 's \<times> bool) option" where
  "read_try rd k 0 s = Some ([], None, s, True)"
| "read_try rd k (Suc i) s =
     (case rd k s of
        None \<Rightarrow> None
      | Some (bs, e, s') \<Rightarrow>
          if bs \<noteq> [] \<or> e \<noteq> None then Some (bs, e, s', False) else read_try rd k i s')"

partial_function (option) read_from_loop ::
  "'s rd \<Rightarrow> nat \<Rightarrow> 's \<Rightarrow> Writer \<Rightarrow> (nat \<times> err option \<times> bool \<times> 's \<times> Writer) option" where
  "read_from_loop rd n s w =
     (if Available w = 0 then
        (if noFlush w then Option.bind (Grow (Buffered w) w) (read_from_loop rd n s)
         else Option.bind (FlushFragment w) (\<lambda>(e, w).
           case e of Some er \<Rightarrow> Some (n, Some er, False, s, w) | None \<Rightarrow> read_from_loop rd n s w))
      else
        Option.bind (read_try rd (Available w) maxEmptyReads s) (\<lambda>(bs, e, s, stuck).
          if stuck then Some (n, Some ErrNoProgress, True, s, w)
          else
            (let w = fill bs w; n = n + length bs in
             case e of
               None \<Rightarrow> read_from_loop rd n s w
             | Some er \<Rightarrow> Some (n, Some er, False, s, w))))"

definition ReadFrom :: "'s rd \<Rightarrow> 's \<Rightarrow> Writer \<Rightarrow> (nat \<times> err option \<times> 's \<times> Writer) option" where
  "ReadFrom rd s w = do {
     (n, e, stuck, s, w) \<leftarrow> read_from_loop rd 0 s w;
     (if \<not> stuck \<and> e = Some EOF then Some (n, None, s, w\<lparr>dirty := True\<rparr>) else Some (n, e, s, w))
   }"

declare grow_loop.simps [code] write_loop.simps [code] read_from_loop.simps [code]

section \<open>writeFrame\<close>

definition writeFrame :: "byte \<Rightarrow> byte \<Rightarrow> bool \<Rightarrow> byte list \<Rightarrow> dest \<Rightarrow> (err option \<times> dest) option" where
  "writeFrame st op fin p d =
     (let (f, d) = (if ClientSide st
                    then MaskFrameInPlace (NewFrame op fin (put_at 0 p (replicate (length p) 0))) d
                    else (NewFrame op fin p, d))
      in WriteFrame conn_write f d)"

section \<open>The writer of control frames\<close>

record ControlWriter =
  cw :: Writer
  climit :: nat
  cn :: nat

definition NewControlWriter :: "dest \<Rightarrow> byte \<Rightarrow> byte \<Rightarrow> ControlWriter option" where
  "NewControlWriter d st op = do {
     w \<leftarrow> NewWriterSize d st op (int MaxControlFramePayloadSize);
     Some \<lparr>cw = w, climit = MaxControlFramePayloadSize, cn = 0\<rparr>
   }"

definition NewControlWriterBuffer :: "dest \<Rightarrow> byte \<Rightarrow> byte \<Rightarrow> byte list \<Rightarrow> ControlWriter option" where
  "NewControlWriterBuffer d st op buf =
     (let max = int MaxControlFramePayloadSize + headerSize st (int MaxControlFramePayloadSize);
          buf = (if max < int (length buf) then take (nat max) buf else buf)
      in do {
        w \<leftarrow> NewWriterBuffer d st op buf;
        Some \<lparr>cw = w, climit = Size w, cn = 0\<rparr>
      })"

definition ControlWriter_Write :: "ControlWriter wr" where
  "ControlWriter_Write p c =
     (if climit c < cn c + length p then Some (0, Some ErrControlOverflow, c)
      else do {
        (n, e, w) \<leftarrow> Writer_Write p (cw c);
        Some (n, e, c\<lparr>cw := w\<rparr>)
      })"

definition ControlWriter_Flush :: "ControlWriter \<Rightarrow> (err option \<times> ControlWriter) option" where
  "ControlWriter_Flush c = do {
     (e, w) \<leftarrow> Flush (cw c);
     Some (e, c\<lparr>cw := w\<rparr>)
   }"

end
