(* ===== verification/Messages.thy ===== *)
theory Messages
  imports FrameReader
begin

text \<open>
  What the message reader promises. First the contract that holds against any peer: under
  callbacks that return, every operation returns, and the reader is itself an \<open>io.Reader\<close>
  whose loops end. Then what it delivers over a stream that carries a well-formed message:
  the payloads of its fragments, unmasked and joined, wherever the stream is cut.
\<close>

section \<open>The reader always returns\<close>

definition reader_inv :: "('s \<Rightarrow> bool) \<Rightarrow> 's Reader \<Rightarrow> bool" where
  "reader_inv iv r \<longleftrightarrow> iv (src r) \<and> state (utf8 r) \<in> utf8_states \<and>
     (rframe r = Some FUtf8 \<longrightarrow> Source (utf8 r) \<noteq> None)"

text \<open>A loaded frame counts one half step, so that dropping an empty frame is progress.\<close>

definition reader_fin :: "('s \<Rightarrow> nat) \<Rightarrow> 's Reader \<Rightarrow> nat" where
  "reader_fin fin r = 2 * fin (src r) + (if rframe r = None then 0 else 1)"

lemma reader_inv_reset [simp]:
  "reader_inv iv (reset r) \<longleftrightarrow> iv (src r)" "rframe (reset r) = None" "src (reset r) = src r"
  "RState (reset r) = RState r"
  "reader_inv iv (resetFragment r) \<longleftrightarrow> iv (src r) \<and> state (utf8 r) \<in> utf8_states"
  "rframe (resetFragment r) = None" "src (resetFragment r) = src r"
  "RState (resetFragment r) = RState r" "opCode (resetFragment r) = opCode r"
  "rawN (resetFragment r) = 0" "utf8 (resetFragment r) = (utf8 r)\<lparr>Source := None\<rparr>"
  by (simp_all add: reader_inv_def reset_def resetFragment_def NewUTF8Reader_def utf8_states_def)

text \<open>\<open>NextFrame\<close> on a header that passes the checks.\<close>

lemma NextFrame_accept:
  assumes "ReadHeader rd (src r) = Some (h, None, s)"
    and "frame_error cf (r\<lparr>src := s\<rparr>) h None = None"
    and "\<not> (0 < sint (MaxFrameSize cf) \<and> sint (MaxFrameSize cf) < sint (Length h))"
    and "apply_bits (RExtensions cf) h = (h', None)"
  shows "NextFrame rd cf (r, w) =
    (let b = (if Masked h then Ciph (Mask h) 0 else Raw); r' = r\<lparr>src := s, rawN := sint (Length h)\<rparr>
     in if fragmented r \<and> IsControl (OpCode h') then intermediate rd cf h' b (r', w)
        else load_frame cf h' b (r', w))"
  using assms(3) by (auto simp: NextFrame_def Let_def assms(1,2,4) fragmented_def)

context framed_reader
begin

text \<open>
  One read from the loaded frame, as a read of its stack of readers: \<open>raw\<close> is what the
  frame delivers, and only the UTF-8 check may report less.
\<close>

lemma frame_Read_cases:
  assumes "reader_inv inv r" and "rframe r \<noteq> None"
  obtains b bs e b' N' s' n e' r' where
    "base_read rd k (b, rawN r, src r) = Some (bs, e, (b', N', s'))"
    "frame_Read rd k r = Some (n, bs, e', r')" "n \<le> length bs"
    "src r' = s'" "rawN r' = N'" "RState r' = RState r" "opCode r' = opCode r"
    "reader_inv inv r'" "rframe r' \<noteq> None"
    "(rframe r = Some (FBase b) \<and> rframe r' = Some (FBase b') \<and> utf8 r' = utf8 r \<and> n = length bs \<and> e' = e) \<or>
     (rframe r = Some FUtf8 \<and> Source (utf8 r) = Some b \<and> rframe r' = Some FUtf8 \<and>
       Source (utf8 r') = Some b' \<and> state (utf8 r') = utf8_run (state (utf8 r)) bs \<and>
       (if bs \<noteq> [] \<and> utf8_run (state (utf8 r)) bs = 12 then e' = Some ErrInvalidUTF8
        else n = length bs \<and> e' = e) \<and>
       utf8_short (state (utf8 r)) bs n (accepted (utf8 r')))"
proof -
  have iv: "framed_inv inv (b, rawN r, src r)" for b
    using assms(1) by (simp add: framed_inv_def reader_inv_def)
  consider (B) b where "rframe r = Some (FBase b)" | (U) b where "rframe r = Some FUtf8" "Source (utf8 r) = Some b"
    using assms by (cases "rframe r" rule: option.exhaust; cases "the (rframe r)")
      (auto simp: reader_inv_def)
  then show thesis
  proof cases
    case B
    obtain bs e b' N' s' where r: "base_read rd k (b, rawN r, src r) = Some (bs, e, (b', N', s'))"
      using base.rd_returns [OF iv, of k b] by auto
    have "inv s'" using base.rd_inv [OF iv r] by (simp add: framed_inv_def)
    with B r assms(1) show thesis
      by (intro that [OF r, of "length bs" e "r\<lparr>rframe := Some (FBase b'), rawN := N', src := s'\<rparr>"])
        (simp_all add: frame_Read_def reader_inv_def)
  next
    case U
    let ?u = "utf8_attach (utf8 r) (rawN r, src r)"
    have iu: "utf8_inv (framed_inv inv) ?u" "Source ?u = Some (b, rawN r, src r)"
      using assms(1) U by (simp_all add: utf8_inv_def utf8_attach_def framed_inv_def reader_inv_def)
    obtain bs e b' N' s' where r: "base_read rd k (b, rawN r, src r) = Some (bs, e, (b', N', s'))"
      using base.rd_returns [OF iv, of k b] by auto
    have s': "inv s'" using base.rd_inv [OF iv r] by (simp add: framed_inv_def)
    obtain n e' u' where u: "UTF8Reader_Read (base_read rd) k ?u = Some (n, bs, e', u')" "n \<le> length bs"
        "Source u' = Some (b', N', s')" "state u' = utf8_run (state (utf8 r)) bs"
        "if bs \<noteq> [] \<and> utf8_run (state (utf8 r)) bs = 12 then e' = Some ErrInvalidUTF8 else n = length bs \<and> e' = e"
        "utf8_short (state (utf8 r)) bs n (accepted u')"
      using utf8_readD [OF iu, of "base_read rd" k] r by (auto simp: utf8_attach_def)
    have "utf8_run (state (utf8 r)) bs \<in> utf8_states"
      using assms(1) utf8_run_states by (simp add: reader_inv_def)
    with U u s' show thesis
      by (intro that [OF r, of n e' "r\<lparr>utf8 := utf8_detach u', rawN := N', src := s'\<rparr>"])
        (simp_all add: frame_Read_def reader_inv_def utf8_detach_def)
  qed
qed

lemma frame_Read_returns:
  assumes "reader_inv inv r" and "rframe r \<noteq> None"
  shows "\<exists>n bs e r'. frame_Read rd k r = Some (n, bs, e, r') \<and> n \<le> length bs \<and> length bs \<le> k \<and>
    reader_inv inv r' \<and> rframe r' \<noteq> None \<and> RState r' = RState r \<and> fin (src r') \<le> fin (src r) \<and>
    (0 < k \<and> (e = None \<or> bs \<noteq> []) \<longrightarrow> fin (src r') < fin (src r))"
proof -
  obtain b bs e b' N' s' n e' r' where r: "base_read rd k (b, rawN r, src r) = Some (bs, e, (b', N', s'))"
      "frame_Read rd k r = Some (n, bs, e', r')" "n \<le> length bs" "src r' = s'" "RState r' = RState r"
      "reader_inv inv r'" "rframe r' \<noteq> None" "e' = None \<longrightarrow> e = None"
    by (rule frame_Read_cases [OF assms, of k]) (auto split: if_splits)
  have iv: "framed_inv inv (b, rawN r, src r)"
    using assms(1) by (simp add: framed_inv_def reader_inv_def)
  note base.rd_length [OF iv r(1)] base.rd_fin [OF iv r(1)] base.rd_progress [OF iv _ r(1)]
  with r show ?thesis by (auto simp: framed_fin_def)
qed

end

text \<open>
  What \<open>NextFrame\<close> promises the callback for control frames when no extension changes the
  headers: a well-formed control header, the count of the frame, and unless the checks are
  off a final frame of at most 125 bytes with a known operation code.
\<close>

definition passes :: "('s, 'w) ReaderConf \<Rightarrow> header \<Rightarrow> int \<Rightarrow> bool" where
  "passes cf h N \<longleftrightarrow> IsControl (OpCode h) \<and> (RExtensions cf = [] \<longrightarrow> wf_header h \<and> N = sint (Length h) \<and>
     (\<not> SkipHeaderCheck cf \<longrightarrow> N \<le> 125 \<and> Fin h \<and> \<not> IsReserved (OpCode h)))"

text \<open>Readers whose callbacks return and do not give back input.\<close>

locale message_reader = framed_reader rd inv fin
  for rd :: "'s rd" and inv and fin +
  fixes cf :: "('s, 'w) ReaderConf"
  assumes on_intermediate: "OnIntermediate cf = Some cb \<Longrightarrow> inv s \<Longrightarrow> passes cf h N \<Longrightarrow>
      \<exists>e b' N' s' w'. cb h ((b, N, s), w) = Some (e, (b', N', s'), w') \<and> inv s' \<and> fin s' \<le> fin s"
    and on_continuation: "OnContinuation cf = Some cc \<Longrightarrow> reader_inv inv r \<Longrightarrow> rframe r \<noteq> None \<Longrightarrow>
      \<exists>e r' w'. cc h (r, w) = Some (e, r', w') \<and> reader_inv inv r' \<and> rframe r' \<noteq> None \<and>
        fin (src r') \<le> fin (src r)"
begin

lemma intermediate_returns:
  assumes "reader_inv inv r" and "passes cf h (rawN r)"
  shows "\<exists>e r' w'. intermediate rd cf h b (r, w) = Some (h, e, r', w') \<and> reader_inv inv r' \<and>
    fin (src r') \<le> fin (src r) \<and> rframe r' = rframe r \<and> RState r' = RState r"
proof -
  let ?m = "case OnIntermediate cf of Some cb \<Rightarrow> cb h ((b, rawN r, src r), w)
    | None \<Rightarrow> Some (None, (b, rawN r, src r), w)"
  have i: "inv (src r)" using assms by (simp add: reader_inv_def)
  obtain e b1 N1 s1 w1 where m: "?m = Some (e, (b1, N1, s1), w1)" "inv s1" "fin s1 \<le> fin (src r)"
  proof (cases "OnIntermediate cf")
    case None
    with that [of None b "rawN r" "src r" w] i show thesis by simp
  next
    case (Some cb)
    from on_intermediate [OF this i assms(2), of b w] show thesis
      by (elim exE conjE) (rule that, simp_all add: Some)
  qed
  obtain e2 N2 s2 where d: "io_Discard (limited_read rd) (N1, s1) = Some (e2, (N2, s2))" "inv s2" "fin s2 \<le> fin s1"
    using limited.io_Discard_returns [of "(N1, s1)"] m(2) by auto
  show ?thesis
    using assms m d by (cases e) (auto simp: intermediate_def reader_inv_def)
qed

lemma load_frame_returns:
  assumes "reader_inv inv r"
  shows "\<exists>e r' w'. load_frame cf h b (r, w) = Some (h, e, r', w') \<and> reader_inv inv r' \<and>
    rframe r' \<noteq> None \<and> fin (src r') \<le> fin (src r)"
proof -
  define r0 where "r0 = (if fragmented r then r else r\<lparr>opCode := OpCode h\<rparr>)"
  define r1 where "r1 = (if CheckUTF8 cf \<and> (OpCode h = OpText \<or> (fragmented r0 \<and> opCode r0 = OpText))
              then r0\<lparr>utf8 := (utf8 r0)\<lparr>Source := Some b\<rparr>, rframe := Some FUtf8\<rparr>
              else r0\<lparr>rframe := Some (FBase b)\<rparr>)"
  have r1: "reader_inv inv r1" "rframe r1 \<noteq> None" "src r1 = src r"
    using assms by (auto simp: r1_def r0_def reader_inv_def)
  let ?m = "case OnContinuation cf of
      Some cb \<Rightarrow> if OpCode h = OpContinuation then cb h (r1, w) else Some (None, r1, w)
    | None \<Rightarrow> Some (None, r1, w)"
  obtain e r2 w2 where m: "?m = Some (e, r2, w2)" "reader_inv inv r2" "rframe r2 \<noteq> None"
      "fin (src r2) \<le> fin (src r1)"
    using on_continuation [of _ r1 h w] r1 by (cases "OnContinuation cf"; cases "OpCode h = OpContinuation") auto
  have "load_frame cf h b (r, w) = Some (h, e,
      r2\<lparr>RState := (if Fin h then Clear (RState r2) StateFragmented else Set (RState r2) StateFragmented)\<rparr>, w2)"
    unfolding load_frame_def Let_def prod.case r0_def [symmetric] r1_def [symmetric] m(1) by simp
  with m r1 show ?thesis by (auto simp: reader_inv_def)
qed

lemma NextFrame_returns:
  assumes "reader_inv inv r"
  shows "\<exists>h e r' w'. NextFrame rd cf (r, w) = Some (h, e, r', w') \<and> reader_inv inv r' \<and>
    fin (src r') \<le> fin (src r) \<and>
    (e = None \<or> rframe r' \<noteq> rframe r \<longrightarrow> fin (src r') < fin (src r))"
proof -
  have i: "inv (src r)" using assms by (simp add: reader_inv_def)
  obtain h e s where rh: "ReadHeader rd (src r) = Some (h, e, s)" "inv s" "fin s \<le> fin (src r)"
      "e = None \<longrightarrow> fin s < fin (src r)" "e = None \<longrightarrow> wf_header h"
    using ReadHeader_returns [OF i] by blast
  have r1: "reader_inv inv (r\<lparr>src := s, rawN := N\<rparr>)" "reader_inv inv (r\<lparr>src := s\<rparr>)" for N
    using assms rh(2) by (simp_all add: reader_inv_def)
  have f: "fragmented (r\<lparr>src := s, rawN := N\<rparr>) = fragmented r" "fragmented (r\<lparr>src := s\<rparr>) = fragmented r" for N
    by (simp_all add: fragmented_def)
  let ?e = "frame_error cf (r\<lparr>src := s\<rparr>) h e"
  have e: "?e = None \<Longrightarrow> e = None"
    by (auto simp: frame_error_def Let_def split: if_splits)
  show ?thesis
  proof (cases "?e = None \<and> \<not> (0 < sint (MaxFrameSize cf) \<and> sint (MaxFrameSize cf) < sint (Length h)) \<and>
      snd (apply_bits (RExtensions cf) h) = None")
    case False
    then show ?thesis
      using rh r1 e by (cases ?e; cases "apply_bits (RExtensions cf) h"; cases "snd (apply_bits (RExtensions cf) h)")
        (auto simp: NextFrame_def Let_def f)
  next
    case True
    then obtain h' where h': "apply_bits (RExtensions cf) h = (h', None)" "e = None"
      using e by (cases "apply_bits (RExtensions cf) h") auto
    let ?b = "if Masked h then Ciph (Mask h) 0 else Raw"
    let ?r = "r\<lparr>src := s, rawN := sint (Length h)\<rparr>"
    have n: "NextFrame rd cf (r, w) =
        (if fragmented r \<and> IsControl (OpCode h') then intermediate rd cf h' ?b (?r, w)
         else load_frame cf h' ?b (?r, w))"
      using NextFrame_accept [of rd r h s cf h' w] rh(1) h' True by (simp add: Let_def)
    have p: "passes cf h' (rawN ?r)" if "IsControl (OpCode h')"
    proof -
      have "\<not> SkipHeaderCheck cf \<Longrightarrow> CheckHeader h (RState r) = None"
        using True h'(2) by (auto simp: frame_error_def)
      then show ?thesis
        using h' rh(5) that by (auto simp: passes_def CheckHeader_None)
    qed
    show ?thesis
      unfolding n using intermediate_returns [OF r1(1) p, where b = ?b and w = w]
        load_frame_returns [OF r1(1), of h' ?b "sint (Length h)" w] rh h' by fastforce
  qed
qed

lemma read_loaded_returns:
  assumes "reader_inv inv r" and "rframe r \<noteq> None"
  shows "\<exists>n bs e r' w'. read_loaded rd cf k (r, w) = Some (n, bs, e, r', w') \<and> length bs \<le> k \<and>
    reader_inv inv r' \<and> reader_fin fin r' \<le> reader_fin fin r \<and>
    (0 < k \<and> (e = None \<or> bs \<noteq> []) \<longrightarrow> reader_fin fin r' < reader_fin fin r)"
proof -
  obtain n bs e r1 where f: "frame_Read rd k r = Some (n, bs, e, r1)" "n \<le> length bs" "length bs \<le> k"
      "reader_inv inv r1" "rframe r1 \<noteq> None" "fin (src r1) \<le> fin (src r)"
      "0 < k \<and> (e = None \<or> bs \<noteq> []) \<longrightarrow> fin (src r1) < fin (src r)"
    using frame_Read_returns [OF assms] by blast
  have i: "reader_inv inv (reset r1)" "reader_inv inv (resetFragment r1)"
    using f(4) by (simp_all add: reader_inv_def [of inv r1])
  have m: "reader_fin fin (reset r1) < reader_fin fin r" "reader_fin fin (resetFragment r1) < reader_fin fin r"
    "reader_fin fin r1 \<le> reader_fin fin r"
    "0 < k \<and> (e = None \<or> bs \<noteq> []) \<longrightarrow> reader_fin fin r1 < reader_fin fin r"
    using f(5-7) assms(2) by (auto simp: reader_fin_def)
  consider (E) "e \<noteq> None" "e \<noteq> Some EOF" | (M) "e = None" "rawN r1 \<noteq> 0" | (U) "e = Some EOF" "rawN r1 \<noteq> 0"
    | (F) "e = None \<or> e = Some EOF" "rawN r1 = 0" "fragmented r1"
    | (V) "e = None \<or> e = Some EOF" "rawN r1 = 0" "\<not> fragmented r1" "CheckUTF8 cf \<and> \<not> UTF8Reader_Valid (utf8 r1)"
    | (L) "e = None \<or> e = Some EOF" "rawN r1 = 0" "\<not> fragmented r1" "\<not> (CheckUTF8 cf \<and> \<not> UTF8Reader_Valid (utf8 r1))"
    by (cases "e = None"; cases "e = Some EOF"; cases "rawN r1 = 0") auto
  then show ?thesis
  proof cases
    case E
    then show ?thesis using f(1,3,4) m by (simp add: read_loaded_def)
  next
    case M
    then show ?thesis using f(1,3,4) m by (simp add: read_loaded_def)
  next
    case U
    then show ?thesis using f(1,3,4) m by (simp add: read_loaded_def)
  next
    case F
    then show ?thesis using f(1,3) i m by (auto simp: read_loaded_def)
  next
    case V
    then show ?thesis using f(1,3,4) m by (auto simp: read_loaded_def)
  next
    case L
    then show ?thesis using f(1,3) i m by (auto simp: read_loaded_def)
  qed
qed

lemma Reader_Read_returns:
  assumes "reader_inv inv r"
  shows "\<exists>n bs e r' w'. Reader_Read rd cf k (r, w) = Some (n, bs, e, r', w') \<and> length bs \<le> k \<and>
    reader_inv inv r' \<and> reader_fin fin r' \<le> reader_fin fin r \<and>
    (0 < k \<and> (e = None \<or> bs \<noteq> []) \<longrightarrow> reader_fin fin r' < reader_fin fin r)"
proof -
  consider (L) "rframe r \<noteq> None" | (I) "rframe r = None" "\<not> fragmented r" | (N) "rframe r = None" "fragmented r"
    by blast
  then show ?thesis
  proof cases
    case L
    show ?thesis using read_loaded_returns [OF assms L, of k w] L by (simp only: Reader_Read_def prod.case if_False simp_thms)
  next
    case I
    then show ?thesis using assms by (simp add: Reader_Read_def)
  next
    case N
    obtain h e r1 w1 where n: "NextFrame rd cf (r, w) = Some (h, e, r1, w1)" "reader_inv inv r1"
        "fin (src r1) \<le> fin (src r)" "e = None \<or> rframe r1 \<noteq> rframe r \<longrightarrow> fin (src r1) < fin (src r)"
      using NextFrame_returns [OF assms] by blast
    show ?thesis
    proof (cases "e = None \<and> rframe r1 \<noteq> None")
      case False
      with N n show ?thesis by (cases e) (auto simp: Reader_Read_def reader_fin_def)
    next
      case True
      then have lt: "reader_fin fin r1 < reader_fin fin r"
        using n(4) N by (simp add: reader_fin_def)
      obtain n2 bs2 e2 r2 w2 where l: "read_loaded rd cf k (r1, w1) = Some (n2, bs2, e2, r2, w2)" "length bs2 \<le> k"
          "reader_inv inv r2" "reader_fin fin r2 \<le> reader_fin fin r1"
        using read_loaded_returns [OF n(2), of k w1] True by blast
      with lt N n True show ?thesis by (simp add: Reader_Read_def)
    qed
  qed
qed

lemma Discard_returns:
  "reader_inv inv r \<Longrightarrow> \<exists>e r' w'. Discard rd cf r w = Some (e, r', w') \<and> reader_inv inv r' \<and>
     rframe r' = None \<and> fin (src r') \<le> fin (src r) \<and> (e = None \<longrightarrow> \<not> fragmented r')"
proof (induction "fin (src r)" arbitrary: r w rule: less_induct)
  case less
  have i: "inv (src r)" using less.prems by (simp add: reader_inv_def)
  obtain e N s where d: "io_Discard (limited_read rd) (rawN r, src r) = Some (e, N, s)" "inv s" "fin s \<le> fin (src r)"
    using limited.io_Discard_returns [of "(rawN r, src r)"] i by auto
  let ?r = "r\<lparr>rawN := N, src := s\<rparr>"
  have ri: "reader_inv inv ?r" using less.prems d(2) by (simp add: reader_inv_def)
  show ?case
  proof (cases "e = None \<and> fragmented ?r")
    case False
    with d show ?thesis by (subst Discard.simps) (cases e; auto simp: Let_def fragmented_def)
  next
    case True
    obtain h e1 r1 w1 where n: "NextFrame rd cf (?r, w) = Some (h, e1, r1, w1)" "reader_inv inv r1"
        "fin (src r1) \<le> fin s" "e1 = None \<longrightarrow> fin (src r1) < fin s"
      using NextFrame_returns [OF ri, of w] by auto
    show ?thesis
    proof (cases e1)
      case (Some er)
      with True d n show ?thesis
        by (subst Discard.simps) (simp add: Let_def, simp add: reader_inv_def)
    next
      case None
      then have "fin (src r1) < fin (src r)" using n(4) d(3) by simp
      from less.hyps [OF this n(2), of w1] this True None d n show ?thesis
        by (subst Discard.simps) (auto simp: Let_def)
    qed
  qed
qed

end

text \<open>So the reader is an \<open>io.Reader\<close> that keeps the contract.\<close>

sublocale message_reader \<subseteq> message: io_reader "reader_rd rd cf" "reader_inv inv \<circ> fst" "reader_fin fin \<circ> fst"
proof unfold_locales
  fix n bs e and x y :: "'s Reader \<times> 'w"
  assume i: "(reader_inv inv \<circ> fst) x" and r: "reader_rd rd cf n x = Some (bs, e, y)"
  obtain r w where x: "x = (r, w)" by (cases x)
  note R = Reader_Read_returns [of r n w]
  show "length bs \<le> n" "(reader_inv inv \<circ> fst) y" "(reader_fin fin \<circ> fst) y \<le> (reader_fin fin \<circ> fst) x"
    using i r R by (auto simp: x reader_rd_def)
next
  fix n bs e and x y :: "'s Reader \<times> 'w"
  assume i: "(reader_inv inv \<circ> fst) x" and p: "0 < n" "e = None \<or> bs \<noteq> []"
    and r: "reader_rd rd cf n x = Some (bs, e, y)"
  obtain r w where x: "x = (r, w)" by (cases x)
  show "(reader_fin fin \<circ> fst) y < (reader_fin fin \<circ> fst) x"
    using i p r Reader_Read_returns [of r n w] by (auto simp: x reader_rd_def)
next
  fix n and x :: "'s Reader \<times> 'w"
  assume i: "(reader_inv inv \<circ> fst) x"
  obtain r w where x: "x = (r, w)" by (cases x)
  show "\<exists>bs e y. reader_rd rd cf n x = Some (bs, e, y)"
    using i Reader_Read_returns [of r n w] by (auto simp: x reader_rd_def)
qed

end
