(* ===== verification/Reassembly.thy ===== *)
theory Reassembly
  imports Messages
begin

text \<open>
  What the message reader delivers when its source carries a well-formed message: the
  payloads of the fragments, unmasked and joined, while the control frames between them go to
  the callback; a text message that is not valid UTF-8 ends in an error when the check is on.
  The source may cut the bytes anywhere, and the caller may read with any buffer sizes.
\<close>

section \<open>Messages on the wire\<close>

definition wire :: "frame list \<Rightarrow> byte list" where
  "wire fs = concat (map frame_bytes fs)"

lemma wire_simps [simp]: "wire [] = []" "wire (f # fs) = frame_bytes f @ wire fs"
  by (simp_all add: wire_def)

text \<open>The payload a frame carries, which on the wire is ciphered when the frame is masked.\<close>

definition plain :: "frame \<Rightarrow> byte list" where
  "plain f = (if Masked (Header f) then Cipher (Payload f) (Mask (Header f)) 0 else Payload f)"

fun message_payload :: "frame list \<Rightarrow> byte list" where
  "message_payload [] = []"
| "message_payload (f # fs) =
     (if IsControl (OpCode (Header f)) then message_payload fs else plain f @ message_payload fs)"

definition size_ok :: "('s, 'w) ReaderConf \<Rightarrow> header \<Rightarrow> bool" where
  "size_ok cf h \<longleftrightarrow> \<not> (0 < sint (MaxFrameSize cf) \<and> sint (MaxFrameSize cf) < sint (Length h))"

text \<open>
  The frames after the first one of a fragmented message, up to the final one. \<open>quiet\<close>
  holds of the control frames that the callback handles without an error.
\<close>

fun msg_tail :: "('s, 'w) ReaderConf \<Rightarrow> (header \<Rightarrow> bool) \<Rightarrow> byte \<Rightarrow> frame list \<Rightarrow> bool" where
  "msg_tail cf quiet st [] = False"
| "msg_tail cf quiet st (f # fs) =
     (wf_frame f \<and> CheckHeader (Header f) st = None \<and> size_ok cf (Header f) \<and>
      (if IsControl (OpCode (Header f)) then quiet (Header f) \<and> msg_tail cf quiet st fs
       else if Fin (Header f) then fs = []
       else msg_tail cf quiet st fs))"

lemma msg_tail_not_Nil: "msg_tail cf quiet st fs \<Longrightarrow> fs \<noteq> []"
  by auto

text \<open>A whole message received in a state that is not fragmented.\<close>

fun message_ok :: "('s, 'w) ReaderConf \<Rightarrow> (header \<Rightarrow> bool) \<Rightarrow> byte \<Rightarrow> frame list \<Rightarrow> bool" where
  "message_ok cf quiet st [] = False"
| "message_ok cf quiet st (f # fs) =
     (wf_frame f \<and> CheckHeader (Header f) st = None \<and> size_ok cf (Header f) \<and>
      (if Fin (Header f) then fs = [] else msg_tail cf quiet (Set st StateFragmented) fs))"

lemma Set_Fragmented_idem: "Fragmented s \<Longrightarrow> Set s StateFragmented = s"
  by (rule bit_eqI) (auto simp: bit_Set_Fragmented flag_bits)

section \<open>One read\<close>

context framed_stream
begin

text \<open>A read of the loaded frame when the source holds all of it.\<close>

lemma base_read_stream:
  assumes "inv s" and "m \<le> length (data s)"
    and "base_read rd k (b, int m, s) = Some (bs, e, (b', N', s'))"
  shows "length bs \<le> m \<and> N' = int (m - length bs) \<and> data s' = drop (length bs) (data s) \<and>
    ending s' = ending s \<and> framed_data data (b, int m, s) = bs @ framed_data data (b', N', s') \<and>
    (e = None \<or> e = Some EOF \<and> m = 0 \<and> bs = [])"
proof -
  have i: "framed_inv inv (b, int m, s)" using assms(1) by (simp add: framed_inv_def)
  obtain raw where l: "limited_read rd k (int m, s) = Some (raw, e, (N', s'))" "length bs = length raw"
    using assms(3) by (rule base_readE) auto
  show ?thesis
  proof (cases e)
    case (Some er)
    then have d: "framed_data data (b, int m, s) = []" "bs = []"
      using base.rd_end [OF i] assms(3) by auto
    then have "m = 0"
      using assms(2) by (cases b) (auto simp: limited_data_def dest: arg_cong [of _ _ length])
    with l Some d assms(3) base_read_count(2) [OF assms(3)] show ?thesis
      by (cases b; cases b'; auto simp: limited_data_def limited_read.simps)
  next
    case None
    then obtain s1 where r: "0 < m" "rd (min k m) s = Some (raw, None, s1)" "N' = int m - int (length raw)" "s' = s1"
      using l(1) by (auto elim!: limited_readE)
    note d = rd_data [OF assms(1) r(2)] rd_length [OF assms(1) r(2)]
    have "framed_data data (b, int m, s) = bs @ framed_data data (b', N', s')"
      using base.rd_data [OF i] assms(3) None by auto
    with d r l(2) None show ?thesis by auto
  qed
qed

end

text \<open>
  What the control frames among \<open>fs\<close> do to the world of the callbacks, in their order.
\<close>

fun answered :: "(frame \<Rightarrow> 'w \<Rightarrow> 'w \<Rightarrow> bool) \<Rightarrow> frame list \<Rightarrow> 'w \<Rightarrow> 'w \<Rightarrow> bool" where
  "answered ans [] w w' \<longleftrightarrow> w' = w"
| "answered ans (f # fs) w w' \<longleftrightarrow>
     (if IsControl (OpCode (Header f)) then \<exists>w1. ans f w w1 \<and> answered ans fs w1 w' else answered ans fs w w')"

lemma answered_append:
  "answered ans (fs @ gs) w w' \<longleftrightarrow> (\<exists>w1. answered ans fs w w1 \<and> answered ans gs w1 w')"
  by (induction fs arbitrary: w) auto

lemma answered_silent: "answered (\<lambda>_ w w'. w' = w) fs w w' \<longleftrightarrow> w' = w"
  by (induction fs) auto

text \<open>The reader of the frame \<open>f\<close> whose payload the source \<open>s\<close> holds.\<close>

abbreviation frame_reader :: "frame \<Rightarrow> 's \<Rightarrow> 's framed" where
  "frame_reader f s \<equiv>
     ((if Masked (Header f) then Ciph (Mask (Header f)) 0 else Raw), int (length (Payload f)), s)"

text \<open>
  The locale fixes the source's contract, the options and the promise of the callback: in a
  world that is \<open>ready\<close> a quiet frame is handled without an error, after reading \<open>j\<close> of
  its bytes, and the world changes as \<open>answers\<close> tells.
\<close>

locale message_stream = framed_stream rd inv fin data ending + message_reader rd inv fin cf
  for rd :: "'s rd" and inv and fin and data and ending and cf :: "('s, 'w) ReaderConf" +
  fixes quiet :: "header \<Rightarrow> bool"
    and ready :: "'w \<Rightarrow> bool"
    and answers :: "frame \<Rightarrow> 'w \<Rightarrow> 'w \<Rightarrow> bool"
  assumes no_extensions: "RExtensions cf = []"
    and no_continuation: "OnContinuation cf = None"
    and quiet_silent: "OnIntermediate cf = None \<Longrightarrow> answers f w w"
    and quiet_handled: "OnIntermediate cf = Some cb \<Longrightarrow> quiet (Header f) \<Longrightarrow> inv s \<Longrightarrow> wf_frame f \<Longrightarrow>
      IsControl (OpCode (Header f)) \<Longrightarrow> data s = Payload f @ rest \<Longrightarrow> ready w \<Longrightarrow>
      \<exists>b' j s' w'. cb (Header f) (frame_reader f s, w) =
          Some (None, (b', int (length (Payload f)) - int j, s'), w') \<and>
        j \<le> length (Payload f) \<and> data s' = drop j (data s) \<and> ending s' = ending s \<and> inv s' \<and>
        fin s' \<le> fin s \<and> ready w' \<and> answers f w w'"
begin

text \<open>Whether the payload goes through the UTF-8 check.\<close>

definition checks :: "'s Reader \<Rightarrow> bool" where
  "checks r \<longleftrightarrow> CheckUTF8 cf \<and> opCode r = OpText"

definition loaded_base :: "'s Reader \<Rightarrow> base option" where
  "loaded_base r = (case rframe r of None \<Rightarrow> None | Some (FBase b) \<Rightarrow> Some b
     | Some FUtf8 \<Rightarrow> Source (utf8 r))"

text \<open>
  \<open>delivering r fs rest pl\<close>: the reader is in a message of which the payload \<open>pl\<close>, the
  frames \<open>fs\<close> and then \<open>rest\<close> are still to come.
\<close>

definition in_frame :: "'s Reader \<Rightarrow> frame list \<Rightarrow> byte list \<Rightarrow> byte list \<Rightarrow> bool" where
  "in_frame r fs rest pl \<longleftrightarrow>
     (\<exists>b m. loaded_base r = Some b \<and> (rframe r = Some FUtf8 \<longleftrightarrow> checks r) \<and> rawN r = int m \<and>
       m \<le> length (data (src r)) \<and> drop m (data (src r)) = wire fs @ rest \<and>
       pl = framed_data data (b, int m, src r) @ message_payload fs \<and>
       (if fragmented r then msg_tail cf quiet (RState r) fs else fs = []))"

definition between :: "'s Reader \<Rightarrow> frame list \<Rightarrow> byte list \<Rightarrow> byte list \<Rightarrow> bool" where
  "between r fs rest pl \<longleftrightarrow>
     rframe r = None \<and> fragmented r \<and> rawN r = 0 \<and> data (src r) = wire fs @ rest \<and>
     pl = message_payload fs \<and> msg_tail cf quiet (RState r) fs"

definition delivering :: "'s Reader \<Rightarrow> frame list \<Rightarrow> byte list \<Rightarrow> byte list \<Rightarrow> bool" where
  "delivering r fs rest pl \<longleftrightarrow>
     reader_inv inv r \<and> (if checks r then state (utf8 r) \<noteq> 12 else state (utf8 r) = 0) \<and>
     (in_frame r fs rest pl \<or> between r fs rest pl)"

text \<open>After the message: nothing loaded, the flag cleared, the source at the next message.\<close>

definition at_rest :: "'s Reader \<Rightarrow> byte list \<Rightarrow> bool" where
  "at_rest r rest \<longleftrightarrow> inv (src r) \<and> data (src r) = rest \<and> rframe r = None \<and> \<not> fragmented r \<and>
     rawN r = 0 \<and> utf8 r = NewUTF8Reader None"

text \<open>What a next frame needs of the reader: no message is under way.\<close>

definition idle :: "'s Reader \<Rightarrow> byte list \<Rightarrow> bool" where
  "idle r rest \<longleftrightarrow> reader_inv inv r \<and> data (src r) = rest \<and> \<not> fragmented r \<and> state (utf8 r) = 0"

lemma at_rest_idle: "at_rest r rest \<Longrightarrow> idle r rest"
  by (simp add: at_rest_def idle_def reader_inv_def NewUTF8Reader_def utf8_states_def)

definition same_message :: "'s Reader \<Rightarrow> 's Reader \<Rightarrow> byte list \<Rightarrow> bool" where
  "same_message r r' bs \<longleftrightarrow> opCode r' = opCode r \<and>
     state (utf8 r') = (if checks r then utf8_run (state (utf8 r)) bs else state (utf8 r)) \<and>
     Clear (RState r') StateFragmented = Clear (RState r) StateFragmented \<and>
     ending (src r') = ending (src r)"

text \<open>The three outcomes of a read: more to come, the end of the message, invalid text.\<close>

definition read_result ::
  "'s Reader \<Rightarrow> 'w \<Rightarrow> frame list \<Rightarrow> byte list \<Rightarrow> byte list \<Rightarrow> nat \<times> byte list \<times> err option \<times> 's Reader \<times> 'w \<Rightarrow> bool" where
  "read_result r w fs rest pl = (\<lambda>(n, bs, e, r', w').
     (e = None \<and> n = length bs \<and> same_message r r' bs \<and> ready w' \<and>
        (\<exists>gs fs' pl'. fs = gs @ fs' \<and> answered answers gs w w' \<and> pl = bs @ pl' \<and>
          (fs' = [] \<longrightarrow> pl' \<noteq> []) \<and> delivering r' fs' rest pl')) \<or>
     (e = Some EOF \<and> ready w' \<and> answered answers fs w w' \<and> n = length bs \<and> pl = bs \<and> at_rest r' rest \<and>
        (checks r \<longrightarrow> utf8_run (state (utf8 r)) pl = 0) \<and>
        RState r' = Clear (RState r) StateFragmented \<and> ending (src r') = ending (src r)) \<or>
     (e = Some ErrInvalidUTF8 \<and> checks r \<and> (n < length bs \<or> bs = []) \<and> utf8_run (state (utf8 r)) pl \<noteq> 0))"

lemma read_result_cong:
  "opCode r' = opCode r \<Longrightarrow> state (utf8 r') = state (utf8 r) \<Longrightarrow>
     Clear (RState r') StateFragmented = Clear (RState r) StateFragmented \<Longrightarrow>
     ending (src r') = ending (src r) \<Longrightarrow> read_result r' w fs rest pl out = read_result r w fs rest pl out"
  by (simp add: read_result_def same_message_def checks_def cong: if_cong)

lemma read_result_go:
  "n = length bs \<Longrightarrow> same_message r r' bs \<Longrightarrow> ready w' \<Longrightarrow> fs = gs @ fs' \<Longrightarrow> answered answers gs w w' \<Longrightarrow>
     pl = bs @ pl' \<Longrightarrow> delivering r' fs' rest pl' \<Longrightarrow> fs' = [] \<longrightarrow> pl' \<noteq> [] \<Longrightarrow> read_result r w fs rest pl (n, bs, None, r', w')"
  unfolding read_result_def by blast

lemma read_result_Cons:
  assumes c: "\<not> IsControl (OpCode (Header f))" and o: "read_result r w fs rest pl out"
  shows "read_result r w (f # fs) rest pl out"
proof -
  obtain n bs e r' w' where out: "out = (n, bs, e, r', w')" by (cases out)
  show ?thesis
  proof (cases "e = None")
    case True
    then obtain gs fs' pl' where g: "n = length bs" "same_message r r' bs" "ready w'" "fs = gs @ fs'"
        "answered answers gs w w'" "pl = bs @ pl'" "delivering r' fs' rest pl'"
        "fs' = [] \<longrightarrow> pl' \<noteq> []"
      using o by (auto simp: read_result_def out)
    with c read_result_go [OF g(1-3) _ _ g(6-8), of "f # fs" "f # gs" w] True out show ?thesis by simp
  next
    case False
    with o c show ?thesis by (auto simp: read_result_def out)
  qed
qed

lemma same_message_checks: "same_message r r' bs \<Longrightarrow> checks r' = checks r"
  by (simp add: same_message_def checks_def)

lemma utf8_not_valid: "UTF8Reader_Valid u \<longleftrightarrow> state u = 0"
  by (simp add: UTF8Reader_Valid_def utf8Accept_def)

lemma in_frame_step:
  assumes d: "delivering r fs rest pl" and l: "in_frame r fs rest pl"
  obtains (Rejected) n bs r' where "frame_Read rd k r = Some (n, bs, Some ErrInvalidUTF8, r')"
      "checks r" "utf8_run (state (utf8 r)) pl = 12" "n < length bs"
  | (Read) bs e r' pl' where "frame_Read rd k r = Some (length bs, bs, e, r')" "e = None \<or> e = Some EOF"
      "pl = bs @ pl'" "in_frame r' fs rest pl'" "same_message r r' bs" "reader_inv inv r'"
      "RState r' = RState r" "checks r \<longrightarrow> state (utf8 r') \<noteq> 12" "e = None \<or> rawN r' = 0"
      "checks r \<longrightarrow> bs \<noteq> [] \<longrightarrow> state (utf8 r') \<noteq> 0 \<longrightarrow> UTF8Reader_Accepted (utf8 r') < length bs"
proof -
  have ri: "reader_inv inv r" and st: "if checks r then state (utf8 r) \<noteq> 12 else state (utf8 r) = 0"
    using d by (simp_all add: delivering_def)
  obtain b m where b: "loaded_base r = Some b" "rframe r = Some FUtf8 \<longleftrightarrow> checks r" "rawN r = int m"
      "m \<le> length (data (src r))" "drop m (data (src r)) = wire fs @ rest"
      "pl = framed_data data (b, int m, src r) @ message_payload fs"
      "if fragmented r then msg_tail cf quiet (RState r) fs else fs = []"
    using l by (auto simp: in_frame_def)
  have ne: "rframe r \<noteq> None" using b(1) by (cases "rframe r") (simp_all add: loaded_base_def)
  have i: "inv (src r)" using ri by (simp add: reader_inv_def)
  obtain b0 bs e b' N' s' n e' r' where r: "base_read rd k (b0, rawN r, src r) = Some (bs, e, (b', N', s'))"
      "frame_Read rd k r = Some (n, bs, e', r')" "n \<le> length bs" "src r' = s'" "rawN r' = N'"
      "RState r' = RState r" "opCode r' = opCode r" "reader_inv inv r'" "rframe r' \<noteq> None"
      "(rframe r = Some (FBase b0) \<and> rframe r' = Some (FBase b') \<and> utf8 r' = utf8 r \<and> n = length bs \<and> e' = e) \<or>
       (rframe r = Some FUtf8 \<and> Source (utf8 r) = Some b0 \<and> rframe r' = Some FUtf8 \<and>
         Source (utf8 r') = Some b' \<and> state (utf8 r') = utf8_run (state (utf8 r)) bs \<and>
         (if bs \<noteq> [] \<and> utf8_run (state (utf8 r)) bs = 12 then e' = Some ErrInvalidUTF8
          else n = length bs \<and> e' = e) \<and>
         utf8_short (state (utf8 r)) bs n (accepted (utf8 r')))"
    by (rule frame_Read_cases [OF ri ne, of k])
  have b0: "b0 = b" using r(10) b(1) by (auto simp: loaded_base_def)
  note s = base_read_stream [OF i b(4) r(1) [unfolded b0 b(3)]]
  define pl' where "pl' = framed_data data (b', N', s') @ message_payload fs"
  have pl: "pl = bs @ pl'" using s b(6) by (simp add: pl'_def)
  show thesis
  proof (cases "checks r \<and> bs \<noteq> [] \<and> utf8_run (state (utf8 r)) bs = 12")
    case True
    with r(10) b(2) have "e' = Some ErrInvalidUTF8" "n < length bs"
      by (auto simp: utf8_short_def)
    with Rejected [of n bs r'] r(2) True pl show thesis by simp
  next
    case False
    then have n: "n = length bs" "e' = e" and u: "checks r \<longrightarrow> state (utf8 r') \<noteq> 12"
      "state (utf8 r') = (if checks r then utf8_run (state (utf8 r)) bs else state (utf8 r))"
      using r(10) b(2) st by (auto split: if_splits)
    have c: "checks r' = checks r" using r(7) by (simp add: checks_def)
    have "in_frame r' fs rest pl'"
      unfolding in_frame_def
    proof (intro exI conjI)
      show "loaded_base r' = Some b'" using r(10) by (auto simp: loaded_base_def)
      show "(rframe r' = Some FUtf8) = checks r'" using r(10) b(2) c by auto
      show "rawN r' = int (m - length bs)" using s r(5) by simp
      show "m - length bs \<le> length (data (src r'))" using s r(4) b(4) by simp
      show "drop (m - length bs) (data (src r')) = wire fs @ rest" using s r(4) b(5) by simp
      show "pl' = framed_data data (b', int (m - length bs), src r') @ message_payload fs"
        using s r(4) by (simp add: pl'_def)
      show "if fragmented r' then msg_tail cf quiet (RState r') fs else fs = []"
        using b(7) r(6) by (simp add: fragmented_def)
    qed
    moreover have "same_message r r' bs"
      using r(4,6,7) s u by (simp add: same_message_def)
    moreover have "checks r \<longrightarrow> bs \<noteq> [] \<longrightarrow> state (utf8 r') \<noteq> 0 \<longrightarrow> UTF8Reader_Accepted (utf8 r') < length bs"
      using r(10) b(2) False by (auto simp: UTF8Reader_Accepted_def utf8_short_def split: if_splits)
    ultimately show thesis
      using Read [of bs e r' pl'] r(2,5,6,8) n pl u s by auto
  qed
qed

lemma framed_data_Nil:
  "framed_data data (b, int m, s) = [] \<Longrightarrow> m \<le> length (data s) \<Longrightarrow> m = 0"
  by (cases b) (auto simp: limited_data_def dest: arg_cong [of _ _ length])

text \<open>A read of the loaded frame meets no further frame: only the last frame ends the message.\<close>

definition read_stays :: "'w \<Rightarrow> frame list \<Rightarrow> byte list \<Rightarrow> byte list \<Rightarrow> nat \<times> byte list \<times> err option \<times> 's Reader \<times> 'w \<Rightarrow> bool" where
  "read_stays w fs rest pl = (\<lambda>(n, bs, e, r', w').
     (e = None \<longrightarrow> w' = w \<and> delivering r' fs rest (drop (length bs) pl)) \<and> (e = Some EOF \<longrightarrow> fs = []))"

lemma read_loaded_step:
  assumes d: "delivering r fs rest pl" and l: "in_frame r fs rest pl" and rw: "ready w"
  shows "\<exists>out. read_loaded rd cf k (r, w) = Some out \<and> read_result r w fs rest pl out \<and> read_stays w fs rest pl out"
proof (rule in_frame_step [OF d l, of k])
  fix n bs r'
  assume "frame_Read rd k r = Some (n, bs, Some ErrInvalidUTF8, r')" "checks r" "utf8_run (state (utf8 r)) pl = 12"
    "n < length bs"
  then show ?thesis by (simp add: read_loaded_def read_result_def read_stays_def)
next
  fix bs e r' pl'
  assume f: "frame_Read rd k r = Some (length bs, bs, e, r')" "e = None \<or> e = Some EOF"
    and pl: "pl = bs @ pl'" and l': "in_frame r' fs rest pl'" and sm: "same_message r r' bs"
    and ri: "reader_inv inv r'" and st: "RState r' = RState r"
    and u: "checks r \<longrightarrow> state (utf8 r') \<noteq> 12" and z: "e = None \<or> rawN r' = 0"
    and acc: "checks r \<longrightarrow> bs \<noteq> [] \<longrightarrow> state (utf8 r') \<noteq> 0 \<longrightarrow> UTF8Reader_Accepted (utf8 r') < length bs"
  have c: "checks r' = checks r" by (rule same_message_checks [OF sm])
  have u0: "\<not> checks r \<Longrightarrow> state (utf8 r') = 0" using sm d by (simp add: same_message_def delivering_def)
  have us: "checks r \<Longrightarrow> state (utf8 r') = utf8_run (state (utf8 r)) bs" using sm by (simp add: same_message_def)
  show ?thesis
  proof (cases "rawN r' = 0")
    case False
    then have "delivering r' fs rest pl'"
      using l' ri u u0 c by (auto simp: delivering_def)
    moreover have "pl' \<noteq> []"
      using l' False by (auto simp: in_frame_def dest: framed_data_Nil)
    ultimately show ?thesis using f z False pl sm rw read_result_go [of "length bs" bs r r' w fs "[]" fs w pl pl' rest]
      by (auto simp: read_loaded_def read_stays_def)
  next
    case True
    then obtain b where b: "drop 0 (data (src r')) = wire fs @ rest"
        "pl' = framed_data data (b, 0, src r') @ message_payload fs"
        "if fragmented r' then msg_tail cf quiet (RState r') fs else fs = []"
      using l' by (auto simp: in_frame_def)
    have fd: "framed_data data (b, 0, src r') = []" by (cases b) (simp_all add: limited_data_def)
    show ?thesis
    proof (cases "fragmented r'")
      case fr: True
      have "between (resetFragment r') fs rest pl'"
        using b fd fr by (simp add: between_def fragmented_def)
      then have "delivering (resetFragment r') fs rest pl'"
        using ri u u0 c by (auto simp: delivering_def checks_def reader_inv_def)
      moreover have "same_message r (resetFragment r') bs"
        using sm by (simp add: same_message_def)
      moreover have "fs \<noteq> []" using b(3) fr msg_tail_not_Nil by auto
      ultimately show ?thesis
        using f True fr pl rw read_result_go [of "length bs" bs r "resetFragment r'" w fs "[]" fs w pl pl' rest]
        by (auto simp: read_loaded_def read_stays_def)
    next
      case nf: False
      with b fd have e: "fs = []" "pl = bs" "data (src r') = rest" using pl by simp_all
      show ?thesis
      proof (cases "CheckUTF8 cf \<and> \<not> UTF8Reader_Valid (utf8 r')")
        case True': True
        then have "checks r" using u0 by (auto simp: utf8_not_valid)
        with True' True nf f us e acc show ?thesis
          by (auto simp: read_loaded_def read_result_def read_stays_def utf8_not_valid)
      next
        case False
        have "at_rest (reset r') rest"
          using e nf ri by (simp add: at_rest_def reset_def reader_inv_def fragmented_def)
        moreover have "checks r \<longrightarrow> utf8_run (state (utf8 r)) pl = 0"
          using False us e by (auto simp: checks_def utf8_not_valid)
        moreover have "RState (reset r') = Clear (RState r) StateFragmented" "ending (src r') = ending (src r)"
          using st nf sm by (simp_all add: Clear_unfragmented fragmented_def same_message_def)
        ultimately show ?thesis
          using False True nf f e rw by (auto simp: read_loaded_def read_result_def read_stays_def)
      qed
    qed
  qed
qed

text \<open>Reading the header of the next frame of the message.\<close>

lemma next_header:
  assumes "inv (src r)" and "wf_frame f" and "data (src r) = frame_bytes f @ rest"
    and "CheckHeader (Header f) (RState r) = None" and "size_ok cf (Header f)"
  obtains s where "inv s" "data s = Payload f @ rest" "ending s = ending (src r)"
    "sint (Length (Header f)) = int (length (Payload f))"
    "NextFrame rd cf (r, w) =
      (let b = (if Masked (Header f) then Ciph (Mask (Header f)) 0 else Raw);
           r' = r\<lparr>src := s, rawN := sint (Length (Header f))\<rparr>
       in if fragmented r \<and> IsControl (OpCode (Header f)) then intermediate rd cf (Header f) b (r', w)
          else load_frame cf (Header f) b (r', w))"
proof -
  have wf: "wf_header (Header f)" and len: "sint (Length (Header f)) = int (length (Payload f))"
    using assms(2) by (simp_all add: wf_frame_def)
  obtain s where s: "ReadHeader rd (src r) = Some (Header f, None, s)" "data s = Payload f @ rest"
      "ending s = ending (src r)" "inv s"
    using ReadHeader_encoded [OF assms(1) wf, of _ "Payload f @ rest"] assms(3)
    by (auto simp: frame_bytes_def header_bytes_eq)
  have "frame_error cf (r\<lparr>src := s\<rparr>) (Header f) None = None"
    using assms(4) by (simp add: frame_error_def)
  with NextFrame_accept [OF s(1), of cf "Header f" w] s len that assms(5) show thesis
    by (simp add: size_ok_def no_extensions)
qed

lemma plain_framed:
  assumes "data s = Payload f @ rest"
  shows "framed_data data ((if Masked (Header f) then Ciph (Mask (Header f)) 0 else Raw), int (length (Payload f)), s) = plain f"
  using assms by (simp add: plain_def limited_data_def)

text \<open>Loading a data frame.\<close>

lemma load_frame_loaded:
  assumes ri: "reader_inv inv r" and s: "inv s" and ctl: "fragmented r \<longrightarrow> OpCode (Header f) = OpContinuation"
  obtains r' where "load_frame cf (Header f) (if Masked (Header f) then Ciph (Mask (Header f)) 0 else Raw)
        (r\<lparr>src := s, rawN := int (length (Payload f))\<rparr>, w) = Some (Header f, None, r', w)"
      "loaded_base r' = Some (if Masked (Header f) then Ciph (Mask (Header f)) 0 else Raw)"
      "rframe r' = Some FUtf8 \<longleftrightarrow> checks r'" "rawN r' = int (length (Payload f))" "reader_inv inv r'"
      "opCode r' = (if fragmented r then opCode r else OpCode (Header f))" "state (utf8 r') = state (utf8 r)" "src r' = s"
      "RState r' = (if Fin (Header f) then Clear (RState r) StateFragmented else Set (RState r) StateFragmented)"
proof -
  let ?b = "if Masked (Header f) then Ciph (Mask (Header f)) 0 else Raw"
  define r0 where "r0 = (if fragmented r then r\<lparr>src := s, rawN := int (length (Payload f))\<rparr>
    else r\<lparr>src := s, rawN := int (length (Payload f)), opCode := OpCode (Header f)\<rparr>)"
  define r1 where "r1 = (if CheckUTF8 cf \<and> opCode r0 = OpText
              then r0\<lparr>utf8 := (utf8 r0)\<lparr>Source := Some ?b\<rparr>, rframe := Some FUtf8\<rparr>
              else r0\<lparr>rframe := Some (FBase ?b)\<rparr>)"
  define r' where "r' = r1\<lparr>RState := (if Fin (Header f) then Clear (RState r) StateFragmented
    else Set (RState r) StateFragmented)\<rparr>"
  have f: "fragmented (r0) = fragmented r" "fragmented (r\<lparr>src := s, rawN := N\<rparr>) = fragmented r"
      "RState r0 = RState r" "RState r1 = RState r" for N
    by (simp_all add: r0_def r1_def fragmented_def)
  have text_frame: "(OpCode (Header f) = OpText \<or> (fragmented r0 \<and> opCode r0 = OpText)) \<longleftrightarrow> opCode r0 = OpText"
    using ctl by (auto simp: r0_def fragmented_def op_defs)
  have ld: "load_frame cf (Header f) ?b (r\<lparr>src := s, rawN := int (length (Payload f))\<rparr>, w) = Some (Header f, None, r', w)"
    unfolding load_frame_def prod.case Let_def f(2) r0_def [symmetric] text_frame r1_def [symmetric] no_continuation
    by (simp add: r'_def f)
  have op: "opCode r' = (if fragmented r then opCode r else OpCode (Header f))"
    and src: "src r' = s" and st: "state (utf8 r') = state (utf8 r)" and N: "rawN r' = int (length (Payload f))"
    by (simp_all add: r'_def r1_def r0_def)
  have ch: "checks r' \<longleftrightarrow> CheckUTF8 cf \<and> opCode r0 = OpText"
    by (simp add: checks_def r'_def r1_def)
  have lb: "loaded_base r' = Some ?b" "rframe r' = Some FUtf8 \<longleftrightarrow> checks r'"
    by (simp_all add: ch) (simp_all add: r'_def r1_def loaded_base_def)
  have ri': "reader_inv inv r'"
    using ri s by (simp add: reader_inv_def r'_def r1_def r0_def)
  have rs: "RState r' = (if Fin (Header f) then Clear (RState r) StateFragmented else Set (RState r) StateFragmented)"
    by (simp add: r'_def)
  from that [OF ld lb N ri' op st src rs] show thesis .
qed

lemma load_frame_loads:
  assumes ri: "reader_inv inv r" and s: "inv s" "data s = Payload f @ wire fs @ rest"
    and ctl: "fragmented r \<longrightarrow> OpCode (Header f) = OpContinuation"
    and tl: "if Fin (Header f) then fs = [] else msg_tail cf quiet (Set (RState r) StateFragmented) fs"
    and u: "if CheckUTF8 cf \<and> (if fragmented r then opCode r else OpCode (Header f)) = OpText
      then state (utf8 r) \<noteq> 12 else state (utf8 r) = 0"
  obtains r' where "load_frame cf (Header f) (if Masked (Header f) then Ciph (Mask (Header f)) 0 else Raw)
        (r\<lparr>src := s, rawN := int (length (Payload f))\<rparr>, w) = Some (Header f, None, r', w)"
      "delivering r' fs rest (plain f @ message_payload fs)" "in_frame r' fs rest (plain f @ message_payload fs)"
      "opCode r' = (if fragmented r then opCode r else OpCode (Header f))" "state (utf8 r') = state (utf8 r)"
      "Clear (RState r') StateFragmented = Clear (RState r) StateFragmented" "src r' = s"
proof (rule load_frame_loaded [OF ri s(1) ctl, of w])
  let ?b = "if Masked (Header f) then Ciph (Mask (Header f)) 0 else Raw"
  fix r'
  assume ld: "load_frame cf (Header f) ?b (r\<lparr>src := s, rawN := int (length (Payload f))\<rparr>, w) = Some (Header f, None, r', w)"
    and lb: "loaded_base r' = Some ?b" "rframe r' = Some FUtf8 \<longleftrightarrow> checks r'" and N: "rawN r' = int (length (Payload f))"
    and ri': "reader_inv inv r'" and op: "opCode r' = (if fragmented r then opCode r else OpCode (Header f))"
    and st: "state (utf8 r') = state (utf8 r)" and src: "src r' = s"
    and rs: "RState r' = (if Fin (Header f) then Clear (RState r) StateFragmented else Set (RState r) StateFragmented)"
  have fr: "fragmented r' \<longleftrightarrow> \<not> Fin (Header f)" by (simp add: rs fragmented_def)
  have clr: "Clear (RState r') StateFragmented = Clear (RState r) StateFragmented" by (simp add: rs)
  have inf: "in_frame r' fs rest (plain f @ message_payload fs)"
    unfolding in_frame_def
  proof (intro exI conjI)
    show "plain f @ message_payload fs = framed_data data (?b, int (length (Payload f)), src r') @ message_payload fs"
      unfolding src using plain_framed [OF s(2)] by simp
    show "if fragmented r' then msg_tail cf quiet (RState r') fs else fs = []"
      using tl fr by (auto simp: rs)
  qed (use lb N s(2) src in simp_all)
  moreover have "if checks r' then state (utf8 r') \<noteq> 12 else state (utf8 r') = 0"
    using u st op by (simp add: checks_def)
  ultimately have "delivering r' fs rest (plain f @ message_payload fs)"
    using ri' by (simp add: delivering_def)
  from that [OF ld this inf op st clr src] show thesis .
qed

lemma tail_opcode:
  assumes "wf_frame f" and "CheckHeader (Header f) st = None" and "Fragmented st"
  shows "IsControl (OpCode (Header f)) \<or> OpCode (Header f) = OpContinuation"
  using assms(2,3) by (auto simp: CheckHeader_None)

lemma quiet_frame:
  assumes ri: "reader_inv inv r" and s: "inv s" "data s = Payload f @ rest" and wf: "wf_frame f"
    and q: "quiet (Header f)" "IsControl (OpCode (Header f))" and rw: "ready w"
  obtains r' w' where "intermediate rd cf (Header f) (if Masked (Header f) then Ciph (Mask (Header f)) 0 else Raw)
        (r\<lparr>src := s, rawN := int (length (Payload f))\<rparr>, w) = Some (Header f, None, r', w')"
      "reader_inv inv r'" "data (src r') = rest" "ending (src r') = ending s" "rframe r' = rframe r" "rawN r' = 0"
      "RState r' = RState r" "opCode r' = opCode r" "utf8 r' = utf8 r"
      "ready w'" "answers f w w'"
proof -
  let ?b = "if Masked (Header f) then Ciph (Mask (Header f)) 0 else Raw"
  let ?n = "int (length (Payload f))"
  have len: "sint (Length (Header f)) = ?n" using wf by (simp add: wf_frame_def)
  let ?m = "case OnIntermediate cf of Some cb \<Rightarrow> cb (Header f) ((?b, ?n, s), w) | None \<Rightarrow> Some (None, (?b, ?n, s), w)"
  obtain b1 j s1 w1 where m: "?m = Some (None, (b1, ?n - int j, s1), w1)" "j \<le> length (Payload f)"
      "data s1 = drop j (data s)" "ending s1 = ending s" "inv s1" "ready w1" "answers f w w1"
  proof (cases "OnIntermediate cf")
    case None
    with that [of ?b 0 s w] s rw quiet_silent [OF None] show thesis by simp
  next
    case (Some cb)
    with quiet_handled [OF Some q(1) s(1) wf q(2) s(2) rw] that show thesis by fastforce
  qed
  obtain s2 where d: "io_Discard (limited_read rd) (int (length (Payload f) - j), s1) = Some (None, (0, s2))"
      "inv s2" "data s2 = drop (length (Payload f) - j) (data s1)" "ending s2 = ending s1"
    by (rule exE [OF limited_Discard [OF m(5), of "length (Payload f) - j"]]) (use m(2,3) s(2) in auto)
  have "data s2 = rest" using d(3) m(2,3) s(2) by simp
  moreover have "intermediate rd cf (Header f) ?b (r\<lparr>src := s, rawN := ?n\<rparr>, w) =
      Option.bind ?m (\<lambda>(e, (b, N, s), w). case e of
        Some er \<Rightarrow> Some (Header f, Some er, r\<lparr>rawN := N, src := s\<rparr>, w)
      | None \<Rightarrow> Option.bind (io_Discard (limited_read rd) (N, s)) (\<lambda>(e, N, s).
          Some (Header f, e, r\<lparr>rawN := N, src := s\<rparr>, w)))"
    by (simp add: intermediate_def cong: option.case_cong)
  then have "intermediate rd cf (Header f) ?b (r\<lparr>src := s, rawN := ?n\<rparr>, w) =
      Some (Header f, None, r\<lparr>rawN := 0, src := s2\<rparr>, w1)"
    unfolding m(1) using d(1) m(2) by (simp add: of_nat_diff)
  ultimately show thesis
    using that [of "r\<lparr>rawN := 0, src := s2\<rparr>" w1] d(2,4) m(4,6,7) ri by (simp add: reader_inv_def)
qed

text \<open>Between two fragments: the next frame is a control frame, or a frame of the message.\<close>

lemma between_next:
  assumes d: "delivering r (f # fs) rest pl" and b: "rframe r = None"
  obtains s where "inv s" "data s = Payload f @ wire fs @ rest" "ending s = ending (src r)"
    "sint (Length (Header f)) = int (length (Payload f))" "wf_frame f" "CheckHeader (Header f) (RState r) = None" "fragmented r"
    "reader_inv inv r" "if checks r then state (utf8 r) \<noteq> 12 else state (utf8 r) = 0" "pl = message_payload (f # fs)"
    "msg_tail cf quiet (RState r) (f # fs)"
    "NextFrame rd cf (r, w) =
      (let b = (if Masked (Header f) then Ciph (Mask (Header f)) 0 else Raw);
           r' = r\<lparr>src := s, rawN := int (length (Payload f))\<rparr>
       in if IsControl (OpCode (Header f)) then intermediate rd cf (Header f) b (r', w)
          else load_frame cf (Header f) b (r', w))"
proof -
  have "between r (f # fs) rest pl" using d b by (auto simp: delivering_def in_frame_def loaded_base_def)
  then have bt: "fragmented r" "data (src r) = wire (f # fs) @ rest" "pl = message_payload (f # fs)" "msg_tail cf quiet (RState r) (f # fs)"
      and ri: "reader_inv inv r" and u: "if checks r then state (utf8 r) \<noteq> 12 else state (utf8 r) = 0"
    using d by (auto simp: delivering_def between_def)
  have f: "wf_frame f" "CheckHeader (Header f) (RState r) = None" "size_ok cf (Header f)" using bt(4) by simp_all
  have i: "inv (src r)" using ri by (simp add: reader_inv_def)
  have ds: "data (src r) = frame_bytes f @ wire fs @ rest" using bt(2) by simp
  obtain s where s: "inv s" "data s = Payload f @ wire fs @ rest" "ending s = ending (src r)"
      "sint (Length (Header f)) = int (length (Payload f))"
    and n: "NextFrame rd cf (r, w) =
      (let b = (if Masked (Header f) then Ciph (Mask (Header f)) 0 else Raw);
           r' = r\<lparr>src := s, rawN := sint (Length (Header f))\<rparr>
       in if fragmented r \<and> IsControl (OpCode (Header f)) then intermediate rd cf (Header f) b (r', w)
          else load_frame cf (Header f) b (r', w))"
    by (rule next_header [OF i f(1) ds f(2,3)])
  from n bt(1) s(4) that [OF s f(1,2) bt(1) ri u bt(3,4)] show thesis by simp
qed

lemma Read_control:
  assumes d: "delivering r (f # fs) rest pl" "rframe r = None" and c: "IsControl (OpCode (Header f))" and rw: "ready w"
  shows "\<exists>r' w'. Reader_Read rd cf k (r, w) = Some (0, [], None, r', w') \<and> delivering r' fs rest pl \<and> rframe r' = None \<and>
    same_message r r' [] \<and> ready w' \<and> answers f w w' \<and> fs \<noteq> []"
proof (rule between_next [OF d])
  fix s
  assume s: "inv s" "data s = Payload f @ wire fs @ rest" "ending s = ending (src r)" and f: "wf_frame f" "CheckHeader (Header f) (RState r) = None"
    and fr: "fragmented r" and ri: "reader_inv inv r" and u: "if checks r then state (utf8 r) \<noteq> 12 else state (utf8 r) = 0"
    and pl: "pl = message_payload (f # fs)" and tl: "msg_tail cf quiet (RState r) (f # fs)"
    and n: "NextFrame rd cf (r, w) =
      (let b = (if Masked (Header f) then Ciph (Mask (Header f)) 0 else Raw);
           r' = r\<lparr>src := s, rawN := int (length (Payload f))\<rparr>
       in if IsControl (OpCode (Header f)) then intermediate rd cf (Header f) b (r', w)
          else load_frame cf (Header f) b (r', w))"
  have q: "quiet (Header f)" "msg_tail cf quiet (RState r) fs" using tl c by simp_all
  obtain r' w' where r': "intermediate rd cf (Header f) (if Masked (Header f) then Ciph (Mask (Header f)) 0 else Raw)
      (r\<lparr>src := s, rawN := int (length (Payload f))\<rparr>, w) = Some (Header f, None, r', w')"
    "reader_inv inv r'" "data (src r') = wire fs @ rest" "ending (src r') = ending s" "rframe r' = rframe r" "rawN r' = 0"
    "RState r' = RState r" "opCode r' = opCode r" "utf8 r' = utf8 r" "ready w'" "answers f w w'"
    by (rule quiet_frame [OF ri s(1,2) f(1) q(1) c rw])
  have "Reader_Read rd cf k (r, w) = Some (0, [], None, r', w')"
    using n r'(1,5) c fr d(2) by (simp add: Reader_Read_def Let_def)
  moreover have "delivering r' fs rest pl"
    using r' fr q(2) u pl c d(2) by (simp add: delivering_def between_def fragmented_def checks_def)
  moreover have "same_message r r' []" using r' s(3) by (simp add: same_message_def)
  ultimately show ?thesis using r'(5,10,11) d(2) msg_tail_not_Nil [OF q(2)] by (intro exI [of _ r'] exI [of _ w']) simp
qed

lemma Read_data:
  assumes d: "delivering r (f # fs) rest pl" "rframe r = None" and c: "\<not> IsControl (OpCode (Header f))"
  shows "\<exists>r'. (\<forall>k. Reader_Read rd cf k (r, w) = read_loaded rd cf k (r', w)) \<and> delivering r' fs rest pl \<and> in_frame r' fs rest pl \<and>
    opCode r' = opCode r \<and> state (utf8 r') = state (utf8 r) \<and>
    Clear (RState r') StateFragmented = Clear (RState r) StateFragmented \<and> ending (src r') = ending (src r)"
proof (rule between_next [OF d])
  fix s
  assume s: "inv s" "data s = Payload f @ wire fs @ rest" "ending s = ending (src r)" and f: "wf_frame f" "CheckHeader (Header f) (RState r) = None"
    and fr: "fragmented r" and ri: "reader_inv inv r" and u: "if checks r then state (utf8 r) \<noteq> 12 else state (utf8 r) = 0"
    and pl: "pl = message_payload (f # fs)" and tl0: "msg_tail cf quiet (RState r) (f # fs)"
    and n: "NextFrame rd cf (r, w) =
      (let b = (if Masked (Header f) then Ciph (Mask (Header f)) 0 else Raw);
           r' = r\<lparr>src := s, rawN := int (length (Payload f))\<rparr>
       in if IsControl (OpCode (Header f)) then intermediate rd cf (Header f) b (r', w)
          else load_frame cf (Header f) b (r', w))"
  have co: "OpCode (Header f) = OpContinuation" using tail_opcode [OF f] fr c by (simp add: fragmented_def)
  have tl: "if Fin (Header f) then fs = [] else msg_tail cf quiet (Set (RState r) StateFragmented) fs"
    using fr tl0 c by (auto simp: Set_Fragmented_idem fragmented_def split: if_splits)
  have u': "if CheckUTF8 cf \<and> (if fragmented r then opCode r else OpCode (Header f)) = OpText
    then state (utf8 r) \<noteq> 12 else state (utf8 r) = 0"
    using u fr by (simp add: checks_def)
  obtain r' where r': "load_frame cf (Header f) (if Masked (Header f) then Ciph (Mask (Header f)) 0 else Raw)
        (r\<lparr>src := s, rawN := int (length (Payload f))\<rparr>, w) = Some (Header f, None, r', w)"
      "delivering r' fs rest (plain f @ message_payload fs)" "in_frame r' fs rest (plain f @ message_payload fs)"
      "opCode r' = (if fragmented r then opCode r else OpCode (Header f))" "state (utf8 r') = state (utf8 r)"
      "Clear (RState r') StateFragmented = Clear (RState r) StateFragmented" "src r' = s"
    using load_frame_loads [OF ri s(1,2) _ tl u', of w] co by blast
  have "NextFrame rd cf (r, w) = Some (Header f, None, r', w)" using n r'(1) c by (simp add: Let_def)
  moreover have "rframe r' \<noteq> None" using r'(3) by (auto simp: in_frame_def loaded_base_def split: option.splits)
  ultimately have "Reader_Read rd cf k (r, w) = read_loaded rd cf k (r', w)" for k
    using d(2) fr by (auto simp: Reader_Read_def)
  with r' fr pl c s(3) show ?thesis by auto
qed

lemma Read_step:
  assumes d: "delivering r fs rest pl" and rw: "ready w"
  shows "\<exists>out. Reader_Read rd cf k (r, w) = Some out \<and> read_result r w fs rest pl out"
proof (cases "rframe r = None")
  case False
  then have "in_frame r fs rest pl" using d by (auto simp: delivering_def between_def)
  from read_loaded_step [OF d this rw, of k] False show ?thesis
    by (auto simp only: Reader_Read_def prod.case if_False simp_thms)
next
  case True
  then have "between r fs rest pl" using d by (auto simp: delivering_def in_frame_def loaded_base_def)
  then obtain f fs' where fs: "fs = f # fs'" by (cases fs) (auto simp: between_def)
  show ?thesis
  proof (cases "IsControl (OpCode (Header f))")
    case c: True
    obtain r' w' where r': "Reader_Read rd cf k (r, w) = Some (0, [], None, r', w')" "delivering r' fs' rest pl" "same_message r r' []"
        "ready w'" "answers f w w'" "fs' \<noteq> []"
      using Read_control [OF d [unfolded fs] True c rw, of k] by blast
    then show ?thesis
      using read_result_go [of 0 "[]" r r' w' fs "[f]" fs' w pl pl rest] c fs by auto
  next
    case c: False
    obtain r' where r': "\<And>k. Reader_Read rd cf k (r, w) = read_loaded rd cf k (r', w)" "delivering r' fs' rest pl" "in_frame r' fs' rest pl"
        "opCode r' = opCode r" "state (utf8 r') = state (utf8 r)" "Clear (RState r') StateFragmented = Clear (RState r) StateFragmented"
        "ending (src r') = ending (src r)"
      using Read_data [OF d [unfolded fs] True c, of w] by blast
    obtain out where "read_loaded rd cf k (r', w) = Some out" "read_result r' w fs' rest pl out"
      using read_loaded_step [OF r'(2,3) rw] by blast
    then show ?thesis using r'(1) read_result_cong [OF r'(4-7)] read_result_Cons [OF c] fs by auto
  qed
qed

section \<open>Whole messages\<close>

lemma read_all_delivering:
  "delivering r fs rest pl \<Longrightarrow> (\<And>k. 0 < room k) \<Longrightarrow> ready w \<Longrightarrow>
     \<exists>bs e r' w'. read_all_loop (reader_rd rd cf) room got (r, w) = Some (bs, e, (r', w')) \<and>
       (if checks r \<and> utf8_run (state (utf8 r)) pl \<noteq> 0 then e = Some ErrInvalidUTF8
        else bs = got @ pl \<and> e = None \<and> ready w' \<and> answered answers fs w w' \<and> at_rest r' rest \<and>
          RState r' = Clear (RState r) StateFragmented \<and> ending (src r') = ending (src r))"
proof (induction "reader_fin fin r" arbitrary: got r w fs pl rule: less_induct)
  case less
  let ?k = "room (length got)"
  have ri: "(reader_inv inv \<circ> fst) (r, w)" using less.prems(1) by (simp add: delivering_def)
  obtain n bs e r' w' where st: "Reader_Read rd cf ?k (r, w) = Some (n, bs, e, r', w')"
      "read_result r w fs rest pl (n, bs, e, r', w')"
    using Read_step [OF less.prems(1,3), of ?k] by (auto simp: split_paired_all)
  then have rd': "reader_rd rd cf ?k (r, w) = Some (take n bs, e, (r', w'))"
    by (simp add: reader_rd_def)
  consider (A) gs fs' pl' where "e = None" "n = length bs" "same_message r r' bs" "pl = bs @ pl'" "delivering r' fs' rest pl'"
      "ready w'" "fs = gs @ fs'" "answered answers gs w w'"
    | (B) "e = Some EOF" "n = length bs" "pl = bs" "at_rest r' rest"
      "checks r \<longrightarrow> utf8_run (state (utf8 r)) pl = 0" "RState r' = Clear (RState r) StateFragmented"
      "ending (src r') = ending (src r)" "ready w'" "answered answers fs w w'"
    | (C) "e = Some ErrInvalidUTF8" "checks r" "utf8_run (state (utf8 r)) pl \<noteq> 0"
    using st(2) unfolding read_result_def by auto
  then show ?case
  proof cases
    case A
    have "reader_fin fin r' < reader_fin fin r"
      using message.rd_progress [OF ri less.prems(2) rd'] A(1) by simp
    from less.hyps [OF this A(5) less.prems(2) A(6), of "got @ bs"]
    obtain bs2 e2 r2 w2 where l: "read_all_loop (reader_rd rd cf) room (got @ bs) (r', w') = Some (bs2, e2, (r2, w2))"
       "if checks r' \<and> utf8_run (state (utf8 r')) pl' \<noteq> 0 then e2 = Some ErrInvalidUTF8
        else bs2 = (got @ bs) @ pl' \<and> e2 = None \<and> ready w2 \<and> answered answers fs' w' w2 \<and> at_rest r2 rest \<and>
          RState r2 = Clear (RState r') StateFragmented \<and> ending (src r2) = ending (src r')"
      by blast
    have "read_all_loop (reader_rd rd cf) room got (r, w) = Some (bs2, e2, (r2, w2))"
      using rd' l(1) A(1,2) by (subst read_all_loop.simps) simp
    moreover have "answered answers fs' w' w2 \<Longrightarrow> answered answers fs w w2"
      using A(7,8) by (auto simp: answered_append)
    ultimately show ?thesis
      using l(2) A(3,4) same_message_checks [OF A(3)] by (simp add: same_message_def split: if_splits)
  next
    case B
    with rd' show ?thesis by (subst read_all_loop.simps) auto
  next
    case C
    with rd' show ?thesis by (subst read_all_loop.simps) auto
  qed
qed

text \<open>The first frame of a message.\<close>

lemma NextFrame_message:
  assumes a: "idle r (wire (f # fs) @ rest)" and m: "message_ok cf quiet (RState r) (f # fs)"
  obtains r' where "NextFrame rd cf (r, w) = Some (Header f, None, r', w)"
    "delivering r' fs rest (plain f @ message_payload fs)" "opCode r' = OpCode (Header f)"
    "state (utf8 r') = 0" "Clear (RState r') StateFragmented = RState r"
    "ending (src r') = ending (src r)"
proof -
  have ri: "reader_inv inv r" and nf: "\<not> fragmented r" and u0: "state (utf8 r) = 0"
    using a by (simp_all add: idle_def)
  have i: "inv (src r)" using ri by (simp add: reader_inv_def)
  have f: "wf_frame f" "CheckHeader (Header f) (RState r) = None" "size_ok cf (Header f)"
    "if Fin (Header f) then fs = [] else msg_tail cf quiet (Set (RState r) StateFragmented) fs"
    using m by simp_all
  have ds: "data (src r) = frame_bytes f @ wire fs @ rest" using a by (simp add: idle_def)
  obtain s where s: "inv s" "data s = Payload f @ wire fs @ rest" "ending s = ending (src r)"
      "sint (Length (Header f)) = int (length (Payload f))"
      and n: "NextFrame rd cf (r, w) =
      (let b = (if Masked (Header f) then Ciph (Mask (Header f)) 0 else Raw);
           r' = r\<lparr>src := s, rawN := sint (Length (Header f))\<rparr>
       in if fragmented r \<and> IsControl (OpCode (Header f)) then intermediate rd cf (Header f) b (r', w)
          else load_frame cf (Header f) b (r', w))"
    by (rule next_header [OF i f(1) ds f(2,3)])
  have u: "if CheckUTF8 cf \<and> (if fragmented r then opCode r else OpCode (Header f)) = OpText
      then state (utf8 r) \<noteq> 12 else state (utf8 r) = 0"
    using u0 by simp
  obtain r' where r': "load_frame cf (Header f) (if Masked (Header f) then Ciph (Mask (Header f)) 0 else Raw)
        (r\<lparr>src := s, rawN := int (length (Payload f))\<rparr>, w) = Some (Header f, None, r', w)"
      "delivering r' fs rest (plain f @ message_payload fs)" "in_frame r' fs rest (plain f @ message_payload fs)"
      "opCode r' = (if fragmented r then opCode r else OpCode (Header f))" "state (utf8 r') = state (utf8 r)"
      "Clear (RState r') StateFragmented = Clear (RState r) StateFragmented" "src r' = s"
    using load_frame_loads [OF ri s(1,2) _ f(4) u] nf by blast
  show thesis
    using that [of r'] n r' nf s u0 by (simp add: Let_def Clear_unfragmented fragmented_def)
qed

lemma ReadAll_message:
  assumes a: "idle r (wire (f # fs) @ rest)" and m: "message_ok cf quiet (RState r) (f # fs)"
    and room: "\<And>k. 0 < room k" and rw: "ready w"
  shows "\<exists>r1 bs e r2 w2. NextFrame rd cf (r, w) = Some (Header f, None, r1, w) \<and>
    io_ReadAll (reader_rd rd cf) room (r1, w) = Some (bs, e, (r2, w2)) \<and>
    (if CheckUTF8 cf \<and> OpCode (Header f) = OpText \<and> \<not> ValidString (plain f @ message_payload fs)
     then e = Some ErrInvalidUTF8
     else bs = plain f @ message_payload fs \<and> e = None \<and> ready w2 \<and> answered answers fs w w2 \<and> at_rest r2 rest \<and> RState r2 = RState r \<and>
       ending (src r2) = ending (src r))"
proof (rule NextFrame_message [OF a m, of w])
  fix r1
  assume n: "NextFrame rd cf (r, w) = Some (Header f, None, r1, w)"
    and d: "delivering r1 fs rest (plain f @ message_payload fs)" "opCode r1 = OpCode (Header f)"
      "state (utf8 r1) = 0" "Clear (RState r1) StateFragmented = RState r" "ending (src r1) = ending (src r)"
  obtain bs e r2 w2 where "io_ReadAll (reader_rd rd cf) room (r1, w) = Some (bs, e, (r2, w2))"
      "if checks r1 \<and> utf8_run (state (utf8 r1)) (plain f @ message_payload fs) \<noteq> 0 then e = Some ErrInvalidUTF8
        else bs = plain f @ message_payload fs \<and> e = None \<and> ready w2 \<and> answered answers fs w w2 \<and> at_rest r2 rest \<and>
          RState r2 = Clear (RState r1) StateFragmented \<and> ending (src r2) = ending (src r1)"
    using read_all_delivering [where got = "[]" and w = w and room = room, OF d(1) room rw] unfolding io_ReadAll_def by auto
  with n d show ?thesis
    by (auto simp: checks_def utf8_run_valid [symmetric])
qed

text \<open>A message of one frame, read into a buffer of exactly its length.\<close>

lemma delivering_Nil:
  "delivering r [] rest pl \<Longrightarrow> \<not> fragmented r \<and> rframe r \<noteq> None \<and>
     pl = framed_data data (the (loaded_base r), rawN r, src r)"
  by (cases "rframe r") (auto simp: delivering_def in_frame_def between_def loaded_base_def split: if_splits)

lemma delivering_idle:
  assumes d: "delivering r [] rest []" and c: "\<not> checks r"
  shows "idle r rest"
proof -
  have n: "\<not> fragmented r" "[] = framed_data data (the (loaded_base r), rawN r, src r)"
    using delivering_Nil [OF d] by simp_all
  obtain m where m: "rawN r = int m" "m \<le> length (data (src r))" "drop m (data (src r)) = rest"
    using d n(1) unfolding delivering_def in_frame_def between_def by (auto simp: fragmented_def)
  have "[] = framed_data data (the (loaded_base r), int m, src r)" using n(2) m(1) by simp
  with framed_data_Nil [of "the (loaded_base r)" m "src r"] m n(1) d c show ?thesis
    by (simp add: idle_def delivering_def)
qed

lemma read_full_delivering:
  "delivering r [] rest pl \<Longrightarrow> ready w \<Longrightarrow> pl \<noteq> [] \<Longrightarrow> k = length got + length pl \<Longrightarrow>
     \<exists>bs e r' w'. read_full_loop (reader_rd rd cf) k got (r, w) = Some (bs, e, (r', w')) \<and>
       (if checks r \<and> utf8_run (state (utf8 r)) pl \<noteq> 0 then e = Some ErrInvalidUTF8
        else bs = got @ pl \<and> e = None \<and> w' = w \<and> at_rest r' rest \<and> ending (src r') = ending (src r) \<and>
          RState r' = Clear (RState r) StateFragmented)"
proof (induction "reader_fin fin r" arbitrary: got r pl rule: less_induct)
  case less
  let ?k = "k - length got"
  have k: "0 < ?k" "length got < k" "?k = length pl" using less.prems(3,4) by simp_all
  have ri: "(reader_inv inv \<circ> fst) (r, w)" using less.prems(1) by (simp add: delivering_def)
  obtain n bs e r' w' where st: "Reader_Read rd cf ?k (r, w) = Some (n, bs, e, r', w')"
      "read_result r w [] rest pl (n, bs, e, r', w')"
    using Read_step [OF less.prems(1,2), of ?k] by (auto simp: split_paired_all)
  then have rd': "reader_rd rd cf ?k (r, w) = Some (take n bs, e, (r', w'))"
    by (simp add: reader_rd_def)
  have lb: "length bs \<le> ?k"
    using Reader_Read_returns [of r ?k w] ri st(1) by auto
  consider (A) pl' where "e = None" "n = length bs" "same_message r r' bs" "pl = bs @ pl'" "pl' \<noteq> []"
      "delivering r' [] rest pl'" "w' = w"
    | (B) "e = Some EOF" "n = length bs" "pl = bs" "at_rest r' rest"
      "checks r \<longrightarrow> utf8_run (state (utf8 r)) pl = 0" "RState r' = Clear (RState r) StateFragmented"
      "ending (src r') = ending (src r)" "w' = w"
    | (C) "e = Some ErrInvalidUTF8" "checks r" "utf8_run (state (utf8 r)) pl \<noteq> 0" "n < length bs \<or> bs = []"
    using st(2) unfolding read_result_def by auto
  then show ?case
  proof cases
    case A
    have lt: "reader_fin fin r' < reader_fin fin r"
      using message.rd_progress [OF ri k(1) rd'] A(1) by simp
    have k': "k = length (got @ bs) + length pl'" using less.prems(4) A(4) by simp
    have st: "read_full_loop (reader_rd rd cf) k got (r, w) = read_full_loop (reader_rd rd cf) k (got @ bs) (r', w)"
      using k(2) rd' A(1,2,7) by (subst read_full_loop.simps) simp
    obtain bs2 e2 r2 w2 where ih: "read_full_loop (reader_rd rd cf) k (got @ bs) (r', w) = Some (bs2, e2, (r2, w2))"
      "if checks r' \<and> utf8_run (state (utf8 r')) pl' \<noteq> 0 then e2 = Some ErrInvalidUTF8
        else bs2 = (got @ bs) @ pl' \<and> e2 = None \<and> w2 = w \<and> at_rest r2 rest \<and> ending (src r2) = ending (src r') \<and>
          RState r2 = Clear (RState r') StateFragmented"
      using less.hyps [OF lt A(6) less.prems(2) A(5) k'] by blast
    show ?thesis
      by (intro exI [of _ bs2] exI [of _ e2] exI [of _ r2] exI [of _ w2] conjI)
        (use ih A(3,4) same_message_checks [OF A(3)] in
          \<open>simp_all add: st same_message_def split: if_splits\<close>)
  next
    case B
    then have "read_full_loop (reader_rd rd cf) k got (r, w) = Some (got @ bs, None, (r', w))"
      using k rd' by (subst read_full_loop.simps) (simp add: read_full_err_def)
    with B show ?thesis by simp
  next
    case C
    then have "length (got @ take n bs) < k" using k lb by auto
    then have "read_full_loop (reader_rd rd cf) k got (r, w) = Some (got @ take n bs, Some ErrInvalidUTF8, (r', w'))"
      using k(2) rd' C(1) by (subst read_full_loop.simps) (auto simp: read_full_err_def)
    with C show ?thesis by simp
  qed
qed

text \<open>Discarding a message, from any point of it.\<close>

definition skipping :: "'s Reader \<Rightarrow> frame list \<Rightarrow> byte list \<Rightarrow> bool" where
  "skipping r fs rest \<longleftrightarrow> reader_inv inv r \<and>
     (\<exists>m. rawN r = int m \<and> m \<le> length (data (src r)) \<and> drop m (data (src r)) = wire fs @ rest) \<and>
     (if fragmented r then msg_tail cf quiet (RState r) fs else fs = [])"

lemma delivering_skipping: "delivering r fs rest pl \<Longrightarrow> skipping r fs rest"
  unfolding delivering_def skipping_def in_frame_def between_def by (auto simp: fragmented_def)

lemma load_frame_skips:
  assumes "reader_inv inv r"
  obtains r' where "load_frame cf h b (r, w) = Some (h, None, r', w)" "reader_inv inv r'" "src r' = src r"
    "rawN r' = rawN r"
    "RState r' = (if Fin h then Clear (RState r) StateFragmented else Set (RState r) StateFragmented)"
  using assms that by (auto simp: load_frame_def Let_def no_continuation reader_inv_def)

lemma Discard_skips:
  "skipping r fs rest \<Longrightarrow> ready w \<Longrightarrow>
     \<exists>r' w'. Discard rd cf r w = Some (None, r', w') \<and> ready w' \<and> answered answers fs w w' \<and> at_rest r' rest \<and>
     RState r' = Clear (RState r) StateFragmented \<and> ending (src r') = ending (src r)"
proof (induction fs arbitrary: r w)
  case (Nil r w)
  then obtain m where m: "reader_inv inv r" "rawN r = int m" "m \<le> length (data (src r))"
      "drop m (data (src r)) = rest" "\<not> fragmented r"
    by (auto simp: skipping_def split: if_splits)
  note rw = Nil.prems(2)
  obtain s where "io_Discard (limited_read rd) (rawN r, src r) = Some (None, (0, s))" "inv s"
      "data s = rest" "ending s = ending (src r)"
    using limited_Discard [of "src r" m] m by (auto simp: reader_inv_def)
  with m(5) rw show ?case
    by (subst Discard.simps) (simp add: Let_def at_rest_def fragmented_def reset_def Clear_unfragmented)
next
  case (Cons f fs r w)
  obtain m where m: "reader_inv inv r" "rawN r = int m" "m \<le> length (data (src r))"
      "drop m (data (src r)) = frame_bytes f @ wire fs @ rest" "fragmented r"
      "msg_tail cf quiet (RState r) (f # fs)"
    using Cons.prems by (auto simp: skipping_def split: if_splits)
  obtain s where s: "io_Discard (limited_read rd) (rawN r, src r) = Some (None, (0, s))" "inv s"
      "data s = frame_bytes f @ wire fs @ rest" "ending s = ending (src r)"
    using limited_Discard [of "src r" m] m by (auto simp: reader_inv_def)
  define r0 where "r0 = r\<lparr>rawN := 0, src := s\<rparr>"
  have r0: "reader_inv inv r0" "inv (src r0)" "data (src r0) = frame_bytes f @ wire fs @ rest" "fragmented r0"
      "RState r0 = RState r" "ending (src r0) = ending (src r)"
    using m s by (simp_all add: r0_def reader_inv_def fragmented_def)
  have f: "wf_frame f" "CheckHeader (Header f) (RState r0) = None" "size_ok cf (Header f)"
    using m(6) r0(5) by simp_all
  have dd: "Discard rd cf r w = Option.bind (NextFrame rd cf (r0, w)) (\<lambda>(hdr, e, r, w).
             case e of Some er \<Rightarrow> Some (Some er, reset r, w) | None \<Rightarrow> Discard rd cf r w)"
    using s(1) m(5) by (subst Discard.simps) (simp add: Let_def r0_def fragmented_def)
  obtain s1 where s1: "inv s1" "data s1 = Payload f @ wire fs @ rest" "ending s1 = ending (src r0)"
      "sint (Length (Header f)) = int (length (Payload f))"
      and nf: "NextFrame rd cf (r0, w) =
      (let b = (if Masked (Header f) then Ciph (Mask (Header f)) 0 else Raw);
           r' = r0\<lparr>src := s1, rawN := sint (Length (Header f))\<rparr>
       in if fragmented r0 \<and> IsControl (OpCode (Header f)) then intermediate rd cf (Header f) b (r', w)
          else load_frame cf (Header f) b (r', w))"
    by (rule next_header [OF r0(2) f(1) r0(3) f(2,3)])
  obtain r' w' where n: "NextFrame rd cf (r0, w) = Some (Header f, None, r', w')" "skipping r' fs rest"
      "Clear (RState r') StateFragmented = Clear (RState r) StateFragmented" "ending (src r') = ending (src r)"
      "ready w'" "answered answers [f] w w'"
  proof (cases "IsControl (OpCode (Header f))")
    case True
    then have q: "quiet (Header f)" "msg_tail cf quiet (RState r) fs" using m(6) by simp_all
    obtain r' w' where r': "intermediate rd cf (Header f) (if Masked (Header f) then Ciph (Mask (Header f)) 0 else Raw)
        (r0\<lparr>src := s1, rawN := int (length (Payload f))\<rparr>, w) = Some (Header f, None, r', w')"
      "reader_inv inv r'" "data (src r') = wire fs @ rest" "ending (src r') = ending s1" "rframe r' = rframe r0" "rawN r' = 0"
      "RState r' = RState r0" "opCode r' = opCode r0" "utf8 r' = utf8 r0" "ready w'" "answers f w w'"
      by (rule quiet_frame [OF r0(1) s1(1,2) f(1) q(1) True Cons.prems(2)])
    show thesis
      by (rule that [of r' w'])
        (use nf r' r0 s1 q(2) True in \<open>simp_all add: Let_def skipping_def fragmented_def\<close>)
  next
    case False
    let ?b = "if Masked (Header f) then Ciph (Mask (Header f)) 0 else Raw"
    have "reader_inv inv (r0\<lparr>src := s1, rawN := int (length (Payload f))\<rparr>)"
      using r0(1) s1(1) by (simp add: reader_inv_def)
    then obtain r' where r': "load_frame cf (Header f) ?b (r0\<lparr>src := s1, rawN := int (length (Payload f))\<rparr>, w) =
          Some (Header f, None, r', w)" "reader_inv inv r'" "src r' = s1" "rawN r' = int (length (Payload f))"
        "RState r' = (if Fin (Header f) then Clear (RState r0) StateFragmented else Set (RState r0) StateFragmented)"
      by (rule load_frame_skips [where h = "Header f" and b = ?b and w = w]) auto
    have "if Fin (Header f) then fs = [] else msg_tail cf quiet (RState r) fs"
      using m(6) False by (auto split: if_splits)
    then have "skipping r' fs rest"
      using r' r0(4,5) s1(2) by (auto simp: skipping_def fragmented_def Set_Fragmented_idem)
    then show thesis
      by (rule that [of r' w, rotated]) (use nf r' r0 s1 False Cons.prems(2) in \<open>simp_all add: Let_def\<close>)
  qed
  obtain r2 w2 where d: "Discard rd cf r' w' = Some (None, r2, w2)" "ready w2" "answered answers fs w' w2"
      "at_rest r2 rest" "RState r2 = Clear (RState r') StateFragmented" "ending (src r2) = ending (src r')"
    using Cons.IH [OF n(2,5)] by blast
  have "answered answers ([f] @ fs) w w2"
    using n(6) d(3) unfolding answered_append by blast
  then have "answered answers (f # fs) w w2" by simp
  with d n(3,4) show ?case unfolding dd n(1) by simp
qed

text \<open>
  A loaded frame that is the whole message and is not checked is itself a source of bytes:
  the case of a control frame outside of messages.
\<close>

definition one_frame :: "'s Reader \<times> 'w \<Rightarrow> bool" where
  "one_frame = (\<lambda>(r, w). ready w \<and> reader_inv inv r \<and>
     (\<exists>rest. (\<exists>pl. delivering r [] rest pl \<and> \<not> checks r) \<or> at_rest r rest))"

definition frame_rest :: "'s Reader \<times> 'w \<Rightarrow> byte list" where
  "frame_rest = (\<lambda>(r, w).
     if rframe r = None then [] else framed_data data (the (loaded_base r), rawN r, src r))"

definition frame_end :: "'s Reader \<times> 'w \<Rightarrow> err" where
  "frame_end = (\<lambda>(r, w). if rframe r = None then ErrNoFrameAdvance else EOF)"

lemma reader_rd_at_rest:
  "at_rest r rest \<Longrightarrow> reader_rd rd cf k (r, w) = Some ([], Some ErrNoFrameAdvance, (r, w))"
  by (simp add: at_rest_def reader_rd_def Reader_Read_def)

lemma reader_rd_frame:
  assumes "delivering r [] rest pl" and "\<not> checks r" and "ready w"
  obtains (More) bs r' pl' where "reader_rd rd cf k (r, w) = Some (bs, None, (r', w))" "pl = bs @ pl'"
      "delivering r' [] rest pl'" "\<not> checks r'" "same_message r r' bs"
  | (Last) r' where "reader_rd rd cf k (r, w) = Some (pl, Some EOF, (r', w))" "at_rest r' rest"
      "RState r' = Clear (RState r) StateFragmented" "ending (src r') = ending (src r)"
proof -
  obtain n bs e r' w' where st: "Reader_Read rd cf k (r, w) = Some (n, bs, e, r', w')"
      "read_result r w [] rest pl (n, bs, e, r', w')"
    using Read_step [OF assms(1,3), of k] by (auto simp: split_paired_all)
  then have "reader_rd rd cf k (r, w) = Some (take n bs, e, (r', w'))" by (simp add: reader_rd_def)
  with st(2) assms(2) show thesis
    using More Last same_message_checks [of r r' bs] by (auto simp: read_result_def)
qed

lemma one_frame_read:
  assumes i: "one_frame x" and r: "reader_rd rd cf n x = Some (bs, e, y)"
  shows "one_frame y \<and>
    (case e of None \<Rightarrow> frame_rest x = bs @ frame_rest y \<and> frame_end y = frame_end x
     | Some er \<Rightarrow> frame_rest x = bs \<and> frame_end x = er)"
proof -
  obtain s w where x: "x = (s, w)" by (cases x)
  have m: "(reader_inv inv \<circ> fst) x" using i by (simp add: one_frame_def x)
  have ry: "reader_inv inv (fst y)" using message.rd_inv [OF m r] by simp
  obtain rest where rw: "ready w" "(\<exists>pl. delivering s [] rest pl \<and> \<not> checks s) \<or> at_rest s rest"
    using i by (auto simp: one_frame_def x)
  from rw(2) show ?thesis
  proof
    assume a: "at_rest s rest"
    with r rw(1) i show ?thesis
      by (auto simp: x reader_rd_at_rest at_rest_def frame_rest_def frame_end_def)
  next
    assume "\<exists>pl. delivering s [] rest pl \<and> \<not> checks s"
    then obtain pl where d: "delivering s [] rest pl" "\<not> checks s" by blast
    note dn = delivering_Nil [OF d(1)]
    from d rw(1) show ?thesis
    proof (rule reader_rd_frame [where k = n])
      fix b r' pl'
      assume "reader_rd rd cf n (s, w) = Some (b, None, (r', w))" "pl = b @ pl'" "delivering r' [] rest pl'" "\<not> checks r'"
      with r dn delivering_Nil [of r' rest pl'] rw(1) ry show ?thesis
        by (auto simp: x frame_rest_def frame_end_def one_frame_def)
    next
      fix r'
      assume "reader_rd rd cf n (s, w) = Some (pl, Some EOF, (r', w))" "at_rest r' rest"
      with r dn rw(1) ry show ?thesis
        by (auto simp: x frame_rest_def frame_end_def one_frame_def)
    qed
  qed
qed

end

sublocale message_stream \<subseteq> single: io_source "reader_rd rd cf" one_frame "reader_fin fin \<circ> fst" frame_rest frame_end
proof unfold_locales
  fix n x bs e y
  assume i: "one_frame x" and r: "reader_rd rd cf n x = Some (bs, e, y)"
  have m: "(reader_inv inv \<circ> fst) x" using i by (auto simp: one_frame_def)
  show "length bs \<le> n" "(reader_fin fin \<circ> fst) y \<le> (reader_fin fin \<circ> fst) x"
    by (rule message.rd_length [OF m r] message.rd_fin [OF m r])+
  show "one_frame y" using one_frame_read [OF i r] by blast
next
  fix n x bs y
  assume "one_frame x" "reader_rd rd cf n x = Some (bs, None, y)"
  from one_frame_read [OF this] show "frame_rest x = bs @ frame_rest y \<and> frame_end y = frame_end x" by simp
next
  fix n x bs e y
  assume "one_frame x" "reader_rd rd cf n x = Some (bs, Some e, y)"
  from one_frame_read [OF this] show "frame_rest x = bs \<and> frame_end x = e" by simp
next
  fix n x bs e y
  assume "one_frame x" "0 < n" "reader_rd rd cf n x = Some (bs, e, y)" "e = None \<or> bs \<noteq> []"
  then show "(reader_fin fin \<circ> fst) y < (reader_fin fin \<circ> fst) x"
    by (intro message.rd_progress) (auto simp: one_frame_def)
next
  fix n x
  assume "one_frame x"
  then show "\<exists>bs e y. reader_rd rd cf n x = Some (bs, e, y)"
    by (intro message.rd_returns) (auto simp: one_frame_def)
qed

end
