(* ===== verification/Sending.thy ===== *)
theory Sending
  imports FrameWriter Reassembly
begin

text \<open>
  What the message writer sends. Its reserved bytes always suffice for the header, growing
  keeps the buffered data, and a message written in any pieces reaches the peer as one
  well-formed fragmented message whose joined payload is what was written.
\<close>

section \<open>Rounding up to a power of two\<close>

lemma smear_step:
  assumes "\<And>i. bit (w :: int64) i \<longleftrightarrow> (\<exists>j<a. bit n (i + j))" and "\<not> bit (n :: int64) 63"
    and "b = a + a"
  shows "bit (w OR signed_drop_bit a w) i \<longleftrightarrow> (\<exists>j<b. bit n (i + j))"
proof -
  have out: "\<not> bit n (63 + j)" for j
    using assms(2) bit_imp_le_length [of n "63 + j"] by (cases j) auto
  have sg: "\<not> bit w 63" using assms(1) out by auto
  have "bit (signed_drop_bit a w) i \<longleftrightarrow> (\<exists>j<a. bit n (i + (a + j)))"
  proof (cases "64 - a \<le> i")
    case True
    have "\<not> bit n (i + (a + j))" for j
    proof -
      have "63 \<le> i + (a + j)" using True by simp
      then obtain l where "i + (a + j) = 63 + l" using le_Suc_ex by blast
      then show ?thesis using out by simp
    qed
    moreover have "\<not> bit w (a + i)" if "63 \<le> a + i"
    proof -
      from that obtain l where "a + i = 63 + l" using le_Suc_ex by blast
      then have "a + i + j = 63 + (l + j)" for j by simp
      then have "\<not> bit n (a + i + j)" for j using out by metis
      then show ?thesis using assms(1) by simp
    qed
    moreover have "63 \<le> a + i" using True by simp
    ultimately show ?thesis using sg by (auto simp: bit_signed_drop_bit_iff)
  next
    case False
    then show ?thesis by (auto simp: bit_signed_drop_bit_iff assms(1) ac_simps)
  qed
  moreover have "(\<exists>j<b. bit n (i + j)) \<longleftrightarrow> (\<exists>j<a. bit n (i + j)) \<or> (\<exists>j<a. bit n (i + (a + j)))"
    (is "?l \<longleftrightarrow> ?r")
  proof
    assume ?l
    then obtain j where j: "j < a + a" "bit n (i + j)" using assms(3) by blast
    show ?r
    proof (cases "j < a")
      case False
      then obtain l where "j = a + l" using le_Suc_ex not_less by blast
      with j show ?r by auto
    qed (use j in blast)
  next
    assume ?r
    moreover have "j < a \<Longrightarrow> j < b" "j < a \<Longrightarrow> a + j < b" for j using assms(3) by simp_all
    ultimately show ?l by blast
  qed
  ultimately show ?thesis by (simp add: bit_or_iff assms(1))
qed

lemma ceilPowerOfTwo_power:
  assumes "0 < x" and "x < 2 ^ 62"
  shows "\<exists>t. sint (ceilPowerOfTwo (of_int x)) = 2 ^ t \<and> x < 2 ^ t \<and> 2 ^ t \<le> 2 * x"
proof -
  define n where "n = (of_int x :: int64)"
  have un: "uint n = x" using assms by (simp add: n_def unsigned_of_int take_bit_int_eq_self)
  have "1 \<le> nat x" using assms(1) by simp
  from ex_power_ivl1 [OF le_refl this] obtain t where t: "2 ^ t \<le> nat x" "nat x < 2 ^ (t + 1)" by blast
  have xt: "2 ^ t \<le> x" "x < 2 ^ (t + 1)"
  proof -
    have "int (2 ^ t) \<le> int (nat x)" using t(1) by (rule of_nat_mono)
    then show "2 ^ t \<le> x" using assms(1) by simp
    have "int (nat x) < int (2 ^ (t + 1))" using t(2) by (simp only: of_nat_less_iff)
    then show "x < 2 ^ (t + 1)" using assms(1) by simp
  qed
  have t62: "t < 62"
  proof (rule ccontr)
    assume "\<not> t < 62"
    then have "(2 :: int) ^ 62 \<le> 2 ^ t" by (intro power_increasing) simp_all
    with xt assms(2) show False by simp
  qed
  have bx: "bit n i \<longleftrightarrow> bit x i" if "i < 64" for i
    using that un bit_uint_iff [of n i] by simp
  have top: "bit n t"
  proof -
    have "x div 2 ^ t = 1" using xt by (intro int_div_pos_eq [where r = "x - 2 ^ t"]) auto
    then show ?thesis using bx [of t] t62 by (simp add: bit_iff_odd)
  qed
  have above: "\<not> bit n i" if "t < i" for i
  proof (cases "i < 64")
    case True
    have "x < 2 ^ i" using xt(2) power_increasing [of "t + 1" i "2 :: int"] that by simp
    then have "x div 2 ^ i = 0" using assms(1) by simp
    then show ?thesis using bx [OF True] by (simp add: bit_iff_odd)
  next
    case False
    then show ?thesis using bit_imp_le_length [of n i] by auto
  qed
  have s: "\<not> bit n 63" using above t62 by simp
  have b0: "bit n i \<longleftrightarrow> (\<exists>j<1. bit n (i + j))" for i by simp
  define n1 where "n1 = n OR signed_drop_bit 1 n"
  define n2 where "n2 = n1 OR signed_drop_bit 2 n1"
  define n3 where "n3 = n2 OR signed_drop_bit 4 n2"
  define n4 where "n4 = n3 OR signed_drop_bit 8 n3"
  define n5 where "n5 = n4 OR signed_drop_bit 16 n4"
  define n6 where "n6 = n5 OR signed_drop_bit 32 n5"
  have c1: "bit n1 i \<longleftrightarrow> (\<exists>j<2. bit n (i + j))" for i
    using smear_step [of n 1 n 2, OF b0 s] by (simp add: n1_def)
  have c2: "bit n2 i \<longleftrightarrow> (\<exists>j<4. bit n (i + j))" for i
    using smear_step [of n1 2 n 4, OF c1 s] by (simp add: n2_def)
  have c3: "bit n3 i \<longleftrightarrow> (\<exists>j<8. bit n (i + j))" for i
    using smear_step [of n2 4 n 8, OF c2 s] by (simp add: n3_def)
  have c4: "bit n4 i \<longleftrightarrow> (\<exists>j<16. bit n (i + j))" for i
    using smear_step [of n3 8 n 16, OF c3 s] by (simp add: n4_def)
  have c5: "bit n5 i \<longleftrightarrow> (\<exists>j<32. bit n (i + j))" for i
    using smear_step [of n4 16 n 32, OF c4 s] by (simp add: n5_def)
  have c6: "bit n6 i \<longleftrightarrow> (\<exists>j<64. bit n (i + j))" for i
    using smear_step [of n5 32 n 64, OF c5 s] by (simp add: n6_def)
  have "n6 = mask (t + 1)"
  proof (rule bit_eqI)
    fix i
    have "(\<exists>j<64. bit n (i + j)) \<longleftrightarrow> i \<le> t"
    proof
      assume "i \<le> t"
      then have "i + (t - i) = t" "t - i < 64" using t62 by simp_all
      with top show "\<exists>j<64. bit n (i + j)" by metis
    next
      assume "\<exists>j<64. bit n (i + j)"
      then show "i \<le> t" using above by (metis le_add1 le_trans not_le)
    qed
    then show "bit n6 i = bit (mask (t + 1) :: int64) i"
      using t62 by (auto simp: c6 bit_mask_iff less_Suc_eq_le)
  qed
  then have e: "ceilPowerOfTwo n = 2 ^ (t + 1)"
    unfolding ceilPowerOfTwo_def Let_def n1_def [symmetric] n2_def [symmetric] n3_def [symmetric]
      n4_def [symmetric] n5_def [symmetric] n6_def [symmetric]
    by (simp only: mask_eq_exp_minus_1 diff_add_cancel)
  have "sint (2 ^ (t + 1) :: int64) = 2 ^ (t + 1)"
  proof -
    have "\<not> bit (2 ^ (t + 1) :: int64) 63" using t62 by (simp only: bit_exp_iff) simp
    then have "0 \<le> sint (2 ^ (t + 1) :: int64)"
      using bit_last_iff [of "2 ^ (t + 1) :: int64"] by (simp del: power_Suc power_add add: power_Suc2)
    then have "sint (2 ^ (t + 1) :: int64) = uint (2 ^ (t + 1) :: int64)"
      by (rule uint_eq_sint [symmetric])
    also have "uint (2 ^ (t + 1) :: int64) = 2 ^ (t + 1)"
    proof -
      have u: "uint (of_int z :: int64) = z" if "0 \<le> z" "z < 2 ^ 64" for z
        using that by (simp add: unsigned_of_int take_bit_int_eq_self)
      have "(2 :: int) ^ (t + 1) < 2 ^ 64" using t62 by (intro power_strict_increasing) simp_all
      with u [of "2 ^ (t + 1)"] show ?thesis by (simp only: of_int_power of_int_numeral zero_le_power zero_le_numeral)
    qed
    finally show ?thesis .
  qed
  with e xt show ?thesis unfolding n_def by (intro exI [of _ "t + 1"]) simp
qed

section \<open>The reserved bytes suffice\<close>

text \<open>
  The invariant of a writer: the offset is what \<open>reserve\<close> gives for its buffer, there is
  room for data, and the counter stays inside. Buffers stay far below the range of \<open>int\<close>.
\<close>

definition wok :: "Writer \<Rightarrow> bool" where
  "wok w \<longleftrightarrow> int (offset w) = reserve (wstate w) (int (length (raw w))) \<and>
     offset w < length (raw w) \<and> wn w \<le> Size w \<and> length (raw w) < 2 ^ 60"

definition buffered_data :: "Writer \<Rightarrow> byte list" where
  "buffered_data w = take (wn w) (drop (offset w) (raw w))"

lemma sint_of_nat_small: "n < 2 ^ 63 \<Longrightarrow> sint (of_nat n :: int64) = int n"
  by (simp add: signed_of_nat signed_take_bit_int_eq_self)

lemma header_fits:
  assumes "sint (Length h) = L" and "0 \<le> L" and "L \<le> N - reserve st N" and "N < 2 ^ 60"
    and "Masked h = ClientSide st"
  shows "HeaderSize h \<le> reserve st N"
  using assms by (auto simp: HeaderSize_def reserve_def Let_def len_defs split: if_splits)

text \<open>The frame the writer sends for a payload, with the mask it draws.\<close>

definition out_frame :: "byte \<Rightarrow> byte \<Rightarrow> bool \<Rightarrow> mask \<Rightarrow> byte list \<Rightarrow> frame" where
  "out_frame st op fin m p =
     \<lparr>Header = zero_header\<lparr>Fin := fin, OpCode := op, Masked := ClientSide st,
        Mask := (if ClientSide st then m else zeroMask), Length := of_nat (length p)\<rparr>,
      Payload = (if ClientSide st then Cipher p m 0 else p)\<rparr>"

lemma out_frame_plain: "plain (out_frame st op fin m p) = p"
  by (simp add: out_frame_def plain_def Cipher_twice)

lemma out_frame_wf: "op < 16 \<Longrightarrow> length p < 2 ^ 63 \<Longrightarrow> wf_frame (out_frame st op fin m p)"
  by (simp add: out_frame_def wf_frame_def wf_header_def sint_of_nat_small)

lemma NewMask_out: "NewMask d = (m, d') \<Longrightarrow> conn_out d' = conn_out d \<and> faults d' = faults d"
  by (auto simp: NewMask_def rand_Uint32_def Let_def conn_out_def)

text \<open>Dumping a header into a buffer of exactly its size.\<close>

lemma bytesWriter_header:
  assumes "int (length b) = HeaderSize h"
  shows "\<exists>b'. WriteHeader bytesWriter_Write h \<lparr>bbuf = b, bpos = 0\<rparr> = Some (None, b') \<and>
    bbuf b' = the (header_bytes h)"
  using assms HeaderSize_bytes [of h "the (header_bytes h)"]
  by (simp add: WriteHeader_def header_bytes_eq bytesWriter_Write_def copy_len_def Let_def put_at_def)

lemma conn_write_out:
  "\<exists>n e d' k. conn_write p d = Some (n, e, d') \<and> conn_out d' = conn_out d @ take k p \<and>
     (e = None \<longrightarrow> conn_out d' = conn_out d @ p) \<and> (faults d = [] \<longrightarrow> e = None \<and> faults d' = [])"
  by (cases "faults d"; cases "hd (faults d)") (auto simp: conn_out_def intro: exI [of _ "length p"])

declare conn_write.simps [simp del]

text \<open>
  \<open>delivers bs d d' e\<close>: a send of the bytes \<open>bs\<close> took the connection from \<open>d\<close> to
  \<open>d'\<close>: a prefix of them reached the peer, all of them unless an error is reported, and a
  connection without faults reports none.
\<close>

definition delivers :: "byte list \<Rightarrow> dest \<Rightarrow> dest \<Rightarrow> err option \<Rightarrow> bool" where
  "delivers bs d d' e \<longleftrightarrow> (\<exists>k. conn_out d' = conn_out d @ take k bs) \<and>
     (e = None \<longrightarrow> conn_out d' = conn_out d @ bs) \<and> (faults d = [] \<longrightarrow> e = None \<and> faults d' = [])"

lemma WriteFrame_delivers:
  "\<exists>e d'. WriteFrame conn_write f d = Some (e, d') \<and> delivers (frame_bytes f) d d' e"
proof -
  obtain e d' k where w: "WriteFrame conn_write f d = Some (e, d')"
      "conn_out d' = conn_out d @ take k (frame_bytes f)" "e = None \<longrightarrow> conn_out d' = conn_out d @ frame_bytes f"
    using conn_w.WriteFrame_returns [where d = d and f = f, OF TrueI] by blast
  have "e = None \<and> faults d' = []" if "faults d = []"
    using w(1) that by (auto simp: WriteFrame_def WriteHeader_def header_bytes_eq conn_write.simps)
  with w show ?thesis unfolding delivers_def by blast
qed

lemma flushFragment_sends:
  assumes w: "wok w" and x: "extensions w = []"
  shows "\<exists>e w' m k. flushFragment fin w = Some (e, w') \<and>
    conn_out (wdest w') = conn_out (wdest w) @
      take k (frame_bytes (out_frame (wstate w) (opCode_of w) fin m (buffered_data w))) \<and>
    (e = None \<longrightarrow> conn_out (wdest w') = conn_out (wdest w) @
      frame_bytes (out_frame (wstate w) (opCode_of w) fin m (buffered_data w))) \<and>
    (faults (wdest w) = [] \<longrightarrow> e = None \<and> faults (wdest w') = []) \<and>
    length (raw w') = length (raw w) \<and>
    w' = w\<lparr>wdest := wdest w', raw := raw w'\<rparr>"
proof -
  define p where "p = buffered_data w"
  obtain m d where md: "NewMask (wdest w) = (m, d)" by (cases "NewMask (wdest w)")
  define f where "f = out_frame (wstate w) (opCode_of w) fin m p"
  define d1 where "d1 = (if ClientSide (wstate w) then d else wdest w)"
  define raw1 where "raw1 = (if ClientSide (wstate w) then put_at (offset w) (Cipher p m 0) (raw w) else raw w)"
  have fit: "offset w + wn w \<le> length (raw w)"
    using w unfolding wok_def Size_def by linarith
  then have lp: "length p = wn w" "offset w + wn w \<le> length (raw w)"
    by (simp_all add: p_def buffered_data_def)
  have raw1: "length raw1 = length (raw w)" "take (wn w) (drop (offset w) raw1) = Payload f"
    "take (offset w) raw1 = take (offset w) (raw w)"
    using lp by (simp_all add: raw1_def f_def out_frame_def put_at_fits p_def buffered_data_def)
  have hs: "HeaderSize (Header f) \<le> int (offset w)"
  proof -
    have len: "sint (Length (Header f)) = int (length p)"
      using lp w by (simp add: f_def out_frame_def sint_of_nat_small wok_def)
    have "int (length p) \<le> int (length (raw w)) - reserve (wstate w) (int (length (raw w)))"
      using w lp by (simp add: wok_def)
    then have "HeaderSize (Header f) \<le> reserve (wstate w) (int (length (raw w)))"
      using w by (intro header_fits [OF len]) (simp_all add: wok_def f_def out_frame_def)
    then show ?thesis using w by (simp add: wok_def)
  qed
  define hb where "hb = the (header_bytes (Header f))"
  have lhb: "HeaderSize (Header f) = int (length hb)"
    using HeaderSize_bytes [of "Header f"] by (simp add: hb_def header_bytes_eq)
  define skip where "skip = offset w - length hb"
  have sk: "skip + length hb = offset w" "nat (int (offset w) - HeaderSize (Header f)) = skip"
    "\<not> int (offset w) - HeaderSize (Header f) < 0"
    using hs lhb by (simp_all add: skip_def)
  obtain b where b: "WriteHeader bytesWriter_Write (Header f)
        \<lparr>bbuf = take (offset w - skip) (drop skip raw1), bpos = 0\<rparr> = Some (None, b)" "bbuf b = hb"
    using bytesWriter_header [of "take (offset w - skip) (drop skip raw1)" "Header f"] sk lp lhb raw1
    by (auto simp: hb_def)
  define raw2 where "raw2 = put_at skip hb raw1"
  have slice: "take (offset w + wn w - skip) (drop skip raw2) = frame_bytes f"
  proof -
    have "raw2 = take skip raw1 @ hb @ drop (offset w) raw1"
      using sk lp raw1 by (simp add: raw2_def put_at_fits)
    moreover have "length (take skip raw1) = skip" using sk lp raw1 by simp
    moreover have "offset w + wn w - skip = length hb + wn w" using sk by simp
    ultimately have "take (offset w + wn w - skip) (drop skip raw2) = hb @ take (wn w) (drop (offset w) raw1)"
      by simp
    then show ?thesis by (simp add: raw1 frame_bytes_def hb_def)
  qed
  obtain n e d' k where cw: "conn_write (frame_bytes f) d1 = Some (n, e, d')"
      "conn_out d' = conn_out d1 @ take k (frame_bytes f)" "e = None \<longrightarrow> conn_out d' = conn_out d1 @ frame_bytes f"
      "faults d1 = [] \<longrightarrow> e = None \<and> faults d' = []"
    using conn_write_out by blast
  have co: "conn_out d1 = conn_out (wdest w)" "faults d1 = faults (wdest w)"
    using NewMask_out [OF md] by (simp_all add: d1_def)
  have h: "zero_header\<lparr>OpCode := opCode_of w, Fin := fin, Length := of_nat (length p),
      Masked := True, Mask := m\<rparr> = Header f" if "ClientSide (wstate w)"
    using that by (simp add: f_def out_frame_def zero_header_def)
  have h': "zero_header\<lparr>OpCode := opCode_of w, Fin := fin, Length := of_nat (length p)\<rparr> = Header f"
    if "\<not> ClientSide (wstate w)"
    using that by (simp add: f_def out_frame_def zero_header_def)
  have "flushFragment fin w = Some (e, w\<lparr>wdest := d', raw := raw2\<rparr>)"
  proof (cases "ClientSide (wstate w)")
    case True
    have r: "put_at (offset w) (Cipher p m 0) (raw w) = raw1" using True by (simp add: raw1_def)
    have d1: "d = d1" using True by (simp add: d1_def)
    show ?thesis
      unfolding flushFragment_def Let_def buffered_data_def [symmetric] p_def [symmetric] x apply_bits.simps
        prod.case option.case
      using True sk b cw(1) h md slice
      by (simp add: r d1 raw2_def [symmetric] split del: if_split)
  next
    case False
    have r: "raw w = raw1" and d1: "wdest w = d1" using False by (simp_all add: raw1_def d1_def)
    show ?thesis
      unfolding flushFragment_def Let_def buffered_data_def [symmetric] p_def [symmetric] x apply_bits.simps
        prod.case option.case
      using False sk b cw(1) h' slice r d1
      by (simp add: raw2_def [symmetric] split del: if_split)
  qed
  moreover have "length raw2 = length (raw w)" by (simp add: raw2_def raw1)
  ultimately show ?thesis
    using cw(2-4) co
    by (intro exI [of _ e] exI [of _ "w\<lparr>wdest := d', raw := raw2\<rparr>"] exI [of _ m] exI [of _ k])
      (simp add: f_def p_def)
qed

section \<open>Growing\<close>

lemma reserve_bounds: "2 \<le> reserve st n \<and> reserve st n \<le> 14"
  by (simp add: reserve_def Let_def)

lemma reserve_mono: "m \<le> n \<Longrightarrow> reserve st m \<le> reserve st n"
  by (auto simp: reserve_def Let_def len_defs)

text \<open>
  The loop of \<open>Grow\<close> ends: it only goes on when the new size made the reserved bytes more,
  which can happen twice at most.
\<close>

lemma grow_loop_ok:
  "nx = reserve st sz \<Longrightarrow> 0 \<le> b \<Longrightarrow> 0 \<le> n \<Longrightarrow> b + n < 2 ^ 46 \<Longrightarrow> sz < 2 ^ 60 \<Longrightarrow>
     \<exists>sz' nx'. grow_loop st b n sz nx = Some (sz', nx') \<and> n \<le> sz' - nx' - b \<and> sz \<le> sz' \<and>
       nx' = reserve st sz' \<and> (sz' = sz \<or> sz' \<le> maxAlloc)"
proof (induction "nat (14 - nx)" arbitrary: sz nx rule: less_induct)
  case less
  show ?case
  proof (cases "sz - nx - b < n")
    case False
    with less.prems show ?thesis by (subst grow_loop.simps) simp
  next
    case True
    define x where "x = nx + b + n"
    have nx: "2 \<le> nx" "nx \<le> 14" using reserve_bounds less.prems(1) by simp_all
    have x: "0 < x" "x < 2 ^ 47" "sz < x" using nx less.prems(2-4) True by (simp_all add: x_def)
    then have "x < 2 ^ 62" by simp
    with x obtain t where t: "sint (ceilPowerOfTwo (of_int x)) = 2 ^ t" "x < 2 ^ t" "2 ^ t \<le> 2 * x"
      using ceilPowerOfTwo_power by blast
    have st: "grow_loop st b n sz nx = grow_loop st b n (2 ^ t) (reserve st (2 ^ t))"
      using True t(1) by (subst grow_loop.simps) (simp add: Let_def x_def)
    have sz': "2 ^ t < (2 :: int) ^ 60" "2 ^ t \<le> maxAlloc" using t(3) x(2) by (simp_all add: maxAlloc_def)
    have mono: "nx \<le> reserve st (2 ^ t)" using reserve_mono [of sz "2 ^ t"] less.prems(1) x(3) t(2) by simp
    show ?thesis
    proof (cases "2 ^ t - reserve st (2 ^ t) - b < n")
      case False
      then show ?thesis
        unfolding st using sz' x(3) t(2) by (subst grow_loop.simps) simp
    next
      case True
      then have "nx < reserve st (2 ^ t)" using t(2) by (simp add: x_def)
      then have "nat (14 - reserve st (2 ^ t)) < nat (14 - nx)"
        using reserve_bounds [of st "2 ^ t"] by simp
      from less.hyps [OF this refl less.prems(2-4) sz'(1)] show ?thesis
        unfolding st using x(3) t(2) sz'(2) by auto
    qed
  qed
qed

lemma Grow_ok:
  assumes w: "wok w" and n: "wn w + n < 2 ^ 46" and pos: "0 < n"
  shows "\<exists>w'. Grow n w = Some w' \<and> wok w' \<and> n \<le> Available w' \<and> buffered_data w' = buffered_data w \<and>
    w' = w\<lparr>raw := raw w', offset := offset w'\<rparr>"
proof -
  have o: "int (offset w) = reserve (wstate w) (int (length (raw w)))" "length (raw w) < 2 ^ 60"
    using w by (simp_all add: wok_def)
  have fit: "offset w + wn w \<le> length (raw w)" using w unfolding wok_def Size_def by linarith
  obtain sz nx where g: "grow_loop (wstate w) (int (wn w)) (int n) (int (length (raw w))) (int (offset w)) = Some (sz, nx)"
      "int n \<le> sz - nx - int (wn w)" "int (length (raw w)) \<le> sz" "nx = reserve (wstate w) sz" "sz = int (length (raw w)) \<or> sz \<le> maxAlloc"
    using grow_loop_ok [OF o(1), of "int (wn w)" "int n"] n o(2) by auto
  have nx: "int (offset w) \<le> nx" using reserve_mono [OF g(3), of "wstate w"] g(4) o(1) by simp
  show ?thesis
  proof (cases "sz = int (length (raw w))")
    case True
    with g nx o have "Grow n w = Some w" "n \<le> Available w"
      by (simp_all add: Grow_def Buffered_def Available_def Size_def)
    with w show ?thesis by auto
  next
    case False
    define raw' where "raw' = put_at (nat nx - offset w) (take (offset w + wn w) (raw w)) (replicate (nat sz) 0)"
    let ?w = "w\<lparr>raw := raw', offset := nat nx\<rparr>"
    have fits: "nat nx - offset w + (offset w + wn w) \<le> nat sz" "offset w \<le> nat nx"
      using g(2) nx by linarith+
    have r: "raw' = replicate (nat nx - offset w) 0 @ take (offset w + wn w) (raw w) @
        replicate (nat sz - (nat nx + wn w)) 0"
      using fits fit by (simp add: raw'_def put_at_fits min_def)
    have "drop (nat nx) raw' = drop (offset w) (take (offset w + wn w) (raw w)) @ replicate (nat sz - (nat nx + wn w)) 0"
      using fits fit unfolding r by simp
    then have b: "buffered_data ?w = buffered_data w"
      using fit by (simp add: buffered_data_def drop_take)
    have l: "length raw' = nat sz" by (simp add: raw'_def)
    have big: "sz \<le> maxAlloc" "sz < 2 ^ 60" using g(5) False by (simp_all add: maxAlloc_def)
    have "make_bytes sz = Some (replicate (nat sz) 0)" using g(3) big(1) by (simp add: make_bytes_def)
    then have "Grow n w = Some ?w"
      using g nx False by (simp add: Grow_def Buffered_def raw'_def)
    moreover have "wok ?w"
      using g big nx l fits pos reserve_bounds [of "wstate w" sz] unfolding wok_def Size_def by simp linarith
    moreover have "n \<le> Available ?w"
      using g(2) nx l by (simp add: Available_def Size_def)
    ultimately show ?thesis using b by auto
  qed
qed

section \<open>Buffering and fragments\<close>

lemma fill_ok:
  assumes "wok w"
  shows "wok (fill p w)" and "buffered_data (fill p w) = buffered_data w @ take (Available w) p"
    and "copy_len (offset w + wn w) p (raw w) = min (Available w) (length p)"
    and "fill p w = w\<lparr>raw := raw (fill p w), wn := wn (fill p w)\<rparr>"
    and "wn (fill p w) = wn w + min (Available w) (length p)"
proof -
  have fit: "offset w + wn w \<le> length (raw w)" using assms unfolding wok_def Size_def by linarith
  show c: "copy_len (offset w + wn w) p (raw w) = min (Available w) (length p)"
    by (simp add: copy_len_def Available_def Size_def)
  then show "wn (fill p w) = wn w + min (Available w) (length p)" by (simp add: fill_def)
  show "wok (fill p w)"
    using assms c fit by (simp add: wok_def fill_def Size_def Available_def)
  show "fill p w = w\<lparr>raw := raw (fill p w), wn := wn (fill p w)\<rparr>" by (simp add: fill_def)
  let ?k = "min (Available w) (length p)"
  have k: "offset w + wn w + ?k \<le> length (raw w)" using fit by (simp add: Available_def Size_def)
  have r: "raw (fill p w) = take (offset w + wn w) (raw w) @ take ?k p @ drop (offset w + wn w + ?k) (raw w)"
    by (simp add: fill_def put_at_def c)
  have "drop (offset w) (raw (fill p w)) =
      take (wn w) (drop (offset w) (raw w)) @ take ?k p @ drop (offset w + wn w + ?k) (raw w)"
    using fit unfolding r by (simp add: drop_take)
  moreover have "length (take (wn w) (drop (offset w) (raw w))) = wn w" using fit by simp
  moreover have "length (take ?k p) = ?k" "take (Available w) p = take ?k p"
    by (cases "Available w \<le> length p"; simp)+
  moreover have "wn (fill p w) = wn w + ?k" "offset (fill p w) = offset w" by (simp_all add: fill_def c)
  ultimately show "buffered_data (fill p w) = buffered_data w @ take (Available w) p"
    unfolding buffered_data_def by (simp del: length_take take_take)
qed

text \<open>The fragments sent so far: none final, the first with the operation code of the message.\<close>

definition is_frag :: "byte \<Rightarrow> byte \<Rightarrow> frame \<Rightarrow> bool" where
  "is_frag st op f \<longleftrightarrow> (\<exists>m p. length p < 2 ^ 63 \<and> f = out_frame st op False m p)"

definition frags :: "byte \<Rightarrow> byte \<Rightarrow> frame list \<Rightarrow> bool" where
  "frags st op fs \<longleftrightarrow> (\<forall>i<length fs. is_frag st (if i = 0 then op else OpContinuation) (fs ! i))"

lemma is_frag_out: "length p < 2 ^ 63 \<Longrightarrow> is_frag st op (out_frame st op False m p)"
  unfolding is_frag_def by blast

lemma frags_snoc:
  "frags st op (fs @ [f]) \<longleftrightarrow>
     frags st op fs \<and> is_frag st (if fs = [] then op else OpContinuation) f"
  by (auto simp: frags_def nth_append less_Suc_eq)

lemma wire_append [simp]: "wire (fs @ gs) = wire fs @ wire gs"
  by (simp add: wire_def)

text \<open>
  \<open>sending out0 pl w\<close>: since the destination had \<open>out0\<close>, the writer has taken the data
  \<open>pl\<close> of its message, partly sent in fragments, the rest in its buffer.
\<close>

definition sending :: "byte list \<Rightarrow> byte list \<Rightarrow> Writer \<Rightarrow> bool" where
  "sending out0 pl w \<longleftrightarrow> wok w \<and> extensions w = [] \<and> werr w = None \<and>
     (\<exists>fs. frags (wstate w) (wop w) fs \<and> fseq w = length fs \<and>
       conn_out (wdest w) = out0 @ wire fs \<and> pl = concat (map plain fs) @ buffered_data w)"

text \<open>
  What no operation of the message changes; over a connection without faults, none of them
  fails.
\<close>

definition same_writer :: "Writer \<Rightarrow> Writer \<Rightarrow> bool" where
  "same_writer w w' \<longleftrightarrow> wop w' = wop w \<and> wstate w' = wstate w \<and> noFlush w' = noFlush w \<and>
     extensions w' = extensions w \<and>
     (faults (wdest w) = [] \<and> werr w = None \<longrightarrow> faults (wdest w') = [] \<and> werr w' = None)"

lemma same_writer_trans [trans]: "same_writer a b \<Longrightarrow> same_writer b c \<Longrightarrow> same_writer a c"
  by (simp add: same_writer_def)

lemma wok_cong: "wok w \<Longrightarrow> length (raw w') = length (raw w) \<Longrightarrow> offset w' = offset w \<Longrightarrow>
    wstate w' = wstate w \<Longrightarrow> wn w' \<le> Size w' \<Longrightarrow> wok w'"
  by (simp add: wok_def)

lemma wok_length: "wok w \<Longrightarrow> length (buffered_data w) = wn w \<and> wn w < 2 ^ 60"
  unfolding buffered_data_def wok_def Size_def by simp linarith

lemma FlushFragment_sending:
  assumes s: "sending out0 pl w"
  shows "\<exists>e w'. FlushFragment w = Some (e, w') \<and> werr w' = e \<and> same_writer w w' \<and> dirty w' = dirty w \<and>
    (e = None \<longrightarrow> sending out0 pl w' \<and> Buffered w' = 0 \<and> Size w' = Size w)"
proof (cases "Buffered w = 0")
  case True
  with s show ?thesis by (simp add: FlushFragment_def sending_def same_writer_def)
next
  case False
  obtain fs where fs: "frags (wstate w) (wop w) fs" "fseq w = length fs"
      "conn_out (wdest w) = out0 @ wire fs" "pl = concat (map plain fs) @ buffered_data w"
      and w: "wok w" "extensions w = []" "werr w = None"
    using s by (auto simp: sending_def)
  obtain e w' m k where f: "flushFragment False w = Some (e, w')" "length (raw w') = length (raw w)"
      "e = None \<longrightarrow> conn_out (wdest w') = conn_out (wdest w) @
        frame_bytes (out_frame (wstate w) (opCode_of w) False m (buffered_data w))"
      "w' = w\<lparr>wdest := wdest w', raw := raw w'\<rparr>"
      "faults (wdest w) = [] \<longrightarrow> e = None \<and> faults (wdest w') = []"
    using flushFragment_sends [OF w(1,2), of False] by blast
  let ?w = "w'\<lparr>werr := e, wn := 0, fseq := fseq w' + 1\<rparr>"
  let ?f = "out_frame (wstate w) (opCode_of w) False m (buffered_data w)"
  have eq: "wop w' = wop w" "wstate w' = wstate w" "noFlush w' = noFlush w" "extensions w' = extensions w"
    "fseq w' = fseq w" "offset w' = offset w" "dirty w' = dirty w"
    by (subst f(4), simp)+
  have ff: "FlushFragment w = Some (e, ?w)"
    using False w(3) f(1) by (simp add: FlushFragment_def)
  have "sending out0 pl ?w" if "e = None"
    unfolding sending_def
  proof (intro conjI exI [of _ "fs @ [?f]"])
    show "wok ?w" using wok_cong [OF w(1), of ?w] f(2) eq by simp
    have "opCode_of w = (if fs = [] then wop w else OpContinuation)"
      using fs(2) by (simp add: opCode_of_def)
    moreover have "length (buffered_data w) < 2 ^ 63" using wok_length [OF w(1)] by simp
    ultimately show "frags (wstate ?w) (wop ?w) (fs @ [?f])"
      using fs(1) unfolding frags_snoc by (auto simp: eq is_frag_out)
    show "pl = concat (map plain (fs @ [?f])) @ buffered_data ?w"
      using fs(4) by (simp add: out_frame_plain buffered_data_def)
    show "conn_out (wdest ?w) = out0 @ wire (fs @ [?f])"
      using f(3) fs(3) that by simp
  qed (use w eq fs that in simp_all)
  with ff eq f(2,5) show ?thesis by (simp add: same_writer_def Buffered_def Size_def)
qed

lemma WriteThrough_sending:
  assumes s: "sending out0 pl w" and b: "Buffered w = 0" and p: "length p < 2 ^ 63"
  shows "\<exists>n e w'. WriteThrough p w = Some (n, e, w') \<and> werr w' = e \<and> same_writer w w' \<and> dirty w' \<and>
    n \<le> length p \<and>
    (e = None \<longrightarrow> n = length p \<and> sending out0 (pl @ p) w' \<and> Buffered w' = 0 \<and> Size w' = Size w)"
proof -
  obtain fs where fs: "frags (wstate w) (wop w) fs" "fseq w = length fs"
      "conn_out (wdest w) = out0 @ wire fs" "pl = concat (map plain fs) @ buffered_data w"
      and w: "wok w" "extensions w = []" "werr w = None"
    using s by (auto simp: sending_def)
  obtain m d where md: "NewMask (wdest w) = (m, d)" by (cases "NewMask (wdest w)")
  let ?f = "out_frame (wstate w) (opCode_of w) False m p"
  define d1 where "d1 = (if ClientSide (wstate w) then d else wdest w)"
  have co: "conn_out d1 = conn_out (wdest w)" "faults d1 = faults (wdest w)"
    using NewMask_out [OF md] by (simp_all add: d1_def)
  obtain e d2 where wf: "WriteFrame conn_write ?f d1 = Some (e, d2)"
      "e = None \<longrightarrow> conn_out d2 = conn_out d1 @ frame_bytes ?f" "faults d1 = [] \<longrightarrow> e = None \<and> faults d2 = []"
    using WriteFrame_delivers [of ?f d1] by (auto simp: delivers_def)
  let ?w = "w\<lparr>werr := e, wdest := d2, dirty := True, fseq := fseq w + 1\<rparr>"
  have wt: "WriteThrough p w = Some (if e = None then length p else 0, e, ?w)"
  proof (cases "ClientSide (wstate w)")
    case True
    then have "?f = MaskFrameInPlaceWith \<lparr>Header = zero_header\<lparr>OpCode := opCode_of w, Fin := False,
        Length := of_nat (length p)\<rparr>, Payload = p\<rparr> m"
      by (simp add: out_frame_def MaskFrameInPlaceWith_def zero_header_def)
    with True wf(1) md w b show ?thesis
      by (simp add: WriteThrough_def Let_def MaskFrameInPlace_def d1_def)
  next
    case False
    then have "?f = \<lparr>Header = zero_header\<lparr>OpCode := opCode_of w, Fin := False,
        Length := of_nat (length p)\<rparr>, Payload = p\<rparr>"
      by (simp add: out_frame_def zero_header_def)
    with False wf(1) w b show ?thesis
      by (simp add: WriteThrough_def Let_def d1_def)
  qed
  have nb: "buffered_data w = []" using b by (simp add: buffered_data_def Buffered_def)
  have "sending out0 (pl @ p) ?w" if "e = None"
    unfolding sending_def
  proof (intro conjI exI [of _ "fs @ [?f]"])
    show "wok ?w" using w(1) by (simp add: wok_def Size_def)
    have "opCode_of w = (if fs = [] then wop w else OpContinuation)"
      using fs(2) by (simp add: opCode_of_def)
    with p show "frags (wstate ?w) (wop ?w) (fs @ [?f])"
      using fs(1) unfolding frags_snoc by (auto simp: is_frag_out)
    have "buffered_data ?w = buffered_data w" by (simp add: buffered_data_def)
    then show "pl @ p = concat (map plain (fs @ [?f])) @ buffered_data ?w"
      using fs(4) nb by (simp add: out_frame_plain)
    show "conn_out (wdest ?w) = out0 @ wire (fs @ [?f])"
      using wf(2) fs(3) co that by simp
  qed (use w fs that in simp_all)
  with wt b wf(3) co(2) show ?thesis by (simp add: same_writer_def Buffered_def Size_def)
qed

section \<open>Writing and flushing a message\<close>

lemma sending_dirty [simp]: "sending out0 pl (w\<lparr>dirty := b\<rparr>) = sending out0 pl w"
  by (simp add: sending_def wok_def Size_def buffered_data_def)

lemma fill_sending:
  assumes s: "sending out0 pl w"
  shows "sending out0 (pl @ take (Available w) p) (fill p w) \<and> same_writer w (fill p w) \<and>
    werr (fill p w) = None \<and> dirty (fill p w) = dirty w \<and> Size (fill p w) = Size w"
proof -
  have w: "wok w" using s by (simp add: sending_def)
  have eq: "wop (fill p w) = wop w" "wstate (fill p w) = wstate w" "noFlush (fill p w) = noFlush w"
    "extensions (fill p w) = extensions w" "werr (fill p w) = werr w" "fseq (fill p w) = fseq w"
    "wdest (fill p w) = wdest w" "dirty (fill p w) = dirty w" "offset (fill p w) = offset w"
    "length (raw (fill p w)) = length (raw w)"
    by (simp_all add: fill_def)
  with s fill_ok [OF w, of p] show ?thesis
    by (auto simp: sending_def same_writer_def Size_def)
qed

lemma Grow_sending:
  assumes s: "sending out0 pl w" and n: "wn w + n < 2 ^ 46" "0 < n"
  shows "\<exists>w'. Grow n w = Some w' \<and> sending out0 pl w' \<and> n \<le> Available w' \<and> same_writer w w' \<and>
    dirty w' = dirty w"
proof -
  have w: "wok w" using s by (simp add: sending_def)
  obtain w' where g: "Grow n w = Some w'" "wok w'" "n \<le> Available w'" "buffered_data w' = buffered_data w"
      "w' = w\<lparr>raw := raw w', offset := offset w'\<rparr>"
    using Grow_ok [OF w n] by blast
  have eq: "wop w' = wop w" "wstate w' = wstate w" "noFlush w' = noFlush w" "extensions w' = extensions w"
    "fseq w' = fseq w" "dirty w' = dirty w" "werr w' = werr w" "wdest w' = wdest w"
    by (subst g(5), simp)+
  with s g show ?thesis by (auto simp: sending_def same_writer_def)
qed

text \<open>
  The loop of \<open>Write\<close> ends with room for what is left, or with the error of a flush. It
  grows at most once, or flushes at most once and then writes through at most once.
\<close>

definition loop_result :: "byte list \<Rightarrow> byte list \<Rightarrow> Writer \<Rightarrow> byte list \<Rightarrow> nat \<Rightarrow> (byte list \<times> nat \<times> Writer) option \<Rightarrow> bool" where
  "loop_result out0 pl w p n r \<longleftrightarrow> (\<exists>k w'. r = Some (drop k p, n + k, w') \<and> k \<le> length p \<and> same_writer w w' \<and>
     dirty w' \<and>
     (werr w' = None \<longrightarrow> sending out0 (pl @ take k p) w' \<and> length (drop k p) \<le> Available w'))"

lemma write_loop_stop:
  assumes "sending out0 pl w \<or> werr w \<noteq> None" and "length p \<le> Available w \<or> werr w \<noteq> None" and "dirty w"
  shows "loop_result out0 pl w p n (write_loop p n w)"
proof -
  have "write_loop p n w = Some (drop 0 p, n + 0, w)"
    using assms(2) by (subst write_loop.simps) auto
  with assms show ?thesis unfolding loop_result_def
    by (intro exI [of _ 0] exI [of _ w]) (auto simp: same_writer_def)
qed

lemma loop_result_step:
  assumes r: "loop_result out0 (pl @ take nn p) w1 (drop nn p) (n + nn) r" and sw: "same_writer w w1"
    and nn: "nn \<le> length p"
  shows "loop_result out0 pl w p n r"
proof -
  from r obtain k w2 where k: "r = Some (drop k (drop nn p), n + nn + k, w2) \<and> k \<le> length (drop nn p) \<and>
      same_writer w1 w2 \<and> dirty w2 \<and>
      (werr w2 = None \<longrightarrow> sending out0 ((pl @ take nn p) @ take k (drop nn p)) w2 \<and>
        length (drop k (drop nn p)) \<le> Available w2)"
    unfolding loop_result_def by (elim exE) (rule that)
  have tk: "(pl @ take nn p) @ take k (drop nn p) = pl @ take (nn + k) p" by (simp add: take_add)
  have dk: "drop k (drop nn p) = drop (nn + k) p" by (simp add: add.commute)
  show ?thesis
    unfolding loop_result_def
    using k nn same_writer_trans [OF sw, of w2] unfolding tk dk
    by (intro exI [of _ "nn + k"] exI [of _ w2]) (auto simp: add.assoc)
qed

lemma write_loop_through:
  assumes s: "sending out0 pl w" and b: "Buffered w = 0" "dirty w" "\<not> noFlush w" and p: "length p < 2 ^ 63"
  shows "loop_result out0 pl w p n (write_loop p n w)"
proof (cases "length p \<le> Available w")
  case True
  then show ?thesis using write_loop_stop s b by blast
next
  case False
  obtain nn e w1 where t: "WriteThrough p w = Some (nn, e, w1)" "werr w1 = e" "same_writer w w1" "dirty w1"
      "e = None \<longrightarrow> nn = length p \<and> sending out0 (pl @ p) w1"
      "nn \<le> length p"
    using WriteThrough_sending [OF s b(1) p] by auto
  have werr: "werr w = None" using s by (simp add: sending_def)
  have st: "write_loop p n w = write_loop (drop nn p) (n + nn) w1"
    using False werr b t(1) by (subst write_loop.simps) simp
  have "loop_result out0 (pl @ take nn p) w1 (drop nn p) (n + nn) (write_loop (drop nn p) (n + nn) w1)"
    using t by (intro write_loop_stop) auto
  then show ?thesis unfolding st by (rule loop_result_step [OF _ t(3,6)])
qed

lemma write_loop_result:
  assumes s: "sending out0 pl w" and d: "dirty w" and p: "length p < 2 ^ 63"
    and grow: "noFlush w \<Longrightarrow> wn w + length p < 2 ^ 46"
  shows "loop_result out0 pl w p n (write_loop p n w)"
proof (cases "length p \<le> Available w")
  case True
  then show ?thesis using write_loop_stop s d by blast
next
  case False
  have werr: "werr w = None" and w: "wok w" using s by (simp_all add: sending_def)
  have p0: "0 < length p" "length p < 2 ^ 63" using False p by auto
  consider (G) "noFlush w" | (B) "\<not> noFlush w" "Buffered w = 0" | (F) "\<not> noFlush w" "Buffered w \<noteq> 0" by blast
  then show ?thesis
  proof cases
    case G
    obtain w1 where g: "Grow (length p) w = Some w1" "sending out0 pl w1" "length p \<le> Available w1"
        "same_writer w w1" "dirty w1"
      using Grow_sending [OF s grow [OF G] p0(1)] d by auto
    have "write_loop p n w = write_loop p n w1"
      using False werr G g(1) by (subst write_loop.simps) simp
    moreover have "loop_result out0 pl w1 p n (write_loop p n w1)"
      using g write_loop_stop by blast
    ultimately show ?thesis
      by (intro loop_result_step [of out0 pl 0 p w1, OF _ g(4)]) simp_all
  next
    case B
    then show ?thesis using write_loop_through [OF s] d p0 by blast
  next
    case F
    let ?nn = "copy_len (offset w + wn w) p (raw w)"
    have nn: "?nn = Available w" "?nn \<le> length p"
      using fill_ok(3) [OF w, of p] False by simp_all
    note f = fill_sending [OF s, of p]
    from FlushFragment_sending [OF conjunct1 [OF f]]
    obtain e w1 where ff0: "FlushFragment (fill p w) = Some (e, w1) \<and> werr w1 = e \<and>
        same_writer (fill p w) w1 \<and> dirty w1 = dirty (fill p w) \<and>
        (e = None \<longrightarrow> sending out0 (pl @ take (Available w) p) w1 \<and> Buffered w1 = 0 \<and>
          Size w1 = Size (fill p w))"
      by (elim exE) (rule that)
    then have ff: "FlushFragment (fill p w) = Some (e, w1)" "werr w1 = e" "same_writer (fill p w) w1"
        "dirty w1 = dirty (fill p w)"
        "e = None \<longrightarrow> sending out0 (pl @ take (Available w) p) w1 \<and> Buffered w1 = 0"
      by simp_all
    have sw: "same_writer w w1"
      by (rule same_writer_trans [OF _ ff(3)]) (use f in simp)
    have st: "write_loop p n w = write_loop (drop ?nn p) (n + ?nn) w1"
      using False werr F ff(1) by (subst write_loop.simps) (simp add: Let_def)
    have "loop_result out0 (pl @ take ?nn p) w1 (drop ?nn p) (n + ?nn) (write_loop (drop ?nn p) (n + ?nn) w1)"
    proof (cases e)
      case (Some er)
      then have "werr w1 \<noteq> None" "dirty w1" using ff(2,4) f d by simp_all
      then show ?thesis by (intro write_loop_stop) simp_all
    next
      case None
      then have "sending out0 (pl @ take ?nn p) w1" "Buffered w1 = 0" using ff(5) by (simp_all add: nn(1))
      then show ?thesis
        using write_loop_through [of out0 "pl @ take ?nn p" w1 "drop ?nn p" "n + ?nn"] ff(4) f d F sw p0
        by (simp add: same_writer_def)
    qed
    then show ?thesis unfolding st by (rule loop_result_step [OF _ sw nn(2)])
  qed
qed

lemma Write_sending:
  assumes s: "sending out0 pl w" and p: "length p < 2 ^ 63"
    and grow: "noFlush w \<Longrightarrow> wn w + length p < 2 ^ 46"
  shows "\<exists>n e w'. Writer_Write p w = Some (n, e, w') \<and> same_writer w w' \<and> dirty w' \<and> werr w' = e \<and>
    (e = None \<longrightarrow> n = length p \<and> sending out0 (pl @ p) w')"
proof -
  have "loop_result out0 pl (w\<lparr>dirty := True\<rparr>) p 0 (write_loop p 0 (w\<lparr>dirty := True\<rparr>))"
    by (rule write_loop_result) (use s p grow in simp_all)
  then obtain k w1 where k: "write_loop p 0 (w\<lparr>dirty := True\<rparr>) = Some (drop k p, k, w1)" "k \<le> length p"
      "same_writer (w\<lparr>dirty := True\<rparr>) w1" "dirty w1"
      "werr w1 = None \<longrightarrow> sending out0 (pl @ take k p) w1 \<and> length (drop k p) \<le> Available w1"
    unfolding loop_result_def by auto
  have sw: "same_writer w w1" using k(3) by (simp add: same_writer_def)
  show ?thesis
  proof (cases "werr w1")
    case (Some e)
    with k sw show ?thesis by (simp add: Writer_Write_def)
  next
    case None
    then have s1: "sending out0 (pl @ take k p) w1" "length (drop k p) \<le> Available w1" using k(5) by auto
    note f = fill_sending [OF s1(1), of "drop k p"]
    have c: "copy_len (offset w1 + wn w1) (drop k p) (raw w1) = length p - k"
      using fill_ok(3) [of w1 "drop k p"] s1 by (simp add: sending_def)
    have "sending out0 (pl @ p) (fill (drop k p) w1)"
      using f s1(2) by (simp add: take_all)
    with None k sw c f same_writer_trans [OF sw] show ?thesis
      by (simp add: Writer_Write_def)
  qed
qed

text \<open>The frames of a whole message: fragments and a final frame.\<close>

definition whole :: "byte \<Rightarrow> byte \<Rightarrow> frame list \<Rightarrow> byte list \<Rightarrow> bool" where
  "whole st op fs pl \<longleftrightarrow> (\<exists>gs m p. fs = gs @ [out_frame st (if gs = [] then op else OpContinuation) True m p] \<and>
     frags st op gs \<and> length p < 2 ^ 63 \<and> pl = concat (map plain gs) @ p)"

lemma Flush_sending:
  assumes s: "sending out0 pl w" and d: "dirty w \<or> Buffered w \<noteq> 0"
  shows "\<exists>e w'. Flush w = Some (e, w') \<and> same_writer w w' \<and> werr w' = e \<and>
    (e = None \<longrightarrow> (\<exists>fs. whole (wstate w) (wop w) fs pl \<and> conn_out (wdest w') = out0 @ wire fs \<and>
       sending (out0 @ wire fs) [] w'))"
proof -
  obtain fs where fs: "frags (wstate w) (wop w) fs" "fseq w = length fs"
      "conn_out (wdest w) = out0 @ wire fs" "pl = concat (map plain fs) @ buffered_data w"
      and w: "wok w" "extensions w = []" "werr w = None"
    using s by (auto simp: sending_def)
  obtain e w' m k where f: "flushFragment True w = Some (e, w')" "length (raw w') = length (raw w)"
      "e = None \<longrightarrow> conn_out (wdest w') = conn_out (wdest w) @
        frame_bytes (out_frame (wstate w) (opCode_of w) True m (buffered_data w))"
      "w' = w\<lparr>wdest := wdest w', raw := raw w'\<rparr>"
      "faults (wdest w) = [] \<longrightarrow> e = None \<and> faults (wdest w') = []"
    using flushFragment_sends [OF w(1,2), of True] by blast
  let ?w = "w'\<lparr>werr := e, wn := 0, dirty := False, fseq := 0\<rparr>"
  let ?f = "out_frame (wstate w) (opCode_of w) True m (buffered_data w)"
  have eq: "wop w' = wop w" "wstate w' = wstate w" "noFlush w' = noFlush w" "extensions w' = extensions w"
    "fseq w' = fseq w" "offset w' = offset w"
    by (subst f(4), simp)+
  have ff: "Flush w = Some (e, ?w)"
    using d w(3) f(1) by (auto simp: Flush_def)
  have op: "opCode_of w = (if fs = [] then wop w else OpContinuation)"
    using fs(2) by (simp add: opCode_of_def)
  have lb: "length (buffered_data w) < 2 ^ 63" using wok_length [OF w(1)] by simp
  have ok: "wok ?w" using wok_cong [OF w(1), of ?w] f(2) eq by simp
  have wh: "whole (wstate w) (wop w) (fs @ [?f]) pl"
    unfolding whole_def op using fs lb by blast
  have out: "conn_out (wdest ?w) = out0 @ wire (fs @ [?f])" if "e = None"
    using f(3) fs(3) that by simp
  have "sending (out0 @ wire (fs @ [?f])) [] ?w" if "e = None"
    unfolding sending_def
    by (intro conjI exI [of _ "[]"])
      (use ok w eq out that in \<open>simp_all add: frags_def buffered_data_def\<close>)
  with ff eq wh out f(5) show ?thesis by (auto simp: same_writer_def)
qed

section \<open>The peer accepts the message\<close>

text \<open>Sides that fit: a server reads what a client sends, and the other way round.\<close>

definition peers :: "byte \<Rightarrow> byte \<Rightarrow> bool" where
  "peers st st' \<longleftrightarrow> (ServerSide st' \<longrightarrow> ClientSide st) \<and> (ClientSide st' \<longrightarrow> \<not> ClientSide st)"

lemma peers_Set [simp]: "peers st (Set st' StateFragmented) = peers st st'"
  by (simp add: peers_def)

lemma out_frame_sel [simp]:
  "OpCode (Header (out_frame st op fin m p)) = op" "Fin (Header (out_frame st op fin m p)) = fin"
  "Rsv (Header (out_frame st op fin m p)) = 0" "Masked (Header (out_frame st op fin m p)) = ClientSide st"
  by (simp_all add: out_frame_def)

lemma op_less [simp]: "OpContinuation < 16" "OpText < 16" "OpBinary < 16"
  by (simp_all add: op_defs)

lemma not_reserved [simp]:
  "\<not> IsReserved OpContinuation" "\<not> IsReserved OpText" "\<not> IsReserved OpBinary"
  by code_simp+

lemma op_neq [simp]: "OpText \<noteq> OpContinuation" "OpBinary \<noteq> OpContinuation"
  by (simp_all add: op_defs)

lemma out_frame_check:
  assumes "peers st st'" and "if Fragmented st' then op = OpContinuation else op = OpText \<or> op = OpBinary"
  shows "CheckHeader (Header (out_frame st op fin m p)) st' = None"
  using assms by (auto simp: CheckHeader_None peers_def split: if_splits)

lemma tail_ok:
  "(\<forall>g \<in> set gs. is_frag st OpContinuation g) \<Longrightarrow> Fragmented st' \<Longrightarrow> peers st st' \<Longrightarrow>
     sint (MaxFrameSize cf) \<le> 0 \<Longrightarrow> length p < 2 ^ 63 \<Longrightarrow>
     msg_tail cf quiet st' (gs @ [out_frame st OpContinuation True m p]) \<and>
     message_payload (gs @ [out_frame st OpContinuation True m p]) = concat (map plain gs) @ p"
proof (induction gs)
  case Nil
  then show ?case by (simp add: out_frame_wf out_frame_check size_ok_def out_frame_plain)
next
  case (Cons g gs)
  then obtain m' p' where g: "g = out_frame st OpContinuation False m' p'" "length p' < 2 ^ 63"
    by (auto simp: is_frag_def)
  from Cons g show ?case by (simp add: out_frame_wf out_frame_check size_ok_def out_frame_plain)
qed

lemma whole_message:
  assumes w: "whole st op fs pl" and op: "op = OpText \<or> op = OpBinary" and pr: "peers st st'"
    and nf: "\<not> Fragmented st'" and mx: "sint (MaxFrameSize cf) \<le> 0"
  shows "\<exists>f gs. fs = f # gs \<and> message_ok cf quiet st' fs \<and> plain f @ message_payload gs = pl \<and>
    OpCode (Header f) = op"
proof -
  obtain gs m p where fs: "fs = gs @ [out_frame st (if gs = [] then op else OpContinuation) True m p]"
      and gs: "frags st op gs" and p: "length p < 2 ^ 63" and pl: "pl = concat (map plain gs) @ p"
    using w by (auto simp: whole_def)
  show ?thesis
  proof (cases gs)
    case Nil
    with fs p pl op pr nf mx show ?thesis
      by (auto simp: out_frame_wf out_frame_check size_ok_def out_frame_plain)
  next
    case (Cons g gs')
    have "is_frag st op g" using gs by (auto simp: frags_def Cons)
    then obtain m' p' where g: "g = out_frame st op False m' p'" "length p' < 2 ^ 63"
      by (auto simp: is_frag_def)
    have "\<forall>h \<in> set gs'. is_frag st OpContinuation h"
    proof
      fix h assume "h \<in> set gs'"
      then obtain i where "i < length gs'" "gs' ! i = h" by (auto simp: in_set_conv_nth)
      with gs show "is_frag st OpContinuation h" by (auto simp: frags_def Cons dest: spec [of _ "Suc i"])
    qed
    then have "msg_tail cf quiet (Set st' StateFragmented) (gs' @ [out_frame st OpContinuation True m p]) \<and>
        message_payload (gs' @ [out_frame st OpContinuation True m p]) = concat (map plain gs') @ p"
      by (rule tail_ok) (use pr mx p in simp_all)
    with fs g pl op pr nf mx show ?thesis
      by (auto simp: Cons out_frame_wf out_frame_check size_ok_def out_frame_plain)
  qed
qed

section \<open>A message from end to end\<close>

text \<open>A caller that writes pieces until an error.\<close>

fun write_pieces :: "byte list list \<Rightarrow> Writer \<Rightarrow> (err option \<times> Writer) option" where
  "write_pieces [] w = Some (None, w)"
| "write_pieces (p # ps) w =
     (case Writer_Write p w of
        None \<Rightarrow> None
      | Some (n, Some e, w') \<Rightarrow> Some (Some e, w')
      | Some (n, None, w') \<Rightarrow> write_pieces ps w')"

lemma write_pieces_sending:
  "sending out0 pl w \<Longrightarrow> \<not> noFlush w \<Longrightarrow> \<forall>p \<in> set ps. length p < 2 ^ 63 \<Longrightarrow>
     \<exists>e w'. write_pieces ps w = Some (e, w') \<and> same_writer w w' \<and> werr w' = e \<and> (ps \<noteq> [] \<or> dirty w \<longrightarrow> dirty w') \<and>
       (e = None \<longrightarrow> sending out0 (pl @ concat ps) w')"
proof (induction ps arbitrary: pl w)
  case Nil
  then show ?case by (simp add: same_writer_def sending_def)
next
  case (Cons p ps)
  have "length p < 2 ^ 63" using Cons.prems(3) by simp
  from Write_sending [OF Cons.prems(1) this] Cons.prems(2)
  obtain n e w1 where w1: "Writer_Write p w = Some (n, e, w1)" "same_writer w w1" "dirty w1" "werr w1 = e"
      "e = None \<longrightarrow> sending out0 (pl @ p) w1"
    by auto
  show ?case
  proof (cases e)
    case (Some er)
    with w1 show ?thesis by simp
  next
    case None
    have "\<not> noFlush w1" using w1(2) Cons.prems(2) by (simp add: same_writer_def)
    with Cons.IH [of "pl @ p" w1] w1 None Cons.prems(3) same_writer_trans [OF w1(2)]
    show ?thesis by auto
  qed
qed

lemma NewWriterBuffer_sending:
  assumes "NewWriterBuffer d st op buf = Some w" and "length buf < 2 ^ 60"
  shows "sending (conn_out d) [] w \<and> wstate w = st \<and> wop w = op \<and> \<not> noFlush w \<and> \<not> dirty w \<and> Buffered w = 0 \<and>
    wdest w = d"
proof -
  let ?off = "reserve st (int (length buf))"
  have off: "\<not> int (length buf) \<le> ?off" and w: "w = \<lparr>wdest = d, wop = op, wstate = st, extensions = [],
      noFlush = False, raw = buf, offset = nat ?off, wn = 0, dirty = False, fseq = 0, werr = None\<rparr>"
    using assms(1) by (auto simp: NewWriterBuffer_def initBuf_def Let_def split: if_splits)
  have "wok w"
    using off assms(2) reserve_bounds [of st "int (length buf)"] by (simp add: w wok_def Size_def) linarith
  then show ?thesis
    unfolding sending_def by (auto simp: w frags_def buffered_data_def Buffered_def)
qed

interpretation plain_stream: message_stream conn_read conn_sane conn_fin conn_data conn_end
    "zero_conf :: (rd_event list, 'w) ReaderConf" "\<lambda>_. True" "\<lambda>_. True" "\<lambda>_ w w'. w' = w"
  by unfold_locales (auto simp: zero_conf_def)

lemma message_end_to_end_lemma:
  assumes w: "NewWriterBuffer d st op buf = Some w" "length buf < 2 ^ 60"
    and op: "op = OpText \<or> op = OpBinary"
    and ps: "write_pieces ps w = Some (None, w1)" "ps \<noteq> []" "\<forall>p \<in> set ps. length p < 2 ^ 63"
    and fl: "Flush w1 = Some (None, w2)"
    and pr: "peers st st'" "\<not> Fragmented st'"
    and s: "conn_sane s" "conn_out d @ conn_data s = conn_out (wdest w2)"
    and room: "\<And>k. 0 < room k"
  shows "\<exists>h r bs r2 w'. NextFrame conn_read zero_conf (NewReader s st', ()) = Some (h, None, r, ()) \<and>
    OpCode h = op \<and> io_ReadAll (reader_rd conn_read zero_conf) room (r, ()) = Some (concat ps, None, (r2, w')) \<and>
    conn_data (src r2) = []"
proof -
  note n = NewWriterBuffer_sending [OF w]
  have w1': "same_writer w w1" "dirty w1" "sending (conn_out d) (concat ps) w1"
    using write_pieces_sending [of "conn_out d" "[]" w ps] n ps by simp_all
  obtain fs where fs: "whole (wstate w1) (wop w1) fs (concat ps)" "conn_out (wdest w2) = conn_out d @ wire fs"
    using Flush_sending [OF w1'(3)] w1'(2) fl by auto
  have st: "wstate w1 = st" "wop w1 = op" using w1'(1) n by (simp_all add: same_writer_def)
  have mx: "sint (MaxFrameSize (zero_conf :: (rd_event list, unit) ReaderConf)) \<le> 0" by (simp add: zero_conf_def)
  obtain f gs where f: "fs = f # gs" "message_ok (zero_conf :: (rd_event list, unit) ReaderConf) (\<lambda>_. True) st' fs"
      "plain f @ message_payload gs = concat ps" "OpCode (Header f) = op"
    using whole_message [OF fs(1) [unfolded st] op pr mx] by blast
  have d: "conn_data s = wire (f # gs) @ []" using s(2) fs(2) f(1) by simp
  have ar: "plain_stream.at_rest (NewReader s st') (wire (f # gs) @ [])"
    using s(1) d pr(2) by (simp add: plain_stream.at_rest_def NewReader_def fragmented_def)
  have mo: "message_ok (zero_conf :: (rd_event list, unit) ReaderConf) (\<lambda>_. True) (RState (NewReader s st')) (f # gs)"
    using f(1,2) by (simp add: NewReader_def)
  obtain r1 bs e r2 w2' where r: "NextFrame conn_read zero_conf (NewReader s st', ()) = Some (Header f, None, r1, ())"
      "io_ReadAll (reader_rd conn_read zero_conf) room (r1, ()) = Some (bs, e, (r2, w2'))"
      "if CheckUTF8 (zero_conf :: (rd_event list, unit) ReaderConf) \<and> OpCode (Header f) = OpText \<and>
          \<not> ValidString (plain f @ message_payload gs) then e = Some ErrInvalidUTF8
       else bs = plain f @ message_payload gs \<and> e = None \<and> True \<and>
         answered (\<lambda>_ w w'. w' = w) gs () w2' \<and> plain_stream.at_rest r2 [] \<and>
         RState r2 = RState (NewReader s st') \<and> conn_end (src r2) = conn_end (src (NewReader s st'))"
    using plain_stream.ReadAll_message [where room = room and w = "()", OF plain_stream.at_rest_idle [OF ar] mo room TrueI] by blast
  have "bs = concat ps" "e = None" "conn_data (src r2) = []"
    using r(3) f(3) by (simp_all add: zero_conf_def plain_stream.at_rest_def)
  with r(1,2) f(4) show ?thesis by blast
qed

end
