(* ===== verification/Control.thy ===== *)
theory Control
  imports Sending
begin

text \<open>
  The handler of control frames (msutil/handler.go): it reads the payload of a ping, pong or
  close frame from its source and answers on the connection as RFC 6455 asks. The lemmas
  state the answer for every behaviour of the connection.
\<close>

section \<open>The source of a handler\<close>

text \<open>
  What the handler can see of its source, an \<open>io.Reader\<close>: how to read it, the way it
  writes itself to a \<open>ControlWriter\<close> if it is an \<open>io.WriterTo\<close>, and the remaining count if
  it is an \<open>io.LimitedReader\<close>, after which \<open>io.Copy\<close> sizes its buffer.
\<close>

record 's Src =
  src_rd :: "'s rd"
  src_WriteTo :: "('s \<Rightarrow> ControlWriter \<Rightarrow> (err option \<times> 's \<times> ControlWriter) option) option"
  src_N :: "'s \<Rightarrow> int option"

definition copy_size :: "int option \<Rightarrow> nat" where
  "copy_size N = (case N of None \<Rightarrow> 32768 | Some n \<Rightarrow> if 32768 \<le> n then 32768 else if n < 1 then 1 else nat n)"

text \<open>The three kinds of source the program uses: a frame, the message reader, a byte slice.\<close>

definition frame_src :: "'s rd \<Rightarrow> 's framed Src" where
  "frame_src rd = \<lparr>src_rd = base_read rd, src_WriteTo = None,
     src_N = (\<lambda>(b, N, s). if b = Raw then Some N else None)\<rparr>"

definition reader_src :: "'s rd \<Rightarrow> ('s, 'w) ReaderConf \<Rightarrow> ('s Reader \<times> 'w) Src" where
  "reader_src rd cf = \<lparr>src_rd = reader_rd rd cf, src_WriteTo = None, src_N = (\<lambda>_. None)\<rparr>"

definition bytes_src :: "byte list Src" where
  "bytes_src = \<lparr>src_rd = bytes_read, src_WriteTo = Some (bytes_WriteTo ControlWriter_Write),
     src_N = (\<lambda>_. None)\<rparr>"

section \<open>The handler\<close>

record 's ControlHandler =
  Src :: "'s Src"
  HState :: byte
  DisableSrcCiphering :: bool

text \<open>Whether the source is read through a \<open>CipherReader\<close>.\<close>

definition ciphers :: "'s ControlHandler \<Rightarrow> bool" where
  "ciphers c \<longleftrightarrow> ServerSide (HState c) \<and> \<not> DisableSrcCiphering c"

text \<open>\<open>io.Copy(w, r)\<close> from the source, or the cipher over it, to the control writer.\<close>

definition copy_payload ::
  "'s ControlHandler \<Rightarrow> header \<Rightarrow> 's \<Rightarrow> ControlWriter \<Rightarrow> (err option \<times> 's \<times> ControlWriter) option" where
  "copy_payload c h s w =
     (if ciphers c then do {
        (e, r, w) \<leftarrow> io_Copy None (CipherReader_Read (src_rd (Src c))) ControlWriter_Write
          (copy_size None) (NewCipherReader s (Mask h)) w;
        Some (e, cr_r r, w)
      }
      else io_Copy (src_WriteTo (Src c)) (src_rd (Src c)) ControlWriter_Write
        (copy_size (src_N (Src c) s)) s w)"

text \<open>
  \<open>getlen n\<close> is what the pool of byte slices (\<open>pbytes.GetLen\<close>, a third-party package)
  answers: a slice of length \<open>n\<close> with any contents.
\<close>

definition reply_len :: "'s ControlHandler \<Rightarrow> header \<Rightarrow> int" where
  "reply_len c h = sint (Length h +
     of_int (HeaderSize (zero_header\<lparr>Length := Length h, Masked := ClientSide (HState c)\<rparr>)))"

definition HandlePing ::
  "(int \<Rightarrow> byte list option) \<Rightarrow> 's ControlHandler \<Rightarrow> header \<Rightarrow> 's \<Rightarrow> dest \<Rightarrow> (err option \<times> 's \<times> dest) option" where
  "HandlePing getlen c h s d =
     (if Length h = 0 then do {
        (e, d) \<leftarrow> WriteHeader conn_write
          (zero_header\<lparr>Fin := True, OpCode := OpPong, Masked := ClientSide (HState c)\<rparr>) d;
        Some (e, s, d)
      }
      else do {
        p \<leftarrow> getlen (reply_len c h);
        w \<leftarrow> NewControlWriterBuffer d (HState c) OpPong p;
        (e, s, w) \<leftarrow> copy_payload c h s w;
        (case e of
           Some er \<Rightarrow> Some (Some er, s, wdest (cw w))
         | None \<Rightarrow> do {
             (e, w) \<leftarrow> ControlWriter_Flush w;
             Some (e, s, wdest (cw w))
           })
      })"

text \<open>
  \<open>HandlePong\<close> discards; a \<open>bytes.Reader\<close> hands itself over in one call, with the same
  effect (\<open>bytes_discard\<close> below). \<open>io.CopyBuffer\<close> panics on an empty buffer.
\<close>

definition HandlePong ::
  "(int \<Rightarrow> byte list option) \<Rightarrow> 's ControlHandler \<Rightarrow> header \<Rightarrow> 's \<Rightarrow> dest \<Rightarrow> (err option \<times> 's \<times> dest) option" where
  "HandlePong getlen c h s d =
     (if Length h = 0 then Some (None, s, d)
      else do {
        buf \<leftarrow> getlen (sint (Length h));
        (if buf = [] then None
         else do {
           (e, s) \<leftarrow> io_Discard (src_rd (Src c)) s;
           Some (e, s, d)
         })
      })"

text \<open>
  The result of masking in place is dropped: a client sends the header it had before, with
  the payload it shares with the masked frame.
\<close>

definition closeWithProtocolError :: "byte \<Rightarrow> byte list \<Rightarrow> dest \<Rightarrow> (err option \<times> dest) option" where
  "closeWithProtocolError st reason d = do {
     body \<leftarrow> NewCloseFrameBody StatusProtocolError reason;
     (let f = NewCloseFrame body;
          (f, d) = (if ClientSide st
                    then (let (g, d) = MaskFrameInPlace f d in (f\<lparr>Payload := Payload g\<rparr>, d))
                    else (f, d))
      in WriteFrame conn_write f d)
   }"

definition read_payload ::
  "'s ControlHandler \<Rightarrow> header \<Rightarrow> 's \<Rightarrow> (byte list \<times> err option \<times> 's) option" where
  "read_payload c h s =
     (if ciphers c then do {
        (bs, e, r) \<leftarrow> io_ReadFull (CipherReader_Read (src_rd (Src c))) (nat (sint (Length h)))
          (NewCipherReader s (Mask h));
        Some (bs, e, cr_r r)
      }
      else io_ReadFull (src_rd (Src c)) (nat (sint (Length h))) s)"

definition HandleClose ::
  "(int \<Rightarrow> byte list option) \<Rightarrow> 's ControlHandler \<Rightarrow> header \<Rightarrow> 's \<Rightarrow> dest \<Rightarrow> (err option \<times> 's \<times> dest) option" where
  "HandleClose getlen c h s d =
     (if Length h = 0 then do {
        (e, d) \<leftarrow> WriteHeader conn_write
          (zero_header\<lparr>Fin := True, OpCode := OpClose, Masked := ClientSide (HState c)\<rparr>) d;
        Some (Some (case e of Some er \<Rightarrow> er | None \<Rightarrow> ClosedError StatusNoStatusRcvd []), s, d)
      }
      else do {
        p \<leftarrow> getlen (reply_len c h);
        (if sint (Length h) < 0 \<or> int (length p) < sint (Length h) then None
         else do {
           (subp, e, s) \<leftarrow> read_payload c h s;
           (case e of
              Some er \<Rightarrow> Some (Some er, s, d)
            | None \<Rightarrow>
                (let p = put_at 0 subp p;
                     (code, reason) = ParseCloseFrameData subp
                 in case CheckCloseFrameData code reason of
                      Some er \<Rightarrow> do {
                        text \<leftarrow> err_Error er;
                        (e, d) \<leftarrow> closeWithProtocolError (HState c) text d;
                        Some (Some er, s, d)
                      }
                    | None \<Rightarrow> do {
                        w \<leftarrow> NewControlWriterBuffer d (HState c) OpClose p;
                        (n, e, w) \<leftarrow> ControlWriter_Write (take 2 p) w;
                        (case e of
                           Some er \<Rightarrow> Some (Some er, s, wdest (cw w))
                         | None \<Rightarrow> do {
                             (e, w) \<leftarrow> ControlWriter_Flush w;
                             Some (Some (case e of Some er \<Rightarrow> er | None \<Rightarrow> ClosedError code reason),
                               s, wdest (cw w))
                           })
                      }))
         })
      })"

definition Handle ::
  "(int \<Rightarrow> byte list option) \<Rightarrow> 's ControlHandler \<Rightarrow> header \<Rightarrow> 's \<Rightarrow> dest \<Rightarrow> (err option \<times> 's \<times> dest) option" where
  "Handle getlen c h s d =
     (if OpCode h = OpPing then HandlePing getlen c h s d
      else if OpCode h = OpPong then HandlePong getlen c h s d
      else if OpCode h = OpClose then HandleClose getlen c h s d
      else Some (Some ErrNotControlFrame, s, d))"

section \<open>What the handlers do\<close>

text \<open>\<open>filling d st op pl w\<close>: a writer that holds the data \<open>pl\<close> and has sent nothing.\<close>

definition filling :: "dest \<Rightarrow> byte \<Rightarrow> byte \<Rightarrow> byte list \<Rightarrow> Writer \<Rightarrow> bool" where
  "filling d st op pl w \<longleftrightarrow> wok w \<and> extensions w = [] \<and> werr w = None \<and> fseq w = 0 \<and>
     wdest w = d \<and> wstate w = st \<and> wop w = op \<and> buffered_data w = pl"

lemma filling_wn: "filling d st op pl w \<Longrightarrow> wn w = length pl"
  using wok_length [of w] by (auto simp: filling_def)

lemma Write_fits:
  assumes f: "filling d st op pl w" and p: "length p \<le> Available w"
  shows "\<exists>w'. Writer_Write p w = Some (length p, None, w') \<and> filling d st op (pl @ p) w' \<and>
    Available w' = Available w - length p"
proof -
  let ?w = "w\<lparr>dirty := True\<rparr>"
  have f': "filling d st op pl ?w" using f by (simp add: filling_def wok_def Size_def buffered_data_def)
  then have w: "wok ?w" "werr ?w = None" by (simp_all add: filling_def)
  have av: "Available ?w = Available w" by (simp add: Available_def Size_def)
  have st: "write_loop p 0 ?w = Some (p, 0, ?w)"
    using p av by (subst write_loop.simps) simp
  note fo = fill_ok [OF w(1), of p]
  have e: "werr (fill p ?w) = None" "fseq (fill p ?w) = fseq w" "wdest (fill p ?w) = wdest w"
    "wstate (fill p ?w) = wstate w" "wop (fill p ?w) = wop w" "extensions (fill p ?w) = extensions w"
    "Size (fill p ?w) = Size w"
    using w(2) by (simp_all add: fill_def Size_def)
  have "filling d st op (pl @ p) (fill p ?w)"
    using fo(1,2) e f' p av by (simp add: filling_def)
  moreover have "Available (fill p ?w) = Available w - length p"
    using fo(5) e(7) p av by (simp add: Available_def)
  moreover have "Writer_Write p w = Some (length p, None, fill p ?w)"
    using st w(2) fo(3) p av e(1) by (simp add: Writer_Write_def)
  ultimately show ?thesis by blast
qed

lemma Flush_filling:
  assumes f: "filling d st op pl w" and pl: "pl \<noteq> []"
  shows "\<exists>e w' m. Flush w = Some (e, w') \<and>
    delivers (frame_bytes (out_frame st op True m pl)) d (wdest w') e"
proof -
  have w: "wok w" "extensions w = []" "werr w = None" "fseq w = 0" and wn: "wn w \<noteq> 0"
    using f pl filling_wn [OF f] by (auto simp: filling_def)
  have op: "opCode_of w = op" using f by (simp add: opCode_of_def filling_def)
  obtain e w' m k where ff: "flushFragment True w = Some (e, w')"
      "conn_out (wdest w') = conn_out (wdest w) @
        take k (frame_bytes (out_frame (wstate w) (opCode_of w) True m (buffered_data w)))"
      "e = None \<longrightarrow> conn_out (wdest w') = conn_out (wdest w) @
        frame_bytes (out_frame (wstate w) (opCode_of w) True m (buffered_data w))"
      "faults (wdest w) = [] \<longrightarrow> e = None \<and> faults (wdest w') = []"
    using flushFragment_sends [OF w(1,2), of True] by blast
  have "Flush w = Some (e, w'\<lparr>werr := e, wn := 0, dirty := False, fseq := 0\<rparr>)"
    using ff(1) w(3) wn by (simp add: Flush_def Buffered_def)
  moreover have "delivers (frame_bytes (out_frame st op True m pl)) d (wdest w') e"
    using ff(2-4) f unfolding op by (auto simp: delivers_def filling_def)
  ultimately show ?thesis
    by (intro exI [of _ e] exI [of _ "w'\<lparr>werr := e, wn := 0, dirty := False, fseq := 0\<rparr>"] exI [of _ m]) simp
qed

lemma sint_of_int_small: "0 \<le> x \<Longrightarrow> x < 2 ^ 63 \<Longrightarrow> sint (word_of_int x :: int64) = x"
  using sint_of_nat_small [of "nat x"] by simp

lemma reply_len_eq:
  assumes L: "0 < sint (Length h)" "sint (Length h) \<le> 125"
  shows "reply_len c h = sint (Length h) + 2 + (if ClientSide (HState c) then 4 else 0)"
proof -
  let ?L = "sint (Length h)" and ?mk = "if ClientSide (HState c) then 4 else (0 :: int)"
  have hs: "HeaderSize (zero_header\<lparr>Length := Length h, Masked := ClientSide (HState c)\<rparr>) = 2 + ?mk"
    using L by (cases "ClientSide (HState c)"; cases "Mask zero_header") (simp_all add: HeaderSize_def)
  have "Length h = word_of_int ?L" by simp
  moreover have "word_of_int ?L + of_int (2 + ?mk) = (word_of_int (?L + 2 + ?mk) :: int64)" by simp
  ultimately have "reply_len c h = sint (word_of_int (?L + 2 + ?mk) :: int64)"
    unfolding reply_len_def hs by metis
  moreover have "sint (word_of_int (?L + 2 + ?mk) :: int64) = ?L + 2 + ?mk"
    by (rule sint_of_int_small) (use L in auto)
  ultimately show ?thesis by metis
qed

lemma reply_len_pos: "0 < sint (Length h) \<Longrightarrow> sint (Length h) \<le> 125 \<Longrightarrow> 0 \<le> reply_len c h"
  by (simp add: reply_len_eq)

text \<open>The reply buffer for a payload of at most 125 bytes has room for exactly the payload.\<close>

lemma reply_writer:
  assumes L: "0 < sint (Length h)" "sint (Length h) \<le> 125" and p: "int (length p) = reply_len c h"
  shows "\<exists>w. NewControlWriterBuffer d (HState c) op p = Some w \<and> filling d (HState c) op [] (cw w) \<and>
    cn w = 0 \<and> climit w = nat (sint (Length h)) \<and> Available (cw w) = nat (sint (Length h))"
proof -
  let ?L = "sint (Length h)" and ?mk = "if ClientSide (HState c) then 4 else (0 :: int)"
  have rl: "reply_len c h = ?L + 2 + ?mk" by (rule reply_len_eq [OF L])
  have mx: "headerSize (HState c) (int MaxControlFramePayloadSize) = 2 + ?mk"
    by (cases "ClientSide (HState c)"; cases "Mask zero_header")
      (simp_all add: headerSize_def HeaderSize_def MaxControlFramePayloadSize_def)
  have len: "int (length p) = ?L + 2 + ?mk" using p rl by simp
  have rs: "reserve (HState c) (int (length p)) = 2 + ?mk"
    using L len by (simp add: reserve_def len7_def)
  let ?w = "\<lparr>wdest = d, wop = op, wstate = HState c, extensions = [], noFlush = False, raw = p,
    offset = nat (2 + ?mk), wn = 0, dirty = False, fseq = 0, werr = None\<rparr>"
  have nw: "NewWriterBuffer d (HState c) op p = Some ?w"
    using L rs len by (simp add: NewWriterBuffer_def initBuf_def Let_def)
  have sz: "Size ?w = nat ?L" using len L by (cases "ClientSide (HState c)"; simp add: Size_def; linarith)
  have "NewControlWriterBuffer d (HState c) op p = Some \<lparr>cw = ?w, climit = Size ?w, cn = 0\<rparr>"
    using len L mx nw by (simp add: NewControlWriterBuffer_def Let_def MaxControlFramePayloadSize_def)
  moreover have "wok ?w"
    using rs len L by (cases "ClientSide (HState c)"; simp add: wok_def Size_def; linarith)
  ultimately show ?thesis using sz by (auto simp: filling_def buffered_data_def Available_def)
qed

section \<open>Sources of a payload\<close>

text \<open>
  \<open>payload_source c h s pl Q\<close>: the three ways in which a handler takes its payload give
  \<open>pl\<close>, and leave the source in a state with \<open>Q\<close>.
\<close>

definition copies :: "'s ControlHandler \<Rightarrow> header \<Rightarrow> 's \<Rightarrow> byte list \<Rightarrow> ('s \<Rightarrow> bool) \<Rightarrow> bool" where
  "copies c h s pl Q \<longleftrightarrow> (\<forall>d st op (w :: ControlWriter). filling d st op [] (cw w) \<and> cn w = 0 \<and> length pl \<le> climit w \<and>
     length pl \<le> Available (cw w) \<longrightarrow>
     (\<exists>s' w'. copy_payload c h s w = Some (None, s', w') \<and> filling d st op pl (cw w') \<and> Q s'))"

lemma ControlWriter_Write_fits:
  assumes f: "filling d st op pl (cw c)" and p: "length p \<le> Available (cw c)" "cn c = 0" "length p \<le> climit c"
  shows "\<exists>c'. ControlWriter_Write p c = Some (length p, None, c') \<and> filling d st op (pl @ p) (cw c') \<and>
    Available (cw c') = Available (cw c) - length p \<and> cn c' = 0 \<and> climit c' = climit c"
  using Write_fits [OF f p(1)] p(2,3) by (auto simp: ControlWriter_Write_def)

context io_source
begin

lemma copy_loop_fills:
  assumes step: "\<And>n s bs s'. inv s \<Longrightarrow> P s \<Longrightarrow> rd n s = Some (bs, None, s') \<Longrightarrow> P s'"
    and last: "\<And>n s bs e s'. inv s \<Longrightarrow> P s \<Longrightarrow> rd n s = Some (bs, Some e, s') \<Longrightarrow> Q s'"
  shows "inv s \<Longrightarrow> P s \<Longrightarrow> ending s = EOF \<Longrightarrow> 0 < sz \<Longrightarrow> filling d st op pl (cw c) \<Longrightarrow> cn c = 0 \<Longrightarrow>
    length (data s) \<le> climit c \<Longrightarrow> length (data s) \<le> Available (cw c) \<Longrightarrow>
    \<exists>s' c'. io_copy_loop rd ControlWriter_Write sz s c = Some (None, s', c') \<and>
      filling d st op (pl @ data s) (cw c') \<and> Q s'"
proof (induction "fin s" arbitrary: s pl c rule: less_induct)
  case less
  obtain bs e s1 where r: "rd sz s = Some (bs, e, s1)" using rd_returns [OF less.prems(1)] by blast
  have split: "data s = bs @ (if e = None then data s1 else []) \<and> (e = None \<longrightarrow> ending s1 = EOF) \<and>
      (e \<noteq> None \<longrightarrow> e = Some EOF)"
    using rd_data [OF less.prems(1)] rd_last [OF less.prems(1)] r less.prems(3)
    by (cases e; fastforce)
  obtain c1 where c1: "ControlWriter_Write bs c = Some (length bs, None, c1)"
      "filling d st op (pl @ bs) (cw c1)" "Available (cw c1) = Available (cw c) - length bs" "cn c1 = 0"
      "climit c1 = climit c"
    using ControlWriter_Write_fits [OF less.prems(5), of bs] less.prems(6-8) split by auto
  show ?case
  proof (cases e)
    case (Some er)
    then have "er = EOF" "data s = bs" using split by simp_all
    with Some c1 last [OF less.prems(1,2) r [unfolded Some]] less.prems(5) show ?thesis
      by (subst io_copy_loop.simps) (auto simp: r)
  next
    case None
    note s1 = rd_inv [OF less.prems(1) r] step [OF less.prems(1,2) r [unfolded None]]
    have lt: "fin s1 < fin s" using rd_progress [OF less.prems(1,4) r] None by simp
    define c2 where "c2 = (if bs = [] then c else c1)"
    have c2: "filling d st op (pl @ bs) (cw c2)" "cn c2 = 0" "length (data s1) \<le> climit c2"
      "length (data s1) \<le> Available (cw c2)"
      using c1 split None less.prems(5-8) by (auto simp: c2_def)
    have st: "io_copy_loop rd ControlWriter_Write sz s c = io_copy_loop rd ControlWriter_Write sz s1 c2"
      using c1(1) by (subst io_copy_loop.simps) (simp add: r None c2_def)
    have en: "ending s1 = EOF" using split None by simp
    from less.hyps [OF lt s1 en less.prems(4) c2] split None show ?thesis unfolding st by simp
  qed
qed

text \<open>A source that ends with the payload, read without a cipher.\<close>

lemma copies_source:
  assumes c: "src_rd (Src c) = rd" "src_WriteTo (Src c) = None" "\<not> ciphers c"
    and s: "inv s" "P s" "ending s = EOF"
    and step: "\<And>n s bs s'. inv s \<Longrightarrow> P s \<Longrightarrow> rd n s = Some (bs, None, s') \<Longrightarrow> P s'"
    and last: "\<And>n s bs e s'. inv s \<Longrightarrow> P s \<Longrightarrow> rd n s = Some (bs, Some e, s') \<Longrightarrow> Q s'"
  shows "copies c h s (data s) Q"
  unfolding copies_def
proof (intro allI impI)
  fix d st op and w :: ControlWriter
  assume w: "filling d st op [] (cw w) \<and> cn w = 0 \<and> length (data s) \<le> climit w \<and>
     length (data s) \<le> Available (cw w)"
  have "0 < copy_size (src_N (Src c) s)" by (simp add: copy_size_def split: option.split)
  from copy_loop_fills [of P Q, OF step last s this] w
  show "\<exists>s' w'. copy_payload c h s w = Some (None, s', w') \<and> filling d st op (data s) (cw w') \<and> Q s'"
    by (fastforce simp: copy_payload_def c io_Copy_def)
qed

end

text \<open>A byte slice writes itself in one call.\<close>

lemma copies_bytes:
  assumes "Src c = bytes_src" "\<not> ciphers c"
  shows "copies c h pl pl (\<lambda>s. s = [])"
  unfolding copies_def
proof (intro allI impI)
  fix d st op and w :: ControlWriter
  assume w: "filling d st op [] (cw w) \<and> cn w = 0 \<and> length pl \<le> climit w \<and> length pl \<le> Available (cw w)"
  then obtain w' where "ControlWriter_Write pl w = Some (length pl, None, w')" "filling d st op pl (cw w')"
    using ControlWriter_Write_fits [of d st op "[]" w pl] by auto
  with w assms show "\<exists>s' w'. copy_payload c h pl w = Some (None, s', w') \<and> filling d st op pl (cw w') \<and> s' = []"
    by (auto simp: copy_payload_def io_Copy_def bytes_src_def bytes_WriteTo_def)
qed

text \<open>
  Behind the cipher, a stream that ends with the payload gives the payload unmasked: the
  case of a server that hands the handler the raw bytes.
\<close>

context ciphered_stream
begin

lemma copies_ciphered:
  assumes c: "src_rd (Src c) = rd" "ciphers c" and s: "inv s" "ending s = EOF"
  shows "copies c h s (Cipher (data s) (Mask h) 0) inv"
  unfolding copies_def
proof (intro allI impI)
  fix d st op and w :: ControlWriter
  let ?r = "NewCipherReader s (Mask h)" and ?pl = "Cipher (data s) (Mask h) 0"
  assume w: "filling d st op [] (cw w) \<and> cn w = 0 \<and> length ?pl \<le> climit w \<and> length ?pl \<le> Available (cw w)"
  have d: "cipher_data data ?r = ?pl" "(inv \<circ> cr_r) ?r" "(ending \<circ> cr_r) ?r = EOF"
    using s by (simp_all add: cipher_data_def NewCipherReader_def)
  have "\<exists>r' w'. io_copy_loop (CipherReader_Read rd) ControlWriter_Write 32768 ?r w = Some (None, r', w') \<and>
      filling d st op ([] @ cipher_data data ?r) (cw w') \<and> (inv \<circ> cr_r) r'"
    by (rule ciphered.copy_loop_fills [where P = "inv \<circ> cr_r", OF _ _ d(2,2,3)]; (erule ciphered.rd_inv)?)
      (use w d(1) in auto)
  then show "\<exists>s' w'. copy_payload c h s w = Some (None, s', w') \<and> filling d st op ?pl (cw w') \<and> inv s'"
    using d(1) by (auto simp: copy_payload_def c io_Copy_def copy_size_def)
qed

end

section \<open>Ping\<close>

lemma HandlePing_empty:
  assumes "Length h = 0"
  shows "\<exists>e d'. HandlePing getlen c h s d = Some (e, s, d') \<and>
    delivers (frame_bytes (out_frame (HState c) OpPong True zeroMask [])) d d' e"
proof -
  let ?h = "zero_header\<lparr>Fin := True, OpCode := OpPong, Masked := ClientSide (HState c)\<rparr>"
  have f: "frame_bytes (out_frame (HState c) OpPong True zeroMask []) = the (header_bytes ?h)"
    by (simp add: frame_bytes_def out_frame_def zero_header_def cong: if_cong)
  obtain n e d' k where "conn_write (the (header_bytes ?h)) d = Some (n, e, d')"
      "conn_out d' = conn_out d @ take k (the (header_bytes ?h))"
      "e = None \<longrightarrow> conn_out d' = conn_out d @ the (header_bytes ?h)"
      "faults d = [] \<longrightarrow> e = None \<and> faults d' = []"
    using conn_write_out [of "the (header_bytes ?h)" d] by blast
  then show ?thesis
    by (auto simp: HandlePing_def assms WriteHeader_def header_bytes_eq delivers_def f)
qed

lemma HandlePing_replies:
  assumes s: "copies c h s pl Q" and L: "sint (Length h) = int (length pl)" "length pl \<le> 125" "pl \<noteq> []"
    and pool: "\<And>n. 0 \<le> n \<Longrightarrow> \<exists>p. getlen n = Some p \<and> int (length p) = n"
  shows "\<exists>e s' d' m. HandlePing getlen c h s d = Some (e, s', d') \<and> Q s' \<and>
    delivers (frame_bytes (out_frame (HState c) OpPong True m pl)) d d' e"
proof -
  have L': "0 < sint (Length h)" "sint (Length h) \<le> 125" using L by simp_all
  have nz: "Length h \<noteq> 0" using L'(1) by auto
  obtain p where p: "getlen (reply_len c h) = Some p" "int (length p) = reply_len c h"
    using pool reply_len_pos [OF L'] by blast
  obtain w where w: "NewControlWriterBuffer d (HState c) OpPong p = Some w"
      "filling d (HState c) OpPong [] (cw w)" "cn w = 0" "climit w = length pl" "Available (cw w) = length pl"
    using reply_writer [OF L' p(2), of d OpPong] L(1) by auto
  obtain s' w' where c: "copy_payload c h s w = Some (None, s', w')" "filling d (HState c) OpPong pl (cw w')" "Q s'"
    using s w(2-5) unfolding copies_def by fastforce
  obtain e w2 m where "Flush (cw w') = Some (e, w2)"
      "delivers (frame_bytes (out_frame (HState c) OpPong True m pl)) d (wdest w2) e"
    using Flush_filling [OF c(2) L(3)] by blast
  then show ?thesis
    using nz p(1) w(1) c
    by (intro exI [of _ e] exI [of _ s'] exI [of _ "wdest w2"] exI [of _ m])
      (simp add: HandlePing_def ControlWriter_Flush_def)
qed

section \<open>Pong\<close>

lemma HandlePong_discards:
  assumes "Length h \<noteq> 0 \<Longrightarrow> io_Discard (src_rd (Src c)) s = Some (e, s')"
    and "0 \<le> sint (Length h)" and "\<And>n. 0 \<le> n \<Longrightarrow> \<exists>p. getlen n = Some p \<and> int (length p) = n"
  shows "HandlePong getlen c h s d = Some (if Length h = 0 then (None, s, d) else (e, s', d))"
proof (cases "Length h = 0")
  case True
  then show ?thesis by (simp add: HandlePong_def)
next
  case False
  obtain p where p: "getlen (sint (Length h)) = Some p" "int (length p) = sint (Length h)"
    using assms(2,3) by blast
  moreover have "sint (Length h) \<noteq> 0" using False by (simp add: signed_eq_0_iff)
  ultimately have "p \<noteq> []" by auto
  with p assms(1) False show ?thesis by (simp add: HandlePong_def)
qed

text \<open>Handing a byte slice to \<open>io.Discard\<close> at once is the same as reading it away.\<close>

lemma bytes_discard:
  "bytes_WriteTo (\<lambda>p (u :: unit). Some (length p, None, u)) bs () = Some (None, [], ())"
  "io_Discard bytes_read bs = Some (None, s') \<Longrightarrow> s' = []"
proof -
  show "bytes_WriteTo (\<lambda>p (u :: unit). Some (length p, None, u)) bs () = Some (None, [], ())"
    by (simp add: bytes_WriteTo_def)
  show "io_Discard bytes_read bs = Some (None, s') \<Longrightarrow> s' = []"
  proof (induction "length bs" arbitrary: bs rule: less_induct)
    case less
    show ?case
    proof (cases bs)
      case Nil
      with less.prems show ?thesis by (subst (asm) io_Discard.simps) simp
    next
      case (Cons b bs')
      then have "io_Discard bytes_read (drop 8192 bs) = Some (None, s')"
        using less.prems by (subst (asm) io_Discard.simps) simp
      with less.hyps [of "drop 8192 bs"] Cons show ?thesis by simp
    qed
  qed
qed

section \<open>Close\<close>

text \<open>
  The frame that reports a protocol error: from a server the close frame with code 1002 and
  the text; from a client the same header, without the mask bit, before the masked body.
\<close>

definition protocol_close :: "byte \<Rightarrow> mask \<Rightarrow> byte list \<Rightarrow> frame" where
  "protocol_close st m reason =
     (let body = be_bytes 2 StatusProtocolError @ take 123 reason
      in (NewCloseFrame body)\<lparr>Payload := (if ClientSide st then Cipher body m 0 else body)\<rparr>)"

lemma closeWithProtocolError_sends:
  "\<exists>e d' m. closeWithProtocolError st reason d = Some (e, d') \<and>
     delivers (frame_bytes (protocol_close st m reason)) d d' e"
proof -
  let ?b = "be_bytes 2 StatusProtocolError @ take 123 reason"
  obtain m d1 where m: "NewMask d = (m, d1)" by (cases "NewMask d")
  let ?f = "protocol_close st m reason" and ?d = "if ClientSide st then d1 else d"
  obtain e d' where w: "WriteFrame conn_write ?f ?d = Some (e, d')" "delivers (frame_bytes ?f) ?d d' e"
    using WriteFrame_delivers by blast
  have "delivers (frame_bytes ?f) d d' e"
    using w(2) NewMask_out [OF m] by (auto simp: delivers_def split: if_splits)
  moreover have "closeWithProtocolError st reason d = Some (e, d')"
    using w(1) m
    by (auto simp: closeWithProtocolError_def NewCloseFrameBody_eq protocol_close_def Let_def
        MaskFrameInPlace_def MaskFrameInPlaceWith_def NewCloseFrame_def NewFrame_def split: if_splits)
  ultimately show ?thesis by blast
qed

lemma CheckCloseFrameData_text:
  "CheckCloseFrameData code reason = Some er \<Longrightarrow> \<exists>s. er = ProtocolError s"
  by (auto simp: CheckCloseFrameData_def ErrProtocolStatusCodeNotInUse_def
      ErrProtocolStatusCodeApplicationLevel_def ErrProtocolStatusCodeNoMeaning_def
      ErrProtocolStatusCodeUnknown_def ErrProtocolInvalidUTF8_def split: if_splits)

lemma HandleClose_replies:
  assumes r: "read_payload c h s = Some (pl, None, s')"
    and L: "sint (Length h) = int (length pl)" "length pl \<le> 125" "pl \<noteq> []"
    and pool: "\<And>n. 0 \<le> n \<Longrightarrow> \<exists>p. getlen n = Some p \<and> int (length p) = n"
    and pl: "ParseCloseFrameData pl = (code, reason)"
  shows "\<exists>er d' m e. HandleClose getlen c h s d = Some (Some er, s', d') \<and>
    (case CheckCloseFrameData code reason of
       None \<Rightarrow> delivers (frame_bytes (out_frame (HState c) OpClose True m (be_bytes 2 code))) d d' e \<and>
         er = (case e of None \<Rightarrow> ClosedError code reason | Some x \<Rightarrow> x)
     | Some x \<Rightarrow> er = x \<and> (\<exists>msg. x = ProtocolError msg \<and>
         delivers (frame_bytes (protocol_close (HState c) m (str_bytes msg))) d d' e))"
proof -
  have L': "0 < sint (Length h)" "sint (Length h) \<le> 125" using L by simp_all
  have nz: "Length h \<noteq> 0" using L'(1) by auto
  obtain p where p: "getlen (reply_len c h) = Some p" "int (length p) = reply_len c h"
    using pool reply_len_pos [OF L'] by blast
  have lp: "sint (Length h) \<le> int (length p)" "length pl \<le> length p"
    using p(2) L(1) by (cases "ClientSide (HState c)"; simp add: reply_len_eq [OF L'])+
  let ?p = "put_at 0 pl p"
  have p': "int (length ?p) = reply_len c h" using p(2) by simp
  show ?thesis
  proof (cases "CheckCloseFrameData code reason")
    case (Some x)
    obtain msg where x: "x = ProtocolError msg" using CheckCloseFrameData_text [OF Some] by blast
    obtain e d' m where c: "closeWithProtocolError (HState c) (str_bytes msg) d = Some (e, d')"
        "delivers (frame_bytes (protocol_close (HState c) m (str_bytes msg))) d d' e"
      using closeWithProtocolError_sends by blast
    have "HandleClose getlen c h s d = Some (Some x, s', d')"
      using nz p(1) lp L'(1) r pl Some x c(1) by (simp add: HandleClose_def)
    with Some x c(2) show ?thesis
      by (intro exI [of _ x] exI [of _ d'] exI [of _ m] exI [of _ e]) simp
  next
    case None
    have "length pl \<ge> 2"
      using None pl by (cases "length pl < 2") (auto simp: ParseCloseFrameData_def CheckCloseFrameData_None)
    then have two: "take 2 pl = be_bytes 2 code" "length (take 2 pl) = 2"
      using pl be_bytes_word [of "take 2 pl", where 'a = 16] by (auto simp: ParseCloseFrameData_def)
    have tp: "take 2 ?p = be_bytes 2 code"
      using lp(2) \<open>length pl \<ge> 2\<close> two(1) by (simp add: put_at_fits)
    obtain w where w: "NewControlWriterBuffer d (HState c) OpClose ?p = Some w"
        "filling d (HState c) OpClose [] (cw w)" "cn w = 0" "climit w = length pl" "Available (cw w) = length pl"
      using reply_writer [OF L' p', of d OpClose] L(1) by auto
    obtain w' where w': "ControlWriter_Write (be_bytes 2 code) w = Some (2, None, w')"
        "filling d (HState c) OpClose (be_bytes 2 code) (cw w')"
      using ControlWriter_Write_fits [OF w(2), of "be_bytes 2 code"] w(3-5) \<open>length pl \<ge> 2\<close> by auto
    have ne: "be_bytes 2 code \<noteq> []"
      by (metis length_be_bytes list.size(3) zero_neq_numeral)
    obtain e w2 m where f: "Flush (cw w') = Some (e, w2)"
        "delivers (frame_bytes (out_frame (HState c) OpClose True m (be_bytes 2 code))) d (wdest w2) e"
      using Flush_filling [OF w'(2) ne] by blast
    have "HandleClose getlen c h s d =
        Some (Some (case e of None \<Rightarrow> ClosedError code reason | Some x \<Rightarrow> x), s', wdest w2)"
      using nz p(1) lp L'(1) r pl None w(1) w'(1) f(1) tp
      by (simp add: HandleClose_def ControlWriter_Flush_def split: option.split)
    with None f(2) show ?thesis
      by (intro exI [of _ "case e of None \<Rightarrow> ClosedError code reason | Some x \<Rightarrow> x"] exI [of _ "wdest w2"]
          exI [of _ m] exI [of _ e]) simp
  qed
qed

lemma HandleClose_empty:
  assumes "Length h = 0"
  shows "\<exists>e d'. HandleClose getlen c h s d =
      Some (Some (case e of None \<Rightarrow> ClosedError StatusNoStatusRcvd [] | Some er \<Rightarrow> er), s, d') \<and>
    delivers (frame_bytes (out_frame (HState c) OpClose True zeroMask [])) d d' e"
proof -
  let ?h = "zero_header\<lparr>Fin := True, OpCode := OpClose, Masked := ClientSide (HState c)\<rparr>"
  have f: "frame_bytes (out_frame (HState c) OpClose True zeroMask []) = the (header_bytes ?h)"
    by (simp add: frame_bytes_def out_frame_def zero_header_def cong: if_cong)
  obtain n e d' k where w: "conn_write (the (header_bytes ?h)) d = Some (n, e, d')"
      "conn_out d' = conn_out d @ take k (the (header_bytes ?h))"
      "e = None \<longrightarrow> conn_out d' = conn_out d @ the (header_bytes ?h)"
      "faults d = [] \<longrightarrow> e = None \<and> faults d' = []"
    using conn_write_out [of "the (header_bytes ?h)" d] by blast
  have "delivers (frame_bytes (out_frame (HState c) OpClose True zeroMask [])) d d' e"
    using w(2-4) unfolding f delivers_def by blast
  with w(1) show ?thesis
    by (intro exI [of _ e] exI [of _ d'])
      (simp add: HandleClose_def assms WriteHeader_def header_bytes_eq split: option.split)
qed

end
