(* ===== verification/Helpers.thy ===== *)
theory Helpers
  imports Control
begin

text \<open>
  The helper functions (msutil/helper.go): reading and writing whole messages, and the
  callback that handles control frames. A connection is its read side, any reader \<open>rd\<close>, and
  its write side, a \<open>dest\<close>. \<open>room\<close> and \<open>room'\<close> are the growth of the slices of
  \<open>io.ReadAll\<close> and of \<open>bytes.Buffer\<close>, and \<open>getlen\<close> is the pool of byte slices.
\<close>

section \<open>Reading a message\<close>

record Message =
  MOpCode :: byte
  MPayload :: "byte list"

text \<open>The callback of \<open>ReadMessage\<close>: it appends the control frame to the messages.\<close>

definition collect ::
  "'s rd \<Rightarrow> (nat \<Rightarrow> nat) \<Rightarrow> header \<Rightarrow> 's framed \<times> Message list \<Rightarrow>
     (err option \<times> 's framed \<times> Message list) option" where
  "collect rd room hdr = (\<lambda>(x, m). do {
     (bts, e, x) \<leftarrow> io_ReadAll (base_read rd) room x;
     (case e of
        Some er \<Rightarrow> Some (Some er, x, m)
      | None \<Rightarrow> Some (None, x, m @ [\<lparr>MOpCode = OpCode hdr, MPayload = bts\<rparr>]))
   })"

definition message_conf :: "'s rd \<Rightarrow> (nat \<Rightarrow> nat) \<Rightarrow> ('s, Message list) ReaderConf" where
  "message_conf rd room = zero_conf\<lparr>CheckUTF8 := True, OnIntermediate := Some (collect rd room)\<rparr>"

text \<open>A negative length, which no header read from the wire has, panics in \<open>make\<close>.\<close>

definition ReadMessage ::
  "'s rd \<Rightarrow> (nat \<Rightarrow> nat) \<Rightarrow> (nat \<Rightarrow> nat) \<Rightarrow> 's \<Rightarrow> byte \<Rightarrow> Message list \<Rightarrow>
     (Message list \<times> err option \<times> 's) option" where
  "ReadMessage rd room room' s st m =
     (let cf = message_conf rd room
      in do {
        (h, e, r, m) \<leftarrow> NextFrame rd cf (NewReader s st, m);
        (case e of
           Some er \<Rightarrow> Some (m, Some er, src r)
         | None \<Rightarrow> do {
             (p, e, r, m) \<leftarrow>
               (if Fin h then
                  Option.bind (make_bytes (sint (Length h))) (\<lambda>p. io_ReadFull (reader_rd rd cf) (length p) (r, m))
                else io_ReadAll (reader_rd rd cf) room' (r, m));
             (case e of
                Some er \<Rightarrow> Some (m, Some er, src r)
              | None \<Rightarrow> Some (m @ [\<lparr>MOpCode = OpCode h, MPayload = p\<rparr>], None, src r))
           })
      })"

definition ReadClientMessage ::
  "'s rd \<Rightarrow> (nat \<Rightarrow> nat) \<Rightarrow> (nat \<Rightarrow> nat) \<Rightarrow> 's \<Rightarrow> Message list \<Rightarrow> (Message list \<times> err option \<times> 's) option" where
  "ReadClientMessage rd room room' s m = ReadMessage rd room room' s StateServerSide m"

definition ReadServerMessage ::
  "'s rd \<Rightarrow> (nat \<Rightarrow> nat) \<Rightarrow> (nat \<Rightarrow> nat) \<Rightarrow> 's \<Rightarrow> Message list \<Rightarrow> (Message list \<times> err option \<times> 's) option" where
  "ReadServerMessage rd room room' s m = ReadMessage rd room room' s StateClientSide m"

section \<open>Handling control frames\<close>

text \<open>The handler over a source that is already unmasked.\<close>

definition ControlFrameHandler ::
  "(int \<Rightarrow> byte list option) \<Rightarrow> 's Src \<Rightarrow> byte \<Rightarrow> header \<Rightarrow> 's \<times> dest \<Rightarrow> (err option \<times> 's \<times> dest) option" where
  "ControlFrameHandler getlen sr st h = (\<lambda>(s, d).
     Handle getlen \<lparr>Src = sr, HState = st, DisableSrcCiphering = True\<rparr> h s d)"

definition HandleControlMessage ::
  "(int \<Rightarrow> byte list option) \<Rightarrow> dest \<Rightarrow> byte \<Rightarrow> Message \<Rightarrow> (err option \<times> dest) option" where
  "HandleControlMessage getlen d st msg = do {
     (e, s, d) \<leftarrow> Handle getlen \<lparr>Src = bytes_src, HState = st, DisableSrcCiphering = True\<rparr>
       (zero_header\<lparr>Length := of_nat (length (MPayload msg)), OpCode := MOpCode msg, Fin := True,
         Masked := ServerSide st\<rparr>) (MPayload msg) d;
     Some (e, d)
   }"

definition HandleClientControlMessage ::
  "(int \<Rightarrow> byte list option) \<Rightarrow> dest \<Rightarrow> Message \<Rightarrow> (err option \<times> dest) option" where
  "HandleClientControlMessage getlen d msg = HandleControlMessage getlen d StateServerSide msg"

definition HandleServerControlMessage ::
  "(int \<Rightarrow> byte list option) \<Rightarrow> dest \<Rightarrow> Message \<Rightarrow> (err option \<times> dest) option" where
  "HandleServerControlMessage getlen d msg = HandleControlMessage getlen d StateClientSide msg"

section \<open>Reading the next data message\<close>

definition data_conf :: "'s rd \<Rightarrow> (int \<Rightarrow> byte list option) \<Rightarrow> byte \<Rightarrow> ('s, dest) ReaderConf" where
  "data_conf rd getlen st = zero_conf\<lparr>CheckUTF8 := True, SkipHeaderCheck := False,
     OnIntermediate := Some (ControlFrameHandler getlen (frame_src rd) st)\<rparr>"

text \<open>
  The loop of \<open>readData\<close>. The source and the destination of the handler are the same
  connection; a loaded frame is read without callbacks (\<open>loaded_reads_quietly\<close> below), so
  the write side the handler returns is the connection's.
\<close>

partial_function (option) read_data_loop ::
  "'s rd \<Rightarrow> (nat \<Rightarrow> nat) \<Rightarrow> (int \<Rightarrow> byte list option) \<Rightarrow> byte \<Rightarrow> byte \<Rightarrow> 's Reader \<Rightarrow> dest \<Rightarrow>
     (byte list \<times> byte \<times> err option \<times> 's Reader \<times> dest) option" where
  "read_data_loop rd room getlen st want r d =
     Option.bind (NextFrame rd (data_conf rd getlen st) (r, d)) (\<lambda>(hdr, e, r, d).
       case e of
         Some er \<Rightarrow> Some ([], 0, Some er, r, d)
       | None \<Rightarrow>
           if IsControl (OpCode hdr) then
             Option.bind (ControlFrameHandler getlen (reader_src rd (data_conf rd getlen st)) st hdr ((r, d), d))
               (\<lambda>(e, (r, _), d). case e of
                  Some er \<Rightarrow> Some ([], 0, Some er, r, d)
                | None \<Rightarrow> read_data_loop rd room getlen st want r d)
           else if OpCode hdr AND want = 0 then
             Option.bind (Discard rd (data_conf rd getlen st) r d)
               (\<lambda>(e, r, d). case e of
                  Some er \<Rightarrow> Some ([], 0, Some er, r, d)
                | None \<Rightarrow> read_data_loop rd room getlen st want r d)
           else
             Option.bind (io_ReadAll (reader_rd rd (data_conf rd getlen st)) room (r, d))
               (\<lambda>(bts, e, r, d). Some (bts, OpCode hdr, e, r, d)))"

declare read_data_loop.simps [code]

definition readData ::
  "'s rd \<Rightarrow> (nat \<Rightarrow> nat) \<Rightarrow> (int \<Rightarrow> byte list option) \<Rightarrow> byte \<Rightarrow> byte \<Rightarrow> 's \<Rightarrow> dest \<Rightarrow>
     (byte list \<times> byte \<times> err option \<times> 's \<times> dest) option" where
  "readData rd room getlen st want s d = do {
     (bts, op, e, r, d) \<leftarrow> read_data_loop rd room getlen st want (NewReader s st) d;
     Some (bts, op, e, src r, d)
   }"

definition ReadData ::
  "'s rd \<Rightarrow> (nat \<Rightarrow> nat) \<Rightarrow> (int \<Rightarrow> byte list option) \<Rightarrow> byte \<Rightarrow> 's \<Rightarrow> dest \<Rightarrow>
     (byte list \<times> byte \<times> err option \<times> 's \<times> dest) option" where
  "ReadData rd room getlen st s d = readData rd room getlen st (OpText OR OpBinary) s d"

definition ReadClientData ::
  "'s rd \<Rightarrow> (nat \<Rightarrow> nat) \<Rightarrow> (int \<Rightarrow> byte list option) \<Rightarrow> 's \<Rightarrow> dest \<Rightarrow>
     (byte list \<times> byte \<times> err option \<times> 's \<times> dest) option" where
  "ReadClientData rd room getlen s d = ReadData rd room getlen StateServerSide s d"

definition ReadServerData ::
  "'s rd \<Rightarrow> (nat \<Rightarrow> nat) \<Rightarrow> (int \<Rightarrow> byte list option) \<Rightarrow> 's \<Rightarrow> dest \<Rightarrow>
     (byte list \<times> byte \<times> err option \<times> 's \<times> dest) option" where
  "ReadServerData rd room getlen s d = ReadData rd room getlen StateClientSide s d"

text \<open>The variants for one kind of message drop the operation code.\<close>

definition read_kind ::
  "byte \<Rightarrow> byte \<Rightarrow> 's rd \<Rightarrow> (nat \<Rightarrow> nat) \<Rightarrow> (int \<Rightarrow> byte list option) \<Rightarrow> 's \<Rightarrow> dest \<Rightarrow>
     (byte list \<times> err option \<times> 's \<times> dest) option" where
  "read_kind st want rd room getlen s d = do {
     (p, op, e, s, d) \<leftarrow> readData rd room getlen st want s d;
     Some (p, e, s, d)
   }"

definition ReadClientText :: "'s rd \<Rightarrow> (nat \<Rightarrow> nat) \<Rightarrow> (int \<Rightarrow> byte list option) \<Rightarrow> 's \<Rightarrow> dest \<Rightarrow>
     (byte list \<times> err option \<times> 's \<times> dest) option" where
  "ReadClientText = read_kind StateServerSide OpText"

definition ReadClientBinary :: "'s rd \<Rightarrow> (nat \<Rightarrow> nat) \<Rightarrow> (int \<Rightarrow> byte list option) \<Rightarrow> 's \<Rightarrow> dest \<Rightarrow>
     (byte list \<times> err option \<times> 's \<times> dest) option" where
  "ReadClientBinary = read_kind StateServerSide OpBinary"

definition ReadServerText :: "'s rd \<Rightarrow> (nat \<Rightarrow> nat) \<Rightarrow> (int \<Rightarrow> byte list option) \<Rightarrow> 's \<Rightarrow> dest \<Rightarrow>
     (byte list \<times> err option \<times> 's \<times> dest) option" where
  "ReadServerText = read_kind StateClientSide OpText"

definition ReadServerBinary :: "'s rd \<Rightarrow> (nat \<Rightarrow> nat) \<Rightarrow> (int \<Rightarrow> byte list option) \<Rightarrow> 's \<Rightarrow> dest \<Rightarrow>
     (byte list \<times> err option \<times> 's \<times> dest) option" where
  "ReadServerBinary = read_kind StateClientSide OpBinary"

section \<open>Writing a message\<close>

definition WriteMessage :: "dest \<Rightarrow> byte \<Rightarrow> byte \<Rightarrow> byte list \<Rightarrow> (err option \<times> dest) option" where
  "WriteMessage d st op p = writeFrame st op True p d"

definition WriteServerMessage :: "dest \<Rightarrow> byte \<Rightarrow> byte list \<Rightarrow> (err option \<times> dest) option" where
  "WriteServerMessage d op p = WriteMessage d StateServerSide op p"
definition WriteServerText :: "dest \<Rightarrow> byte list \<Rightarrow> (err option \<times> dest) option" where
  "WriteServerText d p = WriteServerMessage d OpText p"
definition WriteServerBinary :: "dest \<Rightarrow> byte list \<Rightarrow> (err option \<times> dest) option" where
  "WriteServerBinary d p = WriteServerMessage d OpBinary p"
definition WriteClientMessage :: "dest \<Rightarrow> byte \<Rightarrow> byte list \<Rightarrow> (err option \<times> dest) option" where
  "WriteClientMessage d op p = WriteMessage d StateClientSide op p"
definition WriteClientText :: "dest \<Rightarrow> byte list \<Rightarrow> (err option \<times> dest) option" where
  "WriteClientText d p = WriteClientMessage d OpText p"
definition WriteClientBinary :: "dest \<Rightarrow> byte list \<Rightarrow> (err option \<times> dest) option" where
  "WriteClientBinary d p = WriteClientMessage d OpBinary p"

section \<open>The handler over a frame\<close>

text \<open>A pool of byte slices, as its package documents it.\<close>

locale byte_pool =
  fixes getlen :: "int \<Rightarrow> byte list option"
  assumes getlen: "0 \<le> n \<Longrightarrow> \<exists>p. getlen n = Some p \<and> int (length p) = n"

definition fresh_pool :: "int \<Rightarrow> byte list option" where
  "fresh_pool n = (if n < 0 then None else Some (replicate (nat n) 0))"

interpretation fresh: byte_pool fresh_pool
  by unfold_locales (simp add: fresh_pool_def)

lemma Flush_returns: "wok w \<Longrightarrow> extensions w = [] \<Longrightarrow> \<exists>e w'. Flush w = Some (e, w')"
  using flushFragment_sends [of w True] by (fastforce simp: Flush_def)

text \<open>Copying from a source that holds at most as many bytes as the writer has room for.\<close>

context io_reader
begin

lemma copy_loop_returns:
  assumes cap: "\<And>n s bs e s'. inv s \<Longrightarrow> rd n s = Some (bs, e, s') \<Longrightarrow> length bs + cap s' \<le> (cap s :: nat)"
  shows "inv s \<Longrightarrow> 0 < sz \<Longrightarrow> filling d st op pl (cw c) \<Longrightarrow> cn c = 0 \<Longrightarrow> cap s \<le> climit c \<Longrightarrow>
    cap s \<le> Available (cw c) \<Longrightarrow>
    \<exists>e s' c' pl'. io_copy_loop rd ControlWriter_Write sz s c = Some (e, s', c') \<and>
      filling d st op pl' (cw c') \<and> inv s' \<and> fin s' \<le> fin s"
proof (induction "fin s" arbitrary: s pl c rule: less_induct)
  case less
  obtain bs e s1 where r: "rd sz s = Some (bs, e, s1)" using rd_returns [OF less.prems(1)] by blast
  note s1 = rd_inv [OF less.prems(1) r] rd_fin [OF less.prems(1) r] cap [OF less.prems(1) r]
  obtain c1 where c1: "ControlWriter_Write bs c = Some (length bs, None, c1)"
      "filling d st op (pl @ bs) (cw c1)" "Available (cw c1) = Available (cw c) - length bs" "cn c1 = 0"
      "climit c1 = climit c"
    using ControlWriter_Write_fits [OF less.prems(3), of bs] less.prems(4-6) s1(3) by auto
  define c2 where "c2 = (if bs = [] then c else c1)"
  have c2: "filling d st op (pl @ bs) (cw c2)" "cn c2 = 0" "cap s1 \<le> climit c2" "cap s1 \<le> Available (cw c2)"
    using c1 s1(3) less.prems(3-6) by (auto simp: c2_def)
  show ?case
  proof (cases e)
    case (Some er)
    then have "io_copy_loop rd ControlWriter_Write sz s c = Some (if er = EOF then None else Some er, s1, c2)"
      using c1(1) by (subst io_copy_loop.simps) (simp add: r c2_def)
    with c2(1) s1(1,2) show ?thesis by blast
  next
    case None
    have lt: "fin s1 < fin s" using rd_progress [OF less.prems(1,2) r] None by simp
    have st: "io_copy_loop rd ControlWriter_Write sz s c = io_copy_loop rd ControlWriter_Write sz s1 c2"
      using c1(1) by (subst io_copy_loop.simps) (simp add: r None c2_def)
    from less.hyps [OF lt s1(1) less.prems(2) c2] lt show ?thesis
      unfolding st by (meson less_imp_le order_trans)
  qed
qed

text \<open>
  The handler returns on every control frame of at most 125 bytes, whatever the source and
  the connection do, when the source holds no more than the frame.
\<close>

lemma handler_returns:
  assumes i: "inv x" and h: "0 \<le> sint (Length h)" "sint (Length h) \<le> 125" and pool: "byte_pool getlen"
    and src: "src_rd sr = rd" "src_WriteTo sr = None"
    and cap: "\<And>n s bs e s'. inv s \<Longrightarrow> rd n s = Some (bs, e, s') \<Longrightarrow> length bs + cap s' \<le> (cap s :: nat)"
    and cx: "cap x \<le> nat (sint (Length h))"
  shows "\<exists>e x' d'. ControlFrameHandler getlen sr st h (x, d) = Some (e, x', d') \<and> inv x' \<and> fin x' \<le> fin x"
proof -
  let ?c = "\<lparr>Src = sr, HState = st, DisableSrcCiphering = True\<rparr>" and ?x = x
  note getlen = byte_pool.getlen [OF pool]
  have c: "src_rd (Src ?c) = rd" "src_WriteTo (Src ?c) = None" "\<not> ciphers ?c"
    using src by (simp_all add: ciphers_def)
  note ix = i
  have ping: "\<exists>e x' d'. HandlePing getlen ?c h ?x d = Some (e, x', d') \<and> inv x' \<and> fin x' \<le> fin x"
  proof (cases "Length h = 0")
    case True
    then show ?thesis using HandlePing_empty [OF True, of getlen ?c ?x d] i by fastforce
  next
    case False
    then have L: "0 < sint (Length h)" using h(1) by (simp add: order_less_le signed_eq_0_iff)
    obtain p where p: "getlen (reply_len ?c h) = Some p" "int (length p) = reply_len ?c h"
      using getlen reply_len_pos [OF L h(2)] by blast
    obtain w where w: "NewControlWriterBuffer d (HState ?c) OpPong p = Some w"
        "filling d (HState ?c) OpPong [] (cw w)" "cn w = 0" "climit w = nat (sint (Length h))"
        "Available (cw w) = nat (sint (Length h))"
      using reply_writer [OF L h(2) p(2), of d OpPong] by auto
    have sz: "0 < copy_size (src_N (Src ?c) ?x)" by (simp add: copy_size_def split: option.split)
    obtain e x' w' pl' where cp: "io_copy_loop (rd) ControlWriter_Write (copy_size (src_N (Src ?c) ?x)) ?x w =
          Some (e, x', w')" "filling d (HState ?c) OpPong pl' (cw w')" "inv x'" "fin x' \<le> fin ?x"
      by (atomize_elim, rule copy_loop_returns [where cap = cap, OF cap ix sz w(2,3)]) (use w(4,5) cx in simp_all)
    have cp': "copy_payload ?c h ?x w = Some (e, x', w')"
      using cp(1) c by (simp add: copy_payload_def io_Copy_def)
    obtain e2 w2 where fl: "Flush (cw w') = Some (e2, w2)"
      using Flush_returns [of "cw w'"] cp(2) by (auto simp: filling_def)
    show ?thesis
      using False p w(1) cp cp' fl
      by (cases e) (auto simp: HandlePing_def ControlWriter_Flush_def)
  qed
  have pong: "\<exists>e x' d'. HandlePong getlen ?c h ?x d = Some (e, x', d') \<and> inv x' \<and> fin x' \<le> fin x"
  proof -
    obtain e x' where di: "io_Discard (rd) ?x = Some (e, x')" "inv x'" "fin x' \<le> fin ?x"
      using io_Discard_returns [OF ix] by blast
    have "HandlePong getlen ?c h ?x d = Some (if Length h = 0 then (None, ?x, d) else (e, x', d))"
      by (rule HandlePong_discards) (use di c h getlen in auto)
    with di i show ?thesis by auto
  qed
  have cls: "\<exists>e x' d'. HandleClose getlen ?c h ?x d = Some (e, x', d') \<and> inv x' \<and> fin x' \<le> fin x"
  proof (cases "Length h = 0")
    case True
    then show ?thesis using HandleClose_empty [OF True, of getlen ?c ?x d] i by fastforce
  next
    case False
    then have L: "0 < sint (Length h)" using h(1) by (simp add: order_less_le signed_eq_0_iff)
    obtain bs e x' where rf: "io_ReadFull (rd) (nat (sint (Length h))) ?x = Some (bs, e, x')"
        "inv x'" "fin x' \<le> fin ?x" "e = None \<longleftrightarrow> length bs = nat (sint (Length h))"
      using io_ReadFull_returns [OF ix] by blast
    have rp: "read_payload ?c h ?x = Some (bs, e, x')" using rf(1) c by (simp add: read_payload_def)
    note s' = rf(2,3)
    show ?thesis
    proof (cases e)
      case (Some er)
      obtain p where p: "getlen (reply_len ?c h) = Some p" "int (length p) = reply_len ?c h"
        using getlen reply_len_pos [OF L h(2)] by blast
      then have "sint (Length h) \<le> int (length p)" by (simp add: reply_len_eq [OF L h(2)])
      with False p L rp Some s' show ?thesis by (auto simp: HandleClose_def)
    next
      case None
      obtain code reason where pc: "ParseCloseFrameData bs = (code, reason)" by (cases "ParseCloseFrameData bs")
      have bs: "sint (Length h) = int (length bs)" "length bs \<le> 125" "bs \<noteq> []" using rf(4) None L h(2) by auto
      obtain er d' where "HandleClose getlen ?c h ?x d = Some (Some er, x', d')"
        using HandleClose_replies [OF rp [unfolded None] bs _ pc, of getlen d] getlen by blast
      with s' show ?thesis by auto
    qed
  qed
  show ?thesis
    using ping pong cls i by (auto simp: ControlFrameHandler_def Handle_def)
qed

end

context framed_reader
begin

lemma frame_cap:
  assumes "framed_inv inv x" and "base_read rd n x = Some (bs, e, x')"
  shows "length bs + nat (fst (snd x')) \<le> nat (fst (snd x))"
proof -
  obtain b N s where x: "x = (b, N, s)" by (cases x) auto
  from assms(2) [unfolded x] show ?thesis
  proof (rule base_readE)
    fix raw L' b'
    assume l: "limited_read rd n (N, s) = Some (raw, e, L')" "x' = (b', L')" "length bs = length raw"
    have i: "inv s" using assms(1) by (simp add: x framed_inv_def)
    from l(1) show ?thesis
    proof (rule limited_readE)
      fix s' assume "0 < N" "rd (min n (nat N)) s = Some (raw, e, s')" "L' = (N - int (length raw), s')"
      with rd_length [OF i this(2)] l(2,3) show ?thesis by (simp add: x) linarith
    qed (use l x in simp)
  qed
qed

lemma frame_handler_returns:
  assumes i: "inv s" and h: "0 \<le> sint (Length h)" "sint (Length h) \<le> 125" and pool: "byte_pool getlen"
  shows "\<exists>e b' N' s' d'. ControlFrameHandler getlen (frame_src rd) st h ((b, sint (Length h), s), d) =
      Some (e, (b', N', s'), d') \<and> inv s' \<and> fin s' \<le> fin s"
proof -
  let ?x = "(b, sint (Length h), s)"
  have x: "framed_inv inv ?x" using i by (simp add: framed_inv_def)
  have "\<exists>e x' d'. ControlFrameHandler getlen (frame_src rd) st h (?x, d) = Some (e, x', d') \<and>
      framed_inv inv x' \<and> framed_fin fin x' \<le> framed_fin fin ?x"
    by (rule base.handler_returns [where cap = "\<lambda>x. nat (fst (snd x))", OF x h pool _ _ frame_cap])
      (simp_all add: frame_src_def)
  then obtain e x' d' where "ControlFrameHandler getlen (frame_src rd) st h (?x, d) = Some (e, x', d')"
      "framed_inv inv x'" "framed_fin fin x' \<le> framed_fin fin ?x" by blast
  then show ?thesis by (cases x') (auto simp: framed_inv_def framed_fin_def)
qed

text \<open>So a reader with the control frame handler as its callback always returns.\<close>

lemma data_conf_reader:
  assumes "byte_pool getlen"
  shows "message_reader rd inv fin (data_conf rd getlen st)"
proof unfold_locales
  fix cb s h N b and w :: dest
  assume cb: "OnIntermediate (data_conf rd getlen st) = Some cb" and i: "inv s"
    and p: "passes (data_conf rd getlen st) h N"
  have c: "cb = ControlFrameHandler getlen (frame_src rd) st" using cb by (simp add: data_conf_def)
  have h: "N = sint (Length h)" "0 \<le> sint (Length h)" "sint (Length h) \<le> 125"
    using p by (auto simp: passes_def data_conf_def zero_conf_def wf_header_def)
  show "\<exists>e b' N' s' w'. cb h ((b, N, s), w) = Some (e, (b', N', s'), w') \<and> inv s' \<and> fin s' \<le> fin s"
    unfolding c h(1) by (rule frame_handler_returns [OF i h(2,3) assms])
qed (simp_all add: data_conf_def zero_conf_def)

end

end
