(* ===== verification/Bufio.thy ===== *)
theory Bufio
  imports GoIO
begin

text \<open>
  The buffered reader and writer of the standard package \<open>bufio\<close>, which the handshakes
  read and write HTTP through. The reader is over any \<open>io.Reader\<close>, the writer over any
  \<open>io.Writer\<close> that is not an \<open>io.StringWriter\<close>, as a network connection.
\<close>

section \<open>bufio.Reader\<close>

text \<open>
  \<open>br_buf\<close> is what is buffered and not yet read. Reading more first slides it to the front
  of the buffer, so that only its length matters.
\<close>

record 's BufReader =
  br_src :: 's
  br_size :: nat
  br_buf :: "byte list"
  br_err :: "err option"

definition NewBufReader :: "'s \<Rightarrow> nat \<Rightarrow> 's BufReader" where
  "NewBufReader s sz = \<lparr>br_src = s, br_size = sz, br_buf = [], br_err = None\<rparr>"

text \<open>\<open>fill\<close>: at most 100 reads, until one stores bytes or reports an error.\<close>

fun fill_tries :: "'s rd \<Rightarrow> nat \<Rightarrow> 's BufReader \<Rightarrow> 's BufReader option" where
  "fill_tries rd 0 b = Some (b\<lparr>br_err := Some ErrNoProgress\<rparr>)"
| "fill_tries rd (Suc i) b =
     Option.bind (rd (br_size b - length (br_buf b)) (br_src b)) (\<lambda>(bs, e, s).
       let b = b\<lparr>br_src := s, br_buf := br_buf b @ bs\<rparr>
       in if e \<noteq> None then Some (b\<lparr>br_err := e\<rparr>)
          else if bs \<noteq> [] then Some b
          else fill_tries rd i b)"

definition br_fill :: "'s rd \<Rightarrow> 's BufReader \<Rightarrow> 's BufReader option" where
  "br_fill rd b = fill_tries rd 100 b"

text \<open>
  \<open>ReadSlice\<close>: the bytes up to the delimiter; or all that is buffered, with the error that
  ended the input, or with \<open>ErrBufferFull\<close> when the buffer holds no delimiter.
\<close>

partial_function (option) ReadSlice ::
  "'s rd \<Rightarrow> byte \<Rightarrow> 's BufReader \<Rightarrow> (byte list \<times> err option \<times> 's BufReader) option" where
  "ReadSlice rd c b =
     (if c \<in> set (br_buf b) then
        Some (takeWhile (\<lambda>x. x \<noteq> c) (br_buf b) @ [c], None, b\<lparr>br_buf := tl (dropWhile (\<lambda>x. x \<noteq> c) (br_buf b))\<rparr>)
      else if br_err b \<noteq> None then Some (br_buf b, br_err b, b\<lparr>br_buf := [], br_err := None\<rparr>)
      else if br_size b \<le> length (br_buf b) then Some (br_buf b, Some ErrBufferFull, b\<lparr>br_buf := []\<rparr>)
      else Option.bind (br_fill rd b) (ReadSlice rd c))"

declare ReadSlice.simps [code]

lemma takeWhile_split:
  "c \<in> set xs \<Longrightarrow> takeWhile (\<lambda>x. x \<noteq> c) xs @ c # tl (dropWhile (\<lambda>x. x \<noteq> c) xs) = xs"
  by (induction xs) auto

text \<open>The number of bytes that are buffered.\<close>

definition br_Buffered :: "'s BufReader \<Rightarrow> nat" where
  "br_Buffered b = length (br_buf b)"

text \<open>
  A stream whose reads store bytes or report an error. \<open>br_data\<close> is what is still to be
  read through the buffer.
\<close>

locale lively_stream = io_stream rd inv fin data ending
  for rd :: "'s rd" and inv and fin and data and ending +
  assumes rd_lively: "inv s \<Longrightarrow> 0 < n \<Longrightarrow> rd n s = Some ([], None, s') \<Longrightarrow> False"
begin

definition br_inv :: "'s BufReader \<Rightarrow> bool" where
  "br_inv b \<longleftrightarrow> inv (br_src b) \<and> 0 < br_size b \<and> length (br_buf b) \<le> br_size b \<and> br_err b \<noteq> Some ErrBufferFull"

definition br_data :: "'s BufReader \<Rightarrow> byte list" where
  "br_data b = br_buf b @ (if br_err b = None then data (br_src b) else [])"

definition br_end :: "'s BufReader \<Rightarrow> err" where
  "br_end b = (case br_err b of None \<Rightarrow> ending (br_src b) | Some e \<Rightarrow> e)"

lemma br_end_buf [simp]: "br_end (b\<lparr>br_buf := x\<rparr>) = br_end b"
  by (simp add: br_end_def split: option.split)

lemma fill_more:
  assumes "br_inv b" "br_err b = None" "length (br_buf b) < br_size b" "ending (br_src b) \<noteq> ErrBufferFull"
  obtains b' where "br_fill rd b = Some b'" "br_inv b'" "br_data b' = br_data b" "br_end b' = br_end b"
    "br_size b' = br_size b" "br_err b' \<noteq> None \<or> fin (br_src b') < fin (br_src b)"
proof -
  let ?n = "br_size b - length (br_buf b)"
  have n: "inv (br_src b)" "0 < ?n" using assms by (simp_all add: br_inv_def)
  obtain bs e s where r: "rd ?n (br_src b) = Some (bs, e, s)" using rd_returns [OF n(1)] by blast
  note l = rd_length [OF n(1) r] rd_inv [OF n(1) r]
  let ?b = "b\<lparr>br_src := s, br_buf := br_buf b @ bs\<rparr>"
  have fill: "br_fill rd b = Some b'" if "\<And>i. fill_tries rd (Suc i) b = Some b'" for b'
    using that [of 99] unfolding br_fill_def by simp
  show thesis
  proof (cases e)
    case None
    have "bs \<noteq> []" using rd_lively [OF n] r None by auto
    then have "br_fill rd b = Some ?b"
      using r None by (intro fill) simp
    then show thesis
      using rd_data [OF n(1) r [unfolded None]] rd_progress [OF n r] None l assms
      by (intro that [of ?b]) (simp_all add: br_inv_def br_data_def br_end_def)
  next
    case (Some er)
    note d = rd_end [OF n(1) r [unfolded Some]]
    have "br_fill rd b = Some (?b\<lparr>br_err := Some er\<rparr>)"
      using r Some by (intro fill) simp
    then show thesis
      using d l assms
      by (intro that [of "?b\<lparr>br_err := Some er\<rparr>"]) (simp_all add: br_inv_def br_data_def br_end_def)
  qed
qed

text \<open>
  What \<open>ReadSlice\<close> answers: the next piece of the stream, a line when it finds the delimiter
  and otherwise a full buffer or the end.
\<close>

definition piece :: "byte \<Rightarrow> 's BufReader \<Rightarrow> byte list \<times> err option \<times> 's BufReader \<Rightarrow> bool" where
  "piece c b = (\<lambda>(bs, e, b'). br_inv b' \<and> br_size b' = br_size b \<and>
     ((e = None \<and> (\<exists>l. c \<notin> set l \<and> bs = l @ [c]) \<and> br_data b = bs @ br_data b' \<and> br_end b' = br_end b)
      \<or> (e = Some ErrBufferFull \<and> bs \<noteq> [] \<and> c \<notin> set bs \<and> br_data b = bs @ br_data b' \<and> br_end b' = br_end b)
      \<or> (e = Some (br_end b) \<and> c \<notin> set bs \<and> br_data b = bs)))"

lemma ReadSlice_piece:
  "br_inv b \<Longrightarrow> br_end b \<noteq> ErrBufferFull \<Longrightarrow> \<exists>x. ReadSlice rd c b = Some x \<and> piece c b x"
proof (induction "(if br_err b = None then Suc (fin (br_src b)) else 0)" arbitrary: b rule: less_induct)
  case less
  consider (Found) "c \<in> set (br_buf b)" | (Err) er where "c \<notin> set (br_buf b)" "br_err b = Some er"
    | (Full) "c \<notin> set (br_buf b)" "br_err b = None" "br_size b \<le> length (br_buf b)"
    | (Fill) "c \<notin> set (br_buf b)" "br_err b = None" "length (br_buf b) < br_size b"
    by fastforce
  then show ?case
  proof cases
    case Found
    let ?l = "takeWhile (\<lambda>x. x \<noteq> c) (br_buf b)" and ?t = "tl (dropWhile (\<lambda>x. x \<noteq> c) (br_buf b))"
    have b: "?l @ c # ?t = br_buf b" by (rule takeWhile_split [OF Found])
    have "length ?t \<le> br_size b"
      using less.prems(1) arg_cong [OF b, of length] by (simp add: br_inv_def)
    moreover have "c \<notin> set ?l" by (auto dest: set_takeWhileD)
    moreover have "br_data b = (?l @ [c]) @ br_data (b\<lparr>br_buf := ?t\<rparr>)" by (simp add: br_data_def b)
    ultimately have "piece c b (?l @ [c], None, b\<lparr>br_buf := ?t\<rparr>)"
      using less.prems(1) by (simp add: piece_def br_inv_def)
    with Found show ?thesis by (subst ReadSlice.simps) simp
  next
    case Err
    then have "piece c b (br_buf b, br_err b, b\<lparr>br_buf := [], br_err := None\<rparr>)"
      using less.prems by (simp add: piece_def br_inv_def br_data_def br_end_def)
    with Err show ?thesis by (subst ReadSlice.simps) simp
  next
    case Full
    then have "br_buf b \<noteq> []" using less.prems(1) by (auto simp: br_inv_def)
    with Full have "piece c b (br_buf b, Some ErrBufferFull, b\<lparr>br_buf := []\<rparr>)"
      using less.prems by (simp add: piece_def br_inv_def br_data_def br_end_def)
    with Full show ?thesis by (subst ReadSlice.simps) simp
  next
    case Fill
    have "ending (br_src b) \<noteq> ErrBufferFull" using less.prems(2) Fill(2) by (simp add: br_end_def)
    then obtain b' where f: "br_fill rd b = Some b'" "br_inv b'" "br_data b' = br_data b" "br_end b' = br_end b"
        "br_size b' = br_size b" "br_err b' \<noteq> None \<or> fin (br_src b') < fin (br_src b)"
      using fill_more [OF less.prems(1) Fill(2,3)] by blast
    have st: "ReadSlice rd c b = ReadSlice rd c b'" "piece c b = piece c b'"
      using Fill f(1) by (subst ReadSlice.simps, simp) (simp add: piece_def f(3-5))
    have lt: "(if br_err b' = None then Suc (fin (br_src b')) else 0) < (if br_err b = None then Suc (fin (br_src b)) else 0)"
      using f(6) Fill(2) by auto
    have "br_end b' \<noteq> ErrBufferFull" using less.prems(2) f(4) by simp
    from less.hyps [OF lt f(2) this] show ?thesis unfolding st .
  qed
qed

end

text \<open>
  A connection is lively when every answer brings bytes or an error, as the reads of a
  socket do.
\<close>

fun conn_lively :: "rd_event list \<Rightarrow> bool" where
  "conn_lively [] = True"
| "conn_lively (REv d e # es) = ((e = None \<longleftrightarrow> d \<noteq> []) \<and> conn_lively es)"

lemma conn_lively_sane: "conn_lively s \<Longrightarrow> conn_sane s"
  by (induction s rule: conn_lively.induct) auto

interpretation lively: lively_stream conn_read conn_lively conn_fin conn_data conn_end
proof unfold_locales
  fix n s bs e s'
  assume "conn_lively s" and r: "conn_read n s = Some (bs, e, s')"
  then show "conn_lively s'" by (cases rule: conn_read_cases [of s n]) auto
next
  fix n s s'
  assume "conn_lively s" "0 < n" and r: "conn_read n s = Some ([], None, s')"
  then show False by (cases rule: conn_read_cases [of s n]) auto
qed (use conn.rd_returns conn.rd_length conn.rd_progress conn.rd_fin in
      \<open>auto dest: conn_lively_sane net.rd_data net.rd_end\<close>)

section \<open>bufio.Writer\<close>

record 'd BufWriter =
  bw_dst :: 'd
  bw_size :: nat
  bw_buf :: "byte list"
  bw_err :: "err option"

definition NewBufWriter :: "'d \<Rightarrow> nat \<Rightarrow> 'd BufWriter" where
  "NewBufWriter d sz = \<lparr>bw_dst = d, bw_size = sz, bw_buf = [], bw_err = None\<rparr>"

definition bw_Available :: "'d BufWriter \<Rightarrow> nat" where
  "bw_Available b = bw_size b - length (bw_buf b)"

text \<open>\<open>Flush\<close>: after a short write the rest stays in the buffer and the error stays for good.\<close>

definition bw_Flush :: "'d wr \<Rightarrow> 'd BufWriter \<Rightarrow> (err option \<times> 'd BufWriter) option" where
  "bw_Flush wr b =
     (if bw_err b \<noteq> None then Some (bw_err b, b)
      else if bw_buf b = [] then Some (None, b)
      else Option.bind (wr (bw_buf b) (bw_dst b)) (\<lambda>(n, e, d).
        let e = (if n < length (bw_buf b) \<and> e = None then Some ErrShortWrite else e)
        in if e \<noteq> None then Some (e, b\<lparr>bw_dst := d, bw_buf := drop n (bw_buf b), bw_err := e\<rparr>)
           else Some (None, b\<lparr>bw_dst := d, bw_buf := []\<rparr>)))"

text \<open>
  \<open>Write\<close> hands a large write over an empty buffer directly to the writer below;
  \<open>WriteString\<close> always copies.
\<close>

partial_function (option) bw_loop ::
  "bool \<Rightarrow> 'd wr \<Rightarrow> nat \<Rightarrow> byte list \<Rightarrow> 'd BufWriter \<Rightarrow> (nat \<times> err option \<times> 'd BufWriter) option" where
  "bw_loop direct wr nn p b =
     (if bw_Available b < length p \<and> bw_err b = None then
        (if direct \<and> bw_buf b = [] then
           Option.bind (wr p (bw_dst b)) (\<lambda>(n, e, d).
             bw_loop direct wr (nn + n) (drop n p) (b\<lparr>bw_dst := d, bw_err := e\<rparr>))
         else
           Option.bind (bw_Flush wr (b\<lparr>bw_buf := bw_buf b @ take (bw_Available b) p\<rparr>)) (\<lambda>(e, b').
             bw_loop direct wr (nn + bw_Available b) (drop (bw_Available b) p) b'))
      else if bw_err b \<noteq> None then Some (nn, bw_err b, b)
      else Some (nn + length p, None, b\<lparr>bw_buf := bw_buf b @ p\<rparr>))"

declare bw_loop.simps [code]

definition bw_Write :: "'d wr \<Rightarrow> 'd BufWriter wr" where
  "bw_Write wr p b = bw_loop True wr 0 p b"

definition bw_WriteString :: "'d wr \<Rightarrow> 'd BufWriter wr" where
  "bw_WriteString wr s b = bw_loop False wr 0 s b"

definition bw_WriteByte :: "'d wr \<Rightarrow> byte \<Rightarrow> 'd BufWriter \<Rightarrow> (err option \<times> 'd BufWriter) option" where
  "bw_WriteByte wr c b =
     (if bw_err b \<noteq> None then Some (bw_err b, b)
      else if bw_Available b = 0 then
        Option.bind (bw_Flush wr b) (\<lambda>(e, b).
          if e \<noteq> None then Some (e, b) else Some (None, b\<lparr>bw_buf := bw_buf b @ [c]\<rparr>))
      else Some (None, b\<lparr>bw_buf := bw_buf b @ [c]\<rparr>))"

text \<open>
  The buffered writer over a writer is a writer: what it has taken is what reached the
  destination followed by what is buffered. \<open>calm\<close> says of a destination that no write to it
  fails.
\<close>

locale buffered_writer = io_writer wr winv out
  for wr :: "'d wr" and winv and out +
  fixes calm :: "'d \<Rightarrow> bool"
  assumes wr_calm: "winv d \<Longrightarrow> calm d \<Longrightarrow> wr p d = Some (n, e, d') \<Longrightarrow> e = None \<and> calm d'"
begin

definition bw_inv :: "'d BufWriter \<Rightarrow> bool" where
  "bw_inv b \<longleftrightarrow> winv (bw_dst b) \<and> 0 < bw_size b \<and> length (bw_buf b) \<le> bw_size b"

definition bw_out :: "'d BufWriter \<Rightarrow> byte list" where
  "bw_out b = out (bw_dst b) @ bw_buf b"

definition bw_calm :: "'d BufWriter \<Rightarrow> bool" where
  "bw_calm b \<longleftrightarrow> calm (bw_dst b) \<and> bw_err b = None"

lemma bw_inv_New: "winv d \<Longrightarrow> 0 < sz \<Longrightarrow> bw_inv (NewBufWriter d sz)"
  by (simp add: bw_inv_def NewBufWriter_def)

lemma bw_out_New: "bw_out (NewBufWriter d sz) = out d"
  by (simp add: bw_out_def NewBufWriter_def)

lemma bw_calm_New: "bw_calm (NewBufWriter d sz) \<longleftrightarrow> calm d"
  by (simp add: bw_calm_def NewBufWriter_def)

text \<open>What flushing does, also when the buffer is full beyond its size for the moment.\<close>

lemma bw_Flush_out:
  assumes "winv (bw_dst b)" "bw_err b = None"
  obtains e b' where "bw_Flush wr b = Some (e, b')" "winv (bw_dst b')" "bw_size b' = bw_size b" "bw_out b' = bw_out b"
    "bw_err b' = e" "e = None \<longrightarrow> bw_buf b' = []" "length (bw_buf b') \<le> length (bw_buf b)" "bw_calm b \<longrightarrow> bw_calm b'"
proof (cases "bw_buf b = []")
  case True
  with assms show thesis by (intro that [of None b]) (simp_all add: bw_Flush_def)
next
  case False
  obtain n e d where w: "wr (bw_buf b) (bw_dst b) = Some (n, e, d)" using wr_returns [OF assms(1)] by blast
  note o = wr_out [OF assms(1) w] wr_full [OF assms(1) w] wr_inv [OF assms(1) w] wr_calm [OF assms(1) _ w]
  show thesis
  proof (cases e)
    case None
    then have "bw_Flush wr b = Some (None, b\<lparr>bw_dst := d, bw_buf := []\<rparr>)"
      using False assms(2) w o(2) by (simp add: bw_Flush_def)
    then show thesis
      by (rule that [of None "b\<lparr>bw_dst := d, bw_buf := []\<rparr>"]) (use assms o None in \<open>simp_all add: bw_out_def bw_calm_def\<close>)
  next
    case (Some er)
    then have "bw_Flush wr b = Some (e, b\<lparr>bw_dst := d, bw_buf := drop n (bw_buf b), bw_err := e\<rparr>)"
      using False assms(2) w by (simp add: bw_Flush_def Let_def)
    then show thesis
      by (rule that [of e "b\<lparr>bw_dst := d, bw_buf := drop n (bw_buf b), bw_err := e\<rparr>"])
        (use assms o Some in \<open>auto simp: bw_out_def bw_calm_def\<close>)
  qed
qed

definition puts :: "'d BufWriter \<Rightarrow> byte list \<Rightarrow> 'd BufWriter \<Rightarrow> bool" where
  "puts b p b' \<longleftrightarrow> bw_inv b' \<and> bw_size b' = bw_size b \<and>
     (if bw_err b \<noteq> None then b' = b
      else (\<exists>k. bw_out b' = bw_out b @ take k p) \<and> (bw_err b' = None \<longrightarrow> bw_out b' = bw_out b @ p)) \<and>
     (bw_calm b \<longrightarrow> bw_calm b')"

lemma puts_refl: "bw_inv b \<Longrightarrow> puts b [] b"
  by (simp add: puts_def)

lemma puts_trans:
  assumes "puts b p b1" "puts b1 q b2"
  shows "puts b (p @ q) b2"
proof -
  have i: "bw_inv b2" "bw_size b2 = bw_size b" "bw_calm b \<longrightarrow> bw_calm b2"
    using assms by (simp_all add: puts_def)
  have e: "bw_err b \<noteq> None \<Longrightarrow> b2 = b" using assms by (auto simp: puts_def)
  have o: "(\<exists>k. bw_out b2 = bw_out b @ take k (p @ q)) \<and> (bw_err b2 = None \<longrightarrow> bw_out b2 = bw_out b @ p @ q)"
    if n: "bw_err b = None"
  proof (cases "bw_err b1")
    case None
    obtain k where "bw_out b2 = bw_out b1 @ take k q" using assms(2) None by (auto simp: puts_def)
    moreover have "bw_err b2 = None \<longrightarrow> bw_out b2 = bw_out b1 @ q" using assms(2) None by (simp add: puts_def)
    moreover have "bw_out b1 = bw_out b @ p" using assms(1) None n by (simp add: puts_def)
    ultimately show ?thesis by (intro conjI exI [of _ "length p + k"]) simp_all
  next
    case (Some x)
    then have b2: "b2 = b1" using assms(2) by (simp add: puts_def)
    obtain k where "bw_out b1 = bw_out b @ take k p"
      using assms(1) n by (auto simp: puts_def)
    then have "bw_out b1 = bw_out b @ take (min k (length p)) (p @ q)" by (simp add: min_def)
    with Some b2 show ?thesis by (intro conjI exI [of _ "min k (length p)"]) simp_all
  qed
  show ?thesis using i e o by (auto simp: puts_def)
qed

lemma puts_take:
  assumes "puts b (take n p) b'" "bw_err b' \<noteq> None"
  shows "puts b p b'"
proof -
  have "\<exists>k'. take k (take n p) = take k' p" for k by (rule exI [of _ "min k n"]) simp
  with assms show ?thesis by (auto simp: puts_def)
qed

lemma bw_loop_puts:
  "bw_inv b \<Longrightarrow> \<exists>n e b'. bw_loop direct wr nn p b = Some (nn + n, e, b') \<and> puts b p b' \<and> bw_err b' = e \<and>
     n \<le> length p \<and> (e = None \<longrightarrow> n = length p) \<and> (bw_err b = None \<longrightarrow> bw_out b' = bw_out b @ take n p)"
proof (induction "length p + (if bw_buf b = [] then 0 else 1)" arbitrary: nn p b rule: less_induct)
  case less
  let ?k = "bw_Available b"
  consider (Err) er where "bw_err b = Some er" | (Fits) "bw_err b = None" "length p \<le> ?k"
    | (More) "bw_err b = None" "?k < length p"
    by (cases "bw_err b") fastforce+
  then show ?case
  proof cases
    case Err
    then show ?thesis using less.prems by (subst bw_loop.simps) (simp add: puts_def bw_calm_def)
  next
    case Fits
    then show ?thesis
      using less.prems by (subst bw_loop.simps)
        (auto simp: puts_def bw_calm_def bw_out_def bw_inv_def bw_Available_def intro: exI [of _ "length p"])
  next
    case More
    have w: "winv (bw_dst b)" "0 < bw_size b" "length (bw_buf b) \<le> bw_size b"
      using less.prems by (simp_all add: bw_inv_def)
    obtain n b1 where st: "bw_loop direct wr nn p b = bw_loop direct wr (nn + n) (drop n p) b1"
      "n \<le> length p" "puts b (take n p) b1" "bw_out b1 = bw_out b @ take n p"
      "bw_err b1 = None \<Longrightarrow> length (drop n p) + (if bw_buf b1 = [] then 0 else 1) < length p + (if bw_buf b = [] then 0 else 1)"
    proof (cases "direct \<and> bw_buf b = []")
      case True
      obtain n e d where wr: "wr p (bw_dst b) = Some (n, e, d)" using wr_returns [OF w(1)] by blast
      note o = wr_out [OF w(1) wr] wr_full [OF w(1) wr] wr_inv [OF w(1) wr] wr_calm [OF w(1) _ wr]
      let ?b = "b\<lparr>bw_dst := d, bw_err := e\<rparr>"
      have out: "bw_out ?b = bw_out b @ take n p" using True o(1) by (simp add: bw_out_def)
      moreover have "bw_inv ?b" using o(3) w by (simp add: bw_inv_def)
      moreover have "bw_calm b \<longrightarrow> bw_calm ?b" using o(4) by (simp add: bw_calm_def)
      ultimately have "puts b (take n p) ?b"
        using More(1) unfolding puts_def by (auto intro: exI [of _ n])
      moreover have "bw_loop direct wr nn p b = bw_loop direct wr (nn + n) (drop n p) ?b"
        using True More wr by (subst bw_loop.simps) simp
      ultimately show thesis
        using out o(2) More(2) True by (intro that [of n ?b]) auto
    next
      case False
      let ?f = "b\<lparr>bw_buf := bw_buf b @ take ?k p\<rparr>"
      have l: "length (bw_buf b @ take ?k p) = bw_size b"
        using w More(2) by (simp add: bw_Available_def)
      have i: "winv (bw_dst ?f)" "bw_err ?f = None" using w More by simp_all
      obtain e b' where f: "bw_Flush wr ?f = Some (e, b')" "winv (bw_dst b')" "bw_size b' = bw_size ?f" "bw_out b' = bw_out ?f"
        "bw_err b' = e" "e = None \<longrightarrow> bw_buf b' = []" "length (bw_buf b') \<le> length (bw_buf ?f)"
        "bw_calm ?f \<longrightarrow> bw_calm b'"
        by (rule bw_Flush_out [OF i])
      have out: "bw_out b' = bw_out b @ take ?k p" using f(4) by (simp add: bw_out_def)
      moreover have "bw_inv b'" "bw_size b' = bw_size b" using f l w by (simp_all add: bw_inv_def)
      moreover have "bw_calm b \<longrightarrow> bw_calm b'" using f(8) by (simp add: bw_calm_def)
      ultimately have "puts b (take ?k p) b'"
        using More(1) unfolding puts_def by (auto intro: exI [of _ ?k])
      moreover have "bw_loop direct wr nn p b = bw_loop direct wr (nn + ?k) (drop ?k p) b'"
        using False More f(1) by (subst bw_loop.simps) auto
      moreover have "bw_buf b = [] \<Longrightarrow> 0 < ?k" using w by (simp add: bw_Available_def)
      ultimately show thesis
        using out f(5,6) More(2) by (intro that [of ?k b']) (auto split: if_splits)
    qed
    have b1: "bw_inv b1" using st(3) by (simp add: puts_def)
    show ?thesis
    proof (cases "bw_err b1")
      case None
      obtain n' e b' where ih: "bw_loop direct wr (nn + n) (drop n p) b1 = Some (nn + n + n', e, b')"
        "puts b1 (drop n p) b'" "bw_err b' = e" "n' \<le> length (drop n p)" "e = None \<longrightarrow> n' = length (drop n p)"
        "bw_out b' = bw_out b1 @ take n' (drop n p)"
        using less.hyps [OF st(5) [OF None] b1, of "nn + n"] None by auto
      have "puts b p b'" using puts_trans [OF st(3) ih(2)] by simp
      moreover have "bw_out b' = bw_out b @ take (n + n') p" using ih(6) st(4) by (simp add: take_add)
      ultimately show ?thesis
        using ih(1,3-5) st(1,2)
        by (intro exI [of _ "n + n'"] exI [of _ e] exI [of _ b']) (simp add: add.assoc)
    next
      case (Some er)
      have "bw_loop direct wr (nn + n) (drop n p) b1 = Some (nn + n, Some er, b1)"
        using Some by (subst bw_loop.simps) simp
      moreover have "puts b p b1" by (rule puts_take [OF st(3)]) (simp add: Some)
      ultimately show ?thesis using st(1,2,4) Some
        by (intro exI [of _ n] exI [of _ "Some er"] exI [of _ b1]) simp
    qed
  qed
qed

lemma bw_Write_puts: "bw_inv b \<Longrightarrow> \<exists>n b'. bw_Write wr p b = Some (n, bw_err b', b') \<and> puts b p b'"
  unfolding bw_Write_def using bw_loop_puts [of b True 0 p] by fastforce

lemma bw_WriteString_puts: "bw_inv b \<Longrightarrow> \<exists>n b'. bw_WriteString wr p b = Some (n, bw_err b', b') \<and> puts b p b'"
  unfolding bw_WriteString_def using bw_loop_puts [of b False 0 p] by fastforce

lemma bw_WriteByte_puts: "bw_inv b \<Longrightarrow> \<exists>b'. bw_WriteByte wr c b = Some (bw_err b', b') \<and> puts b [c] b'"
proof -
  assume i: "bw_inv b"
  show ?thesis
  proof (cases "bw_err b = None \<and> bw_Available b = 0")
    case True
    then obtain e b' where f: "bw_Flush wr b = Some (e, b')" "winv (bw_dst b')" "bw_size b' = bw_size b" "bw_out b' = bw_out b"
        "bw_err b' = e" "e = None \<longrightarrow> bw_buf b' = []" "length (bw_buf b') \<le> length (bw_buf b)" "bw_calm b \<longrightarrow> bw_calm b'"
      using bw_Flush_out [of b] i by (auto simp: bw_inv_def)
    show ?thesis
    proof (cases e)
      case None
      with f i True have "puts b [c] (b'\<lparr>bw_buf := bw_buf b' @ [c]\<rparr>)"
        by (auto simp: puts_def bw_inv_def bw_out_def bw_calm_def intro: exI [of _ 1])
      with None f(1,5) True show ?thesis by (auto simp: bw_WriteByte_def)
    next
      case (Some er)
      with f i True have "puts b [c] b'"
        by (auto simp: puts_def bw_inv_def intro: exI [of _ 0])
      with Some f(1,5) True show ?thesis by (auto simp: bw_WriteByte_def)
    qed
  next
    case False
    then show ?thesis
      using i by (auto simp: bw_WriteByte_def puts_def bw_inv_def bw_out_def bw_calm_def bw_Available_def
          intro: exI [of _ 1])
  qed
qed

lemma bw_Flush_puts:
  "bw_inv b \<Longrightarrow> \<exists>b'. bw_Flush wr b = Some (bw_err b', b') \<and> puts b [] b' \<and> (bw_err b' = None \<longrightarrow> bw_buf b' = [])"
proof (cases "bw_err b")
  case None
  assume i: "bw_inv b"
  then obtain e b' where "bw_Flush wr b = Some (e, b')" "winv (bw_dst b')" "bw_size b' = bw_size b" "bw_out b' = bw_out b"
      "bw_err b' = e" "e = None \<longrightarrow> bw_buf b' = []" "length (bw_buf b') \<le> length (bw_buf b)" "bw_calm b \<longrightarrow> bw_calm b'"
    using bw_Flush_out [OF _ None] by (auto simp: bw_inv_def)
  with i None show ?thesis by (auto simp: puts_def bw_inv_def)
qed (auto simp: bw_Flush_def puts_def bw_calm_def)

end

interpretation conn_bw: buffered_writer conn_write "\<lambda>_. True" conn_out "\<lambda>d. faults d = []"
  by unfold_locales (auto split: list.splits option.splits prod.splits if_splits)

interpretation buffer_bw: buffered_writer buffer_write "\<lambda>_. True" "\<lambda>b. b" "\<lambda>_. True"
  by unfold_locales (auto simp: buffer_write_def)

end
