(* ===== verification/Util.thy ===== *)
theory Util
  imports Bufio
begin

text \<open>
  The helpers of the handshake code (util.go): accept functions, numbers, splitting and
  trimming of header lines, canonical header keys and the reading of lines.
\<close>

section \<open>Accept functions\<close>

fun accept_loop :: "'a list \<Rightarrow> 'a \<Rightarrow> bool" where
  "accept_loop [] p = False"
| "accept_loop (v # vs) p = (if p = v then True else accept_loop vs p)"

text \<open>More than 16 values are put into a map first.\<close>

definition SelectFromSlice :: "'a list \<Rightarrow> 'a \<Rightarrow> bool" where
  "SelectFromSlice accept =
     (if 16 < length accept
      then (let mp = fold (\<lambda>p m. m(p \<mapsto> ())) accept Map.empty in (\<lambda>p. mp p \<noteq> None))
      else accept_loop accept)"

definition SelectEqual :: "'a \<Rightarrow> 'a \<Rightarrow> bool" where
  "SelectEqual v = (\<lambda>p. v = p)"

lemma fold_unit_map: "fold (\<lambda>p m. m(p \<mapsto> ())) xs m p \<noteq> None \<longleftrightarrow> p \<in> set xs \<or> m p \<noteq> None"
  by (induction xs arbitrary: m) auto

lemma accept_loop_set: "accept_loop vs p \<longleftrightarrow> p \<in> set vs"
  by (induction vs) auto

lemma SelectFromSlice_set: "SelectFromSlice accept p \<longleftrightarrow> p \<in> set accept"
  using fold_unit_map [of accept Map.empty p] by (simp add: SelectFromSlice_def accept_loop_set)

section \<open>Numbers\<close>

text \<open>\<open>int\<close> is a 64-bit integer; the multiplications wrap around.\<close>

fun pow_loop :: "int64 \<Rightarrow> int64 \<Rightarrow> nat \<Rightarrow> int64" where
  "pow_loop p a b = (if 0 < b then pow_loop (if odd b then p * a else p) (a * a) (b div 2) else p)"

declare pow_loop.simps [simp del]

definition pow :: "int64 \<Rightarrow> nat \<Rightarrow> int64" where
  "pow a b = pow_loop 1 a b"

text \<open>\<open>string(b)\<close> of a byte is the UTF-8 encoding of the code point with that number.\<close>

definition byte_string :: "byte \<Rightarrow> byte list" where
  "byte_string b = (if b < 0x80 then [b] else [0xC0 OR drop_bit 6 b, 0x80 OR (b AND 0x3F)])"

fun ascii_loop :: "byte list \<Rightarrow> int64 \<Rightarrow> int64 \<times> err option" where
  "ascii_loop [] ret = (ret, None)"
| "ascii_loop (b # bts) ret =
     (if b AND 0xF0 \<noteq> 0x30 then
        (0, Some (FmtError (byte_string b @ str_bytes '' is not a numeric character'')))
      else ascii_loop bts (ret + ucast (b AND 0xF) * pow 10 (length bts)))"

definition asciiToInt :: "byte list \<Rightarrow> int64 \<times> err option" where
  "asciiToInt bts =
     (if bts = [] then (0, Some (FmtError (str_bytes ''converting empty bytes to int'')))
      else ascii_loop bts 0)"

definition min_int :: "int \<Rightarrow> int \<Rightarrow> int" where
  "min_int a b = (if a < b then a else b)"

definition nonZero :: "int \<Rightarrow> int \<Rightarrow> int" where
  "nonZero a b = (if a \<noteq> 0 then a else b)"

text \<open>The binary powers are the powers, up to the wrap-around of the integers.\<close>

lemma pow_loop_power: "pow_loop p a b = p * a ^ b"
proof (induction p a b rule: pow_loop.induct)
  case (1 p a b)
  have sq: "(a * a) ^ (b div 2) = a ^ (2 * (b div 2))" by (simp add: power_mult power2_eq_square)
  show ?case
  proof (cases "b = 0")
    case False
    show ?thesis
    proof (cases "odd b")
      case True
      then have "a ^ b = a * a ^ (2 * (b div 2))" by (metis odd_two_times_div_two_succ power_Suc Suc_eq_plus1)
      with 1 False True sq show ?thesis by (subst pow_loop.simps) (simp add: mult.assoc)
    qed (use 1 False sq in \<open>subst pow_loop.simps, simp\<close>)
  qed (simp add: pow_loop.simps)
qed

lemma pow_power: "pow a b = a ^ b"
  by (simp add: pow_def pow_loop_power)

text \<open>The characters that are taken for digits, and the number they spell.\<close>

definition digit :: "byte \<Rightarrow> bool" where
  "digit b \<longleftrightarrow> 0x30 \<le> b \<and> b \<le> 0x3F"

fun spelled :: "byte list \<Rightarrow> nat" where
  "spelled [] = 0"
| "spelled (b # bs) = (unat b - 48) * 10 ^ length bs + spelled bs"

lemma low_bits: "unat (b AND 0xF :: byte) = unat b mod 16"
proof -
  have "b AND 0xF = take_bit 4 b" by (simp add: take_bit_eq_mask mask_eq_exp_minus_1)
  then show ?thesis by (simp add: take_bit_eq_mod unat_mod)
qed

lemma digit_bits: "b AND 0xF0 = 0x30 \<longleftrightarrow> digit b"
proof -
  have c: "(0xF0 :: byte) = push_bit 4 (mask 4)" by (simp add: mask_eq_exp_minus_1)
  have a: "b AND 0xF0 = push_bit 4 (drop_bit 4 b)"
    unfolding c by (rule bit_eqI) (auto simp: bit_simps)
  have "drop_bit 4 (push_bit 4 (drop_bit 4 b)) = drop_bit 4 b"
    by (rule bit_eqI) (auto simp: bit_simps dest: bit_imp_le_length)
  moreover have "drop_bit 4 (48 :: byte) = 3" "push_bit 4 (3 :: byte) = 48" by simp_all
  ultimately have "b AND 0xF0 = 0x30 \<longleftrightarrow> drop_bit 4 b = 3" unfolding a by (metis (no_types))
  also have "\<dots> \<longleftrightarrow> digit b"
    unfolding digit_def word_le_nat_alt word_unat_eq_iff by (simp add: unat_div drop_bit_eq_div) arith
  finally show ?thesis .
qed

lemma digit_value:
  assumes "digit b"
  shows "unat (b AND 0xF) = unat b - 48"
proof -
  have "48 \<le> unat b" "unat b \<le> 63" using assms by (simp_all add: digit_def word_le_nat_alt)
  then have k: "unat b = 48 + (unat b - 48)" "unat b - 48 < 16" by simp_all
  have "(3 * 16 + (unat b - 48)) mod 16 = unat b - 48" using k(2) by (simp only: mod_mult_self3 mod_less)
  then show ?thesis using k(1) unfolding low_bits by simp
qed

lemma ascii_loop_spelled:
  "\<forall>b \<in> set bts. digit b \<Longrightarrow> ascii_loop bts ret = (ret + of_nat (spelled bts), None)"
proof (induction bts arbitrary: ret)
  case (Cons b bts)
  have "(ucast (b AND 0xF) :: int64) = of_nat (unat (b AND 0xF))" by simp
  then have "(ucast (b AND 0xF) :: int64) = of_nat (unat b - 48)"
    using digit_value [of b] Cons.prems by simp
  with Cons show ?case by (simp add: digit_bits pow_power add.assoc)
qed simp

lemma ascii_loop_bad: "\<not> (\<forall>b \<in> set bts. digit b) \<Longrightarrow> \<exists>t. ascii_loop bts ret = (0, Some (FmtError t))"
  by (induction bts arbitrary: ret) (auto simp: digit_bits)

text \<open>The parser accepts exactly the non-empty texts of digits, and reads their number modulo \<open>2^64\<close>.\<close>

lemma asciiToInt_spec:
  "snd (asciiToInt bts) = None \<longleftrightarrow> bts \<noteq> [] \<and> (\<forall>b \<in> set bts. digit b)"
  "snd (asciiToInt bts) = None \<Longrightarrow> fst (asciiToInt bts) = of_nat (spelled bts)"
proof -
  show e: "snd (asciiToInt bts) = None \<longleftrightarrow> bts \<noteq> [] \<and> (\<forall>b \<in> set bts. digit b)"
    using ascii_loop_spelled [of bts 0] ascii_loop_bad [of bts 0]
    by (cases "\<forall>b \<in> set bts. digit b") (auto simp: asciiToInt_def)
  show "fst (asciiToInt bts) = of_nat (spelled bts)" if "snd (asciiToInt bts) = None"
    using that ascii_loop_spelled [of bts 0] unfolding e by (simp add: asciiToInt_def)
qed

lemma spelled_append: "spelled (xs @ ys) = spelled xs * 10 ^ length ys + spelled ys"
  by (induction xs) (simp_all add: power_add algebra_simps)

lemma unat_digit: "n < 10 \<Longrightarrow> unat (of_nat (48 + n) :: byte) = 48 + n"
  by (simp add: unat_of_nat del: of_nat_add)

lemma digit_of_nat: "n < 10 \<Longrightarrow> digit (of_nat (48 + n))"
  by (simp add: digit_def word_le_nat_alt unat_digit del: of_nat_add)

lemma itoa_digits: "itoa n \<noteq> [] \<and> (\<forall>b \<in> set (itoa n). digit b) \<and> spelled (itoa n) = n"
proof (induction n rule: itoa.induct)
  case (1 n)
  show ?case
  proof (cases "n < 10")
    case True
    then have "itoa n = [of_nat (48 + n)]" by (subst itoa.simps) simp
    then show ?thesis using True digit_of_nat [of n] unat_digit [of n] by (simp del: of_nat_add)
  next
    case False
    have d: "n mod 10 < 10" by simp
    have "itoa n = itoa (n div 10) @ [of_nat (48 + n mod 10)]" using False by (subst itoa.simps) simp
    with 1 [OF False] digit_of_nat [OF d] unat_digit [OF d] show ?thesis
      by (simp add: spelled_append del: of_nat_add)
  qed
qed

lemma asciiToInt_itoa: "asciiToInt (itoa n) = (of_nat n, None)"
  using asciiToInt_spec [of "itoa n"] itoa_digits [of n] by (metis prod.collapse)

section \<open>Splitting and trimming\<close>

text \<open>\<open>bytes.IndexByte\<close>.\<close>

fun index_byte :: "byte list \<Rightarrow> byte \<Rightarrow> int" where
  "index_byte [] c = -1"
| "index_byte (b # bs) c = (if b = c then 0 else (let i = index_byte bs c in if i < 0 then -1 else i + 1))"

definition bsplit3 :: "byte list \<Rightarrow> byte \<Rightarrow> byte list \<times> byte list \<times> byte list" where
  "bsplit3 bts sep =
     (let a = index_byte bts sep;
          b = index_byte (drop (nat (a + 1)) bts) sep
      in if a = -1 \<or> b = -1 then (bts, [], [])
         else (let b = b + a + 1
               in (take (nat a) bts, take (nat (b - (a + 1))) (drop (nat (a + 1)) bts), drop (nat (b + 1)) bts)))"

definition blank :: "byte \<Rightarrow> bool" where
  "blank b \<longleftrightarrow> b = 32 \<or> b = 9"

function skip_left :: "byte list \<Rightarrow> nat \<Rightarrow> nat" where
  "skip_left bts i = (if i < length bts \<and> blank (bts ! i) then skip_left bts (i + 1) else i)"
  by auto
termination by (relation "measure (\<lambda>(bts, i). length bts - i)") auto

fun skip_right :: "byte list \<Rightarrow> nat \<Rightarrow> nat \<Rightarrow> nat" where
  "skip_right bts i j = (if i < j \<and> blank (bts ! (j - 1)) then skip_right bts i (j - 1) else j)"

declare skip_left.simps [simp del] skip_right.simps [simp del]

definition btrim :: "byte list \<Rightarrow> byte list" where
  "btrim bts =
     (let i = skip_left bts 0; j = skip_right bts i (length bts)
      in take (j - i) (drop i bts))"

lemma index_byte_None: "index_byte bts c = -1 \<longleftrightarrow> c \<notin> set bts" and index_byte_ge: "-1 \<le> index_byte bts c"
  by (induction bts) (auto simp: Let_def)

lemma index_byte_Some: "c \<notin> set xs \<Longrightarrow> index_byte (xs @ c # ys) c = int (length xs)"
  by (induction xs) (auto simp: Let_def)

lemma bsplit3_parts:
  assumes "c \<notin> set x" "c \<notin> set y"
  shows "bsplit3 (x @ c # y @ c # z) c = (x, y, z)"
proof -
  have a: "index_byte (x @ c # y @ c # z) c = int (length x)" by (rule index_byte_Some [OF assms(1)])
  have b: "index_byte (y @ c # z) c = int (length y)" by (rule index_byte_Some [OF assms(2)])
  have n: "nat (int (length x) + 1) = Suc (length x)" by simp
  have n2: "nat (2 + (int (length y) + int (length x))) = length x + Suc (Suc (length y))" by simp
  show ?thesis unfolding bsplit3_def Let_def a n by (simp add: b n2 del: of_nat_add)
qed

lemma bsplit3_few:
  assumes "c \<notin> set x"
  shows "bsplit3 x c = (x, [], [])" and "c \<notin> set y \<Longrightarrow> bsplit3 (x @ c # y) c = (x @ c # y, [], [])"
proof -
  show "bsplit3 x c = (x, [], [])" using index_byte_None [of x c] assms by (simp add: bsplit3_def)
  assume "c \<notin> set y"
  then have "index_byte (x @ c # y) c = int (length x)" "index_byte y c = -1"
    using index_byte_Some [OF assms] index_byte_None by auto
  moreover have "nat (int (length x) + 1) = Suc (length x)" by simp
  ultimately show "bsplit3 (x @ c # y) c = (x @ c # y, [], [])" by (simp add: bsplit3_def)
qed

lemma skip_left_drop: "i \<le> length bts \<Longrightarrow> i \<le> skip_left bts i \<and> drop (skip_left bts i) bts = dropWhile blank (drop i bts)"
proof (induction bts i rule: skip_left.induct)
  case (1 bts i)
  show ?case
  proof (cases "i < length bts \<and> blank (bts ! i)")
    case True
    then have "drop i bts = bts ! i # drop (i + 1) bts" by (simp add: Cons_nth_drop_Suc)
    with 1 True show ?thesis by (subst (1 2) skip_left.simps) simp
  next
    case False
    then have "dropWhile blank (drop i bts) = drop i bts"
      using 1(2) by (cases "i < length bts") (simp_all flip: Cons_nth_drop_Suc)
    moreover have "skip_left bts i = i" using False by (subst skip_left.simps) auto
    ultimately show ?thesis by simp
  qed
qed

lemma skip_right_take:
  "i \<le> j \<Longrightarrow> j \<le> length bts \<Longrightarrow>
     i \<le> skip_right bts i j \<and> take (skip_right bts i j - i) (drop i bts) = rev (dropWhile blank (rev (take (j - i) (drop i bts))))"
proof (induction bts i j rule: skip_right.induct)
  case (1 bts i j)
  show ?case
  proof (cases "i < j")
    case True
    then have "j - i = Suc (j - 1 - i)" by simp
    then have t: "take (j - i) (drop i bts) = take (j - 1 - i) (drop i bts) @ [bts ! (j - 1)]"
      using 1(3) True by (simp add: take_Suc_conv_app_nth)
    with 1 True show ?thesis
      by (cases "blank (bts ! (j - 1))") (subst (1 2) skip_right.simps, simp)+
  qed (use 1(2) in \<open>subst (1 2) skip_right.simps, simp\<close>)
qed

lemma btrim_spec: "btrim bts = rev (dropWhile blank (rev (dropWhile blank bts)))"
proof -
  have l: "drop (skip_left bts 0) bts = dropWhile blank bts" using skip_left_drop [of 0 bts] by simp
  have le: "skip_left bts 0 \<le> length bts"
  proof -
    have "i \<le> length bts \<Longrightarrow> skip_left bts i \<le> length bts" for i
      by (induction bts i rule: skip_left.induct) (subst skip_left.simps, simp)
    then show ?thesis by simp
  qed
  show ?thesis
    using skip_right_take [OF le order_refl] unfolding btrim_def Let_def l by (simp flip: length_drop l)
qed

section \<open>Header keys and tokens\<close>

text \<open>\<open>canonicalizeHeaderKey\<close> rewrites the slice; its new contents are the result here.\<close>

fun canon_loop :: "bool \<Rightarrow> byte list \<Rightarrow> byte list" where
  "canon_loop upper [] = []"
| "canon_loop upper (c # k) =
     (if upper \<and> 0x61 \<le> c \<and> c \<le> 0x7A then c AND 0xDF
      else if \<not> upper \<and> 0x41 \<le> c \<and> c \<le> 0x5A then c OR 0x20
      else c) # canon_loop (c = 0x2D) k"

definition canonicalizeHeaderKey :: "byte list \<Rightarrow> byte list" where
  "canonicalizeHeaderKey k = canon_loop True k"

text \<open>
  \<open>bytes.EqualFold(s, t)\<close> for an ASCII \<open>t\<close>, the only use here: besides the other case of a
  letter, the Kelvin sign (U+212A) folds to \<open>k\<close> and the long s (U+017F) to \<open>s\<close>.
\<close>

definition lower :: "byte \<Rightarrow> byte" where
  "lower c = (if 0x41 \<le> c \<and> c \<le> 0x5A then c OR 0x20 else c)"

fun EqualFold :: "byte list \<Rightarrow> byte list \<Rightarrow> bool" where
  "EqualFold s [] = (s = [])"
| "EqualFold s (c # t) =
     (case s of
        [] \<Rightarrow> False
      | b # s1 \<Rightarrow>
          if b < 0x80 then lower b = lower c \<and> EqualFold s1 t
          else if take 3 s = [0xE2, 0x84, 0xAA] then lower c = 0x6B \<and> EqualFold (drop 3 s) t
          else if take 2 s = [0xC5, 0xBF] then lower c = 0x73 \<and> EqualFold (drop 2 s) t
          else False)"

text \<open>
  \<open>httphead.ScanTokens\<close> is not part of the program: an argument of the model answers, for a
  header and a callback, the tokens the callback was called with, in order, and the result.
\<close>

type_synonym scan_tokens = "byte list \<Rightarrow> (byte list \<Rightarrow> bool) \<Rightarrow> byte list list \<times> bool"

definition btsHasToken :: "scan_tokens \<Rightarrow> byte list \<Rightarrow> byte list \<Rightarrow> bool" where
  "btsHasToken ScanTokens header token =
     (let (calls, ok) = ScanTokens header (\<lambda>v. \<not> EqualFold v token)
      in fold (\<lambda>v has. EqualFold v token) calls False)"

text \<open>A Go string and the slice of its bytes are the same value here.\<close>

definition strToBytes :: "byte list \<Rightarrow> byte list" where
  "strToBytes str = str"

definition btsToString :: "byte list \<Rightarrow> byte list" where
  "btsToString bts = bts"

definition strHasToken :: "scan_tokens \<Rightarrow> byte list \<Rightarrow> byte list \<Rightarrow> bool" where
  "strHasToken ScanTokens header token = btsHasToken ScanTokens (strToBytes header) (strToBytes token)"

section \<open>Lines\<close>

definition cut_line :: "byte list \<Rightarrow> byte list" where
  "cut_line line =
     (let n = length line
      in if 1 < n \<and> line ! (n - 2) = 13 then take (n - 2) line else take (n - 1) line)"

partial_function (option) read_line_loop ::
  "'s rd \<Rightarrow> byte list \<Rightarrow> 's BufReader \<Rightarrow> (byte list \<times> err option \<times> 's BufReader) option" where
  "read_line_loop rd line br =
     Option.bind (ReadSlice rd 10 br) (\<lambda>(bts, e, br).
       if e = Some ErrBufferFull then read_line_loop rd (line @ bts) br
       else if e \<noteq> None then Some (line @ bts, e, br)
       else Some (cut_line (line @ bts), None, br))"

declare read_line_loop.simps [code]

definition readLine :: "'s rd \<Rightarrow> 's BufReader \<Rightarrow> (byte list \<times> err option \<times> 's BufReader) option" where
  "readLine rd br = read_line_loop rd [] br"

definition strip_cr :: "byte list \<Rightarrow> byte list" where
  "strip_cr l = (if l \<noteq> [] \<and> last l = 13 then butlast l else l)"

lemma cut_line_strip: "cut_line (l @ [10]) = strip_cr l"
  by (cases l rule: rev_cases) (auto simp: cut_line_def strip_cr_def Let_def nth_append)

context lively_stream
begin

text \<open>
  Whatever the size of the buffer and however the stream is delivered, \<open>readLine\<close> gives the
  next line of the stream without its end, or the rest of the stream and its error.
\<close>

lemma read_line_loop_data:
  "br_inv b \<Longrightarrow> br_end b \<noteq> ErrBufferFull \<Longrightarrow> 10 \<notin> set line \<Longrightarrow>
     \<exists>bs e b'. read_line_loop rd line b = Some (bs, e, b') \<and> br_inv b' \<and>
       (case e of
          None \<Rightarrow> \<exists>l. 10 \<notin> set l \<and> bs = strip_cr l \<and> line @ br_data b = l @ 10 # br_data b' \<and> br_end b' = br_end b
        | Some er \<Rightarrow> er = br_end b \<and> bs = line @ br_data b \<and> 10 \<notin> set bs)"
proof (induction "length (br_data b)" arbitrary: line b rule: less_induct)
  case less
  obtain bts e b1 where r: "ReadSlice rd 10 b = Some (bts, e, b1)" "piece 10 b (bts, e, b1)"
    using ReadSlice_piece [OF less.prems(1,2), of 10] by auto
  consider (Line) l where "e = None" "10 \<notin> set l" "bts = l @ [10]" "br_data b = bts @ br_data b1" "br_end b1 = br_end b" "br_inv b1"
    | (Full) "e = Some ErrBufferFull" "bts \<noteq> []" "10 \<notin> set bts" "br_data b = bts @ br_data b1" "br_end b1 = br_end b" "br_inv b1"
    | (End) "e = Some (br_end b)" "10 \<notin> set bts" "br_data b = bts" "br_inv b1"
    using r(2) by (auto simp: piece_def)
  then show ?case
  proof cases
    case Line
    have "read_line_loop rd line b = Some (strip_cr (line @ l), None, b1)"
      using r(1) Line cut_line_strip [of "line @ l"] by (subst read_line_loop.simps) simp
    with Line less.prems(3) show ?thesis
      by (intro exI [of _ "strip_cr (line @ l)"] exI [of _ None] exI [of _ b1] conjI)
        (auto intro!: exI [of _ "line @ l"])
  next
    case Full
    have st: "read_line_loop rd line b = read_line_loop rd (line @ bts) b1"
      using r(1) Full by (subst read_line_loop.simps) simp
    have "length (br_data b1) < length (br_data b)" "10 \<notin> set (line @ bts)" "br_end b1 \<noteq> ErrBufferFull"
      using Full less.prems by simp_all
    from less.hyps [OF this(1) Full(6) this(3,2)] show ?thesis
      unfolding st Full(4,5) append_assoc .
  next
    case End
    then have "read_line_loop rd line b = Some (line @ bts, Some (br_end b), b1)"
      using r(1) less.prems(2) by (subst read_line_loop.simps) simp
    with End less.prems(3) show ?thesis by simp
  qed
qed

lemma readLine_line:
  assumes "br_inv b" "br_end b \<noteq> ErrBufferFull" "br_data b = l @ 10 # rest" "10 \<notin> set l"
  obtains b' where "readLine rd b = Some (strip_cr l, None, b')" "br_inv b'" "br_data b' = rest" "br_end b' = br_end b"
proof -
  obtain bs e b' where r: "read_line_loop rd [] b = Some (bs, e, b')" "br_inv b'"
    "case e of None \<Rightarrow> \<exists>l. 10 \<notin> set l \<and> bs = strip_cr l \<and> [] @ br_data b = l @ 10 # br_data b' \<and> br_end b' = br_end b
        | Some er \<Rightarrow> er = br_end b \<and> bs = [] @ br_data b \<and> 10 \<notin> set bs"
    using read_line_loop_data [OF assms(1,2), of "[]"] by auto
  have e: "e = None" using r(3) assms(3) by (cases e) auto
  then obtain l' where l': "10 \<notin> set l'" "bs = strip_cr l'" "l @ 10 # rest = l' @ 10 # br_data b'" "br_end b' = br_end b"
    using r(3) assms(3) by auto
  then have "l' = l \<and> br_data b' = rest"
    using assms(4) by (auto simp: append_eq_append_conv2 append_eq_Cons_conv Cons_eq_append_conv)
  with l' r e that show thesis by (simp add: readLine_def)
qed

lemma readLine_end:
  assumes "br_inv b" "br_end b \<noteq> ErrBufferFull" "10 \<notin> set (br_data b)"
  obtains b' where "readLine rd b = Some (br_data b, Some (br_end b), b')" "br_inv b'"
proof -
  obtain bs e b' where r: "read_line_loop rd [] b = Some (bs, e, b')" "br_inv b'"
    "case e of None \<Rightarrow> \<exists>l. 10 \<notin> set l \<and> bs = strip_cr l \<and> [] @ br_data b = l @ 10 # br_data b' \<and> br_end b' = br_end b
        | Some er \<Rightarrow> er = br_end b \<and> bs = [] @ br_data b \<and> 10 \<notin> set bs"
    using read_line_loop_data [OF assms(1,2), of "[]"] by auto
  then have "e = Some (br_end b)" "bs = br_data b" using assms(3) by (auto split: option.splits)
  with r that show thesis by (simp add: readLine_def)
qed

end

end
