(* ===== verification/Nonce.thy ===== *)
theory Nonce
  imports Util
begin

text \<open>
  The keys of the handshake (nonce.go): the base64 encoding of 16 random bytes, and the accept
  value, the base64 encoding of the SHA-1 of the key and a fixed string. The standard packages
  \<open>encoding/base64\<close> and \<open>crypto/sha1\<close> are written out, so that the model computes.
\<close>

section \<open>encoding/base64\<close>

definition b64_alphabet :: "byte list" where
  "b64_alphabet = str_bytes ''ABCDEFGHIJKLMNOPQRSTUVWXYZabcdefghijklmnopqrstuvwxyz0123456789+/''"

text \<open>The character of the low six bits.\<close>

definition b64_char :: "byte \<Rightarrow> byte" where
  "b64_char i = b64_alphabet ! unat (i AND 0x3F)"

definition b64_pad :: byte where
  "b64_pad = 0x3D"

fun base64 :: "byte list \<Rightarrow> byte list" where
  "base64 [] = []"
| "base64 [a] = [b64_char (drop_bit 2 a), b64_char (push_bit 4 a), b64_pad, b64_pad]"
| "base64 [a, b] =
     [b64_char (drop_bit 2 a), b64_char (push_bit 4 a OR drop_bit 4 b), b64_char (push_bit 2 b), b64_pad]"
| "base64 (a # b # c # bs) =
     [b64_char (drop_bit 2 a), b64_char (push_bit 4 a OR drop_bit 4 b),
      b64_char (push_bit 2 b OR drop_bit 6 c), b64_char c] @ base64 bs"

text \<open>\<open>Encode(dst, src)\<close> writes into \<open>dst\<close> and panics when the encoding does not fit.\<close>

definition base64_Encode :: "byte list \<Rightarrow> byte list \<Rightarrow> byte list option" where
  "base64_Encode dst bts = (if length dst < length (base64 bts) then None else Some (put_at 0 (base64 bts) dst))"

section \<open>crypto/sha1\<close>

definition rotl :: "nat \<Rightarrow> uint32 \<Rightarrow> uint32" where
  "rotl n w = push_bit n w OR drop_bit (32 - n) w"

definition sha1_pad :: "byte list \<Rightarrow> byte list" where
  "sha1_pad m =
     m @ [0x80] @ replicate ((119 - length m mod 64) mod 64) 0 @ be_bytes 8 (of_nat (8 * length m) :: uint64)"

text \<open>One round, with the word of the schedule at the head of the window of 16 words.\<close>

fun sha1_f :: "nat \<Rightarrow> uint32 \<Rightarrow> uint32 \<Rightarrow> uint32 \<Rightarrow> uint32 \<times> uint32" where
  "sha1_f t b c d =
     (if t < 20 then ((b AND c) OR (NOT b AND d), 0x5A827999)
      else if t < 40 then (b XOR c XOR d, 0x6ED9EBA1)
      else if t < 60 then ((b AND c) OR (b AND d) OR (c AND d), 0x8F1BBCDC)
      else (b XOR c XOR d, 0xCA62C1D6))"

type_synonym sha1_state = "uint32 \<times> uint32 \<times> uint32 \<times> uint32 \<times> uint32"

fun sha1_rounds :: "nat \<Rightarrow> nat \<Rightarrow> uint32 list \<Rightarrow> sha1_state \<Rightarrow> sha1_state" where
  "sha1_rounds 0 t ws s = s"
| "sha1_rounds (Suc n) t ws (a, b, c, d, e) =
     (let (f, k) = sha1_f t b c d;
          x = rotl 5 a + f + e + k + ws ! 0;
          w = rotl 1 (ws ! 13 XOR ws ! 8 XOR ws ! 2 XOR ws ! 0)
      in sha1_rounds n (t + 1) (tl ws @ [w]) (x, a, rotl 30 b, c, d))"

fun sha1_words :: "byte list \<Rightarrow> uint32 list" where
  "sha1_words (a # b # c # d # bs) = be_word [a, b, c, d] # sha1_words bs"
| "sha1_words _ = []"

fun sha1_block :: "byte list \<Rightarrow> sha1_state \<Rightarrow> sha1_state" where
  "sha1_block block (a, b, c, d, e) =
     (let (a', b', c', d', e') = sha1_rounds 80 0 (sha1_words block) (a, b, c, d, e)
      in (a + a', b + b', c + c', d + d', e + e'))"

function sha1_blocks :: "byte list \<Rightarrow> sha1_state \<Rightarrow> sha1_state" where
  "sha1_blocks m s = (if m = [] then s else sha1_blocks (drop 64 m) (sha1_block (take 64 m) s))"
  by auto
termination by (relation "measure (length \<circ> fst)") auto

declare sha1_blocks.simps [simp del]

definition sha1_Sum :: "byte list \<Rightarrow> byte list" where
  "sha1_Sum m =
     (let (a, b, c, d, e) = sha1_blocks (sha1_pad m) (0x67452301, 0xEFCDAB89, 0x98BADCFE, 0x10325476, 0xC3D2E1F0)
      in be_bytes 4 a @ be_bytes 4 b @ be_bytes 4 c @ be_bytes 4 d @ be_bytes 4 e)"

section \<open>Nonces\<close>

definition nonceKeySize :: nat where "nonceKeySize = 16"
definition nonceSize :: nat where "nonceSize = 24"
definition acceptSize :: nat where "acceptSize = 28"

definition magic :: "byte list" where
  "magic = str_bytes ''258EAFA5-E914-47DA-95CA-C5AB0DC85B11''"

text \<open>The bytes that \<open>rand.Read\<close> gives are the first argument.\<close>

definition initNonce :: "byte list \<Rightarrow> byte list \<Rightarrow> byte list option" where
  "initNonce rnd dst = base64_Encode dst (take nonceKeySize rnd)"

definition initAcceptFromNonce :: "byte list \<Rightarrow> byte list \<Rightarrow> byte list option" where
  "initAcceptFromNonce accept nonce =
     (if length accept \<noteq> acceptSize then None
      else if length nonce \<noteq> nonceSize then None
      else (let p = replicate (nonceSize + length magic) 0;
                p = put_at 0 (take nonceSize nonce) p;
                p = put_at nonceSize magic p
            in base64_Encode accept (sha1_Sum p)))"

definition checkAcceptFromNonce :: "byte list \<Rightarrow> byte list \<Rightarrow> bool option" where
  "checkAcceptFromNonce accept nonce =
     (if length accept \<noteq> acceptSize then Some False
      else do {
        expect \<leftarrow> initAcceptFromNonce (replicate acceptSize 0) nonce;
        Some (expect = accept)
      })"

definition writeAccept :: "'d wr \<Rightarrow> 'd BufWriter \<Rightarrow> byte list \<Rightarrow> (nat \<times> err option \<times> 'd BufWriter) option" where
  "writeAccept wr bw nonce = do {
     accept \<leftarrow> initAcceptFromNonce (replicate acceptSize 0) nonce;
     bw_WriteString wr (btsToString accept) bw
   }"

section \<open>Lengths and decoding\<close>

lemma length_base64: "length (base64 bs) = 4 * ((length bs + 2) div 3)"
proof (induction bs rule: base64.induct)
  case (4 a b c bs)
  have "(length bs + 2 + 3) div 3 = (length bs + 2) div 3 + 1" by simp
  with 4 show ?case by (simp add: add.commute)
qed simp_all

lemma length_sha1_Sum [simp]: "length (sha1_Sum m) = 20"
  by (simp add: sha1_Sum_def split: prod.split)

definition accept_of :: "byte list \<Rightarrow> byte list" where
  "accept_of nonce = base64 (sha1_Sum (nonce @ magic))"

lemma length_accept_of [simp]: "length (accept_of nonce) = acceptSize"
  by (simp add: accept_of_def length_base64 acceptSize_def)

lemma put_at_all: "length xs = length bts \<Longrightarrow> put_at 0 xs bts = xs"
  by (simp add: put_at_fits)

lemma initAccept_eq:
  assumes "length accept = acceptSize" "length nonce = nonceSize"
  shows "initAcceptFromNonce accept nonce = Some (accept_of nonce)"
proof -
  have "put_at nonceSize magic (put_at 0 (take nonceSize nonce) (replicate (nonceSize + length magic) 0)) = nonce @ magic"
    using assms(2) by (simp add: put_at_fits)
  then show ?thesis
    using assms length_accept_of [of nonce]
    by (simp add: initAcceptFromNonce_def base64_Encode_def accept_of_def put_at_all)
qed

end
