(* ===== verification/Http.thy ===== *)
theory Http
  imports Nonce
begin

text \<open>
  Reading and writing the HTTP of the handshakes (http.go). The functions that write take the
  writer below the buffer, \<open>wr\<close>, and the buffered writer last; the results of
  \<open>WriteString\<close> are ignored in the source, the buffer keeps the first error.

  The package \<open>httphead\<close>, which is not part of the program, is the argument \<open>hh\<close>: what its
  functions answer. Its scanners take a callback; \<open>hh_ScanOptions\<close> gets the answer of the
  callback as a function of the calls made so far, and gives the list of all calls and the
  result.
\<close>

section \<open>What the program uses of other packages\<close>

record 'p HeadOption =
  opt_Name :: "byte list"
  opt_Parameters :: 'p

text \<open>The index of the option, its name, and an attribute with its value if there are any.\<close>

type_synonym option_call = "nat \<times> byte list \<times> byte list option \<times> byte list option"

datatype Control = ControlContinue | ControlBreak

record ('p, 'd) httphead =
  hh_ScanTokens :: scan_tokens
  hh_ScanOptions :: "byte list \<Rightarrow> (option_call list \<Rightarrow> Control) \<Rightarrow> option_call list \<times> bool"
  hh_Select :: "byte list \<Rightarrow> 'p HeadOption list \<Rightarrow> ('p HeadOption \<Rightarrow> bool) \<Rightarrow> 'p HeadOption list \<times> bool"
  hh_WriteOptions :: "'p HeadOption list \<Rightarrow> 'd BufWriter \<Rightarrow> 'd BufWriter option"
  hh_Size :: "'p HeadOption \<Rightarrow> int"
  hh_Set :: "byte list \<Rightarrow> byte list option \<Rightarrow> 'p \<Rightarrow> 'p"
  hh_Copy :: "'p \<Rightarrow> 'p"
  hh_zero :: 'p

text \<open>\<open>url.URL\<close>: its scheme, its host and what \<open>RequestURI\<close> answers.\<close>

record URL =
  url_Scheme :: "byte list"
  url_Host :: "byte list"
  url_RequestURI :: "byte list"

text \<open>\<open>http.StatusText\<close>.\<close>

definition status_table :: "(int \<times> string) list" where
  "status_table =
    [(100, ''Continue''), (101, ''Switching Protocols''), (102, ''Processing''), (103, ''Early Hints''),
     (200, ''OK''), (201, ''Created''), (202, ''Accepted''), (203, ''Non-Authoritative Information''),
     (204, ''No Content''), (205, ''Reset Content''), (206, ''Partial Content''), (207, ''Multi-Status''),
     (208, ''Already Reported''), (226, ''IM Used''),
     (300, ''Multiple Choices''), (301, ''Moved Permanently''), (302, ''Found''), (303, ''See Other''),
     (304, ''Not Modified''), (305, ''Use Proxy''), (307, ''Temporary Redirect''), (308, ''Permanent Redirect''),
     (400, ''Bad Request''), (401, ''Unauthorized''), (402, ''Payment Required''), (403, ''Forbidden''),
     (404, ''Not Found''), (405, ''Method Not Allowed''), (406, ''Not Acceptable''),
     (407, ''Proxy Authentication Required''), (408, ''Request Timeout''), (409, ''Conflict''), (410, ''Gone''),
     (411, ''Length Required''), (412, ''Precondition Failed''), (413, ''Request Entity Too Large''),
     (414, ''Request URI Too Long''), (415, ''Unsupported Media Type''),
     (416, ''Requested Range Not Satisfiable''), (417, ''Expectation Failed''), (418, ''I'' @ [CHR 0x27] @ ''m a teapot''),
     (421, ''Misdirected Request''), (422, ''Unprocessable Entity''), (423, ''Locked''),
     (424, ''Failed Dependency''), (425, ''Too Early''), (426, ''Upgrade Required''),
     (428, ''Precondition Required''), (429, ''Too Many Requests''),
     (431, ''Request Header Fields Too Large''), (451, ''Unavailable For Legal Reasons''),
     (500, ''Internal Server Error''), (501, ''Not Implemented''), (502, ''Bad Gateway''),
     (503, ''Service Unavailable''), (504, ''Gateway Timeout''), (505, ''HTTP Version Not Supported''),
     (506, ''Variant Also Negotiates''), (507, ''Insufficient Storage''), (508, ''Loop Detected''),
     (510, ''Not Extended''), (511, ''Network Authentication Required'')]"

definition StatusText :: "int \<Rightarrow> byte list" where
  "StatusText code = (case map_of status_table code of Some s \<Rightarrow> str_bytes s | None \<Rightarrow> [])"

section \<open>Request and status lines\<close>

definition colonAndSpace :: "byte list" where "colonAndSpace = str_bytes '': ''"
definition commaAndSpace :: "byte list" where "commaAndSpace = str_bytes '', ''"

definition textHeadUpgrade :: "byte list" where
  "textHeadUpgrade = str_bytes ''HTTP/1.1 101 Switching Protocols'' @ CRLF @
     str_bytes ''Upgrade: websocket'' @ CRLF @ str_bytes ''Connection: Upgrade'' @ CRLF"

definition headerHost :: "byte list" where "headerHost = str_bytes ''Host''"
definition headerUpgrade :: "byte list" where "headerUpgrade = str_bytes ''Upgrade''"
definition headerConnection :: "byte list" where "headerConnection = str_bytes ''Connection''"
definition headerSecVersion :: "byte list" where "headerSecVersion = str_bytes ''Sec-WebSocket-Version''"
definition headerSecProtocol :: "byte list" where "headerSecProtocol = str_bytes ''Sec-WebSocket-Protocol''"
definition headerSecExtensions :: "byte list" where "headerSecExtensions = str_bytes ''Sec-WebSocket-Extensions''"
definition headerSecKey :: "byte list" where "headerSecKey = str_bytes ''Sec-WebSocket-Key''"
definition headerSecAccept :: "byte list" where "headerSecAccept = str_bytes ''Sec-WebSocket-Accept''"

definition headerHostCanonical :: "byte list" where "headerHostCanonical = headerHost"
definition headerUpgradeCanonical :: "byte list" where "headerUpgradeCanonical = headerUpgrade"
definition headerConnectionCanonical :: "byte list" where "headerConnectionCanonical = headerConnection"
definition headerSecVersionCanonical :: "byte list" where
  "headerSecVersionCanonical = str_bytes ''Sec-Websocket-Version''"
definition headerSecProtocolCanonical :: "byte list" where
  "headerSecProtocolCanonical = str_bytes ''Sec-Websocket-Protocol''"
definition headerSecExtensionsCanonical :: "byte list" where
  "headerSecExtensionsCanonical = str_bytes ''Sec-Websocket-Extensions''"
definition headerSecKeyCanonical :: "byte list" where
  "headerSecKeyCanonical = str_bytes ''Sec-Websocket-Key''"
definition headerSecAcceptCanonical :: "byte list" where
  "headerSecAcceptCanonical = str_bytes ''Sec-Websocket-Accept''"

definition specHeaderValueUpgrade :: "byte list" where "specHeaderValueUpgrade = str_bytes ''websocket''"
definition specHeaderValueConnection :: "byte list" where "specHeaderValueConnection = str_bytes ''Upgrade''"
definition specHeaderValueConnectionLower :: "byte list" where
  "specHeaderValueConnectionLower = str_bytes ''upgrade''"
definition specHeaderValueSecVersion :: "byte list" where "specHeaderValueSecVersion = str_bytes ''13''"

definition httpVersion1_0 :: "byte list" where "httpVersion1_0 = str_bytes ''HTTP/1.0''"
definition httpVersion1_1 :: "byte list" where "httpVersion1_1 = str_bytes ''HTTP/1.1''"
definition httpVersionPrefix :: "byte list" where "httpVersionPrefix = str_bytes ''HTTP/''"

record httpRequestLine =
  req_method :: "byte list"
  req_uri :: "byte list"
  req_major :: int64
  req_minor :: int64

record httpResponseLine =
  resp_major :: int64
  resp_minor :: int64
  resp_status :: int64
  resp_reason :: "byte list"

text \<open>The major and the minor version, and whether the parse is fine.\<close>

definition httpParseVersion :: "byte list \<Rightarrow> int64 \<times> int64 \<times> bool" where
  "httpParseVersion bts =
     (if bts = httpVersion1_0 then (1, 0, True)
      else if bts = httpVersion1_1 then (1, 1, True)
      else if length bts < 8 then (0, 0, False)
      else if take 5 bts \<noteq> httpVersionPrefix then (0, 0, False)
      else (let bts = drop 5 bts; dot = index_byte bts 0x2E
            in if dot = -1 then (0, 0, False)
               else (let (major, e) = asciiToInt (take (nat dot) bts)
                     in if e \<noteq> None then (major, 0, False)
                        else (let (minor, e) = asciiToInt (drop (nat (dot + 1)) bts)
                              in if e \<noteq> None then (major, minor, False) else (major, minor, True)))))"

definition httpParseRequestLine :: "byte list \<Rightarrow> httpRequestLine \<times> err option" where
  "httpParseRequestLine line =
     (let (method, uri, proto) = bsplit3 line 32;
          (major, minor, ok) = httpParseVersion proto
      in (\<lparr>req_method = method, req_uri = uri, req_major = major, req_minor = minor\<rparr>,
          if \<not> ok then Some ErrMalformedRequest else None))"

definition httpParseResponseLine :: "byte list \<Rightarrow> httpResponseLine \<times> err option" where
  "httpParseResponseLine line =
     (let (proto, status, reason) = bsplit3 line 32;
          (major, minor, ok) = httpParseVersion proto;
          resp = \<lparr>resp_major = major, resp_minor = minor, resp_status = 0, resp_reason = reason\<rparr>
      in if \<not> ok then (resp, Some ErrMalformedResponse)
         else (let (st, convErr) = asciiToInt status; resp = resp\<lparr>resp_status := st\<rparr>
               in if convErr \<noteq> None then (resp, Some ErrMalformedResponse) else (resp, None)))"

text \<open>The key, in canonical form, and the value of a header line.\<close>

definition httpParseHeaderLine :: "byte list \<Rightarrow> byte list \<times> byte list \<times> bool" where
  "httpParseHeaderLine line =
     (let colon = index_byte line 0x3A
      in if colon = -1 then ([], [], False)
         else (let k = canonicalizeHeaderKey (btrim (take (nat colon) line));
                   v = btrim (drop (nat (colon + 1)) line)
               in (k, v, True)))"

text \<open>\<open>http.Header\<close> is a map from keys to lists of values; a nil map holds nothing.\<close>

definition httpGetHeader :: "(byte list \<Rightarrow> byte list list) \<Rightarrow> byte list \<Rightarrow> byte list" where
  "httpGetHeader h key = (let v = h key in if length v = 0 then [] else v ! 0)"

section \<open>Negotiation\<close>

definition strSelectProtocol ::
  "scan_tokens \<Rightarrow> byte list \<Rightarrow> (byte list \<Rightarrow> bool) \<Rightarrow> byte list \<times> bool" where
  "strSelectProtocol ScanTokens h check =
     (let (calls, ok) = ScanTokens (strToBytes h) (\<lambda>v. \<not> check (btsToString v));
          ret = fold (\<lambda>v ret. if check (btsToString v) then v else ret) calls []
      in (ret, ok))"

definition btsSelectProtocol ::
  "scan_tokens \<Rightarrow> byte list \<Rightarrow> (byte list \<Rightarrow> bool) \<Rightarrow> byte list \<times> bool" where
  "btsSelectProtocol ScanTokens h check =
     (let (calls, ok) = ScanTokens h (\<lambda>v. \<not> check v);
          selected = fold (\<lambda>v selected. if check v then Some v else selected) calls None
      in case selected of
           Some v \<Rightarrow> if ok then (v, True) else ([], ok)
         | None \<Rightarrow> ([], ok))"

definition btsSelectExtensions ::
  "('p, 'd) httphead \<Rightarrow> byte list \<Rightarrow> 'p HeadOption list \<Rightarrow> ('p HeadOption \<Rightarrow> bool) \<Rightarrow> 'p HeadOption list \<times> bool" where
  "btsSelectExtensions hh h selected check = hh_Select hh h selected check"

definition negotiateMaybe ::
  "('p, 'd) httphead \<Rightarrow> 'p HeadOption \<Rightarrow> 'p HeadOption list \<Rightarrow> ('p HeadOption \<Rightarrow> 'p HeadOption \<times> err option) \<Rightarrow>
     'p HeadOption list \<times> err option" where
  "negotiateMaybe hh opt dest f =
     (if hh_Size hh opt = 0 then (dest, None)
      else (let (opt', e) = f opt
            in if e \<noteq> None then ([], e)
               else if 0 < hh_Size hh opt' then (dest @ [opt'], None)
               else (dest, None)))"

text \<open>The variables of the callback: the index, the option being read, what is accepted, the error.\<close>

type_synonym 'p negotiation = "int \<times> 'p HeadOption \<times> 'p HeadOption list \<times> err option"

definition negotiate_call ::
  "('p, 'd) httphead \<Rightarrow> ('p HeadOption \<Rightarrow> 'p HeadOption \<times> err option) \<Rightarrow> option_call \<Rightarrow> 'p negotiation \<Rightarrow>
     'p negotiation \<times> Control" where
  "negotiate_call hh f = (\<lambda>(i, name, attr, val) (index, current, dest, e).
     let (dest, e, fresh) =
           (if int i \<noteq> index then (let (dest, e) = negotiateMaybe hh current dest f in (dest, e, True))
            else (dest, e, False))
     in if fresh \<and> e \<noteq> None then ((index, current, dest, e), ControlBreak)
        else (let index = (if fresh then int i else index);
                  current = (if fresh then \<lparr>opt_Name = name, opt_Parameters = hh_zero hh\<rparr> else current);
                  current = (case attr of None \<Rightarrow> current
                    | Some a \<Rightarrow> current\<lparr>opt_Parameters := hh_Set hh a val (opt_Parameters current)\<rparr>)
              in ((index, current, dest, e), ControlContinue)))"

definition negotiate_calls ::
  "('p, 'd) httphead \<Rightarrow> ('p HeadOption \<Rightarrow> 'p HeadOption \<times> err option) \<Rightarrow> 'p HeadOption list \<Rightarrow> option_call list \<Rightarrow>
     'p negotiation \<times> Control" where
  "negotiate_calls hh f dest calls =
     fold (\<lambda>c (st, _). negotiate_call hh f c st) calls
       ((-1, \<lparr>opt_Name = [], opt_Parameters = hh_zero hh\<rparr>, dest, None), ControlContinue)"

definition negotiateExtensions ::
  "('p, 'd) httphead \<Rightarrow> byte list \<Rightarrow> 'p HeadOption list \<Rightarrow> ('p HeadOption \<Rightarrow> 'p HeadOption \<times> err option) \<Rightarrow>
     'p HeadOption list \<times> err option" where
  "negotiateExtensions hh h dest f =
     (let (calls, ok) = hh_ScanOptions hh h (\<lambda>calls. snd (negotiate_calls hh f dest calls));
          ((index, current, dest, e), _) = negotiate_calls hh f dest calls
      in if \<not> ok then ([], Some ErrMalformedRequest) else negotiateMaybe hh current dest f)"

section \<open>Writing\<close>

text \<open>A \<open>WriteString\<close>, a \<open>Write\<close> and a \<open>WriteByte\<close> whose results are ignored.\<close>

definition put_string :: "'d wr \<Rightarrow> byte list \<Rightarrow> 'd BufWriter \<Rightarrow> 'd BufWriter option" where
  "put_string wr s bw = do { (n, e, bw) \<leftarrow> bw_WriteString wr s bw; Some bw }"

definition put_bytes :: "'d wr \<Rightarrow> byte list \<Rightarrow> 'd BufWriter \<Rightarrow> 'd BufWriter option" where
  "put_bytes wr p bw = do { (n, e, bw) \<leftarrow> bw_Write wr p bw; Some bw }"

definition put_byte :: "'d wr \<Rightarrow> byte \<Rightarrow> 'd BufWriter \<Rightarrow> 'd BufWriter option" where
  "put_byte wr c bw = do { (e, bw) \<leftarrow> bw_WriteByte wr c bw; Some bw }"

definition httpWriteHeaderKey :: "'d wr \<Rightarrow> byte list \<Rightarrow> 'd BufWriter \<Rightarrow> 'd BufWriter option" where
  "httpWriteHeaderKey wr key bw = do {
     bw \<leftarrow> put_string wr key bw;
     put_string wr colonAndSpace bw
   }"

definition httpWriteHeader :: "'d wr \<Rightarrow> byte list \<Rightarrow> byte list \<Rightarrow> 'd BufWriter \<Rightarrow> 'd BufWriter option" where
  "httpWriteHeader wr key v bw = do {
     bw \<leftarrow> httpWriteHeaderKey wr key bw;
     bw \<leftarrow> put_string wr v bw;
     put_string wr CRLF bw
   }"

definition httpWriteHeaderBts :: "'d wr \<Rightarrow> byte list \<Rightarrow> byte list \<Rightarrow> 'd BufWriter \<Rightarrow> 'd BufWriter option" where
  "httpWriteHeaderBts wr key v bw = do {
     bw \<leftarrow> httpWriteHeaderKey wr key bw;
     bw \<leftarrow> put_bytes wr v bw;
     put_string wr CRLF bw
   }"

text \<open>A \<open>HandshakeHeaderFunc\<close>: it writes to the buffer and answers the count and an error.\<close>

type_synonym 'd header_func = "'d BufWriter \<Rightarrow> (int \<times> err option \<times> 'd BufWriter) option"

fun put_protocols :: "'d wr \<Rightarrow> nat \<Rightarrow> byte list list \<Rightarrow> 'd BufWriter \<Rightarrow> 'd BufWriter option" where
  "put_protocols wr i [] bw = Some bw"
| "put_protocols wr i (p # ps) bw = do {
     bw \<leftarrow> (if 0 < i then put_string wr commaAndSpace bw else Some bw);
     bw \<leftarrow> put_string wr p bw;
     put_protocols wr (i + 1) ps bw
   }"

definition httpWriteUpgradeRequest ::
  "'d wr \<Rightarrow> ('p, 'd) httphead \<Rightarrow> URL \<Rightarrow> byte list \<Rightarrow> byte list list \<Rightarrow> 'p HeadOption list \<Rightarrow>
     'd header_func option \<Rightarrow> 'd BufWriter \<Rightarrow> 'd BufWriter option" where
  "httpWriteUpgradeRequest wr hh u nonce protocols exts hdr bw = do {
     bw \<leftarrow> put_string wr (str_bytes ''GET '') bw;
     bw \<leftarrow> put_string wr (url_RequestURI u) bw;
     bw \<leftarrow> put_string wr (str_bytes '' HTTP/1.1'' @ CRLF) bw;
     bw \<leftarrow> httpWriteHeader wr headerHost (url_Host u) bw;
     bw \<leftarrow> httpWriteHeaderBts wr headerUpgrade specHeaderValueUpgrade bw;
     bw \<leftarrow> httpWriteHeaderBts wr headerConnection specHeaderValueConnection bw;
     bw \<leftarrow> httpWriteHeaderBts wr headerSecVersion specHeaderValueSecVersion bw;
     bw \<leftarrow> httpWriteHeader wr headerSecKey (btsToString nonce) bw;
     bw \<leftarrow> (if protocols \<noteq> [] then do {
              bw \<leftarrow> httpWriteHeaderKey wr headerSecProtocol bw;
              bw \<leftarrow> put_protocols wr 0 protocols bw;
              put_string wr CRLF bw
            } else Some bw);
     bw \<leftarrow> (if exts \<noteq> [] then do {
              bw \<leftarrow> httpWriteHeaderKey wr headerSecExtensions bw;
              bw \<leftarrow> hh_WriteOptions hh exts bw;
              put_string wr CRLF bw
            } else Some bw);
     bw \<leftarrow> (case hdr of None \<Rightarrow> Some bw | Some f \<Rightarrow> do { (n, e, bw) \<leftarrow> f bw; Some bw });
     put_string wr CRLF bw
   }"

record 'p Handshake =
  Protocol :: "byte list"
  Extensions :: "'p HeadOption list"

definition httpWriteResponseUpgrade ::
  "'d wr \<Rightarrow> ('p, 'd) httphead \<Rightarrow> byte list \<Rightarrow> 'p Handshake \<Rightarrow> 'd header_func option \<Rightarrow>
     'd BufWriter \<Rightarrow> 'd BufWriter option" where
  "httpWriteResponseUpgrade wr hh nonce hs hdr bw = do {
     bw \<leftarrow> put_string wr textHeadUpgrade bw;
     bw \<leftarrow> httpWriteHeaderKey wr headerSecAccept bw;
     (n, e, bw) \<leftarrow> writeAccept wr bw nonce;
     bw \<leftarrow> put_string wr CRLF bw;
     bw \<leftarrow> (if Protocol hs \<noteq> [] then httpWriteHeader wr headerSecProtocol (Protocol hs) bw else Some bw);
     bw \<leftarrow> (if Extensions hs \<noteq> [] then do {
              bw \<leftarrow> httpWriteHeaderKey wr headerSecExtensions bw;
              bw \<leftarrow> hh_WriteOptions hh (Extensions hs) bw;
              put_string wr CRLF bw
            } else Some bw);
     bw \<leftarrow> (case hdr of None \<Rightarrow> Some bw | Some f \<Rightarrow> do { (n, e, bw) \<leftarrow> f bw; Some bw });
     put_string wr CRLF bw
   }"

definition writeStatusText :: "'d wr \<Rightarrow> int \<Rightarrow> 'd BufWriter \<Rightarrow> 'd BufWriter option" where
  "writeStatusText wr c bw = do {
     bw \<leftarrow> put_string wr (str_bytes ''HTTP/1.1 '') bw;
     bw \<leftarrow> put_string wr (Itoa c) bw;
     bw \<leftarrow> put_byte wr 32 bw;
     bw \<leftarrow> put_string wr (StatusText c) bw;
     bw \<leftarrow> put_string wr CRLF bw;
     bw \<leftarrow> put_string wr (str_bytes ''Content-Type: text/plain; charset=utf-8'') bw;
     put_string wr CRLF bw
   }"

text \<open>The text of an error; \<open>ext\<close> knows the texts of the errors from outside the program.\<close>

definition error_text :: "(err \<Rightarrow> byte list) \<Rightarrow> err \<Rightarrow> byte list" where
  "error_text ext e = (case err_Error e of Some t \<Rightarrow> t | None \<Rightarrow> ext e)"

definition writeErrorText :: "'d wr \<Rightarrow> (err \<Rightarrow> byte list) \<Rightarrow> err \<Rightarrow> 'd BufWriter \<Rightarrow> 'd BufWriter option" where
  "writeErrorText wr ext e bw =
     (let body = error_text ext e
      in do {
        bw \<leftarrow> put_string wr (str_bytes ''Content-Length: '') bw;
        bw \<leftarrow> put_string wr (Itoa (int (length body))) bw;
        bw \<leftarrow> put_string wr CRLF bw;
        bw \<leftarrow> put_string wr CRLF bw;
        put_string wr body bw
      })"

text \<open>
  The texts prepared at load time: what a \<open>bufio.Writer\<close> of the default size puts into a
  \<open>bytes.Buffer\<close>.
\<close>

definition buffered_text :: "(byte list BufWriter \<Rightarrow> byte list BufWriter option) \<Rightarrow> byte list" where
  "buffered_text f =
     (case (do { bw \<leftarrow> f (NewBufWriter [] 4096); (e, bw) \<leftarrow> bw_Flush buffer_write bw; Some (bw_dst bw) }) of
        Some s \<Rightarrow> s | None \<Rightarrow> [])"

definition statusText :: "int \<Rightarrow> byte list" where
  "statusText c = buffered_text (writeStatusText buffer_write c)"

definition errorText :: "err \<Rightarrow> byte list" where
  "errorText e = buffered_text (writeErrorText buffer_write (\<lambda>_. []) e)"

definition textHeadBadRequest :: "byte list" where "textHeadBadRequest = statusText 400"
definition textHeadInternalServerError :: "byte list" where "textHeadInternalServerError = statusText 500"
definition textHeadUpgradeRequired :: "byte list" where "textHeadUpgradeRequired = statusText 426"

definition textTailErrHandshakeBadProtocol :: "byte list" where
  "textTailErrHandshakeBadProtocol = errorText ErrHandshakeBadProtocol"
definition textTailErrHandshakeBadMethod :: "byte list" where
  "textTailErrHandshakeBadMethod = errorText ErrHandshakeBadMethod"
definition textTailErrHandshakeBadHost :: "byte list" where
  "textTailErrHandshakeBadHost = errorText ErrHandshakeBadHost"
definition textTailErrHandshakeBadUpgrade :: "byte list" where
  "textTailErrHandshakeBadUpgrade = errorText ErrHandshakeBadUpgrade"
definition textTailErrHandshakeBadConnection :: "byte list" where
  "textTailErrHandshakeBadConnection = errorText ErrHandshakeBadConnection"
definition textTailErrHandshakeBadSecAccept :: "byte list" where
  "textTailErrHandshakeBadSecAccept = errorText ErrHandshakeBadSecAccept"
definition textTailErrHandshakeBadSecKey :: "byte list" where
  "textTailErrHandshakeBadSecKey = errorText ErrHandshakeBadSecKey"
definition textTailErrHandshakeBadSecVersion :: "byte list" where
  "textTailErrHandshakeBadSecVersion = errorText ErrHandshakeBadSecVersion"
definition textTailErrUpgradeRequired :: "byte list" where
  "textTailErrUpgradeRequired = errorText ErrHandshakeUpgradeRequired"

definition httpWriteResponseError ::
  "'d wr \<Rightarrow> (err \<Rightarrow> byte list) \<Rightarrow> err option \<Rightarrow> int \<Rightarrow> 'd header_func option \<Rightarrow>
     'd BufWriter \<Rightarrow> 'd BufWriter option" where
  "httpWriteResponseError wr ext e c hdr bw = do {
     bw \<leftarrow> (if c = 400 then put_string wr textHeadBadRequest bw
           else if c = 500 then put_string wr textHeadInternalServerError bw
           else if c = 426 then put_string wr textHeadUpgradeRequired bw
           else writeStatusText wr c bw);
     bw \<leftarrow> (case hdr of None \<Rightarrow> Some bw | Some f \<Rightarrow> do { (n, e, bw) \<leftarrow> f bw; Some bw });
     (case e of
        None \<Rightarrow> put_string wr CRLF bw
      | Some er \<Rightarrow>
          if er = ErrHandshakeBadProtocol then put_string wr textTailErrHandshakeBadProtocol bw
          else if er = ErrHandshakeBadMethod then put_string wr textTailErrHandshakeBadMethod bw
          else if er = ErrHandshakeBadHost then put_string wr textTailErrHandshakeBadHost bw
          else if er = ErrHandshakeBadUpgrade then put_string wr textTailErrHandshakeBadUpgrade bw
          else if er = ErrHandshakeBadConnection then put_string wr textTailErrHandshakeBadConnection bw
          else if er = ErrHandshakeBadSecAccept then put_string wr textTailErrHandshakeBadSecAccept bw
          else if er = ErrHandshakeBadSecKey then put_string wr textTailErrHandshakeBadSecKey bw
          else if er = ErrHandshakeBadSecVersion then put_string wr textTailErrHandshakeBadSecVersion bw
          else if er = ErrHandshakeUpgradeRequired then put_string wr textTailErrUpgradeRequired bw
          else writeErrorText wr ext er bw)
   }"

section \<open>Handshake headers\<close>

text \<open>The writer that counts what it passes on, over the buffered writer.\<close>

record 'd writer =
  writer_n :: int
  writer_w :: "'d BufWriter"

definition writer_WriteString :: "'d wr \<Rightarrow> byte list \<Rightarrow> 'd writer \<Rightarrow> (nat \<times> err option \<times> 'd writer) option" where
  "writer_WriteString wr s w = do {
     (n, e, b) \<leftarrow> bw_WriteString wr s (writer_w w);
     Some (n, e, w\<lparr>writer_n := writer_n w + int n, writer_w := b\<rparr>)
   }"

definition writer_Write :: "'d wr \<Rightarrow> byte list \<Rightarrow> 'd writer \<Rightarrow> (nat \<times> err option \<times> 'd writer) option" where
  "writer_Write wr p w = do {
     (n, e, b) \<leftarrow> bw_Write wr p (writer_w w);
     Some (n, e, w\<lparr>writer_n := writer_n w + int n, writer_w := b\<rparr>)
   }"

text \<open>
  \<open>http.Header.Write\<close>: the keys in order, those that are valid field names, each value on a
  line of its own, with line breaks made spaces and the spaces around it cut off.
\<close>

definition token_char :: "byte \<Rightarrow> bool" where
  "token_char c \<longleftrightarrow> (0x30 \<le> c \<and> c \<le> 0x39) \<or> (0x41 \<le> c \<and> c \<le> 0x5A) \<or> (0x61 \<le> c \<and> c \<le> 0x7A) \<or>
     c \<in> set (str_bytes (''!#$%&*+-.^_`|~'' @ [CHR 0x27]))"

fun bytes_le :: "byte list \<Rightarrow> byte list \<Rightarrow> bool" where
  "bytes_le [] ys = True"
| "bytes_le (x # xs) [] = False"
| "bytes_le (x # xs) (y # ys) = (x < y \<or> (x = y \<and> bytes_le xs ys))"

fun insert_key :: "byte list \<times> 'v \<Rightarrow> (byte list \<times> 'v) list \<Rightarrow> (byte list \<times> 'v) list" where
  "insert_key kv [] = [kv]"
| "insert_key kv (x # xs) = (if bytes_le (fst kv) (fst x) then kv # x # xs else x # insert_key kv xs)"

definition sort_keys :: "(byte list \<times> 'v) list \<Rightarrow> (byte list \<times> 'v) list" where
  "sort_keys kvs = foldr insert_key kvs []"

definition space :: "byte \<Rightarrow> bool" where
  "space b \<longleftrightarrow> b \<in> {32, 9, 10, 13}"

definition header_value :: "byte list \<Rightarrow> byte list" where
  "header_value v =
     rev (dropWhile space (rev (dropWhile space (map (\<lambda>c. if c = 10 \<or> c = 13 then 32 else c) v))))"

definition header_strings :: "(byte list \<times> byte list list) list \<Rightarrow> byte list list" where
  "header_strings h = concat (map (\<lambda>(k, vs). concat (map (\<lambda>v. [k, str_bytes '': '', header_value v, CRLF]) vs))
     (filter (\<lambda>(k, vs). k \<noteq> [] \<and> (\<forall>c \<in> set k. token_char c)) (sort_keys h)))"

fun write_strings :: "'d wr \<Rightarrow> byte list list \<Rightarrow> 'd writer \<Rightarrow> (err option \<times> 'd writer) option" where
  "write_strings wr [] w = Some (None, w)"
| "write_strings wr (s # ss) w = do {
     (n, e, w) \<leftarrow> writer_WriteString wr s w;
     (if e \<noteq> None then Some (e, w) else write_strings wr ss w)
   }"

text \<open>
  The method \<open>WriteTo\<close> of the four kinds of header. \<open>fn\<close> says what the function headers do.
\<close>

fun header_WriteTo :: "'d wr \<Rightarrow> (nat \<Rightarrow> 'd header_func) \<Rightarrow> HandshakeHeader \<Rightarrow> 'd header_func" where
  "header_WriteTo wr fn (HandshakeHeaderString s) w = do {
     (n, e, w) \<leftarrow> bw_WriteString wr s w;
     Some (int n, e, w)
   }"
| "header_WriteTo wr fn (HandshakeHeaderBytes b) w = do {
     (n, e, w) \<leftarrow> bw_Write wr b w;
     Some (int n, e, w)
   }"
| "header_WriteTo wr fn (HandshakeHeaderFunc f) w = fn f w"
| "header_WriteTo wr fn (HandshakeHeaderHTTP h) w = do {
     (e, w) \<leftarrow> write_strings wr (header_strings h) \<lparr>writer_n = 0, writer_w = w\<rparr>;
     Some (writer_n w, e, writer_w w)
   }"

end
