(* ===== verification/Session.thy ===== *)
theory Session
  imports Helpers Http
begin

text \<open>
  The sessions over a connection (msutil/connecter.go, msutil/client.go, handler.go): the
  handler an application writes its messages with, the loop that reads frames for it on the
  server and on the client side, and the functions that start them. The application is a
  state \<open>'a\<close> and its callbacks; a callback that reads may read the \<open>Reader\<close> and write with the
  \<open>Writer\<close> of the session. Logging is left out, and so is what two goroutines could do to each
  other: a callback runs to its end before the loop goes on.
\<close>

section \<open>Writing a message\<close>

text \<open>
  \<open>io.Copy(w, src)\<close> to a \<open>Writer\<close>: a source that is an \<open>io.WriterTo\<close> writes itself, any other
  is read by \<open>ReadFrom\<close>.
\<close>

definition copy_to_writer ::
  "('s \<Rightarrow> Writer \<Rightarrow> (err option \<times> 's \<times> Writer) option) option \<Rightarrow> 's rd \<Rightarrow> 's \<Rightarrow> Writer \<Rightarrow>
     (err option \<times> 's \<times> Writer) option" where
  "copy_to_writer wto rd s w =
     (case wto of
        Some f \<Rightarrow> f s w
      | None \<Rightarrow> do { (n, e, s, w) \<leftarrow> ReadFrom rd s w; Some (e, s, w) })"

definition write_handler ::
  "('s \<Rightarrow> Writer \<Rightarrow> (err option \<times> 's \<times> Writer) option) option \<Rightarrow> 's rd \<Rightarrow> byte \<Rightarrow> 's \<Rightarrow> bool \<Rightarrow>
     Writer \<Rightarrow> dest \<Rightarrow> (err option \<times> 's \<times> Writer \<times> dest) option" where
  "write_handler wto rd st s isText w d =
     (let opcode = (if \<not> isText then OpBinary else OpText)
      in do {
        w \<leftarrow> Writer_Reset w d st opcode;
        (e, s, w) \<leftarrow> copy_to_writer wto rd s w;
        (e, w) \<leftarrow> (if e = None then Flush w else Some (e, w));
        Some (e, s, w, wdest w)
      })"

text \<open>On the server a failed write also cancels the session.\<close>

definition connect_write_handler ::
  "('s \<Rightarrow> Writer \<Rightarrow> (err option \<times> 's \<times> Writer) option) option \<Rightarrow> 's rd \<Rightarrow> 's \<Rightarrow> bool \<Rightarrow> bool \<Rightarrow>
     Writer \<Rightarrow> dest \<Rightarrow> (err option \<times> 's \<times> Writer \<times> dest \<times> bool) option" where
  "connect_write_handler wto rd s isText cancelled w d = do {
     (e, s, w, d) \<leftarrow> write_handler wto rd StateServerSide s isText w d;
     Some (e, s, w, d, cancelled \<or> e \<noteq> None)
   }"

section \<open>The server's loop\<close>

text \<open>
  The callbacks of an application: opening a session, which may already write with the session's writer, and closing it, reading
  one message of which the first frame has the given length, and whether the context of the session is done.
\<close>

record ('s, 'a) SessionsHandler =
  on_Connect :: "dest \<Rightarrow> Writer \<times> 'a \<Rightarrow> (err option \<times> dest \<times> Writer \<times> 'a) option"
  on_Close :: "'a \<Rightarrow> 'a"
  on_ReadPump :: "int64 \<Rightarrow> bool \<Rightarrow> 's Reader \<times> dest \<Rightarrow> Writer \<times> 'a \<Rightarrow>
    (err option \<times> ('s Reader \<times> dest) \<times> (Writer \<times> 'a)) option"
  on_Done :: "'a \<Rightarrow> bool"

datatype stop = Refused err | ContextDone | FrameError err | HandlerError err | PumpError err

partial_function (option) connecter_loop ::
  "'s rd \<Rightarrow> (int \<Rightarrow> byte list option) \<Rightarrow> ('s, 'a) SessionsHandler \<Rightarrow> 's Reader \<Rightarrow> dest \<Rightarrow> Writer \<Rightarrow> 'a \<Rightarrow>
     (stop \<times> 's Reader \<times> dest \<times> 'a) option" where
  "connecter_loop rd getlen sh r d w a =
     (if on_Done sh a then Some (ContextDone, r, d, a)
      else Option.bind (NextFrame rd (data_conf rd getlen StateServerSide) (r, d)) (\<lambda>(h, e, r, d).
        case e of
          Some er \<Rightarrow> Some (FrameError er, r, d, a)
        | None \<Rightarrow>
            if IsControl (OpCode h) then
              Option.bind (ControlFrameHandler getlen (reader_src rd (data_conf rd getlen StateServerSide))
                  StateServerSide h ((r, d), d))
                (\<lambda>(e, (r, _), d). case e of
                   Some er \<Rightarrow> Some (HandlerError er, r, d, a)
                 | None \<Rightarrow> connecter_loop rd getlen sh r d w a)
            else
              Option.bind (on_ReadPump sh (Length h) (OpCode h = OpText) (r, d) (w, a))
                (\<lambda>(e, (r, d), (w, a)). case e of
                   Some er \<Rightarrow> Some (PumpError er, r, d, a)
                 | None \<Rightarrow> connecter_loop rd getlen sh r d w a)))"

declare connecter_loop.simps [code]

definition Connecter_Run ::
  "'s rd \<Rightarrow> (int \<Rightarrow> byte list option) \<Rightarrow> ('s, 'a) SessionsHandler \<Rightarrow> 's \<Rightarrow> dest \<Rightarrow> 'a \<Rightarrow> (stop \<times> 's \<times> dest \<times> 'a) option" where
  "Connecter_Run rd getlen sh s d a = do {
     w \<leftarrow> NewWriter d StateServerSide 0;
     (er, d, w, a) \<leftarrow> on_Connect sh d (w, a);
     (case er of
        Some er \<Rightarrow> Some (Refused er, s, d, a)
      | None \<Rightarrow> do {
          (e, r, d, a) \<leftarrow> connecter_loop rd getlen sh (NewReader s StateServerSide) d w a;
          Some (e, src r, d, on_Close sh a)
        })
   }"

section \<open>The client's loop\<close>

text \<open>
  On the client side the loop ends only with an error, and a control frame outside of a message
  is only logged. A context that is done closes the connection, which ends a read with an error.
\<close>

partial_function (option) client_loop ::
  "'s rd \<Rightarrow> (int \<Rightarrow> byte list option) \<Rightarrow> ('s, 'a) SessionsHandler \<Rightarrow> 's Reader \<Rightarrow> dest \<Rightarrow> Writer \<Rightarrow> 'a \<Rightarrow>
     (err \<times> 's Reader \<times> dest \<times> 'a) option" where
  "client_loop rd getlen sh r d w a =
     Option.bind (NextFrame rd (data_conf rd getlen StateClientSide) (r, d)) (\<lambda>(h, e, r, d).
       case e of
         Some er \<Rightarrow> Some (er, r, d, a)
       | None \<Rightarrow>
           if IsControl (OpCode h) then client_loop rd getlen sh r d w a
           else
             Option.bind (on_ReadPump sh (Length h) (OpCode h = OpText) (r, d) (w, a))
               (\<lambda>(e, (r, d), (w, a)). case e of
                  Some er \<Rightarrow> Some (er, r, d, a)
                | None \<Rightarrow> client_loop rd getlen sh r d w a))"

declare client_loop.simps [code]

definition ConnectClient ::
  "'s rd \<Rightarrow> (int \<Rightarrow> byte list option) \<Rightarrow> ('s, 'a) SessionsHandler \<Rightarrow> 's \<Rightarrow> dest \<Rightarrow> 'a \<Rightarrow> (err \<times> 's \<times> dest \<times> 'a) option" where
  "ConnectClient rd getlen sh s d a = do {
     w \<leftarrow> NewWriter d StateClientSide 0;
     (er, d, w, a) \<leftarrow> on_Connect sh d (w, a);
     (case er of
        Some er \<Rightarrow> Some (er, s, d, a)
      | None \<Rightarrow> do {
          (e, r, d, a) \<leftarrow> client_loop rd getlen sh (NewReader s StateClientSide) d w a;
          Some (e, src r, d, on_Close sh a)
        })
   }"

section \<open>Addresses\<close>

record Addr =
  Network :: "byte list"
  Address :: "byte list"

definition Addr_Data :: "Addr \<Rightarrow> byte list \<times> byte list" where
  "Addr_Data u = (Network u, Address u)"

text \<open>\<open>parse\<close> is \<open>url.Parse\<close>: the scheme, the path and the host, or an error.\<close>

definition ParserAddr ::
  "(byte list \<Rightarrow> (byte list \<times> byte list \<times> byte list) + err) \<Rightarrow> byte list \<Rightarrow> Addr option \<times> err option" where
  "ParserAddr parse a =
     (case parse a of
        Inr e \<Rightarrow> (None, Some e)
      | Inl (scheme, path, host) \<Rightarrow>
          if scheme = str_bytes ''unix'' then (Some \<lparr>Network = scheme, Address = path\<rparr>, None)
          else (Some \<lparr>Network = scheme, Address = host\<rparr>, None))"

text \<open>\<open>DialServer\<close> ignores the error of the parser: a nil address panics (\<open>None\<close>).\<close>

definition DialServer ::
  "(byte list \<Rightarrow> (byte list \<times> byte list \<times> byte list) + err) \<Rightarrow> (byte list \<Rightarrow> byte list \<Rightarrow> 'c option \<times> err option) \<Rightarrow>
     byte list \<Rightarrow> ('c option \<times> err option) option" where
  "DialServer parse netdial addr =
     (case ParserAddr parse addr of
        (None, e) \<Rightarrow> None
      | (Some u, e) \<Rightarrow> (let (n, a) = Addr_Data u in Some (netdial n a)))"

text \<open>
  \<open>dialled\<close> is what \<open>DialServer\<close> answers for a connection given by its read and its write side. The
  result is the error, the connection, which is closed by then, and the application.
\<close>

definition ConnectServer ::
  "'s rd \<Rightarrow> (int \<Rightarrow> byte list option) \<Rightarrow> ('s, 'a) SessionsHandler \<Rightarrow> (('s \<times> dest) option \<times> err option) option \<Rightarrow> 'a \<Rightarrow>
     (err \<times> ('s \<times> dest) option \<times> 'a) option" where
  "ConnectServer rd getlen sh dialled a =
     (case dialled of
        None \<Rightarrow> None
      | Some (conn, Some e) \<Rightarrow> Some (e, None, a)
      | Some (None, None) \<Rightarrow> None
      | Some (Some (s, d), None) \<Rightarrow> do { (e, s, d, a) \<leftarrow> ConnectClient rd getlen sh s d a; Some (e, Some (s, d), a) })"

text \<open>\<open>Run\<close> only logs the error of the dial, and drops the one of the session.\<close>

definition Client_Run ::
  "'s rd \<Rightarrow> (int \<Rightarrow> byte list option) \<Rightarrow> ('s, 'a) SessionsHandler \<Rightarrow> (('s \<times> dest) option \<times> err option) option \<Rightarrow> 'a \<Rightarrow>
     (('s \<times> dest) option \<times> 'a) option" where
  "Client_Run rd getlen sh dialled a =
     (case dialled of
        None \<Rightarrow> None
      | Some (conn, Some e) \<Rightarrow> Some (None, a)
      | Some (None, None) \<Rightarrow> None
      | Some (Some (s, d), None) \<Rightarrow> do { (e, s, d, a) \<leftarrow> ConnectClient rd getlen sh s d a; Some (Some (s, d), a) })"

text \<open>\<open>remove\<close> is what \<open>os.Remove\<close> answers and \<open>notExist\<close> is \<open>os.IsNotExist\<close>.\<close>

definition clearEnvConnect ::
  "(byte list \<Rightarrow> err option) \<Rightarrow> (err \<Rightarrow> bool) \<Rightarrow> byte list \<Rightarrow> byte list \<Rightarrow> err option" where
  "clearEnvConnect remove notExist scheme path =
     (if scheme = str_bytes ''unix'' then
        (case remove path of None \<Rightarrow> None | Some e \<Rightarrow> if \<not> notExist e then Some e else None)
      else None)"

end
