(* ===== verification/Upgrader.thy ===== *)
theory Upgrader
  imports Http
begin

text \<open>
  The server side of the opening handshake (upgrader.go): reading and checking the HTTP
  request, and writing the response that accepts or rejects it. The callbacks of the
  application are functions of their arguments. \<open>wr\<close> and \<open>rd\<close> are the two sides of the
  connection, \<open>fn\<close> the function headers, \<open>ext\<close> the texts of the application's errors and
  \<open>pool\<close> the size of the buffer that the pool of buffers gives for a wanted size.
\<close>

section \<open>The list of headers\<close>

type_synonym handshakeHeader = "HandshakeHeader option \<times> HandshakeHeader option"

fun handshakeHeader_loop ::
  "'d wr \<Rightarrow> (nat \<Rightarrow> 'd header_func) \<Rightarrow> HandshakeHeader option list \<Rightarrow> int \<Rightarrow> 'd header_func" where
  "handshakeHeader_loop wr fn [] n w = Some (n, None, w)"
| "handshakeHeader_loop wr fn (None # hs) n w = handshakeHeader_loop wr fn hs n w"
| "handshakeHeader_loop wr fn (Some h # hs) n w = do {
     (m, e, w) \<leftarrow> header_WriteTo wr fn h w;
     (if e \<noteq> None then Some (n + m, e, w) else handshakeHeader_loop wr fn hs (n + m) w)
   }"

definition handshakeHeader_WriteTo ::
  "'d wr \<Rightarrow> (nat \<Rightarrow> 'd header_func) \<Rightarrow> handshakeHeader \<Rightarrow> 'd header_func" where
  "handshakeHeader_WriteTo wr fn hs = handshakeHeader_loop wr fn [fst hs, snd hs] 0"

section \<open>Upgrader\<close>

definition DefaultServerReadBufferSize :: int where "DefaultServerReadBufferSize = 4096"
definition DefaultServerWriteBufferSize :: int where "DefaultServerWriteBufferSize = 512"

record 'p Upgrader =
  up_ReadBufferSize :: int
  up_WriteBufferSize :: int
  up_Protocol :: "(byte list \<Rightarrow> bool) option"
  up_ProtocolCustom :: "(byte list \<Rightarrow> byte list \<times> bool) option"
  up_Extension :: "('p HeadOption \<Rightarrow> bool) option"
  up_ExtensionCustom :: "(byte list \<Rightarrow> 'p HeadOption list \<Rightarrow> 'p HeadOption list \<times> bool) option"
  up_Negotiate :: "('p HeadOption \<Rightarrow> 'p HeadOption \<times> err option) option"
  up_Header :: "HandshakeHeader option"
  up_OnRequest :: "(byte list \<Rightarrow> err option) option"
  up_OnHost :: "(byte list \<Rightarrow> err option) option"
  up_OnHeader :: "(byte list \<Rightarrow> byte list \<Rightarrow> err option) option"
  up_OnBeforeUpgrade :: "(HandshakeHeader option \<times> err option) option"

definition DefaultUpgrader :: "'p Upgrader" where
  "DefaultUpgrader = \<lparr>up_ReadBufferSize = 0, up_WriteBufferSize = 0, up_Protocol = None,
     up_ProtocolCustom = None, up_Extension = None, up_ExtensionCustom = None, up_Negotiate = None,
     up_Header = None, up_OnRequest = None, up_OnHost = None, up_OnHeader = None, up_OnBeforeUpgrade = None\<rparr>"

definition headerSeenHost :: byte where "headerSeenHost = 1"
definition headerSeenUpgrade :: byte where "headerSeenUpgrade = 2"
definition headerSeenConnection :: byte where "headerSeenConnection = 4"
definition headerSeenSecVersion :: byte where "headerSeenSecVersion = 8"
definition headerSeenSecKey :: byte where "headerSeenSecKey = 16"
definition headerSeenAll :: byte where
  "headerSeenAll = 0 OR headerSeenHost OR headerSeenUpgrade OR headerSeenConnection OR
     headerSeenSecVersion OR headerSeenSecKey"

text \<open>What the loop over the header lines has found.\<close>

record 'p request =
  rq_hs :: "'p Handshake"
  rq_seen :: byte
  rq_nonce :: "byte list"
  rq_err :: "err option"

definition select_protocol :: "('p, 'd) httphead \<Rightarrow> 'p Upgrader \<Rightarrow> byte list \<Rightarrow> 'p request \<Rightarrow> 'p request" where
  "select_protocol hh u v r =
     (if Protocol (rq_hs r) = [] \<and> (up_ProtocolCustom u \<noteq> None \<or> up_Protocol u \<noteq> None) then
        (let (p, ok) = (case up_ProtocolCustom u of
               Some custom \<Rightarrow> custom v
             | None \<Rightarrow> btsSelectProtocol (hh_ScanTokens hh) v (the (up_Protocol u)));
             r = r\<lparr>rq_hs := (rq_hs r)\<lparr>Protocol := p\<rparr>\<rparr>
         in if \<not> ok then r\<lparr>rq_err := Some ErrMalformedRequest\<rparr> else r)
      else r)"

definition select_extensions :: "('p, 'd) httphead \<Rightarrow> 'p Upgrader \<Rightarrow> byte list \<Rightarrow> 'p request \<Rightarrow> 'p request" where
  "select_extensions hh u v r =
     (let r = (case up_Negotiate u of
                 Some f \<Rightarrow>
                   if rq_err r = None then
                     (let (xs, e) = negotiateExtensions hh v (Extensions (rq_hs r)) f
                      in r\<lparr>rq_hs := (rq_hs r)\<lparr>Extensions := xs\<rparr>, rq_err := e\<rparr>)
                   else r
               | None \<Rightarrow> r)
      in if up_Negotiate u = None \<and> (up_ExtensionCustom u \<noteq> None \<or> up_Extension u \<noteq> None) then
           (let (xs, ok) = (case up_ExtensionCustom u of
                  Some custom \<Rightarrow> custom v (Extensions (rq_hs r))
                | None \<Rightarrow> btsSelectExtensions hh v (Extensions (rq_hs r)) (the (up_Extension u)));
                r = r\<lparr>rq_hs := (rq_hs r)\<lparr>Extensions := xs\<rparr>\<rparr>
            in if \<not> ok then r\<lparr>rq_err := Some ErrMalformedRequest\<rparr> else r)
         else r)"

text \<open>One header line.\<close>

definition upgrade_header :: "('p, 'd) httphead \<Rightarrow> 'p Upgrader \<Rightarrow> byte list \<Rightarrow> byte list \<Rightarrow> 'p request \<Rightarrow> 'p request" where
  "upgrade_header hh u k v r =
     (if k = headerHostCanonical then
        (let r = r\<lparr>rq_seen := rq_seen r OR headerSeenHost\<rparr>
         in case up_OnHost u of Some f \<Rightarrow> r\<lparr>rq_err := f v\<rparr> | None \<Rightarrow> r)
      else if k = headerUpgradeCanonical then
        (let r = r\<lparr>rq_seen := rq_seen r OR headerSeenUpgrade\<rparr>
         in if v \<noteq> specHeaderValueUpgrade \<and> \<not> EqualFold v specHeaderValueUpgrade
            then r\<lparr>rq_err := Some ErrHandshakeBadUpgrade\<rparr> else r)
      else if k = headerConnectionCanonical then
        (let r = r\<lparr>rq_seen := rq_seen r OR headerSeenConnection\<rparr>
         in if v \<noteq> specHeaderValueConnection \<and> \<not> btsHasToken (hh_ScanTokens hh) v specHeaderValueConnectionLower
            then r\<lparr>rq_err := Some ErrHandshakeBadConnection\<rparr> else r)
      else if k = headerSecVersionCanonical then
        (let r = r\<lparr>rq_seen := rq_seen r OR headerSeenSecVersion\<rparr>
         in if v \<noteq> specHeaderValueSecVersion then r\<lparr>rq_err := Some ErrHandshakeUpgradeRequired\<rparr> else r)
      else if k = headerSecKeyCanonical then
        (let r = r\<lparr>rq_seen := rq_seen r OR headerSeenSecKey\<rparr>
         in if length v \<noteq> nonceSize then r\<lparr>rq_err := Some ErrHandshakeBadSecKey\<rparr>
            else r\<lparr>rq_nonce := put_at 0 v (rq_nonce r)\<rparr>)
      else if k = headerSecProtocolCanonical then select_protocol hh u v r
      else if k = headerSecExtensionsCanonical then select_extensions hh u v r
      else (case up_OnHeader u of Some f \<Rightarrow> r\<lparr>rq_err := f k v\<rparr> | None \<Rightarrow> r))"

text \<open>The loop: the error of a read that failed, the reader, and what was found.\<close>

partial_function (option) upgrade_loop ::
  "'s rd \<Rightarrow> ('p, 'd) httphead \<Rightarrow> 'p Upgrader \<Rightarrow> 's BufReader \<Rightarrow> 'p request \<Rightarrow>
     (err option \<times> 's BufReader \<times> 'p request) option" where
  "upgrade_loop rd hh u br r =
     (if rq_err r \<noteq> None then Some (None, br, r)
      else Option.bind (readLine rd br) (\<lambda>(line, e, br).
        if e \<noteq> None then Some (e, br, r)
        else if line = [] then Some (None, br, r)
        else (let (k, v, ok) = httpParseHeaderLine line
              in if \<not> ok then Some (None, br, r\<lparr>rq_err := Some ErrMalformedRequest\<rparr>)
                 else upgrade_loop rd hh u br (upgrade_header hh u (btsToString k) v r))))"

declare upgrade_loop.simps [code]

text \<open>The checks of the request line.\<close>

definition request_error :: "'p Upgrader \<Rightarrow> httpRequestLine \<Rightarrow> err option" where
  "request_error u req =
     (if req_major req \<noteq> 1 \<or> sint (req_minor req) < 1 then Some ErrHandshakeBadProtocol
      else if btsToString (req_method req) \<noteq> str_bytes ''GET'' then Some ErrHandshakeBadMethod
      else (case up_OnRequest u of Some f \<Rightarrow> f (req_uri req) | None \<Rightarrow> None))"

text \<open>The error for the first header that is missing; \<open>None\<close> is the panic of the default case.\<close>

definition missing_header :: "byte \<Rightarrow> err option" where
  "missing_header seen =
     (if seen AND headerSeenHost = 0 then Some ErrHandshakeBadHost
      else if seen AND headerSeenUpgrade = 0 then Some ErrHandshakeBadUpgrade
      else if seen AND headerSeenConnection = 0 then Some ErrHandshakeBadConnection
      else if seen AND headerSeenSecVersion = 0 then Some ErrHandshakeBadSecVersion
      else if seen AND headerSeenSecKey = 0 then Some ErrHandshakeBadSecKey
      else None)"

text \<open>The status code and the header that an error asks for.\<close>

definition rejection :: "err \<Rightarrow> HandshakeHeader option \<Rightarrow> int \<times> HandshakeHeader option" where
  "rejection e h1 =
     (let (c, h1) = (case e of ConnectionRejected a r \<Rightarrow> (reject_code r, reject_header r) | _ \<Rightarrow> (0, h1))
      in (if c = 0 then 500 else c, h1))"

definition finish_upgrade ::
  "'d wr \<Rightarrow> ('p, 'd) httphead \<Rightarrow> (nat \<Rightarrow> 'd header_func) \<Rightarrow> (err \<Rightarrow> byte list) \<Rightarrow> 'p Upgrader \<Rightarrow>
     'p request \<Rightarrow> 'd BufWriter \<Rightarrow> ('p Handshake \<times> err option \<times> 'd BufWriter) option" where
  "finish_upgrade wr hh fn ext u r bw = do {
     (e, h1) \<leftarrow>
       (if rq_err r = None \<and> rq_seen r \<noteq> headerSeenAll then
          (case missing_header (rq_seen r) of None \<Rightarrow> None | Some er \<Rightarrow> Some (Some er, None))
        else if rq_err r = None \<and> up_OnBeforeUpgrade u \<noteq> None then
          (case the (up_OnBeforeUpgrade u) of (h, e) \<Rightarrow> Some (e, h))
        else Some (rq_err r, None));
     (case e of
        Some er \<Rightarrow>
          (let (c, h1) = rejection er h1
           in do {
             bw \<leftarrow> httpWriteResponseError wr ext (Some er) c (Some (handshakeHeader_WriteTo wr fn (up_Header u, h1))) bw;
             (_, bw) \<leftarrow> bw_Flush wr bw;
             Some (rq_hs r, Some er, bw)
           })
      | None \<Rightarrow> do {
          bw \<leftarrow> httpWriteResponseUpgrade wr hh (rq_nonce r) (rq_hs r)
            (Some (handshakeHeader_WriteTo wr fn (up_Header u, h1))) bw;
          (e, bw) \<leftarrow> bw_Flush wr bw;
          Some (rq_hs r, e, bw)
        })
   }"

definition Upgrader_Upgrade ::
  "'s rd \<Rightarrow> 'd wr \<Rightarrow> ('p, 'd) httphead \<Rightarrow> (nat \<Rightarrow> 'd header_func) \<Rightarrow> (err \<Rightarrow> byte list) \<Rightarrow> (int \<Rightarrow> nat) \<Rightarrow>
     'p Upgrader \<Rightarrow> 's \<Rightarrow> 'd \<Rightarrow> ('p Handshake \<times> err option \<times> 's \<times> 'd) option" where
  "Upgrader_Upgrade rd wr hh fn ext pool u s d =
     (let hs = \<lparr>Protocol = [], Extensions = []\<rparr>;
          br = NewBufReader s (pool (nonZero (up_ReadBufferSize u) DefaultServerReadBufferSize));
          bw = NewBufWriter d (pool (nonZero (up_WriteBufferSize u) DefaultServerWriteBufferSize))
      in do {
        (rl, e, br) \<leftarrow> readLine rd br;
        (if e \<noteq> None then Some (hs, e, br_src br, d)
         else (let (req, e) = httpParseRequestLine rl
               in if e \<noteq> None then Some (hs, e, br_src br, d)
                  else do {
                    (e, br, r) \<leftarrow> upgrade_loop rd hh u br
                      \<lparr>rq_hs = hs, rq_seen = 0, rq_nonce = replicate nonceSize 0, rq_err = request_error u req\<rparr>;
                    (if e \<noteq> None then Some (rq_hs r, e, br_src br, d)
                     else do {
                       (hs, e, bw) \<leftarrow> finish_upgrade wr hh fn ext u r bw;
                       Some (hs, e, br_src br, bw_dst bw)
                     })
                  }))
      })"

definition Upgrade ::
  "'s rd \<Rightarrow> 'd wr \<Rightarrow> ('p, 'd) httphead \<Rightarrow> (nat \<Rightarrow> 'd header_func) \<Rightarrow> (err \<Rightarrow> byte list) \<Rightarrow> (int \<Rightarrow> nat) \<Rightarrow>
     's \<Rightarrow> 'd \<Rightarrow> ('p Handshake \<times> err option \<times> 's \<times> 'd) option" where
  "Upgrade rd wr hh fn ext pool s d = Upgrader_Upgrade rd wr hh fn ext pool DefaultUpgrader s d"

section \<open>HTTPUpgrader\<close>

text \<open>What the HTTP server has parsed, and the calls made on its \<open>http.ResponseWriter\<close>.\<close>

record Request =
  r_Method :: "byte list"
  r_ProtoMajor :: int
  r_ProtoMinor :: int
  r_Host :: "byte list"
  r_Header :: "byte list \<Rightarrow> byte list list"

datatype response_call =
    HeaderSet "byte list" "byte list"
  | WriteHeaderCode int
  | ResponseWrite "byte list"

definition httpError :: "byte list \<Rightarrow> int \<Rightarrow> response_call list" where
  "httpError body c =
     [HeaderSet (str_bytes ''Content-Type'') (str_bytes ''text/plain; charset=utf-8''),
      HeaderSet (str_bytes ''Content-Length'') (Itoa (int (length body))),
      WriteHeaderCode c,
      ResponseWrite body]"

record 'p HTTPUpgrader =
  hu_Header :: "(byte list \<times> byte list list) list option"
  hu_Protocol :: "(byte list \<Rightarrow> bool) option"
  hu_Extension :: "('p HeadOption \<Rightarrow> bool) option"
  hu_Negotiate :: "('p HeadOption \<Rightarrow> 'p HeadOption \<times> err option) option"

definition DefaultHTTPUpgrader :: "'p HTTPUpgrader" where
  "DefaultHTTPUpgrader = \<lparr>hu_Header = None, hu_Protocol = None, hu_Extension = None, hu_Negotiate = None\<rparr>"

text \<open>The checks of the request, and the key when they get that far.\<close>

definition check_request :: "scan_tokens \<Rightarrow> Request \<Rightarrow> err option \<times> byte list" where
  "check_request ScanTokens r =
     (if r_Method r \<noteq> str_bytes ''GET'' then (Some ErrHandshakeBadMethod, [])
      else if r_ProtoMajor r < 1 \<or> (r_ProtoMajor r = 1 \<and> r_ProtoMinor r < 1) then (Some ErrHandshakeBadProtocol, [])
      else if r_Host r = [] then (Some ErrHandshakeBadHost, [])
      else (let u = httpGetHeader (r_Header r) headerUpgradeCanonical
            in if u \<noteq> str_bytes ''websocket'' \<and> \<not> EqualFold u (str_bytes ''websocket'')
               then (Some ErrHandshakeBadUpgrade, [])
               else (let c = httpGetHeader (r_Header r) headerConnectionCanonical
                     in if c \<noteq> str_bytes ''Upgrade'' \<and> \<not> strHasToken ScanTokens c (str_bytes ''upgrade'')
                        then (Some ErrHandshakeBadConnection, [])
                        else (let nonce = httpGetHeader (r_Header r) headerSecKeyCanonical;
                                  v = httpGetHeader (r_Header r) headerSecVersionCanonical
                              in if length nonce \<noteq> nonceSize then (Some ErrHandshakeBadSecKey, nonce)
                                 else if v \<noteq> str_bytes ''13'' then
                                   (Some (if v \<noteq> [] then ErrHandshakeUpgradeRequired else ErrHandshakeBadSecVersion), nonce)
                                 else (None, nonce)))))"

fun http_protocols ::
  "scan_tokens \<Rightarrow> (byte list \<Rightarrow> bool) \<Rightarrow> byte list list \<Rightarrow> 'p Handshake \<Rightarrow> err option \<Rightarrow> 'p Handshake \<times> err option" where
  "http_protocols ScanTokens check [] hs e = (hs, e)"
| "http_protocols ScanTokens check (p # ps) hs e =
     (if e = None \<and> Protocol hs = [] then
        (let (s, ok) = strSelectProtocol ScanTokens p check
         in http_protocols ScanTokens check ps (hs\<lparr>Protocol := s\<rparr>) (if \<not> ok then Some ErrMalformedRequest else e))
      else (hs, e))"

fun http_negotiate ::
  "('p, 'd) httphead \<Rightarrow> ('p HeadOption \<Rightarrow> 'p HeadOption \<times> err option) \<Rightarrow> byte list list \<Rightarrow> 'p Handshake \<Rightarrow>
     'p Handshake \<times> err option" where
  "http_negotiate hh f [] hs = (hs, None)"
| "http_negotiate hh f (h # xs) hs =
     (let (exts, e) = negotiateExtensions hh (strToBytes h) (Extensions hs) f; hs = hs\<lparr>Extensions := exts\<rparr>
      in if e \<noteq> None then (hs, e) else http_negotiate hh f xs hs)"

fun http_extensions ::
  "('p, 'd) httphead \<Rightarrow> ('p HeadOption \<Rightarrow> bool) \<Rightarrow> byte list list \<Rightarrow> 'p Handshake \<Rightarrow> 'p Handshake \<times> err option" where
  "http_extensions hh check [] hs = (hs, None)"
| "http_extensions hh check (x # xs) hs =
     (let (exts, ok) = btsSelectExtensions hh (strToBytes x) (Extensions hs) check; hs = hs\<lparr>Extensions := exts\<rparr>
      in if \<not> ok then (hs, Some ErrMalformedRequest) else http_extensions hh check xs hs)"

text \<open>
  \<open>hijack\<close> is \<open>None\<close> when the response writer is no \<open>http.Hijacker\<close>, and otherwise the error
  and the buffered writer of the connection that \<open>Hijack\<close> gives. The deadlines of the
  connection are left out. The last result is the calls on the response writer.
\<close>

definition HTTPUpgrader_Upgrade ::
  "'d wr \<Rightarrow> ('p, 'd) httphead \<Rightarrow> (nat \<Rightarrow> 'd header_func) \<Rightarrow> (err \<Rightarrow> byte list) \<Rightarrow> 'p HTTPUpgrader \<Rightarrow> Request \<Rightarrow>
     (err option \<times> 'd BufWriter) option \<Rightarrow>
     ('p Handshake \<times> err option \<times> 'd BufWriter option \<times> response_call list) option" where
  "HTTPUpgrader_Upgrade wr hh fn ext u r hijack =
     (let hs = \<lparr>Protocol = [], Extensions = []\<rparr>;
          (e, w) = (case hijack of Some (e, bw) \<Rightarrow> (e, Some bw) | None \<Rightarrow> (Some ErrNotHijacker, None))
      in case (e, w) of
           (Some er, _) \<Rightarrow> Some (hs, e, w, httpError (error_text ext er) 500)
         | (None, None) \<Rightarrow> None
         | (None, Some bw) \<Rightarrow>
           (let (e, nonce) = check_request (hh_ScanTokens hh) r;
                (hs, e) = (case hu_Protocol u of
                    Some check \<Rightarrow> if e = None
                      then http_protocols (hh_ScanTokens hh) check (r_Header r headerSecProtocolCanonical) hs e
                      else (hs, e)
                  | None \<Rightarrow> (hs, e));
                (hs, e) = (case hu_Negotiate u of
                    Some f \<Rightarrow> if e = None
                      then http_negotiate hh f (r_Header r headerSecExtensionsCanonical) hs
                      else (hs, e)
                  | None \<Rightarrow> (hs, e));
                (hs, e) = (case hu_Extension u of
                    Some check \<Rightarrow> if e = None \<and> hu_Negotiate u = None
                      then http_extensions hh check (r_Header r headerSecExtensionsCanonical) hs
                      else (hs, e)
                  | None \<Rightarrow> (hs, e));
                h0 = map_option HandshakeHeaderHTTP (hu_Header u)
            in case e of
                 None \<Rightarrow> do {
                   bw \<leftarrow> httpWriteResponseUpgrade wr hh (strToBytes nonce) hs
                     (Some (handshakeHeader_WriteTo wr fn (h0, None))) bw;
                   (e, bw) \<leftarrow> bw_Flush wr bw;
                   Some (hs, e, Some bw, [])
                 }
               | Some er \<Rightarrow>
                   (let (c, h1) = rejection er None
                    in do {
                      bw \<leftarrow> httpWriteResponseError wr ext (Some er) c
                        (Some (handshakeHeader_WriteTo wr fn (h0, h1))) bw;
                      (_, bw) \<leftarrow> bw_Flush wr bw;
                      Some (hs, Some er, Some bw, [])
                    })))"

definition UpgradeHTTP ::
  "'d wr \<Rightarrow> ('p, 'd) httphead \<Rightarrow> (nat \<Rightarrow> 'd header_func) \<Rightarrow> (err \<Rightarrow> byte list) \<Rightarrow> Request \<Rightarrow>
     (err option \<times> 'd BufWriter) option \<Rightarrow>
     ('p Handshake \<times> err option \<times> 'd BufWriter option \<times> response_call list) option" where
  "UpgradeHTTP wr hh fn ext r hijack = HTTPUpgrader_Upgrade wr hh fn ext DefaultHTTPUpgrader r hijack"

end
