(* ===== verification/Dialer.thy ===== *)
theory Dialer
  imports Http
begin

text \<open>
  The client side of the opening handshake (dialer.go): the address to dial, the request, and
  the checks of the response. Arguments as in theory Upgrader; \<open>rnd\<close> is what the random
  source gives for the key.
\<close>

section \<open>Addresses\<close>

fun last_index :: "byte list \<Rightarrow> byte \<Rightarrow> int" where
  "last_index [] c = -1"
| "last_index (b # bs) c =
     (let i = last_index bs c in if 0 \<le> i then i + 1 else if b = c then 0 else -1)"

text \<open>The host name and the address, with the default port if there is none.\<close>

definition hostport :: "byte list \<Rightarrow> byte list \<Rightarrow> byte list \<times> byte list" where
  "hostport host defaultPort =
     (let colon = last_index host 0x3A; bracket = index_byte host 0x5D
      in if bracket < colon then (take (nat colon) host, host) else (host, host @ defaultPort))"

section \<open>Dialer\<close>

definition DefaultClientReadBufferSize :: int where "DefaultClientReadBufferSize = 4096"
definition DefaultClientWriteBufferSize :: int where "DefaultClientWriteBufferSize = 4096"

text \<open>
  \<open>OnStatusError\<close> gets a reader over the response and may read some of it: it is a function
  on the buffered reader.
\<close>

record ('p, 's) Dialer =
  di_ReadBufferSize :: int
  di_WriteBufferSize :: int
  di_Protocols :: "byte list list"
  di_Extensions :: "'p HeadOption list"
  di_Header :: "HandshakeHeader option"
  di_OnStatusError :: "(int64 \<Rightarrow> byte list \<Rightarrow> 's BufReader \<Rightarrow> 's BufReader option) option"
  di_OnHeader :: "(byte list \<Rightarrow> byte list \<Rightarrow> err option) option"

definition DefaultDialer :: "('p, 's) Dialer" where
  "DefaultDialer = \<lparr>di_ReadBufferSize = 0, di_WriteBufferSize = 0, di_Protocols = [], di_Extensions = [],
     di_Header = None, di_OnStatusError = None, di_OnHeader = None\<rparr>"

definition seenUpgrade :: byte where "seenUpgrade = 1"
definition seenConnection :: byte where "seenConnection = 2"
definition seenSecAccept :: byte where "seenSecAccept = 4"
definition seenAll :: byte where "seenAll = 0 OR seenUpgrade OR seenConnection OR seenSecAccept"

subsection \<open>Extensions\<close>

text \<open>The local function \<open>match\<close>: the wanted extension of that name, with the parameters of the response.\<close>

fun match_wanted ::
  "('p, 'd) httphead \<Rightarrow> 'p HeadOption \<Rightarrow> 'p HeadOption list \<Rightarrow> 'p HeadOption list \<Rightarrow> 'p HeadOption list \<times> bool" where
  "match_wanted hh opt [] received = (received, False)"
| "match_wanted hh opt (want # wanted) received =
     (if opt_Name opt = opt_Name want
      then (received @ [want\<lparr>opt_Parameters := hh_Copy hh (opt_Parameters opt)\<rparr>], True)
      else match_wanted hh opt wanted received)"

type_synonym 'p matching = "int \<times> 'p HeadOption \<times> 'p HeadOption list \<times> err option"

definition match_call ::
  "('p, 'd) httphead \<Rightarrow> 'p HeadOption list \<Rightarrow> option_call \<Rightarrow> 'p matching \<Rightarrow> 'p matching \<times> Control" where
  "match_call hh wanted = (\<lambda>(i, name, attr, val) (index, opt, received, e).
     let next = (int i \<noteq> index);
         (received, ok) = (if next \<and> i \<noteq> 0 then match_wanted hh opt wanted received else (received, True));
         index = int i
     in if \<not> ok then ((index, opt, received, Some ErrHandshakeBadExtensions), ControlBreak)
        else (let opt = (if next then \<lparr>opt_Name = name, opt_Parameters = hh_zero hh\<rparr> else opt);
                  opt = (case attr of None \<Rightarrow> opt
                    | Some a \<Rightarrow> opt\<lparr>opt_Parameters := hh_Set hh a val (opt_Parameters opt)\<rparr>)
              in ((index, opt, received, e), ControlContinue)))"

definition match_calls ::
  "('p, 'd) httphead \<Rightarrow> 'p HeadOption list \<Rightarrow> 'p HeadOption list \<Rightarrow> option_call list \<Rightarrow> 'p matching \<times> Control" where
  "match_calls hh wanted received calls =
     fold (\<lambda>c (st, _). match_call hh wanted c st) calls
       ((-1, \<lparr>opt_Name = [], opt_Parameters = hh_zero hh\<rparr>, received, None), ControlContinue)"

definition matchSelectedExtensions ::
  "('p, 'd) httphead \<Rightarrow> byte list \<Rightarrow> 'p HeadOption list \<Rightarrow> 'p HeadOption list \<Rightarrow> 'p HeadOption list \<times> err option" where
  "matchSelectedExtensions hh selected wanted received =
     (if selected = [] then (received, None)
      else (let (calls, ok) = hh_ScanOptions hh selected (\<lambda>calls. snd (match_calls hh wanted received calls));
                ((index, opt, received, e), _) = match_calls hh wanted received calls
            in if \<not> ok then (received, Some ErrMalformedResponse)
               else (let (received, ok) = match_wanted hh opt wanted received
                     in if \<not> ok then (received, Some ErrHandshakeBadExtensions) else (received, e))))"

subsection \<open>The response\<close>

record 'p response =
  rs_hs :: "'p Handshake"
  rs_seen :: byte

fun wanted_protocol :: "byte list \<Rightarrow> byte list list \<Rightarrow> byte list \<Rightarrow> byte list" where
  "wanted_protocol v [] p = p"
| "wanted_protocol v (want # ps) p = (if v = want then want else wanted_protocol v ps p)"

text \<open>One header line of the response; \<open>None\<close> is a panic.\<close>

definition dial_header ::
  "('p, 'd) httphead \<Rightarrow> ('p, 's) Dialer \<Rightarrow> byte list \<Rightarrow> byte list \<Rightarrow> byte list \<Rightarrow> 'p response \<Rightarrow>
     (err option \<times> 'p response) option" where
  "dial_header hh di nonce k v r =
     (if k = headerUpgradeCanonical then
        (let r = r\<lparr>rs_seen := rs_seen r OR seenUpgrade\<rparr>
         in Some (if v \<noteq> specHeaderValueUpgrade \<and> \<not> EqualFold v specHeaderValueUpgrade
                  then Some ErrHandshakeBadUpgrade else None, r))
      else if k = headerConnectionCanonical then
        (let r = r\<lparr>rs_seen := rs_seen r OR seenConnection\<rparr>
         in Some (if v \<noteq> specHeaderValueConnection \<and> \<not> EqualFold v specHeaderValueConnection
                  then Some ErrHandshakeBadConnection else None, r))
      else if k = headerSecAcceptCanonical then
        (let r = r\<lparr>rs_seen := rs_seen r OR seenSecAccept\<rparr>
         in do {
           ok \<leftarrow> checkAcceptFromNonce v nonce;
           Some (if \<not> ok then Some ErrHandshakeBadSecAccept else None, r)
         })
      else if k = headerSecProtocolCanonical then
        (let p = wanted_protocol v (di_Protocols di) (Protocol (rs_hs r));
             r = r\<lparr>rs_hs := (rs_hs r)\<lparr>Protocol := p\<rparr>\<rparr>
         in Some (if p = [] then Some ErrHandshakeBadSubProtocol else None, r))
      else if k = headerSecExtensionsCanonical then
        (let (xs, e) = matchSelectedExtensions hh v (di_Extensions di) (Extensions (rs_hs r))
         in Some (e, r\<lparr>rs_hs := (rs_hs r)\<lparr>Extensions := xs\<rparr>\<rparr>))
      else Some (case di_OnHeader di of None \<Rightarrow> None | Some f \<Rightarrow> f k v, r))"

partial_function (option) dial_loop ::
  "'s rd \<Rightarrow> ('p, 'd) httphead \<Rightarrow> ('p, 's) Dialer \<Rightarrow> byte list \<Rightarrow> 's BufReader \<Rightarrow> 'p response \<Rightarrow>
     (err option \<times> 's BufReader \<times> 'p response) option" where
  "dial_loop rd hh di nonce br r =
     Option.bind (readLine rd br) (\<lambda>(line, e, br).
       if e \<noteq> None then Some (e, br, r)
       else if line = [] then Some (None, br, r)
       else (let (k, v, ok) = httpParseHeaderLine line
             in if \<not> ok then Some (Some ErrMalformedResponse, br, r)
                else Option.bind (dial_header hh di nonce (btsToString k) v r) (\<lambda>(e, r).
                       if e \<noteq> None then Some (e, br, r) else dial_loop rd hh di nonce br r)))"

declare dial_loop.simps [code]

definition missing_response_header :: "byte \<Rightarrow> err option" where
  "missing_response_header seen =
     (if seen AND seenUpgrade = 0 then Some ErrHandshakeBadUpgrade
      else if seen AND seenConnection = 0 then Some ErrHandshakeBadConnection
      else if seen AND seenSecAccept = 0 then Some ErrHandshakeBadSecAccept
      else None)"

text \<open>After the request is flushed: the status line and the headers.\<close>

definition read_response ::
  "'s rd \<Rightarrow> ('p, 'd) httphead \<Rightarrow> ('p, 's) Dialer \<Rightarrow> byte list \<Rightarrow> 's BufReader \<Rightarrow>
     ('p Handshake \<times> err option \<times> 's BufReader) option" where
  "read_response rd hh di nonce br =
     (let hs = \<lparr>Protocol = [], Extensions = []\<rparr>
      in do {
        (sl, e, br) \<leftarrow> readLine rd br;
        (if e \<noteq> None then Some (hs, e, br)
         else (let (resp, e) = httpParseResponseLine sl
               in if e \<noteq> None then Some (hs, e, br)
                  else if resp_major resp \<noteq> 1 \<or> sint (resp_minor resp) < 1 then
                    Some (hs, Some ErrHandshakeBadProtocol, br)
                  else if resp_status resp \<noteq> 101 then
                    (let e = Some (StatusError (sint (resp_status resp)))
                     in case di_OnStatusError di of
                          None \<Rightarrow> Some (hs, e, br)
                        | Some f \<Rightarrow> do { br \<leftarrow> f (resp_status resp) (resp_reason resp) br; Some (hs, e, br) })
                  else do {
                    (e, br, r) \<leftarrow> dial_loop rd hh di nonce br \<lparr>rs_hs = hs, rs_seen = 0\<rparr>;
                    (if e = None \<and> rs_seen r \<noteq> seenAll then
                       (case missing_response_header (rs_seen r) of
                          None \<Rightarrow> None
                        | Some er \<Rightarrow> Some (rs_hs r, Some er, br))
                     else Some (rs_hs r, e, br))
                  }))
      })"

text \<open>The reader is given to the caller only when bytes of the server are left in it.\<close>

definition Dialer_Upgrade ::
  "'s rd \<Rightarrow> 'd wr \<Rightarrow> ('p, 'd) httphead \<Rightarrow> (nat \<Rightarrow> 'd header_func) \<Rightarrow> (int \<Rightarrow> nat) \<Rightarrow> byte list \<Rightarrow>
     ('p, 's) Dialer \<Rightarrow> URL \<Rightarrow> 's \<Rightarrow> 'd \<Rightarrow>
     ('s BufReader option \<times> 'p Handshake \<times> err option \<times> 's \<times> 'd) option" where
  "Dialer_Upgrade rd wr hh fn pool rnd di u s d =
     (let br = NewBufReader s (pool (nonZero (di_ReadBufferSize di) DefaultClientReadBufferSize));
          bw = NewBufWriter d (pool (nonZero (di_WriteBufferSize di) DefaultClientWriteBufferSize));
          hdr = map_option (header_WriteTo wr fn) (di_Header di)
      in do {
        nonce \<leftarrow> initNonce rnd (replicate nonceSize 0);
        bw \<leftarrow> httpWriteUpgradeRequest wr hh u nonce (di_Protocols di) (di_Extensions di) hdr bw;
        (e, bw) \<leftarrow> bw_Flush wr bw;
        (hs, e, br) \<leftarrow>
          (if e \<noteq> None then Some (\<lparr>Protocol = [], Extensions = []\<rparr>, e, br)
           else read_response rd hh di nonce br);
        Some (if br_Buffered br = 0 \<or> e \<noteq> None then None else Some br, hs, e, br_src br, bw_dst bw)
      })"

section \<open>Dialling\<close>

text \<open>
  How a connection is made is not part of the program: \<open>netdial\<close> answers a connection and an
  error for a network and an address, \<open>tls\<close> puts TLS over a connection for a host name, and
  \<open>wrap\<close> is the optional callback. A nil connection is \<open>None\<close>.
\<close>

definition dial ::
  "(byte list \<Rightarrow> byte list \<Rightarrow> 'c option \<times> err option) \<Rightarrow> ('c option \<Rightarrow> byte list \<Rightarrow> 'c option) \<Rightarrow>
     ('c option \<Rightarrow> 'c option) option \<Rightarrow> URL \<Rightarrow> 'c option \<times> err option" where
  "dial netdial tls wrap u =
     (let wrapped = (\<lambda>conn. case wrap of None \<Rightarrow> conn | Some f \<Rightarrow> f conn)
      in if url_Scheme u = str_bytes ''ws'' then
           (let (conn, e) = netdial (str_bytes ''tcp'') (snd (hostport (url_Host u) (str_bytes '':80'')))
            in (wrapped conn, e))
         else if url_Scheme u = str_bytes ''wss'' then
           (let (hostname, addr) = hostport (url_Host u) (str_bytes '':443'');
                (conn, e) = netdial (str_bytes ''tcp'') addr
            in if e \<noteq> None then (None, e) else (wrapped (tls conn hostname), e))
         else (None, Some (FmtError (str_bytes ''unexpected websocket scheme: '' @ [0x22] @ url_Scheme u @ [0x22]))))"

text \<open>
  \<open>tlsClient\<close> is the TLS client of a dialer that has none of its own: \<open>client\<close> is \<open>tls.Client\<close>, a
  configuration is its server name and everything else, \<open>unset\<close> when nothing is set.
\<close>

record 'o tls_Config =
  tls_ServerName :: "byte list"
  tls_others :: 'o

definition tlsDefaultConfig :: "'o \<Rightarrow> 'o tls_Config" where
  "tlsDefaultConfig unset = \<lparr>tls_ServerName = [], tls_others = unset\<rparr>"

definition tlsCloneConfig :: "'o tls_Config \<Rightarrow> 'o tls_Config" where
  "tlsCloneConfig c = \<lparr>tls_ServerName = tls_ServerName c, tls_others = tls_others c\<rparr>"

text \<open>
  Before Go 1.8 the copy is made field by field. Here a configuration gives the value of each field by its
  name; a field that the list does not name is left at its zero value.
\<close>

definition tlsCopiedFields :: "string list" where
  "tlsCopiedFields =
     [''Rand'', ''Time'', ''Certificates'', ''NameToCertificate'', ''GetCertificate'', ''RootCAs'', ''NextProtos'', ''ServerName'',
      ''ClientAuth'', ''ClientCAs'', ''InsecureSkipVerify'', ''CipherSuites'', ''PreferServerCipherSuites'',
      ''SessionTicketsDisabled'', ''SessionTicketKey'', ''ClientSessionCache'', ''MinVersion'', ''MaxVersion'',
      ''CurvePreferences'', ''DynamicRecordSizingDisabled'', ''Renegotiation'']"

definition tlsCloneConfig17 :: "(string \<Rightarrow> 'v) \<Rightarrow> (string \<Rightarrow> 'v) \<Rightarrow> string \<Rightarrow> 'v" where
  "tlsCloneConfig17 unset c = (\<lambda>field. if field \<in> set tlsCopiedFields then c field else unset field)"

definition tlsClient ::
  "('c option \<Rightarrow> 'o tls_Config \<Rightarrow> 'c option) \<Rightarrow> 'o \<Rightarrow> 'o tls_Config option \<Rightarrow> 'c option \<Rightarrow> byte list \<Rightarrow> 'c option" where
  "tlsClient client unset config conn hostname =
     (let config = (case config of None \<Rightarrow> tlsDefaultConfig unset | Some c \<Rightarrow> c);
          config = (if tls_ServerName config = [] then (tlsCloneConfig config)\<lparr>tls_ServerName := hostname\<rparr> else config)
      in client conn config)"

text \<open>
  The end of \<open>setupContextDeadliner\<close>: \<open>interrupt\<close> is what the interrupter reports, the error of
  the context if it was done first; it replaces a timeout or the absence of an error.
\<close>

definition map_ctx_err :: "(err \<Rightarrow> bool) \<Rightarrow> err option \<Rightarrow> err option \<Rightarrow> err option" where
  "map_ctx_err isTimeout interrupt e =
     (if interrupt \<noteq> None \<and> (case e of None \<Rightarrow> True | Some er \<Rightarrow> isTimeout er) then interrupt else e)"

text \<open>
  \<open>Dial\<close> over these: \<open>parse\<close> is \<open>url.ParseRequestURI\<close>, a connection of the model is its read
  and its write side. The last result says whether the connection was closed.
\<close>

definition Dial ::
  "'s rd \<Rightarrow> 'd wr \<Rightarrow> ('p, 'd) httphead \<Rightarrow> (nat \<Rightarrow> 'd header_func) \<Rightarrow> (int \<Rightarrow> nat) \<Rightarrow> byte list \<Rightarrow>
     (byte list \<Rightarrow> URL + err) \<Rightarrow> (URL \<Rightarrow> ('s \<times> 'd) option \<times> err option) \<Rightarrow>
     (err \<Rightarrow> bool) \<Rightarrow> bool \<Rightarrow> err option \<Rightarrow> ('p, 's) Dialer \<Rightarrow> byte list \<Rightarrow>
     (('s \<times> 'd) option \<times> 's BufReader option \<times> 'p Handshake \<times> err option \<times> bool) option" where
  "Dial rd wr hh fn pool rnd parse mkconn isTimeout background interrupt di urlstr =
     (let hs = \<lparr>Protocol = [], Extensions = []\<rparr>
      in case parse urlstr of
           Inr er \<Rightarrow> Some (None, None, hs, Some er, False)
         | Inl u \<Rightarrow>
             (case mkconn u of
                (conn, Some er) \<Rightarrow> Some (conn, None, hs, Some er, False)
              | (None, None) \<Rightarrow> None
              | (Some (s, d), None) \<Rightarrow> do {
                  (br, hs, e, s, d) \<leftarrow> Dialer_Upgrade rd wr hh fn pool rnd di u s d;
                  (let e = (if background then e else map_ctx_err isTimeout interrupt e)
                   in Some (Some (s, d), br, hs, e, e \<noteq> None))
                }))"

end
