(* ===== verification/Conversations.thy ===== *)
theory Conversations
  imports Helpers
begin

text \<open>
  What the helper functions do on a connection: pings and pongs are handled between and inside
  of messages, unwanted messages are skipped, and the wanted message comes out whole.
\<close>

section \<open>Control frames in the middle of a message\<close>

context framed_stream
begin

text \<open>The reader of a frame after some of its bytes were read.\<close>

definition walked :: "'s \<Rightarrow> nat \<Rightarrow> 's framed \<Rightarrow> bool" where
  "walked s0 m x \<longleftrightarrow> (\<exists>b j s. x = (b, int m - int j, s) \<and> j \<le> m \<and> data s = drop j (data s0) \<and>
     ending s = ending s0 \<and> inv s \<and> fin s \<le> fin s0)"

lemma walked_start: "inv s0 \<Longrightarrow> walked s0 m (b, int m, s0)"
  by (auto simp: walked_def intro: exI [of _ 0])

lemma walked_step:
  assumes w: "walked s0 m x" "m \<le> length (data s0)" and r: "base_read rd n x = Some (bs, e, y)"
  shows "walked s0 m y"
proof -
  obtain b j s where x: "x = (b, int m - int j, s)" "j \<le> m" "data s = drop j (data s0)" "ending s = ending s0"
      "inv s" "fin s \<le> fin s0"
    using w(1) by (auto simp: walked_def)
  obtain b' N' s' where y: "y = (b', N', s')" by (cases y) auto
  have nm: "int m - int j = int (m - j)" using x(2) by simp
  have i: "framed_inv inv x" using x by (simp add: framed_inv_def)
  have le: "m - j \<le> length (data s)" using w(2) x(2,3) by simp
  note st = base_read_stream [OF x(5) le r [unfolded x(1) y nm]]
  have "inv s'" "fin s' \<le> fin s"
    using base.rd_inv [OF i r] base.rd_fin [OF i r] by (simp_all add: x y framed_inv_def framed_fin_def)
  with st x show ?thesis
    unfolding walked_def y
    by (intro exI [of _ b'] exI [of _ "j + length bs"] exI [of _ s']) (auto simp: add.commute)
qed

lemma frame_handler_quiet:
  assumes i: "inv s" and wf: "wf_frame f" and ds: "data s = Payload f @ rest"
    and op: "OpCode (Header f) = OpPing \<or> OpCode (Header f) = OpPong" "length (Payload f) \<le> 125"
    and pool: "byte_pool getlen"
  shows "\<exists>e x' d'. ControlFrameHandler getlen (frame_src rd) st (Header f) (frame_reader f s, d) = Some (e, x', d') \<and>
    walked s (length (Payload f)) x' \<and>
    (if OpCode (Header f) = OpPing then \<exists>m. delivers (frame_bytes (out_frame st OpPong True m (plain f))) d d' e
     else e = None \<and> d' = d)"
proof -
  let ?c = "\<lparr>Src = frame_src rd, HState = st, DisableSrcCiphering = True\<rparr>" and ?x = "frame_reader f s"
    and ?h = "Header f" and ?m = "length (Payload f)"
  have c: "src_rd (Src ?c) = base_read rd" "src_WriteTo (Src ?c) = None" "\<not> ciphers ?c"
    by (simp_all add: frame_src_def ciphers_def)
  have len: "sint (Length ?h) = int ?m" using wf by (simp add: wf_frame_def)
  have le: "?m \<le> length (data s)" by (simp add: ds)
  have ix: "framed_inv inv ?x" using i by (simp add: framed_inv_def)
  have w: "walked s ?m ?x" by (rule walked_start [OF i])
  have pd: "framed_data data ?x = plain f" and pe: "framed_end data ending ?x = EOF"
    using ds by (simp_all add: plain_def limited_data_def limited_end_def framed_end_def)
  have lp: "length (plain f) = ?m" by (simp add: plain_def)
  show ?thesis
  proof (cases "OpCode ?h = OpPing")
    case True
    have "\<exists>e x' d'. HandlePing getlen ?c ?h ?x d = Some (e, x', d') \<and> walked s ?m x' \<and>
        (\<exists>m. delivers (frame_bytes (out_frame st OpPong True m (plain f))) d d' e)"
    proof (cases "Length ?h = 0")
      case z: True
      then have "plain f = []" using len lp by simp
      obtain e d' where h: "HandlePing getlen ?c ?h ?x d = Some (e, ?x, d')"
          "delivers (frame_bytes (out_frame (HState ?c) OpPong True zeroMask [])) d d' e"
        using HandlePing_empty [OF z, of getlen ?c ?x d] by blast
      show ?thesis
        by (intro exI [of _ e] exI [of _ ?x] exI [of _ d'] conjI exI [of _ zeroMask])
          (use h w \<open>plain f = []\<close> in simp_all)
    next
      case z: False
      have ne: "plain f \<noteq> []" using z len lp by (auto simp: signed_eq_0_iff)
      have "copies ?c ?h ?x (framed_data data ?x) (walked s ?m)"
        by (rule base.copies_source [where P = "walked s ?m", OF c ix w pe]) (auto intro: walked_step [OF _ le])
      then have cp: "copies ?c ?h ?x (plain f) (walked s ?m)" unfolding pd .
      show ?thesis
        using HandlePing_replies [OF cp _ _ ne, of getlen d] len lp op(2) byte_pool.getlen [OF pool] by auto
    qed
    with True show ?thesis by (auto simp: ControlFrameHandler_def Handle_def)
  next
    case False
    then have pong: "OpCode ?h = OpPong" using op(1) by simp
    obtain e x' where di: "io_Discard (base_read rd) ?x = Some (e, x')" "framed_inv inv x'"
      using base.io_Discard_returns [OF ix] by blast
    have e: "e = None" using base.io_Discard_all [OF ix] di(1) unfolding pe by auto
    have w': "walked s ?m x'"
      by (rule base.io_Discard_ends [where P = "walked s ?m", OF _ _ ix w di(1)]) (auto intro: walked_step [OF _ le])
    have "HandlePong getlen ?c ?h ?x d = Some (if Length ?h = 0 then (None, ?x, d) else (e, x', d))"
      by (rule HandlePong_discards) (use di(1) c len byte_pool.getlen [OF pool] in auto)
    moreover have "Handle getlen ?c ?h ?x d = HandlePong getlen ?c ?h ?x d"
      using pong False by (simp add: Handle_def)
    ultimately show ?thesis
      using w w' e False
      by (intro exI [of _ None] exI [of _ "if Length ?h = 0 then ?x else x'"] exI [of _ d])
        (simp add: ControlFrameHandler_def)
  qed
qed

end

section \<open>Reading data\<close>

definition quiet_control :: "header \<Rightarrow> bool" where
  "quiet_control h \<longleftrightarrow> OpCode h = OpPing \<or> OpCode h = OpPong"

definition quiet_ping :: "header \<Rightarrow> bool" where
  "quiet_ping h \<longleftrightarrow> quiet_control h \<and> sint (Length h) \<le> 125"

text \<open>What a control frame does to a connection: a ping is answered, a pong is not.\<close>

definition pongs :: "byte \<Rightarrow> frame \<Rightarrow> dest \<Rightarrow> dest \<Rightarrow> bool" where
  "pongs st f d d' \<longleftrightarrow>
     (if OpCode (Header f) = OpPing
      then \<exists>m. conn_out d' = conn_out d @ frame_bytes (out_frame st OpPong True m (plain f))
      else d' = d)"

definition calm :: "dest \<Rightarrow> bool" where
  "calm d \<longleftrightarrow> faults d = []"

text \<open>
  What the loop of \<open>readData\<close> goes past: pings and pongs, and messages of an operation code
  that is not wanted.
\<close>

fun skipped :: "('s, dest) ReaderConf \<Rightarrow> byte \<Rightarrow> byte \<Rightarrow> frame list \<Rightarrow> bool" where
  "skipped cf st want [] = False"
| "skipped cf st want (f # fs) \<longleftrightarrow> message_ok cf quiet_ping st (f # fs) \<and>
     (if IsControl (OpCode (Header f)) then quiet_ping (Header f) else OpCode (Header f) AND want = 0)"

locale data_reader = framed_stream rd inv fin data ending + byte_pool getlen
  for rd :: "'s rd" and inv and fin and data and ending and getlen +
  fixes st :: byte

sublocale data_reader \<subseteq> message_reader rd inv fin "data_conf rd getlen st"
  by (rule data_conf_reader) unfold_locales

lemma small_control:
  "CheckHeader h st = None \<Longrightarrow> IsControl (OpCode h) \<Longrightarrow> sint (Length h) \<le> 125 \<and> Fin h"
  by (simp add: CheckHeader_None)

sublocale data_reader \<subseteq> message_stream rd inv fin data ending "data_conf rd getlen st"
  quiet_ping calm "pongs st"
proof unfold_locales
  fix cb f s rest w
  assume cb: "OnIntermediate (data_conf rd getlen st) = Some cb"
    and q: "quiet_ping (Header f)"
    and i: "inv s" and wf: "wf_frame f" and ds: "data s = Payload f @ rest" and rw: "calm w"
  have c: "cb = ControlFrameHandler getlen (frame_src rd) st" using cb by (simp add: data_conf_def)
  have l: "length (Payload f) \<le> 125" using q wf by (simp add: wf_frame_def quiet_ping_def)
  have pool: "byte_pool getlen" by unfold_locales
  obtain e x' w' where h: "ControlFrameHandler getlen (frame_src rd) st (Header f) (frame_reader f s, w) = Some (e, x', w')"
      "walked s (length (Payload f)) x'"
      "if OpCode (Header f) = OpPing then \<exists>m. delivers (frame_bytes (out_frame st OpPong True m (plain f))) w w' e
       else e = None \<and> w' = w"
    using frame_handler_quiet [OF i wf ds _ l pool, of st w] q by (auto simp: quiet_control_def quiet_ping_def)
  have "e = None \<and> calm w' \<and> pongs st f w w'"
    using h(3) rw by (auto simp: delivers_def pongs_def calm_def split: if_splits)
  with h(1,2) show "\<exists>b' j s' w'. cb (Header f) (frame_reader f s, w) =
          Some (None, (b', int (length (Payload f)) - int j, s'), w') \<and>
        j \<le> length (Payload f) \<and> data s' = drop j (data s) \<and> ending s' = ending s \<and> inv s' \<and>
        fin s' \<le> fin s \<and> calm w' \<and> pongs st f w w'"
    unfolding c walked_def by blast
qed (simp_all add: data_conf_def zero_conf_def)

context data_reader
begin

abbreviation conf :: "('s, dest) ReaderConf" where
  "conf \<equiv> data_conf rd getlen st"

text \<open>A control frame outside of a message, read through the message reader.\<close>

lemma checks_control: "IsControl (opCode r) \<Longrightarrow> \<not> checks r"
  by (auto simp: checks_def)

lemma single_read:
  assumes d: "delivering r [] rest pl" "\<not> checks r" and rw: "calm w"
  shows "one_frame (r, w)" "frame_rest (r, w) = pl" "frame_end (r, w) = EOF"
  using d rw delivering_Nil [OF d(1)]
  by (auto simp: one_frame_def frame_rest_def frame_end_def delivering_def)

definition loaded :: "'s Reader \<Rightarrow> dest \<Rightarrow> byte list \<Rightarrow> 's Reader \<times> dest \<Rightarrow> bool" where
  "loaded r0 w0 rest = (\<lambda>(r, w). w = w0 \<and> (\<exists>pl. delivering r [] rest pl \<and> \<not> checks r) \<and>
     Clear (RState r) StateFragmented = Clear (RState r0) StateFragmented \<and> ending (src r) = ending (src r0))"

definition unloaded :: "'s Reader \<Rightarrow> dest \<Rightarrow> byte list \<Rightarrow> 's Reader \<times> dest \<Rightarrow> bool" where
  "unloaded r0 w0 rest = (\<lambda>(r, w). w = w0 \<and> at_rest r rest \<and>
     RState r = Clear (RState r0) StateFragmented \<and> ending (src r) = ending (src r0))"

lemma loaded_step:
  assumes "one_frame x" "loaded r0 w0 rest x" "reader_rd rd conf n x = Some (bs, e, y)" "calm w0"
  shows "case e of None \<Rightarrow> loaded r0 w0 rest y | Some _ \<Rightarrow> unloaded r0 w0 rest y"
proof -
  obtain r where x: "x = (r, w0)" using assms(2) by (auto simp: loaded_def)
  obtain pl where d: "delivering r [] rest pl" "\<not> checks r"
      "Clear (RState r) StateFragmented = Clear (RState r0) StateFragmented" "ending (src r) = ending (src r0)"
    using assms(2) by (auto simp: loaded_def x)
  from d(1,2) assms(4) show ?thesis
  proof (rule reader_rd_frame [where k = n])
    fix bs' r' pl'
    assume "reader_rd rd conf n (r, w0) = Some (bs', None, (r', w0))" "pl = bs' @ pl'"
      "delivering r' [] rest pl'" "\<not> checks r'" "same_message r r' bs'"
    then show ?thesis using assms(3) d x by (auto simp: loaded_def same_message_def)
  next
    fix r'
    assume "reader_rd rd conf n (r, w0) = Some (pl, Some EOF, (r', w0))" "at_rest r' rest"
      "RState r' = Clear (RState r) StateFragmented" "ending (src r') = ending (src r)"
    then show ?thesis using assms(3) d x by (auto simp: unloaded_def)
  qed
qed

text \<open>The handler over a loaded control frame.\<close>

lemma loaded_handler:
  assumes d: "delivering r [] rest (plain f)" "\<not> checks r" and w: "calm w"
    and wf: "wf_frame f" and q: "quiet_control (Header f)" "length (Payload f) \<le> 125"
    and st0: "RState r = s0" "\<not> Fragmented s0"
  shows "\<exists>r' w'. ControlFrameHandler getlen (reader_src rd conf) st (Header f) ((r, w), w) =
      Some (None, (r', w), w') \<and> calm w' \<and> pongs st f w w' \<and> idle r' rest \<and> RState r' = s0 \<and>
      ending (src r') = ending (src r)"
proof -
  let ?c = "\<lparr>Src = reader_src rd conf, HState = st, DisableSrcCiphering = True\<rparr>" and ?h = "Header f"
  have c: "src_rd (Src ?c) = reader_rd rd conf" "src_WriteTo (Src ?c) = None" "\<not> ciphers ?c"
    by (simp_all add: reader_src_def ciphers_def)
  have len: "sint (Length ?h) = int (length (plain f))" "length (plain f) \<le> 125"
    using wf q(2) by (simp_all add: wf_frame_def plain_def)
  note o = single_read [OF d w]
  have l: "loaded r w rest (r, w)" using d by (auto simp: loaded_def)
  have step: "loaded r w rest y" if "one_frame x" "loaded r w rest x" "reader_rd rd conf n x = Some (bs, None, y)" for n x bs y
    using loaded_step [OF that w] by simp
  have last: "unloaded r w rest y" if "one_frame x" "loaded r w rest x" "reader_rd rd conf n x = Some (bs, Some e, y)" for n x bs e y
    using loaded_step [OF that w] by simp
  have un: "\<exists>r'. y = (r', w) \<and> idle r' rest \<and> RState r' = s0 \<and> ending (src r') = ending (src r)"
    if "unloaded r w rest y" for y
    using that st0 at_rest_idle by (auto simp: unloaded_def Clear_unfragmented)
  have z: "idle r rest" if "Length ?h = 0"
    using that len(1) d(1) by (intro delivering_idle [OF _ d(2)]) (metis length_0_conv of_nat_eq_0_iff signed_0)
  have fm: "faults w = []" using w by (simp add: calm_def)
  show ?thesis
  proof (cases "OpCode ?h = OpPing")
    case True
    have hd: "ControlFrameHandler getlen (reader_src rd conf) st ?h ((r, w), w) = HandlePing getlen ?c ?h (r, w) w"
      using True by (simp add: ControlFrameHandler_def Handle_def)
    have "\<exists>y w' m. HandlePing getlen ?c ?h (r, w) w = Some (None, y, w') \<and>
        (Length ?h = 0 \<and> y = (r, w) \<or> unloaded r w rest y) \<and>
        faults w' = [] \<and> conn_out w' = conn_out w @ frame_bytes (out_frame st OpPong True m (plain f))"
    proof (cases "Length ?h = 0")
      case nz: True
      obtain e w' where h: "HandlePing getlen ?c ?h (r, w) w = Some (e, (r, w), w')"
          "delivers (frame_bytes (out_frame (HState ?c) OpPong True zeroMask [])) w w' e"
        using HandlePing_empty [OF nz, of getlen ?c "(r, w)" w] by blast
      have "plain f = []" using nz len(1) by simp
      with h nz fm show ?thesis
        by (intro exI [of _ "(r, w)"] exI [of _ w'] exI [of _ zeroMask]) (simp add: delivers_def)
    next
      case nz: False
      then have ne: "plain f \<noteq> []" using len(1) by (auto simp: signed_eq_0_iff)
      have "copies ?c ?h (r, w) (frame_rest (r, w)) (unloaded r w rest)"
        by (rule single.copies_source [where P = "loaded r w rest", OF c o(1) l o(3)]) (rule step last; assumption)+
      then have cp: "copies ?c ?h (r, w) (plain f) (unloaded r w rest)" unfolding o(2) .
      obtain e y w' m where "HandlePing getlen ?c ?h (r, w) w = Some (e, y, w')" "unloaded r w rest y"
          "delivers (frame_bytes (out_frame (HState ?c) OpPong True m (plain f))) w w' e"
        using HandlePing_replies [OF cp len ne getlen] by blast
      with fm show ?thesis
        by (intro exI [of _ y] exI [of _ w'] exI [of _ m]) (simp add: delivers_def)
    qed
    then obtain y w' m where y: "HandlePing getlen ?c ?h (r, w) w = Some (None, y, w')"
        "Length ?h = 0 \<and> y = (r, w) \<or> unloaded r w rest y" "faults w' = []"
        "conn_out w' = conn_out w @ frame_bytes (out_frame st OpPong True m (plain f))" by blast
    obtain r' where r': "y = (r', w)" "idle r' rest" "RState r' = s0" "ending (src r') = ending (src r)"
      using y(2) un z st0 by blast
    have "pongs st f w w'"
      using True exI [of "\<lambda>m. conn_out w' = conn_out w @ frame_bytes (out_frame st OpPong True m (plain f))" m, OF y(4)]
      by (simp add: pongs_def del: split_paired_Ex)
    with y r' hd show ?thesis by (auto simp: calm_def)
  next
    case False
    have hd: "ControlFrameHandler getlen (reader_src rd conf) st ?h ((r, w), w) = HandlePong getlen ?c ?h (r, w) w"
      using False q(1) by (simp add: ControlFrameHandler_def Handle_def quiet_control_def)
    obtain e y where di: "io_Discard (reader_rd rd conf) (r, w) = Some (e, y)"
      using single.io_Discard_returns [OF o(1)] by blast
    have e: "e = None" using single.io_Discard_all [OF o(1)] di unfolding o(3) by auto
    have u: "unloaded r w rest y"
      by (rule single.io_Discard_ends [where P = "loaded r w rest", OF _ _ o(1) l di]) (rule step last; assumption)+
    have "HandlePong getlen ?c ?h (r, w) w = Some (if Length ?h = 0 then (None, (r, w), w) else (e, y, w))"
      by (rule HandlePong_discards) (use di c len getlen in auto)
    moreover have "pongs st f w w" using False by (simp add: pongs_def)
    ultimately show ?thesis using hd e un [OF u] z st0 w by (cases "Length ?h = 0") auto
  qed
qed

text \<open>A control frame between messages, from its header to the end of its payload.\<close>

lemma control_message:
  assumes a: "idle r (frame_bytes f @ rest)" and r: "RState r = st" "\<not> Fragmented st" and w: "calm w"
    and m: "message_ok conf quiet_ping st [f]" and c: "IsControl (OpCode (Header f))" and q: "quiet_ping (Header f)"
  shows "\<exists>r1 r' w'. NextFrame rd conf (r, w) = Some (Header f, None, r1, w) \<and>
    ControlFrameHandler getlen (reader_src rd conf) st (Header f) ((r1, w), w) = Some (None, (r', w), w') \<and>
    calm w' \<and> pongs st f w w' \<and> idle r' rest \<and> RState r' = st \<and> ending (src r') = ending (src r)"
proof -
  have a': "idle r (wire [f] @ rest)" and m': "message_ok conf quiet_ping (RState r) [f]" using a m r by (simp_all split: if_split_asm)
  obtain r1 where n: "NextFrame rd conf (r, w) = Some (Header f, None, r1, w)"
      and d: "delivering r1 [] rest (plain f @ message_payload [])" "opCode r1 = OpCode (Header f)"
        "Clear (RState r1) StateFragmented = RState r" "ending (src r1) = ending (src r)"
    by (rule NextFrame_message [OF a' m', of w])
  have wf: "wf_frame f" using m by simp
  have d0: "delivering r1 [] rest (plain f)" using d(1) by simp
  have "\<not> fragmented r1" using delivering_Nil [OF d0] by simp
  then have s1: "RState r1 = st" using d(3) r by (simp add: fragmented_def Clear_unfragmented)
  have l: "length (Payload f) \<le> 125" using q wf by (simp add: wf_frame_def quiet_ping_def)
  have nc: "\<not> checks r1" using checks_control d(2) c by simp
  obtain r2 w2 where "ControlFrameHandler getlen (reader_src rd conf) st (Header f) ((r1, w), w) = Some (None, (r2, w), w2)"
      "calm w2" "pongs st f w w2" "idle r2 rest" "RState r2 = st" "ending (src r2) = ending (src r1)"
    using loaded_handler [OF d0 nc w wf _ l s1 r(2)] q unfolding quiet_ping_def by blast
  with n d(4) show ?thesis by (intro exI [of _ r1] exI [of _ r2] exI [of _ w2]) simp
qed

lemma skip_one:
  assumes a: "idle r (wire u @ rest)" and r: "RState r = st" "\<not> Fragmented st" and u: "skipped conf st want u" and w: "calm w"
  shows "\<exists>r' w'. read_data_loop rd room getlen st want r w = read_data_loop rd room getlen st want r' w' \<and>
    idle r' rest \<and> RState r' = st \<and> calm w' \<and> answered (pongs st) u w w' \<and> ending (src r') = ending (src r)"
proof -
  obtain f fs where f: "u = f # fs" using u by (cases u) auto
  have m: "message_ok conf quiet_ping st (f # fs)" using u f by simp
  show ?thesis
  proof (cases "IsControl (OpCode (Header f))")
    case True
    then have fs: "fs = []" and q: "quiet_ping (Header f)"
      using u f small_control [of "Header f" st] by (auto split: if_splits)
    have a': "idle r (frame_bytes f @ rest)" using a f fs by simp
    obtain r1 r2 w2 where h: "NextFrame rd conf (r, w) = Some (Header f, None, r1, w)"
        "ControlFrameHandler getlen (reader_src rd conf) st (Header f) ((r1, w), w) = Some (None, (r2, w), w2)"
        "calm w2" "pongs st f w w2" "idle r2 rest" "RState r2 = st" "ending (src r2) = ending (src r)"
      using control_message [OF a' r w m [unfolded fs] True q] by blast
    have "read_data_loop rd room getlen st want r w = read_data_loop rd room getlen st want r2 w2"
      using h(1,2) True by (subst read_data_loop.simps) simp
    with h f fs True show ?thesis by (intro exI [of _ r2] exI [of _ w2]) simp
  next
    case False
    have m': "message_ok conf quiet_ping (RState r) (f # fs)" using m r by simp
    obtain r1 where n: "NextFrame rd conf (r, w) = Some (Header f, None, r1, w)"
        and d: "delivering r1 fs rest (plain f @ message_payload fs)"
          "Clear (RState r1) StateFragmented = RState r" "ending (src r1) = ending (src r)"
      by (rule NextFrame_message [OF a [unfolded f] m', of w])
    obtain r2 w2 where h: "Discard rd conf r1 w = Some (None, r2, w2)" "calm w2" "answered (pongs st) fs w w2"
        "at_rest r2 rest" "RState r2 = Clear (RState r1) StateFragmented" "ending (src r2) = ending (src r1)"
      using Discard_skips [OF delivering_skipping [OF d(1)] w] by blast
    have "read_data_loop rd room getlen st want r w = read_data_loop rd room getlen st want r2 w2"
      using n h(1) False u f by (subst read_data_loop.simps) simp
    with h d(2,3) f False r at_rest_idle [OF h(4)] show ?thesis
      by (intro exI [of _ r2] exI [of _ w2]) simp
  qed
qed

lemma skip_all:
  "idle r (wire (concat us) @ rest) \<Longrightarrow> RState r = st \<Longrightarrow> \<not> Fragmented st \<Longrightarrow> \<forall>u \<in> set us. skipped conf st want u \<Longrightarrow> calm w \<Longrightarrow>
   \<exists>r' w'. read_data_loop rd room getlen st want r w = read_data_loop rd room getlen st want r' w' \<and>
    idle r' rest \<and> RState r' = st \<and> calm w' \<and> answered (pongs st) (concat us) w w' \<and> ending (src r') = ending (src r)"
proof (induction us arbitrary: r w)
  case Nil
  then show ?case by auto
next
  case (Cons u us)
  have a: "idle r (wire u @ wire (concat us) @ rest)" using Cons.prems(1) by (simp add: wire_def)
  obtain r1 w1 where s: "read_data_loop rd room getlen st want r w = read_data_loop rd room getlen st want r1 w1"
      "idle r1 (wire (concat us) @ rest)" "RState r1 = st" "calm w1" "answered (pongs st) u w w1" "ending (src r1) = ending (src r)"
    using skip_one [OF a Cons.prems(2,3) _ Cons.prems(5), of want room] Cons.prems(4) by auto
  obtain r2 w2 where t: "read_data_loop rd room getlen st want r1 w1 = read_data_loop rd room getlen st want r2 w2"
      "idle r2 rest" "RState r2 = st" "calm w2" "answered (pongs st) (concat us) w1 w2" "ending (src r2) = ending (src r1)"
    using Cons.IH [OF s(2,3) Cons.prems(3) _ s(4)] Cons.prems(4) by auto
  from s t show ?case
    by (intro exI [of _ r2] exI [of _ w2]) (auto simp: answered_append)
qed

lemma readData_message:
  assumes s: "inv s" "data s = wire (concat us) @ wire (f # fs) @ rest" and st: "\<not> Fragmented st" and w: "calm w"
    and us: "\<forall>u \<in> set us. skipped conf st want u" and m: "message_ok conf quiet_ping st (f # fs)"
    and op: "\<not> IsControl (OpCode (Header f))" "OpCode (Header f) AND want \<noteq> 0" and room: "\<And>k. 0 < room k"
  shows "\<exists>bs e s' w'. readData rd room getlen st want s w = Some (bs, OpCode (Header f), e, s', w') \<and>
    (if OpCode (Header f) = OpText \<and> \<not> ValidString (plain f @ message_payload fs) then e = Some ErrInvalidUTF8
     else bs = plain f @ message_payload fs \<and> e = None \<and> calm w' \<and> answered (pongs st) (concat us @ fs) w w' \<and>
       inv s' \<and> data s' = rest \<and> ending s' = ending s)"
proof -
  have "at_rest (NewReader s st) (wire (concat us) @ wire (f # fs) @ rest)"
    using s st by (simp add: at_rest_def NewReader_def fragmented_def)
  then have a: "idle (NewReader s st) (wire (concat us) @ wire (f # fs) @ rest)" by (rule at_rest_idle)
  have rs: "RState (NewReader s st) = st" "src (NewReader s st) = s" by (simp_all add: NewReader_def)
  obtain r1 w1 where k: "read_data_loop rd room getlen st want (NewReader s st) w = read_data_loop rd room getlen st want r1 w1"
      "idle r1 (wire (f # fs) @ rest)" "RState r1 = st" "calm w1" "answered (pongs st) (concat us) w w1"
      "ending (src r1) = ending s"
    using skip_all [where room = room, OF a rs(1) st us w] unfolding rs(2) by blast
  have m1: "message_ok conf quiet_ping (RState r1) (f # fs)" using m k(3) by simp
  obtain r2 bs e r3 w3 where r: "NextFrame rd conf (r1, w1) = Some (Header f, None, r2, w1)"
      "io_ReadAll (reader_rd rd conf) room (r2, w1) = Some (bs, e, (r3, w3))"
      "if CheckUTF8 conf \<and> OpCode (Header f) = OpText \<and> \<not> ValidString (plain f @ message_payload fs)
       then e = Some ErrInvalidUTF8
       else bs = plain f @ message_payload fs \<and> e = None \<and> calm w3 \<and> answered (pongs st) fs w1 w3 \<and> at_rest r3 rest \<and>
         RState r3 = RState r1 \<and> ending (src r3) = ending (src r1)"
    using ReadAll_message [where room = room, OF k(2) m1 room k(4)] by blast
  have "read_data_loop rd room getlen st want r1 w1 = Some (bs, OpCode (Header f), e, r3, w3)"
    using r(1,2) op by (subst read_data_loop.simps) simp
  then have rd: "readData rd room getlen st want s w = Some (bs, OpCode (Header f), e, src r3, w3)"
    by (simp add: readData_def k(1))
  have cu: "CheckUTF8 conf" by (simp add: data_conf_def)
  show ?thesis
    by (intro exI [of _ bs] exI [of _ e] exI [of _ "src r3"] exI [of _ w3] conjI rd)
      (use r(3) cu k(5,6) in \<open>auto simp: answered_append at_rest_def\<close>)
qed

end

section \<open>Reading a message with its control frames\<close>

text \<open>The messages that \<open>ReadMessage\<close> makes of the control frames among \<open>fs\<close>.\<close>

definition message_of :: "frame \<Rightarrow> Message" where
  "message_of f = \<lparr>MOpCode = OpCode (Header f), MPayload = plain f\<rparr>"

definition controls :: "frame list \<Rightarrow> Message list" where
  "controls fs = map message_of (filter (\<lambda>f. IsControl (OpCode (Header f))) fs)"

definition collects :: "frame \<Rightarrow> Message list \<Rightarrow> Message list \<Rightarrow> bool" where
  "collects f m m' \<longleftrightarrow> m' = m @ [message_of f]"

lemma answered_collects: "answered collects fs m m' \<longleftrightarrow> m' = m @ controls fs"
  by (induction fs arbitrary: m) (auto simp: collects_def controls_def)

locale message_collector = framed_stream rd inv fin data ending
  for rd :: "'s rd" and inv and fin and data and ending +
  fixes room :: "nat \<Rightarrow> nat"
  assumes room: "0 < room k"

sublocale message_collector \<subseteq> message_reader rd inv fin "message_conf rd room"
proof unfold_locales
  fix cb s h N b and w :: "Message list"
  assume cb: "OnIntermediate (message_conf rd room) = Some cb" and i: "inv s"
  have c: "cb = collect rd room" using cb by (simp add: message_conf_def)
  have "framed_inv inv (b, N, s)" using i by (simp add: framed_inv_def)
  from base.io_ReadAll_returns [where room = room, OF this room] obtain bs e x where
    "io_ReadAll (base_read rd) room (b, N, s) = Some (bs, e, x)" "framed_inv inv x" "framed_fin fin x \<le> framed_fin fin (b, N, s)"
    by blast
  then show "\<exists>e b' N' s' w'. cb h ((b, N, s), w) = Some (e, (b', N', s'), w') \<and> inv s' \<and> fin s' \<le> fin s"
    unfolding c by (cases x; cases e) (auto simp: collect_def framed_inv_def framed_fin_def)
qed (simp_all add: message_conf_def zero_conf_def)

sublocale message_collector \<subseteq> message_stream rd inv fin data ending "message_conf rd room" "\<lambda>_. True" "\<lambda>_. True" collects
proof unfold_locales
  fix cb f s rest w
  assume cb: "OnIntermediate (message_conf rd room) = Some cb"
    and i: "inv s" and wf: "wf_frame f" and ds: "data s = Payload f @ rest"
  have c: "cb = collect rd room" using cb by (simp add: message_conf_def)
  let ?x = "frame_reader f s"
  have ix: "framed_inv inv ?x" using i by (simp add: framed_inv_def)
  have le: "length (Payload f) \<le> length (data s)" by (simp add: ds)
  have pd: "framed_data data ?x = plain f" and pe: "framed_end data ending ?x = EOF"
    using ds by (simp_all add: plain_def limited_data_def limited_end_def framed_end_def)
  obtain x where r: "io_ReadAll (base_read rd) room ?x = Some (plain f, None, x)"
    using base.io_ReadAll_data [where room = room, OF ix room] unfolding pd pe by auto
  have "walked s (length (Payload f)) x"
    by (rule base.read_all_loop_ends [where P = "walked s (length (Payload f))" and room = room, OF _ _ room ix _ r [unfolded io_ReadAll_def]])
      (auto intro: walked_step [OF _ le] walked_start [OF i])
  with r show "\<exists>b' j s' w'. cb (Header f) (?x, w) =
          Some (None, (b', int (length (Payload f)) - int j, s'), w') \<and>
        j \<le> length (Payload f) \<and> data s' = drop j (data s) \<and> ending s' = ending s \<and> inv s' \<and>
        fin s' \<le> fin s \<and> True \<and> collects f w w'"
    unfolding c walked_def by (auto simp: collect_def collects_def message_of_def)
qed (simp_all add: message_conf_def zero_conf_def)

context message_collector
begin

lemma delivering_empty: "delivering r [] rest [] \<Longrightarrow> inv (src r) \<and> data (src r) = rest"
proof -
  assume d: "delivering r [] rest []"
  have n: "\<not> fragmented r" "[] = framed_data data (the (loaded_base r), rawN r, src r)"
    using delivering_Nil [OF d] by simp_all
  obtain m where m: "rawN r = int m" "m \<le> length (data (src r))" "drop m (data (src r)) = rest"
    using d n(1) unfolding delivering_def in_frame_def between_def by (auto simp: fragmented_def)
  have "[] = framed_data data (the (loaded_base r), int m, src r)" using n(2) m(1) by simp
  with framed_data_Nil [of "the (loaded_base r)" m "src r"] m d show ?thesis
    by (simp add: delivering_def reader_inv_def)
qed

lemma ReadMessage_message:
  assumes s: "inv s" "data s = wire (f # fs) @ rest" and st: "\<not> Fragmented st"
    and m: "message_ok (message_conf rd room) (\<lambda>_. True) st (f # fs)" and room': "\<And>k. 0 < room' k"
  shows "if fs = [] \<and> maxAlloc < int (length (Payload f)) then ReadMessage rd room room' s st ms = None
    else \<exists>m' e s'. ReadMessage rd room room' s st ms = Some (m', e, s') \<and>
    (if OpCode (Header f) = OpText \<and> \<not> ValidString (plain f @ message_payload fs) then e = Some ErrInvalidUTF8
     else m' = ms @ controls fs @ [\<lparr>MOpCode = OpCode (Header f), MPayload = plain f @ message_payload fs\<rparr>] \<and>
       e = None \<and> inv s' \<and> data s' = rest)"
proof -
  let ?cf = "message_conf rd room" and ?pl = "plain f @ message_payload fs"
  have "at_rest (NewReader s st) (wire (f # fs) @ rest)"
    using s st by (simp add: at_rest_def NewReader_def fragmented_def)
  then have a: "idle (NewReader s st) (wire (f # fs) @ rest)" by (rule at_rest_idle)
  have m1: "message_ok ?cf (\<lambda>_. True) (RState (NewReader s st)) (f # fs)" using m by (simp add: NewReader_def)
  have cu: "CheckUTF8 ?cf" by (simp add: message_conf_def)
  show ?thesis
  proof (cases "Fin (Header f)")
    case False
    then have ne: "fs \<noteq> []" using m by auto
    obtain r1 bs e r2 w2 where r: "NextFrame rd ?cf (NewReader s st, ms) = Some (Header f, None, r1, ms)"
        "io_ReadAll (reader_rd rd ?cf) room' (r1, ms) = Some (bs, e, (r2, w2))"
        "if CheckUTF8 ?cf \<and> OpCode (Header f) = OpText \<and> \<not> ValidString ?pl then e = Some ErrInvalidUTF8
         else bs = ?pl \<and> e = None \<and> True \<and> answered collects fs ms w2 \<and> at_rest r2 rest \<and>
           RState r2 = RState (NewReader s st) \<and> ending (src r2) = ending (src (NewReader s st))"
      using ReadAll_message [where room = room' and w = ms, OF a m1 room' TrueI] by blast
    show ?thesis
      using r False cu ne by (cases e) (auto simp: ReadMessage_def Let_def answered_collects at_rest_def split: if_splits)
  next
    case True
    then have fs: "fs = []" using m by simp
    obtain r1 where n: "NextFrame rd ?cf (NewReader s st, ms) = Some (Header f, None, r1, ms)"
        and d: "delivering r1 fs rest ?pl" "opCode r1 = OpCode (Header f)" "state (utf8 r1) = 0"
      by (rule NextFrame_message [OF a m1, of ms])
    have pl: "?pl = plain f" using fs by simp
    have d': "delivering r1 [] rest (plain f)" using d(1) fs by simp
    have len: "sint (Length (Header f)) = int (length (plain f))"
      using m by (simp add: wf_frame_def plain_def)
    then have k: "nat (sint (Length (Header f))) = length [] + length (plain f)" by simp
    have ck: "checks r1 \<longleftrightarrow> OpCode (Header f) = OpText" using d(2) cu by (simp add: checks_def)
    have lp: "length (plain f) = length (Payload f)" by (simp add: plain_def)
    consider (big) "maxAlloc < int (length (plain f))" | (empty) "plain f = []"
      | (fits) "plain f \<noteq> []" "int (length (plain f)) \<le> maxAlloc" by linarith
    then show ?thesis
    proof cases
      case big
      then show ?thesis using n True len fs lp by (simp add: ReadMessage_def Let_def make_bytes_None)
    next
      case empty
      then have "io_ReadFull (reader_rd rd ?cf) 0 (r1, ms) = Some ([], None, (r1, ms))"
        unfolding io_ReadFull_def by (subst read_full_loop.simps) simp
      moreover have "ValidString []" by (simp add: utf8_run_valid [symmetric])
      ultimately show ?thesis
        using n True empty len lp fs delivering_empty [of r1 rest] d' by (auto simp: ReadMessage_def Let_def controls_def make_bytes_def maxAlloc_def)
    next
      case fits
      obtain bs e r2 w2 where r: "io_ReadFull (reader_rd rd ?cf) (length (plain f)) (r1, ms) = Some (bs, e, (r2, w2))"
          "if checks r1 \<and> utf8_run (state (utf8 r1)) (plain f) \<noteq> 0 then e = Some ErrInvalidUTF8
           else bs = [] @ plain f \<and> e = None \<and> w2 = ms \<and> at_rest r2 rest \<and> ending (src r2) = ending (src r1) \<and>
             RState r2 = Clear (RState r1) StateFragmented"
        using read_full_delivering [OF d' TrueI fits(1), of "length (plain f)" "[]" ms] unfolding io_ReadFull_def by auto
      have "utf8_run (state (utf8 r1)) (plain f) \<noteq> 0 \<longleftrightarrow> \<not> ValidString (plain f)"
        using d(3) by (simp add: utf8_run_valid)
      with r n True len fs ck lp fits(2) show ?thesis
        by (cases e) (auto simp: ReadMessage_def Let_def controls_def at_rest_def make_bytes_Some split: if_splits)
    qed
  qed
qed

end

section \<open>Over a connection\<close>

interpretation talk: data_reader conn_read conn_sane conn_fin conn_data conn_end fresh_pool st for st
  by unfold_locales

interpretation letters: message_collector conn_read conn_sane conn_fin conn_data conn_end "\<lambda>k. Suc k"
  by unfold_locales simp

lemma conn_data_reader: "byte_pool getlen \<Longrightarrow> data_reader conn_read conn_sane conn_fin conn_data conn_end getlen"
  by (rule data_reader.intro; (assumption | unfold_locales))

lemma conn_collector:
  assumes "\<And>k. 0 < room k"
  shows "message_collector conn_read conn_sane conn_fin conn_data conn_end room"
  using assms by (intro message_collector.intro message_collector_axioms.intro) unfold_locales

text \<open>
  C9: \<open>readData\<close> on a connection that brings any number of pings, pongs and messages that are
  not wanted, and then a wanted message, in any number of frames with pings and pongs between
  them, however the bytes are delivered: it returns the payload of the wanted message and its
  operation code, or \<open>ErrInvalidUTF8\<close> exactly when that is a text that is not UTF-8; it has
  answered the pings, in order and with their payload, written nothing else, and read nothing
  beyond the message.
\<close>

theorem readData_conversation:
  assumes "conn_sane s" and "conn_data s = wire (concat us) @ wire (f # fs) @ rest"
    and "\<not> Fragmented st" and "faults d = []" and "byte_pool getlen" and "\<And>k. 0 < room k"
    and "\<forall>u \<in> set us. skipped (data_conf conn_read getlen st) st want u"
    and "message_ok (data_conf conn_read getlen st) quiet_ping st (f # fs)"
    and "\<not> IsControl (OpCode (Header f))" and "OpCode (Header f) AND want \<noteq> 0"
  shows "\<exists>bs e s' d'. readData conn_read room getlen st want s d = Some (bs, OpCode (Header f), e, s', d') \<and>
    (if OpCode (Header f) = OpText \<and> \<not> ValidString (plain f @ message_payload fs) then e = Some ErrInvalidUTF8
     else bs = plain f @ message_payload fs \<and> e = None \<and> faults d' = [] \<and>
       answered (pongs st) (concat us @ fs) d d' \<and> conn_data s' = rest)"
  using data_reader.readData_message [OF conn_data_reader [OF assms(5)], where room = room,
      OF assms(1-3) _ assms(7-10,6)] assms(4)
  by (fastforce simp: calm_def)

theorem readData_conversation_witness:
  "let text1 = NewFrame OpText False [104]; text2 = NewFrame OpContinuation True [105];
       s = [REv (frame_bytes (NewPingFrame [1]) @ [0x82]) None,
            REv ([1, 2] @ frame_bytes text1 @ frame_bytes (NewPongFrame []) @ frame_bytes text2 @ [9]) None];
       d = \<lparr>sent = [], faults = [], rands = (\<lambda>_. 0)\<rparr>
   in \<exists>s' d'. readData conn_read Suc fresh_pool StateClientSide OpText s d = Some ([104, 105], OpText, None, s', d') \<and>
     conn_data s' = [9] \<and> (\<exists>m. conn_out d' = frame_bytes (out_frame StateClientSide OpPong True m [1]))"
proof -
  let ?t1 = "NewFrame OpText False [104]" and ?t2 = "NewFrame OpContinuation True [105]"
  let ?us = "[[NewPingFrame [1]], [NewBinaryFrame [2]]]" and ?fs = "[NewPongFrame [], ?t2]"
  let ?s = "[REv (frame_bytes (NewPingFrame [1]) @ [0x82]) None,
     REv ([1, 2] @ frame_bytes ?t1 @ frame_bytes (NewPongFrame []) @ frame_bytes ?t2 @ [9]) None]"
  let ?d = "\<lparr>sent = [], faults = [], rands = (\<lambda>_. 0)\<rparr>" and ?cf = "data_conf conn_read fresh_pool StateClientSide"
  have b: "frame_bytes (NewBinaryFrame [2]) = [0x82, 1, 2]" by code_simp
  have s: "conn_sane ?s" "conn_data ?s = wire (concat ?us) @ wire (?t1 # ?fs) @ [9]" by (simp_all add: b)
  have us: "\<forall>u \<in> set ?us. skipped ?cf StateClientSide OpText u" by code_simp
  have m: "message_ok ?cf quiet_ping StateClientSide (?t1 # ?fs)" by code_simp
  have st: "\<not> Fragmented StateClientSide" and op: "\<not> IsControl (OpCode (Header ?t1))" "OpCode (Header ?t1) AND OpText \<noteq> 0"
    by code_simp+
  have v: "plain ?t1 @ message_payload ?fs = [104, 105]" "ValidString [104, 105]" "OpCode (Header ?t1) = OpText"
    by code_simp+
  obtain s' d' where r: "readData conn_read Suc fresh_pool StateClientSide OpText ?s ?d = Some ([104, 105], OpText, None, s', d')"
      "conn_data s' = [9]" "answered (pongs StateClientSide) (concat ?us @ ?fs) ?d d'"
    using readData_conversation [OF s st _ fresh.byte_pool_axioms _ us m op, of ?d Suc] v by auto
  have k: "IsControl (OpCode (Header (NewPingFrame [1])))" "\<not> IsControl (OpCode (Header (NewBinaryFrame [2])))"
      "IsControl (OpCode (Header (NewPongFrame [])))" "\<not> IsControl (OpCode (Header ?t2))"
      "OpCode (Header (NewPingFrame [1])) = OpPing" "OpCode (Header (NewPongFrame [])) \<noteq> OpPing" "plain (NewPingFrame [1]) = [1]"
    by code_simp+
  have "\<exists>m. conn_out d' = frame_bytes (out_frame StateClientSide OpPong True m [1])"
    using r(3) k by (simp add: pongs_def conn_out_def)
  with r(1,2) show ?thesis by (simp add: Let_def)
qed

text \<open>
  C33: \<open>ReadMessage\<close> on a connection that brings a message, in any number of frames with any
  valid control frames between them: it appends the control frames, in order, and then the
  message, each with its payload unmasked, and reads nothing beyond it; a text that is not
  UTF-8 gives \<open>ErrInvalidUTF8\<close> instead. A single frame whose payload no Go slice can hold makes it panic.
\<close>

theorem ReadMessage_collects:
  assumes "conn_sane s" and "conn_data s = wire (f # fs) @ rest" and "\<not> Fragmented st"
    and "message_ok (message_conf conn_read room) (\<lambda>_. True) st (f # fs)"
    and "\<And>k. 0 < room k" and "\<And>k. 0 < room' k"
  shows "if fs = [] \<and> maxAlloc < int (length (Payload f)) then ReadMessage conn_read room room' s st ms = None
    else \<exists>m' e s'. ReadMessage conn_read room room' s st ms = Some (m', e, s') \<and>
    (if OpCode (Header f) = OpText \<and> \<not> ValidString (plain f @ message_payload fs) then e = Some ErrInvalidUTF8
     else m' = ms @ controls fs @ [\<lparr>MOpCode = OpCode (Header f), MPayload = plain f @ message_payload fs\<rparr>] \<and>
       e = None \<and> conn_data s' = rest)"
  using message_collector.ReadMessage_message [where room' = room' and ms = ms,
      OF conn_collector [OF assms(5)] assms(1-4,6)]
  by (auto split: if_splits)

theorem ReadMessage_collects_witness:
  "let text1 = NewFrame OpText False [104]; text2 = NewFrame OpContinuation True [105];
       s = [REv (frame_bytes text1 @ frame_bytes (NewPingFrame [7])) None, REv (frame_bytes text2 @ [9]) None]
   in \<exists>s'. ReadMessage conn_read Suc Suc s StateClientSide [] =
       Some ([\<lparr>MOpCode = OpPing, MPayload = [7]\<rparr>, \<lparr>MOpCode = OpText, MPayload = [104, 105]\<rparr>], None, s') \<and>
     conn_data s' = [9]"
proof -
  let ?t1 = "NewFrame OpText False [104]" and ?t2 = "NewFrame OpContinuation True [105]"
  let ?fs = "[NewPingFrame [7], ?t2]" and ?cf = "message_conf conn_read Suc"
  let ?s = "[REv (frame_bytes ?t1 @ frame_bytes (NewPingFrame [7])) None, REv (frame_bytes ?t2 @ [9]) None]"
  have s: "conn_sane ?s" "conn_data ?s = wire (?t1 # ?fs) @ [9]" by simp_all
  have m: "message_ok ?cf (\<lambda>_. True) StateClientSide (?t1 # ?fs)" by code_simp
  have st: "\<not> Fragmented StateClientSide" by code_simp
  have v: "plain ?t1 @ message_payload ?fs = [104, 105]" "ValidString [104, 105]" "OpCode (Header ?t1) = OpText"
      "controls ?fs = [\<lparr>MOpCode = OpPing, MPayload = [7]\<rparr>]"
    by code_simp+
  show ?thesis
    using ReadMessage_collects [OF s st m, of Suc "[]"] v by (auto simp: Let_def)
qed

section \<open>Answers to control messages\<close>

text \<open>
  The answer to a close frame with the payload \<open>pl\<close>, and the error that tells the caller that
  the connection is to be closed.
\<close>

definition close_answer :: "byte \<Rightarrow> byte list \<Rightarrow> dest \<Rightarrow> dest \<Rightarrow> err option \<Rightarrow> bool" where
  "close_answer st pl d d' e \<longleftrightarrow>
     (if pl = [] then \<exists>x. delivers (frame_bytes (out_frame st OpClose True zeroMask [])) d d' x \<and>
        e = Some (case x of None \<Rightarrow> ClosedError StatusNoStatusRcvd [] | Some er \<Rightarrow> er)
      else case CheckCloseFrameData (fst (ParseCloseFrameData pl)) (snd (ParseCloseFrameData pl)) of
        None \<Rightarrow> \<exists>m x. delivers (frame_bytes (out_frame st OpClose True m (take 2 pl))) d d' x \<and>
          e = Some (case x of None \<Rightarrow> ClosedError (be_word (take 2 pl)) (drop 2 pl) | Some er \<Rightarrow> er)
      | Some er \<Rightarrow> e = Some er \<and> (\<exists>msg m x. er = ProtocolError msg \<and>
          delivers (frame_bytes (protocol_close st m (str_bytes msg))) d d' x))"

lemma ParseClose_valid:
  assumes "CheckCloseFrameData (fst (ParseCloseFrameData pl)) (snd (ParseCloseFrameData pl)) = None"
  shows "ParseCloseFrameData pl = (be_word (take 2 pl), drop 2 pl)" "be_bytes 2 (be_word (take 2 pl) :: uint16) = take 2 pl"
proof -
  have l: "length pl \<ge> 2"
    using assms by (cases "length pl < 2") (auto simp: ParseCloseFrameData_def CheckCloseFrameData_None)
  then show "ParseCloseFrameData pl = (be_word (take 2 pl), drop 2 pl)" by (simp add: ParseCloseFrameData_def)
  show "be_bytes 2 (be_word (take 2 pl) :: uint16) = take 2 pl"
    using l be_bytes_word [of "take 2 pl", where 'a = 16] by simp
qed

text \<open>The handler on the payload \<open>pl\<close> in memory, with a header \<open>h\<close> of its length.\<close>

abbreviation memory :: "byte \<Rightarrow> byte list ControlHandler" where
  "memory st \<equiv> \<lparr>Src = bytes_src, HState = st, DisableSrcCiphering = True\<rparr>"

lemma memory_sel: "Src (memory st) = bytes_src" "\<not> ciphers (memory st)" "HState (memory st) = st"
  by (simp_all add: ciphers_def)

lemma memory_ping:
  assumes L: "sint (Length h) = int (length pl)" "length pl \<le> 125" and pool: "byte_pool getlen"
  shows "\<exists>e s' d' m. HandlePing getlen (memory st) h pl d = Some (e, s', d') \<and>
    delivers (frame_bytes (out_frame st OpPong True m pl)) d d' e"
proof (cases "pl = []")
  case True
  then have z: "Length h = 0" using L(1) by (simp add: signed_eq_0_iff)
  obtain e d' where "HandlePing getlen (memory st) h pl d = Some (e, pl, d')"
      "delivers (frame_bytes (out_frame st OpPong True zeroMask [])) d d' e"
    using HandlePing_empty [OF z, of getlen "memory st" pl d] unfolding memory_sel(3) by blast
  with True show ?thesis by blast
next
  case False
  from HandlePing_replies [OF copies_bytes [OF memory_sel(1,2)] L False byte_pool.getlen [OF pool], of st d]
  show ?thesis unfolding memory_sel(3) by blast
qed

lemma memory_pong:
  assumes L: "sint (Length h) = int (length pl)" and pool: "byte_pool getlen"
  shows "\<exists>s'. HandlePong getlen (memory st) h pl d = Some (None, s', d)"
proof -
  obtain e s' where di: "io_Discard bytes_read pl = Some (e, s')" using mem.io_Discard_returns [OF TrueI] by blast
  have e: "e = None" using mem.io_Discard_all [OF TrueI, of pl] di by auto
  have "HandlePong getlen (memory st) h pl d = Some (if Length h = 0 then (None, pl, d) else (e, s', d))"
    by (rule HandlePong_discards) (use di L byte_pool.getlen [OF pool] in \<open>auto simp: bytes_src_def\<close>)
  then show ?thesis using e by (cases "Length h = 0") auto
qed

text \<open>What \<open>HandleClose_replies\<close> gives is the answer to the close frame.\<close>

lemma close_answer_replied:
  assumes "pl \<noteq> []"
    and "case CheckCloseFrameData (fst (ParseCloseFrameData pl)) (snd (ParseCloseFrameData pl)) of
      None \<Rightarrow> delivers (frame_bytes (out_frame st OpClose True m (be_bytes 2 (fst (ParseCloseFrameData pl))))) d d' x \<and>
        er = (case x of None \<Rightarrow> ClosedError (fst (ParseCloseFrameData pl)) (snd (ParseCloseFrameData pl)) | Some y \<Rightarrow> y)
    | Some y \<Rightarrow> er = y \<and> (\<exists>msg. y = ProtocolError msg \<and> delivers (frame_bytes (protocol_close st m (str_bytes msg))) d d' x)"
  shows "close_answer st pl d d' (Some er)"
proof (cases "CheckCloseFrameData (fst (ParseCloseFrameData pl)) (snd (ParseCloseFrameData pl))")
  case None
  with assms ParseClose_valid [OF None] show ?thesis
    by (simp add: close_answer_def del: split_paired_Ex) (rule exI [of _ m], rule exI [of _ x], simp split: option.split)
next
  case (Some y)
  with assms(2) obtain msg where "er = y" "y = ProtocolError msg" "delivers (frame_bytes (protocol_close st m (str_bytes msg))) d d' x"
    by auto
  with Some assms(1) show ?thesis
    by (simp add: close_answer_def del: split_paired_Ex) (rule exI [of _ m], rule exI [of _ x], simp)
qed

lemma memory_close:
  assumes L: "sint (Length h) = int (length pl)" "length pl \<le> 125" and pool: "byte_pool getlen"
  shows "\<exists>e s' d'. HandleClose getlen (memory st) h pl d = Some (e, s', d') \<and> close_answer st pl d d' e"
proof (cases "pl = []")
  case True
  then have "Length h = 0" using L(1) by (simp add: signed_eq_0_iff)
  from HandleClose_empty [OF this, of getlen "memory st" pl d] True show ?thesis by (auto simp: close_answer_def)
next
  case False
  obtain s' where "io_ReadFull bytes_read (length pl) pl = Some (pl, None, s')"
    using mem.io_ReadFull_exact [OF TrueI, of pl] by auto
  then have r: "read_payload (memory st) h pl = Some (pl, None, s')"
    using L(1) memory_sel(2) by (simp add: read_payload_def bytes_src_def)
  from HandleClose_replies [OF r L False byte_pool.getlen [OF pool], of "fst (ParseCloseFrameData pl)" "snd (ParseCloseFrameData pl)" d]
  show ?thesis using close_answer_replied [OF False] unfolding memory_sel(3) by fastforce
qed

text \<open>
  C16: \<open>HandleControlMessage\<close> on a control message of at most 125 bytes, whatever the connection
  does: a ping is answered by a pong with the same payload, a pong by nothing, a close frame by
  an empty close frame, by one with the code received, or, when its code or its reason is not
  allowed, by a close frame with the code 1002; it reports the error of the connection or the
  way the peer closed it.
\<close>

theorem HandleControlMessage_answers:
  assumes "length pl \<le> 125" and "byte_pool getlen"
  shows "\<exists>e d'. HandleControlMessage getlen d st \<lparr>MOpCode = op, MPayload = pl\<rparr> = Some (e, d') \<and>
    (if op = OpPing then \<exists>m. delivers (frame_bytes (out_frame st OpPong True m pl)) d d' e
     else if op = OpPong then e = None \<and> d' = d
     else if op = OpClose then close_answer st pl d d' e
     else e = Some ErrNotControlFrame \<and> d' = d)"
proof -
  define h where "h = zero_header\<lparr>Length := of_nat (length pl), OpCode := op, Fin := True, Masked := ServerSide st\<rparr>"
  have L: "sint (Length h) = int (length pl)" using assms(1) by (simp add: h_def sint_of_nat_small)
  have o: "OpCode h = op" by (simp add: h_def)
  obtain e1 s1 d1 m where ping: "HandlePing getlen (memory st) h pl d = Some (e1, s1, d1)"
      "delivers (frame_bytes (out_frame st OpPong True m pl)) d d1 e1"
    using memory_ping [OF L assms, of st d] by blast
  obtain s2 where pong: "HandlePong getlen (memory st) h pl d = Some (None, s2, d)" using memory_pong [OF L assms(2)] by blast
  obtain e3 s3 d3 where close: "HandleClose getlen (memory st) h pl d = Some (e3, s3, d3)" "close_answer st pl d d3 e3"
    using memory_close [OF L assms, of st d] by blast
  have "HandleControlMessage getlen d st \<lparr>MOpCode = op, MPayload = pl\<rparr> =
      Some (if op = OpPing then (e1, d1) else if op = OpPong then (None, d) else if op = OpClose then (e3, d3) else (Some ErrNotControlFrame, d))"
    using ping(1) pong close(1) by (simp add: HandleControlMessage_def Handle_def o h_def [symmetric])
  then show ?thesis using exI [of "\<lambda>m. delivers (frame_bytes (out_frame st OpPong True m pl)) d d1 e1" m] ping(2) close(2)
    by (cases "op = OpPing") (simp_all del: split_paired_Ex delivers_def close_answer_def)
qed

theorem HandleControlMessage_answers_witness:
  "\<exists>d'. HandleControlMessage fresh_pool \<lparr>sent = [], faults = [], rands = (\<lambda>_. 0)\<rparr> StateServerSide
      \<lparr>MOpCode = OpClose, MPayload = [3, 232, 98, 121, 101]\<rparr> = Some (Some (ClosedError 1000 [98, 121, 101]), d') \<and>
    conn_out d' = [0x88, 2, 3, 232]"
proof -
  let ?d = "\<lparr>sent = [], faults = [], rands = (\<lambda>_. 0)\<rparr>" and ?pl = "[3, 232, 98, 121, 101] :: byte list"
  have v: "CheckCloseFrameData (fst (ParseCloseFrameData ?pl)) (snd (ParseCloseFrameData ?pl)) = None"
      "be_word (take 2 ?pl) = (1000 :: uint16)" "\<not> ClientSide StateServerSide"
      "OpClose \<noteq> OpPing" "OpClose \<noteq> OpPong" "header_bytes (Header (out_frame StateServerSide OpClose True zeroMask [3, 232])) = Some [0x88, 2]"
    by code_simp+
  have f: "frame_bytes (out_frame StateServerSide OpClose True m [3, 232]) = [0x88, 2, 3, 232]" for m
    using v(3,6) by (simp add: frame_bytes_def out_frame_def)
  show ?thesis
    using HandleControlMessage_answers [OF _ fresh.byte_pool_axioms, of ?pl ?d StateServerSide OpClose] v
    by (auto simp: close_answer_def delivers_def f conn_out_def)
qed

lemma unmasked_close_refused:
  assumes "OpCode h = OpClose" "Fin h" "Rsv h = 0" "\<not> Masked h" "sint (Length h) \<le> 125"
  shows "CheckHeader h StateServerSide = Some ErrProtocolMaskRequired"
proof -
  have "\<not> IsReserved OpClose" "IsControl OpClose" "ServerSide StateServerSide" "\<not> ClientSide StateServerSide" by code_simp+
  with assms show ?thesis by (simp add: CheckHeader_def MaxControlFramePayloadSize_def)
qed

text \<open>
  C40: The frame with which a client reports a malformed close frame has no mask bit although
  its body is masked, so that the server's header check refuses it.
\<close>

theorem client_protocol_close_refused:
  "CheckHeader (Header (protocol_close StateClientSide m reason)) StateServerSide = Some ErrProtocolMaskRequired \<and>
   (\<exists>e d' m. closeWithProtocolError StateClientSide reason d = Some (e, d') \<and>
     delivers (frame_bytes (protocol_close StateClientSide m reason)) d d' e)"
proof
  let ?b = "be_bytes 2 StatusProtocolError @ take 123 reason"
  have "length ?b \<le> 125" by simp
  then have l: "sint (of_nat (length ?b) :: int64) \<le> 125" by (subst sint_of_nat_small) simp_all
  have h: "Header (protocol_close StateClientSide m reason) =
      zero_header\<lparr>Fin := True, OpCode := OpClose, Length := of_nat (length ?b)\<rparr>"
    by (simp add: protocol_close_def NewCloseFrame_def NewFrame_def Let_def)
  show "CheckHeader (Header (protocol_close StateClientSide m reason)) StateServerSide = Some ErrProtocolMaskRequired"
    unfolding h by (rule unmasked_close_refused) (use l in \<open>simp_all del: of_nat_add\<close>)
qed (rule closeWithProtocolError_sends)

end
