(* ===== verification/Delivery.thy ===== *)
theory Delivery
  imports Conversations
begin

text \<open>
  Messages from one end of a connection to the other: what a \<open>Writer\<close> sends is what a
  \<open>Reader\<close> delivers.
\<close>

section \<open>From the message writer to the message reader\<close>

text \<open>
  C2: A message written in any pieces through a writer with any buffer comes out whole and in
  order at the peer, however the network cuts the bytes: the peer's reader sees the operation
  code of the message and \<open>ReadAll\<close> gives the joined pieces. Writing and flushing always
  return, and over a connection without faults they report no error.
\<close>

theorem message_end_to_end:
  assumes "NewWriterBuffer d st op buf = Some w" and "length buf < 2 ^ 60"
    and "op = OpText \<or> op = OpBinary" and "ps \<noteq> []" and "\<forall>p \<in> set ps. length p < 2 ^ 63"
    and "peers st st'" and "\<not> Fragmented st'" and "\<And>k. 0 < room k"
  shows "\<exists>e1 w1. write_pieces ps w = Some (e1, w1) \<and> (e1 = None \<longrightarrow> (\<exists>e2 w2. Flush w1 = Some (e2, w2) \<and>
    (faults d = [] \<longrightarrow> e2 = None) \<and>
    (e2 = None \<longrightarrow> (\<forall>s. conn_sane s \<and> conn_out d @ conn_data s = conn_out (wdest w2) \<longrightarrow>
      (\<exists>h r bs r2. NextFrame conn_read zero_conf (NewReader s st', ()) = Some (h, None, r, ()) \<and> OpCode h = op \<and>
        io_ReadAll (reader_rd conn_read zero_conf) room (r, ()) = Some (concat ps, None, (r2, ())) \<and>
        conn_data (src r2) = []))))) \<and> (faults d = [] \<longrightarrow> e1 = None)"
proof -
  note n = NewWriterBuffer_sending [OF assms(1,2)]
  obtain e1 w1 where w1: "write_pieces ps w = Some (e1, w1)" "same_writer w w1" "dirty w1" "werr w1 = e1"
      "e1 = None \<longrightarrow> sending (conn_out d) (concat ps) w1"
    using write_pieces_sending [of "conn_out d" "[]" w ps] n assms(4,5) by auto
  have calm: "faults d = [] \<longrightarrow> e1 = None \<and> faults (wdest w1) = []"
    using w1(2,4) n by (auto simp: same_writer_def sending_def)
  show ?thesis
  proof (cases e1)
    case (Some e)
    with w1(1) calm show ?thesis by auto
  next
    case None
    then obtain e2 w2 where w2: "Flush w1 = Some (e2, w2)" "same_writer w1 w2" "werr w2 = e2"
      using Flush_sending [of "conn_out d" "concat ps" w1] w1 by auto
    have "faults d = [] \<longrightarrow> e2 = None"
      using w2(2,3) w1(4) calm None by (auto simp: same_writer_def)
    moreover have "\<exists>h r bs r2. NextFrame conn_read zero_conf (NewReader s st', ()) = Some (h, None, r, ()) \<and> OpCode h = op \<and>
        io_ReadAll (reader_rd conn_read zero_conf) room (r, ()) = Some (concat ps, None, (r2, ())) \<and> conn_data (src r2) = []"
      if "e2 = None" "conn_sane s" "conn_out d @ conn_data s = conn_out (wdest w2)" for s
      using message_end_to_end_lemma [where room = room, OF assms(1-3) w1(1) [unfolded None] assms(4,5)
          w2(1) [unfolded that(1)] assms(6,7) that(2,3) assms(8)] by auto
    ultimately show ?thesis using w1(1) calm w2(1) None by blast
  qed
qed

theorem message_end_to_end_witness:
  "\<exists>w w1 w2. NewWriterBuffer \<lparr>sent = [], faults = [], rands = (\<lambda>_. 0)\<rparr> StateClientSide OpText (replicate 8 0) = Some w \<and>
    write_pieces [[104], [], [105, 106, 107, 108]] w = Some (None, w1) \<and> Flush w1 = Some (None, w2)"
proof -
  let ?d = "\<lparr>sent = [], faults = [], rands = (\<lambda>_. 0)\<rparr>"
  obtain w where w: "NewWriterBuffer ?d StateClientSide OpText (replicate 8 0) = Some w"
  proof -
    have "NewWriterBuffer ?d StateClientSide OpText (replicate 8 0) \<noteq> None" by code_simp
    then show thesis using that by blast
  qed
  have p: "peers StateClientSide StateServerSide" "\<not> Fragmented StateServerSide" by (simp_all add: peers_def) code_simp+
  show ?thesis
    using message_end_to_end [OF w, where room = Suc and ps = "[[104], [], [105, 106, 107, 108]]", OF _ _ _ _ p] w by auto
qed

end
