(* ===== verification/Totality.thy ===== *)
theory Totality
  imports Helpers
begin

text \<open>
  Reading messages always ends: whatever a connection delivers, and however it delivers it,
  the readers and the helper functions come back with a message or an error.
\<close>

section \<open>A reader outside of a message\<close>

text \<open>
  The reader of a frame that is not followed by fragments reads this frame only: it stays
  outside of messages, leaves the callbacks' state alone and gives at most the bytes of the
  frame.
\<close>

context message_reader
begin

definition solo_inv :: "'s Reader \<times> 'w \<Rightarrow> bool" where
  "solo_inv = (\<lambda>(r, w). reader_inv inv r \<and> \<not> fragmented r)"

definition solo_left :: "'s Reader \<times> 'w \<Rightarrow> nat" where
  "solo_left = (\<lambda>(r, w). nat (rawN r))"

lemma ReadAll_returns:
  "reader_inv inv r \<Longrightarrow> (\<And>k. 0 < room k) \<Longrightarrow> \<exists>bs e x. io_ReadAll (reader_rd rd cf) room (r, w) = Some (bs, e, x)"
  using message.io_ReadAll_returns [where s = "(r, w)" and room = room] by fastforce

lemma Read_solo:
  assumes i: "reader_inv inv r" "\<not> fragmented r" and rd: "Reader_Read rd cf k (r, w) = Some (n, bs, e, r', w')"
  shows "w' = w \<and> \<not> fragmented r' \<and> length (take n bs) + nat (rawN r') \<le> nat (rawN r)"
proof (cases "rframe r = None")
  case True
  then show ?thesis using i rd by (simp add: Reader_Read_def)
next
  case False
  have l: "read_loaded rd cf k (r, w) = Some (n, bs, e, r', w')" using rd False by (simp add: Reader_Read_def)
  obtain b bs1 e1 b' N' s' n1 e' r1 where
    f: "base_read rd k (b, rawN r, src r) = Some (bs1, e1, (b', N', s'))"
      "frame_Read rd k r = Some (n1, bs1, e', r1)" "rawN r1 = N'" "RState r1 = RState r"
    by (rule frame_Read_cases [OF i(1) False, of k])
  have iv: "framed_inv inv (b, rawN r, src r)" using i(1) by (simp add: framed_inv_def reader_inv_def)
  have c: "length bs1 + nat N' \<le> nat (rawN r)" using frame_cap [OF iv f(1)] by simp
  have "bs = bs1" using l f(2) by (auto simp: read_loaded_def split: if_splits)
  moreover have "w' = w \<and> \<not> fragmented r' \<and> nat (rawN r') \<le> nat N'"
    using l f(2-4) i(2) by (auto simp: read_loaded_def fragmented_def reset_def resetFragment_def split: if_splits)
  ultimately show ?thesis using c by (auto simp: min_def)
qed

lemma solo_step:
  assumes "solo_inv x" and "reader_rd rd cf k x = Some (bs, e, y)"
  shows "solo_inv y" "snd y = snd x" "length bs + solo_left y \<le> solo_left x"
proof -
  obtain r w where x: "x = (r, w)" by (cases x)
  obtain r' w' where y: "y = (r', w')" by (cases y)
  from assms obtain n bs' where R: "Reader_Read rd cf k (r, w) = Some (n, bs', e, r', w')" "bs = take n bs'"
    by (auto simp: x y reader_rd_def)
  have i: "reader_inv inv r" "\<not> fragmented r" using assms(1) by (simp_all add: x solo_inv_def)
  have "reader_inv inv r'" using Reader_Read_returns [OF i(1), of k w] R(1) by auto
  with Read_solo [OF i R(1)] R(2) show "solo_inv y" "snd y = snd x" "length bs + solo_left y \<le> solo_left x"
    by (simp_all add: x y solo_inv_def solo_left_def)
qed

end

sublocale message_reader \<subseteq> solo: io_reader "reader_rd rd cf" solo_inv "reader_fin fin \<circ> fst"
proof unfold_locales
  fix n bs e and x y :: "'s Reader \<times> 'w"
  assume i: "solo_inv x"
  then have m: "(reader_inv inv \<circ> fst) x" by (auto simp: solo_inv_def)
  show "\<exists>bs e y. reader_rd rd cf n x = Some (bs, e, y)" by (rule message.rd_returns [OF m])
  assume r: "reader_rd rd cf n x = Some (bs, e, y)"
  show "length bs \<le> n" "(reader_fin fin \<circ> fst) y \<le> (reader_fin fin \<circ> fst) x" "solo_inv y"
    by (rule message.rd_length [OF m r] message.rd_fin [OF m r] solo_step(1) [OF i r])+
  show "0 < n \<Longrightarrow> e = None \<or> bs \<noteq> [] \<Longrightarrow> (reader_fin fin \<circ> fst) y < (reader_fin fin \<circ> fst) x"
    using message.rd_progress [OF m _ r] by blast
qed

section \<open>The loop of readData\<close>

locale data_source = framed_reader rd inv fin + byte_pool getlen
  for rd :: "'s rd" and inv and fin and getlen +
  fixes st :: byte

sublocale data_source \<subseteq> message_reader rd inv fin "data_conf rd getlen st"
  by (rule data_conf_reader) unfold_locales

context data_source
begin

abbreviation conf :: "('s, dest) ReaderConf" where
  "conf \<equiv> data_conf rd getlen st"

lemma NextFrame_control:
  assumes i: "reader_inv inv r" "\<not> fragmented r" and n: "NextFrame rd conf (r, w) = Some (h, None, r', w')"
    and c: "IsControl (OpCode h)"
  shows "\<not> fragmented r' \<and> w' = w \<and> 0 \<le> sint (Length h) \<and> sint (Length h) \<le> 125 \<and> rawN r' = sint (Length h)"
proof -
  obtain h0 e s where rh: "ReadHeader rd (src r) = Some (h0, e, s)" "e = None \<longrightarrow> wf_header h0"
    using ReadHeader_returns [of "src r"] i(1) by (auto simp: reader_inv_def)
  have fe: "frame_error conf (r\<lparr>src := s\<rparr>) h0 e = None"
    using n rh(1) by (auto simp: NextFrame_def Let_def split: option.splits)
  then have e: "e = None" and ck: "CheckHeader h0 (RState r) = None"
    by (auto simp: frame_error_def data_conf_def zero_conf_def Let_def split: if_splits)
  have lf: "load_frame conf h0 (if Masked h0 then Ciph (Mask h0) 0 else Raw) (r\<lparr>src := s, rawN := sint (Length h0)\<rparr>, w)
      = Some (h, None, r', w')"
    using n rh(1) fe i(2)
    by (auto simp: NextFrame_def Let_def fragmented_def data_conf_def zero_conf_def split: if_splits)
  then have h: "h = h0" "w' = w" "rawN r' = sint (Length h0)"
      "RState r' = (if Fin h0 then Clear (RState r) StateFragmented else Set (RState r) StateFragmented)"
    by (auto simp: load_frame_def Let_def data_conf_def zero_conf_def split: if_splits)
  have "Fin h0" "sint (Length h0) \<le> 125" "0 \<le> sint (Length h0)"
    using ck c h(1) rh(2) e by (auto simp: CheckHeader_None wf_header_def)
  with h i(2) show ?thesis by (simp add: fragmented_def Clear_unfragmented)
qed

text \<open>The handler on a control frame that \<open>NextFrame\<close> has just found.\<close>

lemma control_returns:
  assumes i: "reader_inv inv r" "\<not> fragmented r" and n: "NextFrame rd conf (r, d) = Some (h, None, r1, d1)" "reader_inv inv r1"
    and c: "IsControl (OpCode h)"
  shows "\<exists>e r2 v d2. ControlFrameHandler getlen (reader_src rd conf) st h ((r1, d1), d1) = Some (e, (r2, v), d2) \<and>
    reader_inv inv r2 \<and> \<not> fragmented r2 \<and> fin (src r2) \<le> fin (src r1)"
proof -
  note nc = NextFrame_control [OF i n(1) c]
  have si: "solo_inv (r1, d1)" using n(2) nc by (simp add: solo_inv_def)
  have "\<exists>e x' d'. ControlFrameHandler getlen (reader_src rd conf) st h ((r1, d1), d1) = Some (e, x', d') \<and>
      solo_inv x' \<and> (reader_fin fin \<circ> fst) x' \<le> (reader_fin fin \<circ> fst) (r1, d1)"
    by (rule solo.handler_returns [where cap = solo_left, OF si _ _ byte_pool_axioms _ _ solo_step(3)])
      (use nc in \<open>simp_all add: reader_src_def solo_left_def\<close>)
  then obtain e r2 v d2 where h: "ControlFrameHandler getlen (reader_src rd conf) st h ((r1, d1), d1) = Some (e, (r2, v), d2)"
      "reader_inv inv r2" "\<not> fragmented r2" "reader_fin fin r2 \<le> reader_fin fin r1"
    by (auto simp: solo_inv_def)
  moreover have "fin (src r2) \<le> fin (src r1)" using h(4) by (auto simp: reader_fin_def split: if_splits)
  ultimately show ?thesis by blast
qed

lemma read_data_loop_returns:
  assumes room: "\<And>k. 0 < room k"
  shows "reader_inv inv r \<Longrightarrow> \<not> fragmented r \<Longrightarrow>
    \<exists>bs op e r' d'. read_data_loop rd room getlen st want r d = Some (bs, op, e, r', d') \<and> reader_inv inv r' \<and>
      fin (src r') \<le> fin (src r) \<and> (e = None \<longrightarrow> \<not> IsControl op \<and> op AND want \<noteq> 0)"
proof (induction "fin (src r)" arbitrary: r d rule: less_induct)
  case less
  obtain h e r1 d1 where n: "NextFrame rd conf (r, d) = Some (h, e, r1, d1)" "reader_inv inv r1"
      "fin (src r1) \<le> fin (src r)" "e = None \<longrightarrow> fin (src r1) < fin (src r)"
    using NextFrame_returns [OF less.prems(1), of d] by blast
  show ?case
  proof (cases e)
    case (Some er)
    with n show ?thesis by (subst read_data_loop.simps) simp
  next
    case None
    have lt: "fin (src r1) < fin (src r)" using n(4) None by simp
    consider (C) "IsControl (OpCode h)" | (D) "\<not> IsControl (OpCode h)" "OpCode h AND want = 0"
      | (R) "\<not> IsControl (OpCode h)" "OpCode h AND want \<noteq> 0" by blast
    then show ?thesis
    proof cases
      case C
      obtain e2 r2 v d2 where h: "ControlFrameHandler getlen (reader_src rd conf) st h ((r1, d1), d1) = Some (e2, (r2, v), d2)"
          "reader_inv inv r2" "\<not> fragmented r2" and le: "fin (src r2) \<le> fin (src r1)"
        using control_returns [OF less.prems n(1) [unfolded None] n(2) C] by blast
      show ?thesis
      proof (cases e2)
        case (Some er)
        with n None C h le lt show ?thesis by (subst read_data_loop.simps) simp
      next
        case None
        have "fin (src r2) < fin (src r)" using le lt by simp
        from less.hyps [OF this h(2,3), of d2] this n \<open>e = None\<close> C h None show ?thesis
          by (subst read_data_loop.simps) auto
      qed
    next
      case D
      obtain e2 r2 d2 where h: "Discard rd conf r1 d1 = Some (e2, r2, d2)" "reader_inv inv r2" "fin (src r2) \<le> fin (src r1)"
          "e2 = None \<longrightarrow> \<not> fragmented r2"
        using Discard_returns [OF n(2), of d1] by blast
      show ?thesis
      proof (cases e2)
        case (Some er)
        with n None D h lt show ?thesis by (subst read_data_loop.simps) simp
      next
        case None
        have "fin (src r2) < fin (src r)" "\<not> fragmented r2" using h None lt by simp_all
        from less.hyps [OF this(1) h(2) this(2), of d2] this n \<open>e = None\<close> D h None show ?thesis
          by (subst read_data_loop.simps) auto
      qed
    next
      case R
      obtain bs e2 x where "io_ReadAll (reader_rd rd conf) room (r1, d1) = Some (bs, e2, x)"
          "(reader_inv inv \<circ> fst) x" "(reader_fin fin \<circ> fst) x \<le> (reader_fin fin \<circ> fst) (r1, d1)"
        using message.io_ReadAll_returns [where room = room and s = "(r1, d1)", OF _ room] n(2) by auto
      moreover obtain r2 d2 where "x = (r2, d2)" by (cases x)
      ultimately have "io_ReadAll (reader_rd rd conf) room (r1, d1) = Some (bs, e2, r2, d2)" "reader_inv inv r2"
          "fin (src r2) \<le> fin (src r1)"
        by (auto simp: reader_fin_def split: if_splits)
      with n None R lt show ?thesis by (subst read_data_loop.simps) simp
    qed
  qed
qed

end

section \<open>Text is always valid\<close>

context io_reader
begin

lemma io_Discard_not_EOF: "inv s \<Longrightarrow> io_Discard rd s = Some (e, s') \<Longrightarrow> e \<noteq> Some EOF"
proof (induction "fin s" arbitrary: s rule: less_induct)
  case less
  obtain bs er s1 where r: "rd 8192 s = Some (bs, er, s1)" using rd_returns [OF less.prems(1)] by blast
  show ?case
  proof (cases er)
    case None
    have lt: "fin s1 < fin s" using rd_progress [OF less.prems(1) _ r] None by simp
    have "io_Discard rd s1 = Some (e, s')"
      using less.prems(2) by (subst (asm) io_Discard.simps) (simp add: r None)
    then show ?thesis by (rule less.hyps [OF lt rd_inv [OF less.prems(1) r]])
  next
    case (Some x)
    with less.prems(2) show ?thesis
      by (subst (asm) io_Discard.simps) (auto simp: r split: if_splits)
  qed
qed

text \<open>What holds of a source and the bytes read so far holds of all of them at the end.\<close>

lemma read_all_loop_acc:
  assumes step: "\<And>n s bs s' got. inv s \<Longrightarrow> P got s \<Longrightarrow> rd n s = Some (bs, None, s') \<Longrightarrow> P (got @ bs) s'"
    and last: "\<And>n s bs s' got. inv s \<Longrightarrow> P got s \<Longrightarrow> rd n s = Some (bs, Some EOF, s') \<Longrightarrow> Q (got @ bs)"
    and room: "\<And>k. 0 < room k"
  shows "inv s \<Longrightarrow> P got s \<Longrightarrow> read_all_loop rd room got s = Some (bs, None, s') \<Longrightarrow> Q bs"
proof (induction "fin s" arbitrary: s got rule: less_induct)
  case less
  obtain b1 er s1 where r: "rd (room (length got)) s = Some (b1, er, s1)" using rd_returns [OF less.prems(1)] by blast
  show ?case
  proof (cases er)
    case None
    note s1 = rd_inv [OF less.prems(1) r] step [OF less.prems(1,2) r [unfolded None]]
    have lt: "fin s1 < fin s" using rd_progress [OF less.prems(1) room r] None by simp
    have "read_all_loop rd room (got @ b1) s1 = Some (bs, None, s')"
      using less.prems(3) by (subst (asm) read_all_loop.simps) (simp add: r None)
    then show ?thesis by (rule less.hyps [OF lt s1])
  next
    case (Some x)
    with less.prems(3) last [OF less.prems(1,2), of _ b1 s1] r show ?thesis
      by (subst (asm) read_all_loop.simps) (auto split: if_splits)
  qed
qed

end







section \<open>Over any connection\<close>


interpretation any_talk: data_source conn_read "\<lambda>_. True" conn_fin fresh_pool st for st
  by unfold_locales

lemma any_data_source: "byte_pool getlen \<Longrightarrow> data_source conn_read (\<lambda>_. True) conn_fin getlen"
  by (rule data_source.intro; (assumption | unfold_locales))

lemma NewReader_inv: "reader_inv (\<lambda>_. True) (NewReader s st)"
  by (simp add: reader_inv_def NewReader_def NewUTF8Reader_def utf8_states_def)

text \<open>
  C17: A message reader without callbacks, with any extensions and limits, returns from
  \<open>NextFrame\<close>, and then from reading the message to its end or from discarding it, on every
  connection: whatever bytes and errors it delivers, in whatever pieces.
\<close>

theorem message_reading_returns:
  assumes "OnIntermediate cf = None" and "OnContinuation cf = None" and "\<And>k. 0 < room k"
  shows "\<exists>h e r w'. NextFrame conn_read cf (NewReader s st, w) = Some (h, e, r, w') \<and>
    (\<exists>bs e2 x. io_ReadAll (reader_rd conn_read cf) room (r, w') = Some (bs, e2, x)) \<and>
    (\<exists>e3 r3 w3. Discard conn_read cf r w' = Some (e3, r3, w3) \<and> (e3 = None \<longrightarrow> \<not> fragmented r3))"
proof -
  have m: "message_reader conn_read (\<lambda>_. True) conn_fin cf"
    by (intro message_reader.intro message_reader_axioms.intro) (unfold_locales, simp_all add: assms)
  obtain h e r w' where n: "NextFrame conn_read cf (NewReader s st, w) = Some (h, e, r, w')" "reader_inv (\<lambda>_. True) r"
    using message_reader.NextFrame_returns [OF m NewReader_inv] by blast
  from n message_reader.Discard_returns [OF m n(2), of w']
    message_reader.ReadAll_returns [where room = room, OF m n(2) assms(3), of w'] show ?thesis by blast
qed

theorem message_reading_returns_witness:
  "\<exists>h e r w'. NextFrame conn_read (zero_conf :: (rd_event list, unit) ReaderConf)
       (NewReader [REv [0x01, 0x02, 0x61] (Some (NetErr 7))] StateClientSide, ()) = Some (h, e, r, w') \<and>
     (\<exists>bs e2 x. io_ReadAll (reader_rd conn_read zero_conf) Suc (r, w') = Some (bs, e2, x))"
  using message_reading_returns [where cf = "zero_conf :: (rd_event list, unit) ReaderConf" and room = Suc
      and s = "[REv [0x01, 0x02, 0x61] (Some (NetErr 7))]" and st = StateClientSide and w = "()"]
  by (force simp: zero_conf_def)



text \<open>
  C13: \<open>readData\<close> returns on every connection, and does so with an error or with a message of
  the wanted kind.
\<close>

theorem readData_returns:
  assumes "\<not> Fragmented st" and "byte_pool getlen" and "\<And>k. 0 < room k"
  shows "\<exists>bs op e s' d'. readData conn_read room getlen st want s d = Some (bs, op, e, s', d') \<and>
    conn_fin s' \<le> conn_fin s \<and> (e = None \<longrightarrow> \<not> IsControl op \<and> op AND want \<noteq> 0)"
proof -
  have r: "reader_inv (\<lambda>_. True) (NewReader s st)" "\<not> fragmented (NewReader s st)" "src (NewReader s st) = s"
    using assms(1) NewReader_inv by (simp_all add: fragmented_def NewReader_def)
  obtain bs op e r' d' where "read_data_loop conn_read room getlen st want (NewReader s st) d = Some (bs, op, e, r', d')"
      "conn_fin (src r') \<le> conn_fin s" "e = None \<longrightarrow> \<not> IsControl op \<and> op AND want \<noteq> 0"
    using data_source.read_data_loop_returns [where room = room, OF any_data_source [OF assms(2)] assms(3) r(1,2)]
    unfolding r(3) by blast
  then show ?thesis by (simp add: readData_def)
qed

theorem readData_returns_witness:
  "\<exists>bs op e s' d'. readData conn_read Suc fresh_pool StateServerSide OpText
      [REv [0x89, 0x80, 1, 2, 3, 4, 0x01] None, REv [0x82, 9] None, REv [] (Some (NetErr 1))]
      \<lparr>sent = [], faults = [Some (0, NetErr 2)], rands = (\<lambda>_. 0)\<rparr> = Some (bs, op, e, s', d')"
proof -
  have "\<not> Fragmented StateServerSide" by code_simp
  from readData_returns [OF this fresh.byte_pool_axioms, of Suc] show ?thesis by fastforce
qed

end
