(* ===== verification/CutOff.thy ===== *)
theory CutOff
  imports Conversations
begin

text \<open>
  A message whose last frame never comes: what the message reader gives of it up to the control frame in which the
  connection ends.
\<close>

section \<open>A message without its end\<close>

text \<open>The frames after the first one of a message, without the final one.\<close>

fun open_tail :: "('s, 'w) ReaderConf \<Rightarrow> (header \<Rightarrow> bool) \<Rightarrow> byte \<Rightarrow> frame list \<Rightarrow> bool" where
  "open_tail cf quiet st [] = True"
| "open_tail cf quiet st (f # fs) =
     (wf_frame f \<and> CheckHeader (Header f) st = None \<and> size_ok cf (Header f) \<and>
      (if IsControl (OpCode (Header f)) then quiet (Header f) else \<not> Fin (Header f)) \<and> open_tail cf quiet st fs)"

context message_stream
begin

text \<open>\<open>partway r fs rest pl\<close>: the reader is in a message of which the payload \<open>pl\<close>, the frames \<open>fs\<close> and then \<open>rest\<close> are to come.\<close>

definition in_part :: "'s Reader \<Rightarrow> frame list \<Rightarrow> byte list \<Rightarrow> byte list \<Rightarrow> bool" where
  "in_part r fs rest pl \<longleftrightarrow>
     (\<exists>b m. loaded_base r = Some b \<and> (rframe r = Some FUtf8 \<longleftrightarrow> checks r) \<and> rawN r = int m \<and> m \<le> length (data (src r)) \<and>
       drop m (data (src r)) = wire fs @ rest \<and> pl = framed_data data (b, int m, src r) @ message_payload fs)"

definition part_between :: "'s Reader \<Rightarrow> frame list \<Rightarrow> byte list \<Rightarrow> byte list \<Rightarrow> bool" where
  "part_between r fs rest pl \<longleftrightarrow>
     rframe r = None \<and> rawN r = 0 \<and> data (src r) = wire fs @ rest \<and> pl = message_payload fs"

definition partway :: "'s Reader \<Rightarrow> frame list \<Rightarrow> byte list \<Rightarrow> byte list \<Rightarrow> bool" where
  "partway r fs rest pl \<longleftrightarrow> reader_inv inv r \<and> fragmented r \<and> open_tail cf quiet (RState r) fs \<and>
     (if checks r then utf8_run (state (utf8 r)) pl \<noteq> 12 else state (utf8 r) = 0) \<and>
     (in_part r fs rest pl \<or> part_between r fs rest pl)"

lemma loaded_part:
  assumes p: "partway r fs rest pl" and l: "in_part r fs rest pl"
  shows "\<exists>bs r' pl'. read_loaded rd cf k (r, w) = Some (length bs, bs, None, r', w) \<and> pl = bs @ pl' \<and>
    partway r' fs rest pl' \<and> same_message r r' bs"
proof -
  have ri: "reader_inv inv r" and fr: "fragmented r" and ot: "open_tail cf quiet (RState r) fs"
    and u: "if checks r then utf8_run (state (utf8 r)) pl \<noteq> 12 else state (utf8 r) = 0"
    using p by (simp_all add: partway_def)
  obtain b m where b: "loaded_base r = Some b" "rframe r = Some FUtf8 \<longleftrightarrow> checks r" "rawN r = int m"
      "m \<le> length (data (src r))" "drop m (data (src r)) = wire fs @ rest"
      "pl = framed_data data (b, int m, src r) @ message_payload fs"
    using l by (auto simp: in_part_def)
  have ne: "rframe r \<noteq> None" using b(1) by (cases "rframe r") (simp_all add: loaded_base_def)
  have i: "inv (src r)" using ri by (simp add: reader_inv_def)
  obtain b0 bs e b' N' s' n e' r' where r: "base_read rd k (b0, rawN r, src r) = Some (bs, e, (b', N', s'))"
      "frame_Read rd k r = Some (n, bs, e', r')" "src r' = s'" "rawN r' = N'"
      "RState r' = RState r" "opCode r' = opCode r" "reader_inv inv r'" "rframe r' \<noteq> None"
      "(rframe r = Some (FBase b0) \<and> rframe r' = Some (FBase b') \<and> utf8 r' = utf8 r \<and> n = length bs \<and> e' = e) \<or>
       (rframe r = Some FUtf8 \<and> Source (utf8 r) = Some b0 \<and> rframe r' = Some FUtf8 \<and>
         Source (utf8 r') = Some b' \<and> state (utf8 r') = utf8_run (state (utf8 r)) bs \<and>
         (if bs \<noteq> [] \<and> utf8_run (state (utf8 r)) bs = 12 then e' = Some ErrInvalidUTF8
          else n = length bs \<and> e' = e) \<and>
         utf8_short (state (utf8 r)) bs n (accepted (utf8 r')))"
    by (rule frame_Read_cases [OF ri ne, of k])
  have b0: "b0 = b" using r(9) b(1) by (auto simp: loaded_base_def)
  note s = base_read_stream [OF i b(4) r(1) [unfolded b0 b(3)]]
  define pl' where "pl' = framed_data data (b', N', s') @ message_payload fs"
  have pl: "pl = bs @ pl'" using s b(6) by (simp add: pl'_def)
  have c: "checks r' = checks r" using r(6) by (simp add: checks_def)
  have n: "n = length bs" "e' = e"
    and st: "state (utf8 r') = (if checks r then utf8_run (state (utf8 r)) bs else state (utf8 r))"
    using r(9) b(2) u pl by (auto split: if_splits)
  have u': "if checks r' then utf8_run (state (utf8 r')) pl' \<noteq> 12 else state (utf8 r') = 0"
    using u st c pl by (auto split: if_splits)
  have f': "fragmented r'" "open_tail cf quiet (RState r') fs" using fr ot r(5) by (simp_all add: fragmented_def)
  have l': "in_part r' fs rest pl'"
    unfolding in_part_def
  proof (intro exI conjI)
    show "loaded_base r' = Some b'" using r(9) by (auto simp: loaded_base_def)
    show "(rframe r' = Some FUtf8) = checks r'" using r(9) b(2) c by auto
    show "rawN r' = int (m - length bs)" using s r(4) by simp
    show "m - length bs \<le> length (data (src r'))" using s r(3) b(4) by simp
    show "drop (m - length bs) (data (src r')) = wire fs @ rest" using s r(3) b(5) by simp
    show "pl' = framed_data data (b', int (m - length bs), src r') @ message_payload fs"
      using s r(3) by (simp add: pl'_def)
  qed
  have sm: "same_message r r' bs" using r(3,5,6) s st by (simp add: same_message_def)
  have e: "e = None \<or> e = Some EOF \<and> rawN r' = 0" using s r(4) by auto
  show ?thesis
  proof (cases "rawN r' = 0")
    case False
    have "partway r' fs rest pl'" using r(7) f' u' l' by (simp add: partway_def)
    with False e n pl sm r(2) show ?thesis
      by (intro exI [of _ bs] exI [of _ r'] exI [of _ pl']) (auto simp: read_loaded_def)
  next
    case True
    have "framed_data data (b', 0, src r') = []" for b' by (cases b') (simp_all add: limited_data_def)
    then have "part_between (resetFragment r') fs rest pl'"
      using l' True by (auto simp: in_part_def part_between_def)
    then have "partway (resetFragment r') fs rest pl'"
      using r(7) f' u' by (simp add: partway_def checks_def reader_inv_def fragmented_def)
    moreover have "same_message r (resetFragment r') bs" using sm by (simp add: same_message_def)
    moreover have "read_loaded rd cf k (r, w) = Some (length bs, bs, None, resetFragment r', w)"
      using True e n f'(1) r(2) by (auto simp: read_loaded_def)
    ultimately show ?thesis using pl by blast
  qed
qed

text \<open>A read that is not yet at the end of \<open>fs\<close>.\<close>

lemma part_step:
  assumes p: "partway r fs rest pl" and rw: "ready w" and more: "rframe r = None \<longrightarrow> fs \<noteq> []"
  shows "\<exists>bs r' w' gs fs' pl'. Reader_Read rd cf k (r, w) = Some (length bs, bs, None, r', w') \<and> same_message r r' bs \<and>
    ready w' \<and> fs = gs @ fs' \<and> answered answers gs w w' \<and> pl = bs @ pl' \<and> partway r' fs' rest pl'"
proof (cases "rframe r = None")
  case False
  then have "in_part r fs rest pl" using p by (auto simp: partway_def part_between_def)
  from loaded_part [OF p this, of k w] obtain bs r' pl' where
    "read_loaded rd cf k (r, w) = Some (length bs, bs, None, r', w)" "pl = bs @ pl'" "partway r' fs rest pl'" "same_message r r' bs"
    by blast
  with False rw show ?thesis
    by (intro exI [of _ bs] exI [of _ r'] exI [of _ w] exI [of _ "[]"] exI [of _ fs] exI [of _ pl'])
      (auto simp: Reader_Read_def)
next
  case True
  with more obtain f fs' where fs: "fs = f # fs'" by (cases fs) auto
  have ri: "reader_inv inv r" and fr: "fragmented r"
    and u: "if checks r then utf8_run (state (utf8 r)) pl \<noteq> 12 else state (utf8 r) = 0"
    and pl: "pl = message_payload fs" and d: "data (src r) = frame_bytes f @ wire fs' @ rest"
    and f: "wf_frame f" "CheckHeader (Header f) (RState r) = None" "size_ok cf (Header f)"
      "if IsControl (OpCode (Header f)) then quiet (Header f) else \<not> Fin (Header f)" "open_tail cf quiet (RState r) fs'"
    using p True fs by (auto simp: partway_def in_part_def part_between_def loaded_base_def)
  have i: "inv (src r)" using ri by (simp add: reader_inv_def)
  obtain s where s: "inv s" "data s = Payload f @ wire fs' @ rest" "ending s = ending (src r)"
      "sint (Length (Header f)) = int (length (Payload f))"
    and n: "NextFrame rd cf (r, w) =
      (let b = (if Masked (Header f) then Ciph (Mask (Header f)) 0 else Raw);
           r' = r\<lparr>src := s, rawN := sint (Length (Header f))\<rparr>
       in if fragmented r \<and> IsControl (OpCode (Header f)) then intermediate rd cf (Header f) b (r', w)
          else load_frame cf (Header f) b (r', w))"
    by (rule next_header [OF i f(1) d f(2,3)])
  show ?thesis
  proof (cases "IsControl (OpCode (Header f))")
    case c: True
    then have q: "quiet (Header f)" using f(4) by simp
    obtain r' w' where r': "intermediate rd cf (Header f) (if Masked (Header f) then Ciph (Mask (Header f)) 0 else Raw)
        (r\<lparr>src := s, rawN := int (length (Payload f))\<rparr>, w) = Some (Header f, None, r', w')"
      "reader_inv inv r'" "data (src r') = wire fs' @ rest" "ending (src r') = ending s" "rframe r' = rframe r" "rawN r' = 0"
      "RState r' = RState r" "opCode r' = opCode r" "utf8 r' = utf8 r" "ready w'" "answers f w w'"
      by (rule quiet_frame [OF ri s(1,2) f(1) q c rw])
    have re: "Reader_Read rd cf k (r, w) = Some (0, [], None, r', w')"
      using n r'(1,5) c fr s(4) True by (simp add: Reader_Read_def Let_def)
    have "if checks r' then utf8_run (state (utf8 r')) pl \<noteq> 12 else state (utf8 r') = 0"
      using u r'(8,9) by (simp add: checks_def)
    moreover have "part_between r' fs' rest pl" using r'(3,5,6) pl c True fs by (simp add: part_between_def)
    ultimately have "partway r' fs' rest pl" using r'(2,7) fr f(5) by (simp add: partway_def fragmented_def)
    moreover have "same_message r r' []" using r' s(3) by (simp add: same_message_def)
    ultimately show ?thesis
      using re r'(10,11) c fs
      by (intro exI [of _ "[]"] exI [of _ r'] exI [of _ w'] exI [of _ "[f]"] exI [of _ fs'] exI [of _ pl]) simp
  next
    case c: False
    have co: "OpCode (Header f) = OpContinuation" using tail_opcode [OF f(1,2)] fr c by (simp add: fragmented_def)
    obtain r1 where r1: "load_frame cf (Header f) (if Masked (Header f) then Ciph (Mask (Header f)) 0 else Raw)
        (r\<lparr>src := s, rawN := int (length (Payload f))\<rparr>, w) = Some (Header f, None, r1, w)"
      "loaded_base r1 = Some (if Masked (Header f) then Ciph (Mask (Header f)) 0 else Raw)"
      "rframe r1 = Some FUtf8 \<longleftrightarrow> checks r1" "rawN r1 = int (length (Payload f))" "reader_inv inv r1"
      "opCode r1 = (if fragmented r then opCode r else OpCode (Header f))" "state (utf8 r1) = state (utf8 r)" "src r1 = s"
      "RState r1 = (if Fin (Header f) then Clear (RState r) StateFragmented else Set (RState r) StateFragmented)"
      using load_frame_loaded [OF ri s(1), of f w] co by blast
    have rs: "RState r1 = RState r" "fragmented r1" using r1(9) f(4) c fr by (simp_all add: Set_Fragmented_idem fragmented_def)
    have ck: "checks r1 = checks r" using r1(6) fr by (simp add: checks_def)
    have l1: "in_part r1 fs' rest pl"
      unfolding in_part_def
    proof (intro exI conjI)
      show "pl = framed_data data ((if Masked (Header f) then Ciph (Mask (Header f)) 0 else Raw), int (length (Payload f)), src r1) @ message_payload fs'"
        unfolding r1(8) using plain_framed [OF s(2)] pl fs c by simp
    qed (use r1 s(2) in simp_all)
    then have p1: "partway r1 fs' rest pl" using r1 rs ck u f(5) by (simp add: partway_def)
    from loaded_part [OF p1 l1, of k w] obtain bs r' pl' where
      r': "read_loaded rd cf k (r1, w) = Some (length bs, bs, None, r', w)" "pl = bs @ pl'" "partway r' fs' rest pl'" "same_message r1 r' bs"
      by blast
    have "rframe r1 \<noteq> None" using r1(2) by (cases "rframe r1") (simp_all add: loaded_base_def)
    then have "Reader_Read rd cf k (r, w) = Some (length bs, bs, None, r', w)"
      using n r1(1) c fr s(4) True r'(1) by (auto simp add: Reader_Read_def Let_def)
    moreover have "same_message r r' bs"
      using r'(4) r1(6,7,8) rs(1) ck s(3) fr by (simp add: same_message_def)
    ultimately show ?thesis
      using r'(2,3) c fs rw
      by (intro exI [of _ bs] exI [of _ r'] exI [of _ w] exI [of _ "[f]"] exI [of _ fs'] exI [of _ pl']) simp
  qed
qed

text \<open>
  Reading all of it, when the next frame fails with \<open>er\<close> wherever only \<open>rest\<close> is left.
\<close>

lemma read_all_part:
  assumes room: "\<And>k. 0 < room k"
    and last: "\<And>r w. reader_inv inv r \<Longrightarrow> fragmented r \<Longrightarrow> Clear (RState r) StateFragmented = st0 \<Longrightarrow> data (src r) = rest \<Longrightarrow>
      ending (src r) = fin_err \<Longrightarrow> ready w \<Longrightarrow> \<exists>h r'. NextFrame rd cf (r, w) = Some (h, Some er, r', w)"
  shows "partway r fs rest pl \<Longrightarrow> ready w \<Longrightarrow> Clear (RState r) StateFragmented = st0 \<Longrightarrow> ending (src r) = fin_err \<Longrightarrow>
     \<exists>r' w'. read_all_loop (reader_rd rd cf) room got (r, w) = Some (got @ pl, (if er = EOF then None else Some er), (r', w')) \<and>
       answered answers fs w w'"
proof (induction "reader_fin fin r" arbitrary: got r w fs pl rule: less_induct)
  case less
  let ?k = "room (length got)"
  have ri: "(reader_inv inv \<circ> fst) (r, w)" using less.prems(1) by (simp add: partway_def)
  show ?case
  proof (cases "rframe r = None \<and> fs = []")
    case True
    then have d: "data (src r) = rest" "pl = []" "fragmented r" "reader_inv inv r"
      using less.prems(1) by (auto simp: partway_def in_part_def part_between_def loaded_base_def)
    obtain h r' where "NextFrame rd cf (r, w) = Some (h, Some er, r', w)"
      using last [OF d(4,3) less.prems(3) d(1) less.prems(4,2)] by blast
    then have "reader_rd rd cf ?k (r, w) = Some ([], Some er, (r', w))"
      using True d(3) by (simp add: reader_rd_def Reader_Read_def)
    with True d(2) show ?thesis by (subst read_all_loop.simps) auto
  next
    case False
    then have "rframe r = None \<longrightarrow> fs \<noteq> []" by blast
    from part_step [OF less.prems(1,2) this, of ?k] obtain bs r' w' gs fs' pl' where st: "Reader_Read rd cf ?k (r, w) = Some (length bs, bs, None, r', w')" "same_message r r' bs"
        "ready w'" "fs = gs @ fs'" "answered answers gs w w'" "pl = bs @ pl'" "partway r' fs' rest pl'"
      by blast
    have rd': "reader_rd rd cf ?k (r, w) = Some (bs, None, (r', w'))" using st(1) by (simp add: reader_rd_def)
    have lt: "reader_fin fin r' < reader_fin fin r" using message.rd_progress [OF ri room rd'] by simp
    have "Clear (RState r') StateFragmented = st0" "ending (src r') = fin_err"
      using st(2) less.prems(3,4) by (simp_all add: same_message_def)
    from less.hyps [OF lt st(7,3) this, of "got @ bs"] rd' st(4-6) show ?thesis
      by (subst read_all_loop.simps) (auto simp: answered_append)
  qed
qed

end
section \<open>Cut off in a close frame\<close>

lemma Set_Clear_Fragmented: "Fragmented s \<Longrightarrow> Set (Clear s StateFragmented) StateFragmented = s"
  by (rule bit_eqI) (auto simp: bit_Set_Fragmented bit_Clear_Fragmented flag_bits)

text \<open>The error of a close frame of which only \<open>part\<close> comes after its header.\<close>

definition cut_err :: "byte list \<Rightarrow> err \<Rightarrow> err" where
  "cut_err part e = (if part \<noteq> [] \<and> e = EOF then ErrUnexpectedEOF else e)"

context data_reader
begin

lemma NextFrame_cut_close:
  assumes ri: "reader_inv inv r" and fr: "fragmented r" and d: "data (src r) = hb @ part"
    and c: "wf_header c" "header_bytes c = Some hb" "CheckHeader c (RState r) = None" "OpCode c = OpClose"
      "int (length part) < sint (Length c)"
  shows "\<exists>h r'. NextFrame rd conf (r, w) = Some (h, Some (cut_err part (ending (src r))), r', w)"
proof -
  let ?b = "if Masked c then Ciph (Mask c) 0 else Raw" and ?c = "\<lparr>Src = frame_src rd, HState = st, DisableSrcCiphering = True\<rparr>"
  have i: "inv (src r)" using ri by (simp add: reader_inv_def)
  have ctl: "IsControl (OpCode c)" using c(4) by (simp add: IsControl_def op_defs)
  obtain s where s: "ReadHeader rd (src r) = Some (c, None, s)" "data s = part" "ending s = ending (src r)" "inv s"
    using ReadHeader_encoded [OF i c(1,2) d] by blast
  have L: "0 < sint (Length c)" "sint (Length c) \<le> 125" using c(5) small_control [OF c(3) ctl] by simp_all
  have nz: "Length c \<noteq> 0" using L(1) by auto
  let ?x = "(?b, sint (Length c), s)"
  have ix: "framed_inv inv ?x" using s(4) by (simp add: framed_inv_def)
  have fd: "length (framed_data data ?x) = length part" using s(2) c(5) by (simp add: limited_data_def)
  have "\<not> nat (sint (Length c)) \<le> length part" using c(5) by linarith
  then have fe: "framed_end data ending ?x = ending (src r)" using s(2,3) by (simp add: framed_end_def limited_end_def)
  have "length (framed_data data ?x) < nat (sint (Length c))" using fd c(5) by simp
  from base.io_ReadFull_short [OF ix this] obtain x' where
    "io_ReadFull (base_read rd) (nat (sint (Length c))) ?x =
      Some (framed_data data ?x, (if framed_data data ?x \<noteq> [] \<and> ending (src r) = EOF then Some ErrUnexpectedEOF
        else Some (ending (src r))), x')"
    unfolding fe by blast
  moreover have "(if framed_data data ?x \<noteq> [] \<and> ending (src r) = EOF then Some ErrUnexpectedEOF
        else Some (ending (src r))) = Some (cut_err part (ending (src r)))"
    using arg_cong [OF fd, of "\<lambda>n. n = 0"] unfolding length_0_conv cut_err_def by simp
  ultimately have rf: "io_ReadFull (base_read rd) (nat (sint (Length c))) ?x =
      Some (framed_data data ?x, Some (cut_err part (ending (src r))), x')"
    by simp
  have sc: "src_rd (Src ?c) = base_read rd" "\<not> ciphers ?c" by (simp_all add: frame_src_def ciphers_def)
  have rp: "read_payload ?c c ?x = Some (framed_data data ?x, Some (cut_err part (ending (src r))), x')"
    using rf sc by (simp add: read_payload_def)
  obtain p where p: "getlen (reply_len ?c c) = Some p" "int (length p) = reply_len ?c c"
    using getlen reply_len_pos [OF L] by blast
  then have "sint (Length c) \<le> int (length p)" by (simp add: reply_len_eq [OF L])
  then have h: "ControlFrameHandler getlen (frame_src rd) st c (?x, w) = Some (Some (cut_err part (ending (src r))), x', w)"
    using nz p(1) L(1) rp c(4) by (simp add: ControlFrameHandler_def Handle_def HandleClose_def op_defs)
  obtain b' N' s' where x': "x' = (b', N', s')" by (cases x') auto
  have e: "frame_error conf (r\<lparr>src := s\<rparr>) c None = None" using c(3) by (simp add: frame_error_def)
  have m: "\<not> (0 < sint (MaxFrameSize conf) \<and> sint (MaxFrameSize conf) < sint (Length c))" "apply_bits (RExtensions conf) c = (c, None)"
    by (simp_all add: data_conf_def zero_conf_def)
  have "OnIntermediate conf = Some (ControlFrameHandler getlen (frame_src rd) st)" by (simp add: data_conf_def)
  then have "intermediate rd conf c ?b (r\<lparr>src := s, rawN := sint (Length c)\<rparr>, w) =
      Some (c, Some (cut_err part (ending (src r))), r\<lparr>src := s', rawN := N'\<rparr>, w)"
    using h x' by (simp add: intermediate_def)
  with NextFrame_accept [OF s(1) e m, of w] fr ctl show ?thesis by (simp add: Let_def)
qed

lemma readData_cut_close:
  assumes s: "inv s" "data s = wire (f # fs) @ hb @ part" and st: "\<not> Fragmented st" and w: "calm w" and room: "\<And>k. 0 < room k"
    and f: "wf_frame f" "CheckHeader (Header f) st = None" "\<not> Fin (Header f)" "\<not> IsControl (OpCode (Header f))"
      "OpCode (Header f) AND want \<noteq> 0"
    and fs: "open_tail conf quiet_ping (Set st StateFragmented) fs"
    and c: "wf_header c" "header_bytes c = Some hb" "CheckHeader c (Set st StateFragmented) = None" "OpCode c = OpClose"
      "int (length part) < sint (Length c)"
    and u: "OpCode (Header f) = OpText \<longrightarrow> utf8_run 0 (plain f @ message_payload fs) \<noteq> 12"
  shows "\<exists>s' w'. readData rd room getlen st want s w = Some (plain f @ message_payload fs, OpCode (Header f),
      (if cut_err part (ending s) = EOF then None else Some (cut_err part (ending s))), s', w') \<and> answered (pongs st) fs w w'"
proof -
  let ?r = "NewReader s st" and ?b = "if Masked (Header f) then Ciph (Mask (Header f)) 0 else Raw"
  have a: "at_rest ?r (wire (f # fs) @ hb @ part)" using s st by (simp add: at_rest_def NewReader_def fragmented_def)
  then have ri: "reader_inv inv ?r" and nf: "\<not> fragmented ?r" and u0: "state (utf8 ?r) = 0"
    using at_rest_idle [OF a] by (simp_all add: idle_def)
  have rs: "RState ?r = st" "src ?r = s" by (simp_all add: NewReader_def)
  have sz: "size_ok conf (Header f)" by (simp add: size_ok_def data_conf_def zero_conf_def)
  have d: "data (src ?r) = frame_bytes f @ wire fs @ hb @ part" using s(2) rs(2) by simp
  obtain s1 where s1: "inv s1" "data s1 = Payload f @ wire fs @ hb @ part" "ending s1 = ending (src ?r)"
      "sint (Length (Header f)) = int (length (Payload f))"
    and n: "NextFrame rd conf (?r, w) =
      (let b = ?b; r' = ?r\<lparr>src := s1, rawN := sint (Length (Header f))\<rparr>
       in if fragmented ?r \<and> IsControl (OpCode (Header f)) then intermediate rd conf (Header f) b (r', w)
          else load_frame conf (Header f) b (r', w))"
    by (rule next_header [where r = "?r" and w = w, OF _ f(1) d _ sz]) (use s(1) f(2) rs in simp_all)
  obtain r1 where r1: "load_frame conf (Header f) ?b (?r\<lparr>src := s1, rawN := int (length (Payload f))\<rparr>, w) = Some (Header f, None, r1, w)"
    "loaded_base r1 = Some ?b" "rframe r1 = Some FUtf8 \<longleftrightarrow> checks r1" "rawN r1 = int (length (Payload f))" "reader_inv inv r1"
    "opCode r1 = (if fragmented ?r then opCode ?r else OpCode (Header f))" "state (utf8 r1) = state (utf8 ?r)" "src r1 = s1"
    "RState r1 = (if Fin (Header f) then Clear (RState ?r) StateFragmented else Set (RState ?r) StateFragmented)"
    using load_frame_loaded [where r = "?r" and w = w, OF ri s1(1), of f] nf by blast
  have st1: "RState r1 = Set st StateFragmented" "fragmented r1" "Clear (RState r1) StateFragmented = st"
    using r1(9) f(3) rs(1) st by (simp_all add: fragmented_def Clear_unfragmented)
  have "in_part r1 fs (hb @ part) (plain f @ message_payload fs)"
    unfolding in_part_def
  proof (intro exI conjI)
    show "plain f @ message_payload fs = framed_data data (?b, int (length (Payload f)), src r1) @ message_payload fs"
      unfolding r1(8) using plain_framed [OF s1(2)] by simp
  qed (use r1 s1(2) in simp_all)
  moreover have "checks r1 \<longrightarrow> OpCode (Header f) = OpText" using r1(6) nf by (simp add: checks_def)
  ultimately have p: "partway r1 fs (hb @ part) (plain f @ message_payload fs)"
    using r1(5,7) st1 u u0 fs by (simp add: partway_def)
  have last: "\<exists>h r'. NextFrame rd conf (r, w) = Some (h, Some (cut_err part (ending s)), r', w)"
    if "reader_inv inv r" "fragmented r" "Clear (RState r) StateFragmented = st" "data (src r) = hb @ part" "ending (src r) = ending s" for r w
  proof -
    have "RState r = Set st StateFragmented" using that(2,3) Set_Clear_Fragmented by (auto simp: fragmented_def)
    with NextFrame_cut_close [OF that(1,2,4) c(1,2) _ c(4,5), of w] c(3) that(5) show ?thesis by simp
  qed
  have "ending (src r1) = ending s" using r1(8) s1(3) rs(2) by simp
  from read_all_part [where room = room and got = "[]", OF room last p w st1(3) this] obtain r2 w2 where
    r2: "io_ReadAll (reader_rd rd conf) room (r1, w) = Some (plain f @ message_payload fs,
      (if cut_err part (ending s) = EOF then None else Some (cut_err part (ending s))), (r2, w2))" "answered (pongs st) fs w w2"
    unfolding io_ReadAll_def append_Nil by blast
  have "NextFrame rd conf (?r, w) = Some (Header f, None, r1, w)" using n r1(1) nf s1(4) by (simp add: Let_def)
  with r2 f(4,5) have "read_data_loop rd room getlen st want ?r w = Some (plain f @ message_payload fs, OpCode (Header f),
      (if cut_err part (ending s) = EOF then None else Some (cut_err part (ending s))), r2, w2)"
    by (subst read_data_loop.simps) simp
  with r2(2) show ?thesis by (simp add: readData_def)
qed

end
text \<open>Text that some more bytes make valid.\<close>

lemma utf8_run_front: "ValidString (bs @ xs) \<Longrightarrow> utf8_run 0 bs \<noteq> 12"
  using utf8_run_valid [of "bs @ xs"] by auto

text \<open>
  C39: A message is not finished: the connection has brought its first frame, and any number of further frames with pings and pongs
  between them, and breaks off in a close frame, whose header it brings and of the announced body only \<open>part\<close>, not all.
  \<open>readData\<close> returns what has come of the message. When the connection ends right after the
  header of the close frame, it reports no error, as if this were a whole message, also for a text that ends inside of a character;
  when some of the body has come, or the connection fails, it reports that.
\<close>

theorem truncated_close_ends_message:
  assumes "conn_sane s" and "conn_data s = wire (f # fs) @ hb @ part" and "\<not> Fragmented st" and "faults d = []"
    and "byte_pool getlen" and "\<And>k. 0 < room k"
    and "wf_frame f" and "CheckHeader (Header f) st = None" and "\<not> Fin (Header f)"
    and "\<not> IsControl (OpCode (Header f))" and "OpCode (Header f) AND want \<noteq> 0"
    and "open_tail (data_conf conn_read getlen st) quiet_ping (Set st StateFragmented) fs"
    and "wf_header c" and "header_bytes c = Some hb" and "CheckHeader c (Set st StateFragmented) = None"
    and "OpCode c = OpClose" and "int (length part) < sint (Length c)"
    and "OpCode (Header f) = OpText \<longrightarrow> (\<exists>xs. ValidString ((plain f @ message_payload fs) @ xs))"
  shows "\<exists>s' d'. readData conn_read room getlen st want s d = Some (plain f @ message_payload fs, OpCode (Header f),
      (if conn_end s = EOF then if part = [] then None else Some ErrUnexpectedEOF else Some (conn_end s)), s', d') \<and>
    answered (pongs st) fs d d'"
proof -
  have u: "OpCode (Header f) = OpText \<longrightarrow> utf8_run 0 (plain f @ message_payload fs) \<noteq> 12"
    using assms(18) utf8_run_front by blast
  have e: "(if cut_err part (conn_end s) = EOF then None else Some (cut_err part (conn_end s))) =
      (if conn_end s = EOF then if part = [] then None else Some ErrUnexpectedEOF else Some (conn_end s))"
    by (simp add: cut_err_def)
  show ?thesis
    using data_reader.readData_cut_close [OF conn_data_reader [OF assms(5)], where room = room,
        OF assms(1-3) _ assms(6-17) u] assms(4) unfolding e calm_def by blast
qed

theorem truncated_close_ends_message_witness:
  "\<exists>s' d'. readData conn_read Suc fresh_pool StateClientSide OpText
      [REv [0x01, 2] None, REv [104, 0xC3, 0x88, 2] None] \<lparr>sent = [], faults = [], rands = (\<lambda>_. 0)\<rparr> =
    Some ([104, 0xC3], OpText, None, s', d')"
proof -
  let ?f = "NewFrame OpText False [104, 0xC3]" and ?s = "[REv [0x01, 2] None, REv [104, 0xC3, 0x88, 2] None]"
    and ?c = "zero_header\<lparr>Fin := True, OpCode := OpClose, Length := 2\<rparr>" and ?d = "\<lparr>sent = [], faults = [], rands = (\<lambda>_. 0)\<rparr>"
  have b: "frame_bytes ?f = [0x01, 2, 104, 0xC3]" and c: "wf_header ?c" "header_bytes ?c = Some [0x88, 2]"
      "CheckHeader ?c (Set StateClientSide StateFragmented) = None" "OpCode ?c = OpClose"
    by code_simp+
  have s: "conn_sane ?s" "conn_data ?s = wire [?f] @ [0x88, 2] @ []" by (simp_all add: b)
  have f: "\<not> Fragmented StateClientSide" "wf_frame ?f" "CheckHeader (Header ?f) StateClientSide = None" "\<not> Fin (Header ?f)"
      "\<not> IsControl (OpCode (Header ?f))" "OpCode (Header ?f) AND OpText \<noteq> 0" "plain ?f = [104, 0xC3]" "OpCode (Header ?f) = OpText"
    by code_simp+
  have "ValidString [104, 0xC3, 0xA9]" by code_simp
  then have u: "\<exists>xs. ValidString ([104, 0xC3] @ xs)" by (intro exI [of _ "[0xA9]"]) simp
  show ?thesis
    using truncated_close_ends_message [OF s f(1) _ fresh.byte_pool_axioms _ f(2-6) _ c, of ?d Suc] f(7,8) u by auto
qed

end
