(* ===== verification/HttpText.thy ===== *)
theory HttpText
  imports Http
begin

text \<open>
  The texts of the handshake: what the functions that write HTTP through a buffer put on the
  wire, as one byte string each. \<open>emits f p\<close> says that \<open>f\<close> writes \<open>p\<close>; the rules for \<open>emits\<close>
  follow the shape of the code, so that the text of a request or response is computed by them.
\<close>

section \<open>Emitting\<close>

context buffered_writer
begin

definition emits :: "('d BufWriter \<Rightarrow> 'd BufWriter option) \<Rightarrow> byte list \<Rightarrow> bool" where
  "emits f p \<longleftrightarrow> (\<forall>b. bw_inv b \<longrightarrow> (\<exists>b'. f b = Some b' \<and> puts b p b'))"

text \<open>The errors that a header function reports are those of the buffer.\<close>

definition emits_header :: "'d header_func \<Rightarrow> byte list \<Rightarrow> bool" where
  "emits_header f p \<longleftrightarrow> (\<forall>b. bw_inv b \<longrightarrow> (\<exists>n e b'. f b = Some (n, e, b') \<and> puts b p b' \<and>
     (e \<noteq> None \<longrightarrow> bw_err b' \<noteq> None)))"

lemma puts_inv: "puts b p b' \<Longrightarrow> bw_inv b'"
  by (simp add: puts_def)

lemma WriteString_putsE:
  assumes "bw_inv b"
  obtains n b' where "bw_WriteString wr s b = Some (n, bw_err b', b')" "puts b s b'"
  using bw_WriteString_puts [OF assms, of s] by (elim exE conjE) (rule that)

lemma Write_putsE:
  assumes "bw_inv b"
  obtains n b' where "bw_Write wr s b = Some (n, bw_err b', b')" "puts b s b'"
  using bw_Write_puts [OF assms, of s] by (elim exE conjE) (rule that)

lemma emitsD: "emits f p \<Longrightarrow> bw_inv b \<Longrightarrow> \<exists>b'. f b = Some b' \<and> puts b p b'"
  by (simp add: emits_def)

lemma emits_Some: "emits Some []"
  by (simp add: emits_def puts_refl)

lemma emits_string: "emits (put_string wr s) s"
  unfolding emits_def put_string_def
proof (intro allI impI)
  fix b assume "bw_inv b"
  then obtain n b' where "bw_WriteString wr s b = Some (n, bw_err b', b')" "puts b s b'"
    using bw_WriteString_puts by blast
  then show "\<exists>b'. Option.bind (bw_WriteString wr s b) (\<lambda>(n, e, bw). Some bw) = Some b' \<and> puts b s b'" by simp
qed

lemma emits_bytes: "emits (put_bytes wr s) s"
  unfolding emits_def put_bytes_def
proof (intro allI impI)
  fix b assume "bw_inv b"
  then obtain n b' where "bw_Write wr s b = Some (n, bw_err b', b')" "puts b s b'"
    using bw_Write_puts by blast
  then show "\<exists>b'. Option.bind (bw_Write wr s b) (\<lambda>(n, e, bw). Some bw) = Some b' \<and> puts b s b'" by simp
qed

lemma emits_byte: "emits (put_byte wr c) [c]"
  unfolding emits_def put_byte_def
proof (intro allI impI)
  fix b assume "bw_inv b"
  then obtain b' where "bw_WriteByte wr c b = Some (bw_err b', b')" "puts b [c] b'"
    using bw_WriteByte_puts by blast
  then show "\<exists>b'. Option.bind (bw_WriteByte wr c b) (\<lambda>(e, bw). Some bw) = Some b' \<and> puts b [c] b'" by simp
qed

lemma emits_bind:
  assumes "emits f p" and "emits g q"
  shows "emits (\<lambda>b. Option.bind (f b) g) (p @ q)"
  unfolding emits_def
proof (intro allI impI)
  fix b assume "bw_inv b"
  then obtain b1 where b1: "f b = Some b1" "puts b p b1" using assms(1) by (auto simp: emits_def)
  then obtain b2 where "g b1 = Some b2" "puts b1 q b2" using emitsD [OF assms(2) puts_inv] by blast
  with b1 puts_trans show "\<exists>b'. Option.bind (f b) g = Some b' \<and> puts b (p @ q) b'" by auto
qed

lemma emits_ite: "(c \<Longrightarrow> emits f p) \<Longrightarrow> (\<not> c \<Longrightarrow> emits g p) \<Longrightarrow> emits (\<lambda>b. if c then f b else g b) p"
  by (cases c) simp_all

lemma emits_if: "emits f p \<Longrightarrow> emits g q \<Longrightarrow> emits (\<lambda>b. if c then f b else g b) (if c then p else q)"
  by (simp add: emits_def)

text \<open>A header function of which only the buffer is used.\<close>

lemma emits_header_bind:
  assumes "emits_header f p" and "emits g q"
  shows "emits (\<lambda>b. Option.bind (f b) (\<lambda>(n, e, b). g b)) (p @ q)"
  unfolding emits_def
proof (intro allI impI)
  fix b assume "bw_inv b"
  then obtain n e b1 where b1: "f b = Some (n, e, b1)" "puts b p b1"
    using assms(1) unfolding emits_header_def by blast
  then obtain b2 where "g b1 = Some b2" "puts b1 q b2" using emitsD [OF assms(2) puts_inv] by blast
  with b1 puts_trans show "\<exists>b'. Option.bind (f b) (\<lambda>(n, e, b). g b) = Some b' \<and> puts b (p @ q) b'" by auto
qed

lemma emits_headerD: "emits_header f p \<Longrightarrow> emits (\<lambda>b. Option.bind (f b) (\<lambda>(n, e, b). Some b)) p"
  using emits_header_bind [OF _ emits_Some] by simp

text \<open>What is flushed in the end has reached the destination, or a part of it and an error is reported.\<close>

lemma emits_flush:
  assumes f: "emits f p" and b: "bw_inv b" "bw_err b = None"
  shows "\<exists>b1 e b2. f b = Some b1 \<and> bw_Flush wr b1 = Some (e, b2) \<and> (\<exists>k. bw_out b2 = bw_out b @ take k p) \<and>
    (e = None \<longrightarrow> out (bw_dst b2) = bw_out b @ p) \<and> (calm (bw_dst b) \<longrightarrow> e = None) \<and> bw_err b2 = e"
proof -
  obtain b1 where b1: "f b = Some b1" "puts b p b1" using f b(1) by (auto simp: emits_def)
  obtain b2 where b2: "bw_Flush wr b1 = Some (bw_err b2, b2)" "puts b1 [] b2" "bw_err b2 = None \<longrightarrow> bw_buf b2 = []"
    using bw_Flush_puts [OF puts_inv [OF b1(2)]] by (elim exE conjE) (rule that)
  have "puts b p b2" using puts_trans [OF b1(2) b2(2)] by simp
  then have p: "(\<exists>k. bw_out b2 = bw_out b @ take k p) \<and> (bw_err b2 = None \<longrightarrow> bw_out b2 = bw_out b @ p)"
      "calm (bw_dst b) \<longrightarrow> bw_err b2 = None"
    using b(2) unfolding puts_def bw_calm_def by simp_all
  moreover have "bw_err b2 = None \<longrightarrow> out (bw_dst b2) = bw_out b2" using b2(3) by (simp add: bw_out_def)
  ultimately show ?thesis
    by (intro exI [of _ b1] exI [of _ "bw_err b2"] exI [of _ b2] conjI b1(1) b2(1)) simp_all
qed

section \<open>Header lines and the texts of errors\<close>

lemma emits_header_key: "emits (httpWriteHeaderKey wr key) (key @ colonAndSpace)"
  unfolding httpWriteHeaderKey_def by (rule emits_bind [OF emits_string emits_string])

end

definition header_line :: "byte list \<Rightarrow> byte list \<Rightarrow> byte list" where
  "header_line key v = (key @ colonAndSpace) @ v @ CRLF"

definition status_text :: "int \<Rightarrow> byte list" where
  "status_text c = str_bytes ''HTTP/1.1 '' @ Itoa c @ [32] @ StatusText c @ CRLF @
     str_bytes ''Content-Type: text/plain; charset=utf-8'' @ CRLF"

definition error_tail :: "byte list \<Rightarrow> byte list" where
  "error_tail body = str_bytes ''Content-Length: '' @ Itoa (int (length body)) @ CRLF @ CRLF @ body"

context buffered_writer
begin

lemma emits_header_line: "emits (httpWriteHeader wr key v) (header_line key v)"
  unfolding httpWriteHeader_def header_line_def
  by (intro emits_bind emits_header_key emits_string)

lemma emits_header_line_bytes: "emits (httpWriteHeaderBts wr key v) (header_line key v)"
  unfolding httpWriteHeaderBts_def header_line_def
  by (intro emits_bind emits_header_key emits_string emits_bytes)

lemma emits_status: "emits (writeStatusText wr c) (status_text c)"
  unfolding writeStatusText_def status_text_def
  by (intro emits_bind emits_string emits_byte)

lemma emits_error: "emits (writeErrorText wr ext e) (error_tail (error_text ext e))"
  unfolding writeErrorText_def error_tail_def Let_def
  by (intro emits_bind emits_string)

end

text \<open>The texts prepared at load time are the ones that would be written.\<close>

lemma buffered_text_emits:
  assumes "buffer_bw.emits f p"
  shows "buffered_text f = p"
proof -
  have i: "buffer_bw.bw_inv (NewBufWriter [] 4096)" "bw_err (NewBufWriter [] 4096) = None"
    "buffer_bw.bw_out (NewBufWriter [] 4096) = []"
    by (simp_all add: buffer_bw.bw_inv_def buffer_bw.bw_out_def NewBufWriter_def)
  from buffer_bw.emits_flush [OF assms i(1,2)] i(3) show ?thesis by (auto simp: buffered_text_def)
qed

lemma statusText_eq: "statusText c = status_text c"
  unfolding statusText_def by (rule buffered_text_emits [OF buffer_bw.emits_status])

lemma errorText_eq: "errorText e = error_tail (error_text (\<lambda>_. []) e)"
  unfolding errorText_def by (rule buffered_text_emits [OF buffer_bw.emits_error])

lemmas prepared_texts = textHeadBadRequest_def textHeadInternalServerError_def textHeadUpgradeRequired_def
  textTailErrHandshakeBadProtocol_def textTailErrHandshakeBadMethod_def textTailErrHandshakeBadHost_def
  textTailErrHandshakeBadUpgrade_def textTailErrHandshakeBadConnection_def
  textTailErrHandshakeBadSecAccept_def textTailErrHandshakeBadSecKey_def
  textTailErrHandshakeBadSecVersion_def textTailErrUpgradeRequired_def

text \<open>A rejection has a text of its own, so that the texts of other errors do not matter.\<close>

lemma error_text_rejected: "error_text ext (ConnectionRejected a r) = reject_reason r"
  by (simp add: error_text_def ConnectionRejectedError_Error_def)

lemma error_text_prepared:
  "error_text ext ErrHandshakeBadProtocol = error_text ext' ErrHandshakeBadProtocol"
  "error_text ext ErrHandshakeBadMethod = error_text ext' ErrHandshakeBadMethod"
  "error_text ext ErrHandshakeBadHost = error_text ext' ErrHandshakeBadHost"
  "error_text ext ErrHandshakeBadUpgrade = error_text ext' ErrHandshakeBadUpgrade"
  "error_text ext ErrHandshakeBadConnection = error_text ext' ErrHandshakeBadConnection"
  "error_text ext ErrHandshakeBadSecAccept = error_text ext' ErrHandshakeBadSecAccept"
  "error_text ext ErrHandshakeBadSecKey = error_text ext' ErrHandshakeBadSecKey"
  "error_text ext ErrHandshakeBadSecVersion = error_text ext' ErrHandshakeBadSecVersion"
  "error_text ext ErrHandshakeUpgradeRequired = error_text ext' ErrHandshakeUpgradeRequired"
  by (simp_all add: reject_defs error_text_rejected)

section \<open>The error response\<close>

definition error_response :: "(err \<Rightarrow> byte list) \<Rightarrow> err option \<Rightarrow> int \<Rightarrow> byte list \<Rightarrow> byte list" where
  "error_response ext e c hdr =
     status_text c @ hdr @ (case e of None \<Rightarrow> CRLF | Some er \<Rightarrow> error_tail (error_text ext er))"

context buffered_writer
begin

lemma emits_optional_header:
  assumes "case hdr of None \<Rightarrow> p = [] | Some f \<Rightarrow> emits_header f p"
  shows "emits (\<lambda>bw. case hdr of None \<Rightarrow> Some bw | Some f \<Rightarrow> Option.bind (f bw) (\<lambda>(n, e, bw). Some bw)) p"
  using assms emits_Some emits_headerD by (cases hdr) auto

lemma emits_response_error:
  assumes "case hdr of None \<Rightarrow> p = [] | Some f \<Rightarrow> emits_header f p"
  shows "emits (httpWriteResponseError wr ext e c hdr) (error_response ext e c p)"
proof -
  have st: "emits (\<lambda>bw. if c = 400 then put_string wr textHeadBadRequest bw
      else if c = 500 then put_string wr textHeadInternalServerError bw
      else if c = 426 then put_string wr textHeadUpgradeRequired bw else writeStatusText wr c bw) (status_text c)"
    using emits_string [of "status_text c"] emits_status [of c]
    by (cases "c = 400"; cases "c = 500"; cases "c = 426") (simp_all add: prepared_texts statusText_eq)
  have tl: "emits (\<lambda>bw. put_string wr (errorText x) bw) (error_tail (error_text ext er))"
    if "er = x" "error_text ext x = error_text (\<lambda>_. []) x" for er x
    using emits_string [of "errorText x"] that by (simp add: errorText_eq)
  have er: "emits (\<lambda>bw. case e of
        None \<Rightarrow> put_string wr CRLF bw
      | Some er \<Rightarrow>
          if er = ErrHandshakeBadProtocol then put_string wr textTailErrHandshakeBadProtocol bw
          else if er = ErrHandshakeBadMethod then put_string wr textTailErrHandshakeBadMethod bw
          else if er = ErrHandshakeBadHost then put_string wr textTailErrHandshakeBadHost bw
          else if er = ErrHandshakeBadUpgrade then put_string wr textTailErrHandshakeBadUpgrade bw
          else if er = ErrHandshakeBadConnection then put_string wr textTailErrHandshakeBadConnection bw
          else if er = ErrHandshakeBadSecAccept then put_string wr textTailErrHandshakeBadSecAccept bw
          else if er = ErrHandshakeBadSecKey then put_string wr textTailErrHandshakeBadSecKey bw
          else if er = ErrHandshakeBadSecVersion then put_string wr textTailErrHandshakeBadSecVersion bw
          else if er = ErrHandshakeUpgradeRequired then put_string wr textTailErrUpgradeRequired bw
          else writeErrorText wr ext er bw)
     (case e of None \<Rightarrow> CRLF | Some er \<Rightarrow> error_tail (error_text ext er))"
  proof (cases e)
    case (Some er)
    show ?thesis
      unfolding Some prepared_texts option.case
      by (intro emits_ite tl error_text_prepared; (assumption | simp only: emits_error))
  qed (simp add: emits_string)
  show ?thesis
    unfolding httpWriteResponseError_def error_response_def
    by (intro emits_bind st emits_optional_header assms er)
qed

end

section \<open>Headers of the application\<close>

text \<open>The text of a header, when the function headers write the texts \<open>fntext\<close>.\<close>

fun header_text :: "(nat \<Rightarrow> byte list) \<Rightarrow> HandshakeHeader \<Rightarrow> byte list" where
  "header_text fntext (HandshakeHeaderString s) = s"
| "header_text fntext (HandshakeHeaderBytes b) = b"
| "header_text fntext (HandshakeHeaderFunc f) = fntext f"
| "header_text fntext (HandshakeHeaderHTTP h) = concat (header_strings h)"

context buffered_writer
begin

lemma puts_errored: "bw_err b \<noteq> None \<Longrightarrow> bw_inv b \<Longrightarrow> puts b p b"
  by (simp add: puts_def bw_calm_def)

lemma write_strings_puts:
  "bw_inv (writer_w w) \<Longrightarrow> \<exists>e w'. write_strings wr ss w = Some (e, w') \<and>
     puts (writer_w w) (concat ss) (writer_w w') \<and> (e \<noteq> None \<longrightarrow> bw_err (writer_w w') \<noteq> None)"
proof (induction ss arbitrary: w)
  case Nil
  then show ?case by (simp add: puts_refl)
next
  case (Cons s ss)
  obtain n b where b: "bw_WriteString wr s (writer_w w) = Some (n, bw_err b, b)" "puts (writer_w w) s b"
    by (rule WriteString_putsE [OF Cons.prems(1)])
  let ?w = "w\<lparr>writer_n := writer_n w + int n, writer_w := b\<rparr>"
  show ?case
  proof (cases "bw_err b")
    case None
    obtain e w' where "write_strings wr ss ?w = Some (e, w')" "puts b (concat ss) (writer_w w')"
        "e \<noteq> None \<longrightarrow> bw_err (writer_w w') \<noteq> None"
      using Cons.IH [of ?w] puts_inv [OF b(2)] by auto
    with b None puts_trans show ?thesis by (auto simp: writer_WriteString_def)
  next
    case (Some er)
    have "puts (writer_w w) (s @ concat ss) b"
      using puts_trans [OF b(2) puts_errored [OF _ puts_inv [OF b(2)]]] Some by simp
    with b Some show ?thesis by (intro exI [of _ "Some er"] exI [of _ ?w]) (simp add: writer_WriteString_def)
  qed
qed

text \<open>The functions of the application are assumed to write the texts that \<open>fntext\<close> says.\<close>

definition writes_texts :: "(nat \<Rightarrow> 'd header_func) \<Rightarrow> (nat \<Rightarrow> byte list) \<Rightarrow> bool" where
  "writes_texts fn fntext \<longleftrightarrow> (\<forall>i. emits_header (fn i) (fntext i))"

lemma emits_header_WriteTo:
  assumes "writes_texts fn fntext"
  shows "emits_header (header_WriteTo wr fn h) (header_text fntext h)"
proof (cases h)
  case (HandshakeHeaderString s)
  show ?thesis
    unfolding emits_header_def HandshakeHeaderString
  proof (intro allI impI)
    fix b assume "bw_inv b"
    then obtain n b' where "bw_WriteString wr s b = Some (n, bw_err b', b')" "puts b s b'"
      by (rule WriteString_putsE)
    then show "\<exists>n e b'. header_WriteTo wr fn (HandshakeHeaderString s) b = Some (n, e, b') \<and>
        puts b (header_text fntext (HandshakeHeaderString s)) b' \<and> (e \<noteq> None \<longrightarrow> bw_err b' \<noteq> None)" by simp
  qed
next
  case (HandshakeHeaderBytes s)
  show ?thesis
    unfolding emits_header_def HandshakeHeaderBytes
  proof (intro allI impI)
    fix b assume "bw_inv b"
    then obtain n b' where "bw_Write wr s b = Some (n, bw_err b', b')" "puts b s b'"
      by (rule Write_putsE)
    then show "\<exists>n e b'. header_WriteTo wr fn (HandshakeHeaderBytes s) b = Some (n, e, b') \<and>
        puts b (header_text fntext (HandshakeHeaderBytes s)) b' \<and> (e \<noteq> None \<longrightarrow> bw_err b' \<noteq> None)" by simp
  qed
next
  case (HandshakeHeaderFunc f)
  with assms show ?thesis by (simp add: writes_texts_def emits_header_def)
next
  case (HandshakeHeaderHTTP m)
  show ?thesis
    unfolding emits_header_def HandshakeHeaderHTTP
  proof (intro allI impI)
    fix b assume b: "bw_inv b"
    obtain e w' where "write_strings wr (header_strings m) \<lparr>writer_n = 0, writer_w = b\<rparr> = Some (e, w')"
        "puts b (concat (header_strings m)) (writer_w w')" "e \<noteq> None \<longrightarrow> bw_err (writer_w w') \<noteq> None"
      using write_strings_puts [of "\<lparr>writer_n = 0, writer_w = b\<rparr>" "header_strings m"] b by auto
    then show "\<exists>n e b'. header_WriteTo wr fn (HandshakeHeaderHTTP m) b = Some (n, e, b') \<and>
        puts b (header_text fntext (HandshakeHeaderHTTP m)) b' \<and> (e \<noteq> None \<longrightarrow> bw_err b' \<noteq> None)" by simp
  qed
qed

section \<open>Requests and responses\<close>

lemma emits_protocols:
  "emits (put_protocols wr i ps)
     (concat (map (\<lambda>(j, p). (if 0 < j then commaAndSpace else []) @ p) (zip [i..<i + length ps] ps)))"
proof (induction ps arbitrary: i)
  case Nil
  have "put_protocols wr i [] = Some" by (rule ext) simp
  then show ?case by (simp add: emits_Some)
next
  case (Cons p ps)
  have f: "put_protocols wr i (p # ps) =
      (\<lambda>bw. Option.bind (if 0 < i then put_string wr commaAndSpace bw else Some bw)
        (\<lambda>bw. Option.bind (put_string wr p bw) (put_protocols wr (i + 1) ps)))"
    by (rule ext) simp
  have z: "[i..<i + length (p # ps)] = i # [i + 1..<i + 1 + length ps]" by (subst upt_conv_Cons) simp_all
  have "emits (put_protocols wr i (p # ps)) ((if 0 < i then commaAndSpace else []) @ p @
      concat (map (\<lambda>(j, p). (if 0 < j then commaAndSpace else []) @ p) (zip [i + 1..<i + 1 + length ps] ps)))"
    unfolding f by (intro emits_bind emits_if emits_string emits_Some Cons)
  then show ?case by (simp only: z zip_Cons_Cons list.map concat.simps prod.case append_assoc)
qed

end

definition protocols_text :: "byte list list \<Rightarrow> byte list" where
  "protocols_text ps = concat (map (\<lambda>(j, p). (if 0 < j then commaAndSpace else []) @ p) (zip [0..<length ps] ps))"

text \<open>\<open>opts\<close> is the text of the extensions and \<open>hdr\<close> the text of the header of the application.\<close>

definition request_text :: "URL \<Rightarrow> byte list \<Rightarrow> byte list list \<Rightarrow> byte list option \<Rightarrow> byte list \<Rightarrow> byte list" where
  "request_text u nonce protocols opts hdr =
     str_bytes ''GET '' @ url_RequestURI u @ (str_bytes '' HTTP/1.1'' @ CRLF) @
     header_line headerHost (url_Host u) @
     header_line headerUpgrade specHeaderValueUpgrade @
     header_line headerConnection specHeaderValueConnection @
     header_line headerSecVersion specHeaderValueSecVersion @
     header_line headerSecKey nonce @
     (if protocols \<noteq> [] then header_line headerSecProtocol (protocols_text protocols) else []) @
     (case opts of None \<Rightarrow> [] | Some xs \<Rightarrow> header_line headerSecExtensions xs) @
     hdr @ CRLF"

definition response_text :: "byte list \<Rightarrow> byte list \<Rightarrow> byte list option \<Rightarrow> byte list \<Rightarrow> byte list" where
  "response_text nonce protocol opts hdr =
     textHeadUpgrade @
     header_line headerSecAccept (accept_of nonce) @
     (if protocol \<noteq> [] then header_line headerSecProtocol protocol else []) @
     (case opts of None \<Rightarrow> [] | Some xs \<Rightarrow> header_line headerSecExtensions xs) @
     hdr @ CRLF"

context buffered_writer
begin

text \<open>What is assumed of \<open>httphead.WriteOptions\<close>: it writes the text of the options.\<close>

definition writes_options :: "('p, 'd) httphead \<Rightarrow> ('p HeadOption list \<Rightarrow> byte list) \<Rightarrow> bool" where
  "writes_options hh opttext \<longleftrightarrow> (\<forall>xs. emits (hh_WriteOptions hh xs) (opttext xs))"

abbreviation options_text :: "('p HeadOption list \<Rightarrow> byte list) \<Rightarrow> 'p HeadOption list \<Rightarrow> byte list option" where
  "options_text opttext xs \<equiv> (if xs = [] then None else Some (opttext xs))"

lemma emits_options:
  assumes "writes_options hh opttext"
  shows "emits (\<lambda>bw. if xs \<noteq> [] then Option.bind (httpWriteHeaderKey wr headerSecExtensions bw)
      (\<lambda>bw. Option.bind (hh_WriteOptions hh xs bw) (put_string wr CRLF)) else Some bw)
    (case options_text opttext xs of None \<Rightarrow> [] | Some xs \<Rightarrow> header_line headerSecExtensions xs)"
proof -
  have "emits (\<lambda>bw. Option.bind (httpWriteHeaderKey wr headerSecExtensions bw)
      (\<lambda>bw. Option.bind (hh_WriteOptions hh xs bw) (put_string wr CRLF))) (header_line headerSecExtensions (opttext xs))"
    unfolding header_line_def
    by (intro emits_bind emits_header_key emits_string) (use assms in \<open>simp add: writes_options_def\<close>)
  then show ?thesis by (cases xs) (simp_all add: emits_Some)
qed

lemma emits_request:
  assumes "writes_options hh opttext" and "case hdr of None \<Rightarrow> p = [] | Some f \<Rightarrow> emits_header f p"
  shows "emits (httpWriteUpgradeRequest wr hh u nonce protocols exts hdr)
    (request_text u nonce protocols (options_text opttext exts) p)"
proof -
  have ps: "emits (\<lambda>bw. if protocols \<noteq> [] then Option.bind (httpWriteHeaderKey wr headerSecProtocol bw)
      (\<lambda>bw. Option.bind (put_protocols wr 0 protocols bw) (put_string wr CRLF)) else Some bw)
    (if protocols \<noteq> [] then header_line headerSecProtocol (protocols_text protocols) else [])"
    unfolding header_line_def protocols_text_def
    by (intro emits_if emits_bind emits_header_key emits_string emits_Some)
      (use emits_protocols [of 0 protocols] in simp)
  show ?thesis
    unfolding httpWriteUpgradeRequest_def request_text_def btsToString_def
    by (intro emits_bind emits_string emits_header_line emits_header_line_bytes ps emits_options emits_optional_header assms)
qed

lemma emits_accept:
  assumes "length nonce = nonceSize" and "emits g q"
  shows "emits (\<lambda>b. Option.bind (writeAccept wr b nonce) (\<lambda>(n, e, b). g b)) (accept_of nonce @ q)"
proof -
  have "emits_header (\<lambda>b. Option.bind (writeAccept wr b nonce) (\<lambda>(n, e, b). Some (int n, e, b))) (accept_of nonce)"
    unfolding emits_header_def
  proof (intro allI impI)
    fix b assume "bw_inv b"
    then obtain n b' where "bw_WriteString wr (accept_of nonce) b = Some (n, bw_err b', b')" "puts b (accept_of nonce) b'"
      by (rule WriteString_putsE)
    with initAccept_eq [OF _ assms(1), of "replicate acceptSize 0"]
    show "\<exists>n e b'. Option.bind (writeAccept wr b nonce) (\<lambda>(n, e, b). Some (int n, e, b)) = Some (n, e, b') \<and>
        puts b (accept_of nonce) b' \<and> (e \<noteq> None \<longrightarrow> bw_err b' \<noteq> None)"
      by (simp add: writeAccept_def btsToString_def)
  qed
  from emits_header_bind [OF this assms(2)] show ?thesis by (simp add: split_def)
qed

lemma emits_response:
  assumes "writes_options hh opttext" and "case hdr of None \<Rightarrow> p = [] | Some f \<Rightarrow> emits_header f p"
    and "length nonce = nonceSize"
  shows "emits (httpWriteResponseUpgrade wr hh nonce hs hdr)
    (response_text nonce (Protocol hs) (options_text opttext (Extensions hs)) p)"
  unfolding httpWriteResponseUpgrade_def response_text_def header_line_def [of headerSecAccept] append_assoc
  by (intro emits_bind [of _ "headerSecAccept @ colonAndSpace", simplified append_assoc]
      emits_bind emits_string emits_header_key emits_accept emits_if emits_header_line emits_Some
      emits_options emits_optional_header assms)

end

end
