(* ===== verification/ServerHandshake.thy ===== *)
theory ServerHandshake
  imports HttpText Upgrader
begin

text \<open>
  What the server side of the handshake guarantees. The loop over the header lines is related
  to a function on the lines themselves; from that: a request is accepted only with all the
  headers that RFC 6455 requires; what the peer has sent decides whether there is an answer and which: none
  when the stream ends early or its first line is no request line, else the response that belongs to the outcome; and
  \<open>Upgrade\<close> returns on every connection.
\<close>

section \<open>The header lines of a request\<close>

text \<open>The loop of \<open>Upgrade\<close> as a function of the lines.\<close>

fun scan_request :: "('p, 'd) httphead \<Rightarrow> 'p Upgrader \<Rightarrow> byte list list \<Rightarrow> 'p request \<Rightarrow> 'p request" where
  "scan_request hh u [] r = r"
| "scan_request hh u (l # ls) r =
     (if rq_err r \<noteq> None then r
      else (let (k, v, ok) = httpParseHeaderLine l
            in if \<not> ok then r\<lparr>rq_err := Some ErrMalformedRequest\<rparr>
               else scan_request hh u ls (upgrade_header hh u k v r)))"

lemma scan_request_error: "rq_err r \<noteq> None \<Longrightarrow> scan_request hh u ls r = r"
  by (cases ls) auto

text \<open>The bit a header sets, and what its value must be.\<close>

definition seen_bit :: "byte list \<Rightarrow> byte" where
  "seen_bit k =
     (if k = headerHostCanonical then headerSeenHost
      else if k = headerUpgradeCanonical then headerSeenUpgrade
      else if k = headerConnectionCanonical then headerSeenConnection
      else if k = headerSecVersionCanonical then headerSeenSecVersion
      else if k = headerSecKeyCanonical then headerSeenSecKey
      else 0)"

definition header_fine :: "scan_tokens \<Rightarrow> byte list \<Rightarrow> byte list \<Rightarrow> bool" where
  "header_fine tokens k v \<longleftrightarrow>
     (if k = headerUpgradeCanonical then v = specHeaderValueUpgrade \<or> EqualFold v specHeaderValueUpgrade
      else if k = headerConnectionCanonical then
        v = specHeaderValueConnection \<or> btsHasToken tokens v specHeaderValueConnectionLower
      else if k = headerSecVersionCanonical then v = specHeaderValueSecVersion
      else if k = headerSecKeyCanonical then length v = nonceSize
      else True)"

lemma canonical_distinct:
  "distinct [headerHostCanonical, headerUpgradeCanonical, headerConnectionCanonical, headerSecVersionCanonical,
     headerSecKeyCanonical, headerSecProtocolCanonical, headerSecExtensionsCanonical]"
  "distinct [headerSecExtensionsCanonical, headerSecProtocolCanonical, headerSecKeyCanonical,
     headerSecVersionCanonical, headerConnectionCanonical, headerUpgradeCanonical, headerHostCanonical]"
  by code_simp+

lemmas canonical_neq = canonical_distinct [unfolded distinct.simps list.set insert_iff empty_iff de_Morgan_disj simp_thms]

lemma header_cases:
  obtains "k = headerHostCanonical" | "k = headerUpgradeCanonical" | "k = headerConnectionCanonical"
    | "k = headerSecVersionCanonical" | "k = headerSecKeyCanonical"
    | "k \<noteq> headerHostCanonical" "k \<noteq> headerUpgradeCanonical" "k \<noteq> headerConnectionCanonical"
      "k \<noteq> headerSecVersionCanonical" "k \<noteq> headerSecKeyCanonical"
  by blast

lemma select_protocol_other [simp]:
  "rq_seen (select_protocol hh u v r) = rq_seen r" "rq_nonce (select_protocol hh u v r) = rq_nonce r"
  by (simp_all add: select_protocol_def Let_def split: prod.split option.split)

lemma select_extensions_other [simp]:
  "rq_seen (select_extensions hh u v r) = rq_seen r" "rq_nonce (select_extensions hh u v r) = rq_nonce r"
  by (simp_all add: select_extensions_def Let_def split: prod.split option.split)

lemma upgrade_header_seen: "rq_seen (upgrade_header hh u k v r) = rq_seen r OR seen_bit k"
  by (rule header_cases [of k]; simp add: upgrade_header_def seen_bit_def Let_def canonical_neq split: option.split)

lemma upgrade_header_nonce:
  "rq_nonce (upgrade_header hh u k v r) =
     (if k = headerSecKeyCanonical \<and> length v = nonceSize then put_at 0 v (rq_nonce r) else rq_nonce r)"
  by (rule header_cases [of k]; simp add: upgrade_header_def Let_def canonical_neq split: option.split)

lemma upgrade_header_fine:
  assumes e: "rq_err (upgrade_header hh u k v r) = None"
  shows "header_fine (hh_ScanTokens hh) k v"
proof -
  show ?thesis
    by (rule header_cases [of k];
        use e in \<open>simp add: upgrade_header_def header_fine_def canonical_neq Let_def split: if_splits\<close>)
qed

section \<open>Accepted requests\<close>

text \<open>The names and values of the header lines, and what an accepted request makes of them.\<close>

definition key_values :: "byte list list \<Rightarrow> (byte list \<times> byte list) list" where
  "key_values ls = map (\<lambda>l. let (k, v, ok) = httpParseHeaderLine l in (k, v)) ls"

definition seen_bits :: "(byte list \<times> byte list) list \<Rightarrow> byte \<Rightarrow> byte" where
  "seen_bits kvs s = fold (\<lambda>(k, v) s. s OR seen_bit k) kvs s"

definition last_key :: "(byte list \<times> byte list) list \<Rightarrow> byte list \<Rightarrow> byte list" where
  "last_key kvs n = fold (\<lambda>(k, v) n. if k = headerSecKeyCanonical \<and> length v = nonceSize then put_at 0 v n else n) kvs n"

lemma scan_request_fine:
  "rq_err (scan_request hh u ls r) = None \<Longrightarrow>
     (\<forall>l \<in> set ls. snd (snd (httpParseHeaderLine l))) \<and>
     (\<forall>(k, v) \<in> set (key_values ls). header_fine (hh_ScanTokens hh) k v) \<and>
     rq_seen (scan_request hh u ls r) = seen_bits (key_values ls) (rq_seen r) \<and>
     rq_nonce (scan_request hh u ls r) = last_key (key_values ls) (rq_nonce r)"
proof (induction ls arbitrary: r)
  case (Cons l ls)
  obtain k v ok where p: "httpParseHeaderLine l = (k, v, ok)" by (cases "httpParseHeaderLine l")
  have e: "rq_err r = None" using Cons.prems by (cases "rq_err r") auto
  have ok: "ok" using Cons.prems p e by (cases ok) auto
  let ?r = "upgrade_header hh u k v r"
  have s: "scan_request hh u (l # ls) r = scan_request hh u ls ?r" using p ok e by simp
  have "rq_err ?r = None" using Cons.prems scan_request_error [of ?r hh u ls] unfolding s by (cases "rq_err ?r") auto
  then have f: "header_fine (hh_ScanTokens hh) k v" by (rule upgrade_header_fine)
  have kv: "key_values (l # ls) = (k, v) # key_values ls" using p by (simp add: key_values_def)
  show ?case
    using Cons.IH [of ?r] Cons.prems f p ok unfolding s kv
    by (simp add: seen_bits_def last_key_def upgrade_header_seen upgrade_header_nonce)
qed (simp add: key_values_def seen_bits_def last_key_def)

lemma bit_seen_bits: "bit (seen_bits kvs s) n \<longleftrightarrow> bit s n \<or> (\<exists>(k, v) \<in> set kvs. bit (seen_bit k) n)"
  by (induction kvs arbitrary: s) (auto simp: seen_bits_def bit_or_iff split: prod.splits)

lemma length_last_key: "length (last_key kvs n) = length n"
  by (induction kvs arbitrary: n) (auto simp: last_key_def split: prod.splits)

lemma last_key_cases:
  "length n = nonceSize \<Longrightarrow> last_key kvs n \<noteq> n \<or> (\<exists>v. (headerSecKeyCanonical, v) \<in> set kvs \<and> length v = nonceSize) \<Longrightarrow>
     (headerSecKeyCanonical, last_key kvs n) \<in> set kvs"
proof (induction kvs arbitrary: n)
  case (Cons kv kvs)
  obtain k v where kv: "kv = (k, v)" by (cases kv)
  show ?case
  proof (cases "k = headerSecKeyCanonical \<and> length v = nonceSize")
    case True
    then have "last_key (kv # kvs) n = last_key kvs v"
      using kv Cons.prems(1) by (simp add: last_key_def put_at_all)
    with Cons.IH [of v] True kv show ?thesis by (cases "last_key kvs v = v") auto
  next
    case False
    then have "last_key (kv # kvs) n = last_key kvs n" using kv by (auto simp: last_key_def)
    with Cons kv False show ?thesis by auto
  qed
qed (simp add: last_key_def)

lemma seen_values [simp]:
  "bit headerSeenHost n = (n = 0)" "bit headerSeenUpgrade n = (n = 1)" "bit headerSeenConnection n = (n = 2)"
  "bit headerSeenSecVersion n = (n = 3)" "bit headerSeenSecKey n = (n = 4)"
proof -
  have p: "headerSeenHost = 2 ^ 0" "headerSeenUpgrade = 2 ^ 1" "headerSeenConnection = 2 ^ 2" "headerSeenSecVersion = 2 ^ 3"
    "headerSeenSecKey = 2 ^ 4"
    by (simp_all add: headerSeenHost_def headerSeenUpgrade_def headerSeenConnection_def headerSeenSecVersion_def headerSeenSecKey_def)
  have b: "bit (2 ^ m :: byte) n \<longleftrightarrow> n = m" if "m < 8" for m using that by (auto simp: bit_exp_iff)
  show "bit headerSeenHost n = (n = 0)" "bit headerSeenUpgrade n = (n = 1)" "bit headerSeenConnection n = (n = 2)"
    "bit headerSeenSecVersion n = (n = 3)" "bit headerSeenSecKey n = (n = 4)"
    unfolding p by (rule b; simp)+
qed

lemma bit_seenAll: "bit headerSeenAll n \<longleftrightarrow> n < 5"
  by (auto simp: headerSeenAll_def bit_or_iff)

lemma bit_seen_bit: "bit (seen_bit k) n \<longleftrightarrow>
   (k = headerHostCanonical \<and> n = 0) \<or> (k = headerUpgradeCanonical \<and> n = 1) \<or> (k = headerConnectionCanonical \<and> n = 2) \<or>
   (k = headerSecVersionCanonical \<and> n = 3) \<or> (k = headerSecKeyCanonical \<and> n = 4)"
  by (rule header_cases [of k]; simp add: seen_bit_def canonical_neq)

lemma missing_header_some:
  assumes "\<And>n. bit s n \<Longrightarrow> n < 5"
  shows "missing_header s = None \<longleftrightarrow> s = headerSeenAll"
proof -
  have z: "s AND c = 0 \<longleftrightarrow> \<not> bit s i" if "\<And>n :: nat. bit c n = (n = i)" for c i
    using that assms [of i] by (auto simp: bit_eq_iff [of "s AND c" 0] bit_and_iff dest!: spec [of _ i])
  have "missing_header s = None \<longleftrightarrow> bit s 0 \<and> bit s 1 \<and> bit s 2 \<and> bit s 3 \<and> bit s 4"
    by (simp add: missing_header_def z [of headerSeenHost 0] z [of headerSeenUpgrade 1] z [of headerSeenConnection 2]
        z [of headerSeenSecVersion 3] z [of headerSeenSecKey 4])
  also have "\<dots> \<longleftrightarrow> (\<forall>n. bit s n \<longleftrightarrow> n < 5)"
    using assms by (auto simp: less_Suc_eq numeral_eq_Suc)
  also have "\<dots> \<longleftrightarrow> s = headerSeenAll" using assms by (auto simp: bit_eq_iff [of s headerSeenAll] bit_seenAll)
  finally show ?thesis .
qed

section \<open>Valid requests\<close>

text \<open>
  A request as RFC 6455 wants it: \<open>GET\<close>, HTTP of version 1.1 or a later 1.x, and among the
  header lines every required one, all of which have the required values.
\<close>

definition has_key :: "byte list list \<Rightarrow> byte list \<Rightarrow> bool" where
  "has_key ls k \<longleftrightarrow> list_ex (\<lambda>l. fst (httpParseHeaderLine l) = k) ls"

definition valid_request :: "scan_tokens \<Rightarrow> byte list \<Rightarrow> byte list list \<Rightarrow> bool" where
  "valid_request tokens line ls \<longleftrightarrow>
     (let (req, e) = httpParseRequestLine line
      in e = None \<and> req_method req = str_bytes ''GET'' \<and> req_major req = 1 \<and> 1 \<le> sint (req_minor req)) \<and>
     list_all (\<lambda>l. let (k, v, ok) = httpParseHeaderLine l in ok \<and> header_fine tokens k v) ls \<and>
     has_key ls headerHostCanonical \<and> has_key ls headerUpgradeCanonical \<and> has_key ls headerConnectionCanonical \<and>
     has_key ls headerSecVersionCanonical \<and> has_key ls headerSecKeyCanonical"

text \<open>The value of the key header that counts, the last one.\<close>

definition request_key :: "byte list list \<Rightarrow> byte list" where
  "request_key ls = last_key (key_values ls) (replicate nonceSize 0)"

lemma scan_request_None: "rq_err (scan_request hh u ls r) = None \<Longrightarrow> rq_err r = None"
  by (cases "rq_err r") (simp_all add: scan_request_error)

lemma has_key_values: "has_key ls k \<longleftrightarrow> (\<exists>v. (k, v) \<in> set (key_values ls))"
  by (auto simp: has_key_def key_values_def list_ex_iff split_def image_iff Let_def)

text \<open>A request that passes the checks is valid, and its key is the nonce.\<close>

definition new_request :: "err option \<Rightarrow> 'p request" where
  "new_request e = \<lparr>rq_hs = \<lparr>Protocol = [], Extensions = []\<rparr>, rq_seen = 0, rq_nonce = replicate nonceSize 0, rq_err = e\<rparr>"

lemma request_error_None:
  "request_error u req = None \<Longrightarrow>
     req_major req = 1 \<and> 1 \<le> sint (req_minor req) \<and> req_method req = str_bytes ''GET''"
  by (auto simp: request_error_def btsToString_def split: if_splits)

lemma length_request_key: "length (request_key ls) = nonceSize"
  by (simp add: request_key_def length_last_key)

lemma seen_bits_small: "bit (seen_bits kvs 0) n \<Longrightarrow> n < 5"
  by (auto simp: bit_seen_bits bit_seen_bit)

lemma accepted_valid:
  fixes u :: "'p Upgrader"
  assumes p: "httpParseRequestLine line = (req, None)"
    and e: "rq_err (scan_request hh u ls (new_request (request_error u req))) = None"
    and s: "rq_seen (scan_request hh u ls (new_request (request_error u req))) = headerSeenAll"
  shows "valid_request (hh_ScanTokens hh) line ls" and
    "rq_nonce (scan_request hh u ls (new_request (request_error u req))) = request_key ls"
proof -
  let ?r = "new_request (request_error u req) :: 'p request"
  note f = scan_request_fine [OF e]
  have r: "rq_err ?r = None" by (rule scan_request_None [OF e])
  have "\<forall>n<5. bit (seen_bits (key_values ls) 0) n" using f s by (simp add: bit_seenAll [symmetric] new_request_def)
  then have b: "\<exists>(k, v) \<in> set (key_values ls). bit (seen_bit k) n" if "n < 5" for n
    using that by (auto simp: bit_seen_bits)
  have "has_key ls headerHostCanonical" "has_key ls headerUpgradeCanonical" "has_key ls headerConnectionCanonical"
      "has_key ls headerSecVersionCanonical" "has_key ls headerSecKeyCanonical"
    using b [of 0] b [of 1] b [of 2] b [of 3] b [of 4] by (auto simp: has_key_values bit_seen_bit)
  moreover have "list_all (\<lambda>l. let (k, v, ok) = httpParseHeaderLine l in ok \<and> header_fine (hh_ScanTokens hh) k v) ls"
    using f by (auto simp: list_all_iff key_values_def split_def Let_def)
  moreover have "req_major req = 1" "1 \<le> sint (req_minor req)" "req_method req = str_bytes ''GET''"
    using request_error_None [of u req] r by (simp_all add: new_request_def)
  ultimately show "valid_request (hh_ScanTokens hh) line ls" using p by (simp add: valid_request_def)
  show "rq_nonce (scan_request hh u ls ?r) = request_key ls"
    using f by (simp add: request_key_def new_request_def)
qed

text \<open>The panic of the last switch is never reached.\<close>

lemma missing_reported:
  assumes "rq_err (scan_request hh u ls (new_request e)) = None"
    and "rq_seen (scan_request hh u ls (new_request e)) \<noteq> headerSeenAll"
  shows "missing_header (rq_seen (scan_request hh u ls (new_request e))) \<noteq> None"
  using scan_request_fine [OF assms(1)] assms(2)
    missing_header_some [of "seen_bits (key_values ls) 0", OF seen_bits_small]
  by (auto simp: new_request_def)

section \<open>The loop on a stream\<close>

text \<open>The lines at the front of a stream, with their line ends.\<close>

definition lines_of :: "byte list list \<Rightarrow> byte list" where
  "lines_of raws = concat (map (\<lambda>l. l @ [10]) raws)"

text \<open>
  The complete lines of a stream, without their line ends, and what the lines after the request
  line come to: the request at the first error or at the empty line, or nothing when the lines run out
  before.
\<close>

function stream_lines :: "byte list \<Rightarrow> byte list list" where
  "stream_lines bs =
     (if 10 \<in> set bs then strip_cr (takeWhile (\<lambda>b. b \<noteq> 10) bs) # stream_lines (tl (dropWhile (\<lambda>b. b \<noteq> 10) bs)) else [])"
  by auto

termination
proof (relation "measure length")
  fix bs :: "byte list"
  assume "10 \<in> set bs"
  then have "dropWhile (\<lambda>b. b \<noteq> 10) bs \<noteq> []" by (simp add: dropWhile_eq_Nil_conv)
  then show "(tl (dropWhile (\<lambda>b. b \<noteq> 10) bs), bs) \<in> measure length"
    using length_dropWhile_le [of "\<lambda>b. b \<noteq> 10" bs] by (cases "dropWhile (\<lambda>b. b \<noteq> 10) bs") auto
qed simp

declare stream_lines.simps [simp del]

lemma stream_lines_end: "10 \<notin> set bs \<Longrightarrow> stream_lines bs = []"
  by (simp add: stream_lines.simps)

lemma stream_lines_line:
  assumes "10 \<notin> set l"
  shows "stream_lines (l @ 10 # bs) = strip_cr l # stream_lines bs"
proof -
  have "takeWhile (\<lambda>b. b \<noteq> 10) (l @ 10 # bs) = l" "dropWhile (\<lambda>b. b \<noteq> 10) (l @ 10 # bs) = 10 # bs"
    using assms by (induction l) simp_all
  then show ?thesis by (subst stream_lines.simps) simp
qed

fun scan_lines :: "('p, 'd) httphead \<Rightarrow> 'p Upgrader \<Rightarrow> byte list list \<Rightarrow> 'p request \<Rightarrow> 'p request option" where
  "scan_lines hh u [] r = (if rq_err r \<noteq> None then Some r else None)"
| "scan_lines hh u (l # ls) r =
     (if rq_err r \<noteq> None \<or> l = [] then Some r
      else (let (k, v, ok) = httpParseHeaderLine l
            in if \<not> ok then Some (r\<lparr>rq_err := Some ErrMalformedRequest\<rparr>)
               else scan_lines hh u ls (upgrade_header hh u k v r)))"

context lively_stream
begin

lemma readLine_returns:
  assumes "br_inv b" "br_end b \<noteq> ErrBufferFull"
  obtains (Line) l b' where "readLine rd b = Some (strip_cr l, None, b')" "br_inv b'" "10 \<notin> set l"
      "br_data b = l @ 10 # br_data b'" "br_end b' = br_end b"
    | (End) b' where "readLine rd b = Some (br_data b, Some (br_end b), b')" "br_inv b'" "10 \<notin> set (br_data b)"
proof (cases "10 \<in> set (br_data b)")
  case True
  then obtain l rest where "br_data b = l @ 10 # rest" "10 \<notin> set l" by (meson split_list_first)
  with Line readLine_line [OF assms] show thesis by metis
next
  case False
  with End readLine_end [OF assms] show thesis by metis
qed

lemma upgrade_loop_scans:
  "br_inv b \<Longrightarrow> br_end b \<noteq> ErrBufferFull \<Longrightarrow>
     \<exists>e b' r'. upgrade_loop rd hh u b r = Some (e, b', r') \<and>
       (case scan_lines hh u (stream_lines (br_data b)) r of
          None \<Rightarrow> e = Some (br_end b)
        | Some r2 \<Rightarrow> e = None \<and> r' = r2)"
proof (induction "length (br_data b)" arbitrary: b r rule: less_induct)
  case less
  show ?case
  proof (cases "rq_err r")
    case (Some er)
    then have "scan_lines hh u ls r = Some r" for ls by (cases ls) simp_all
    with Some show ?thesis by (subst upgrade_loop.simps) simp
  next
    case None
    from less.prems show ?thesis
    proof (cases rule: readLine_returns)
      case (End b')
      with None show ?thesis by (subst upgrade_loop.simps) (simp add: stream_lines_end)
    next
      case (Line l b')
      obtain k v ok where p: "httpParseHeaderLine (strip_cr l) = (k, v, ok)" by (cases "httpParseHeaderLine (strip_cr l)")
      have "length (br_data b') < length (br_data b)" "br_end b' \<noteq> ErrBufferFull" using Line less.prems(2) by simp_all
      note ih = less.hyps [OF this(1) Line(2) this(2), of "upgrade_header hh u k v r", unfolded Line(5)]
      show ?thesis
        using None Line(1,3,4,5) p ih
        by (subst upgrade_loop.simps) (auto simp: stream_lines_line btsToString_def)
    qed
  qed
qed

text \<open>
  The loop returns. When it stops for a request that can be answered, it has read the lines
  that \<open>scan_request\<close> is about; after a request that is still fine, also the empty line.
\<close>

lemma upgrade_loop_returns:
  "br_inv b \<Longrightarrow> br_end b \<noteq> ErrBufferFull \<Longrightarrow>
     \<exists>e b' r' raws. upgrade_loop rd hh u b r = Some (e, b', r') \<and> br_inv b' \<and>
       r' = scan_request hh u (map strip_cr raws) r \<and> (\<exists>more. br_data b = lines_of raws @ more) \<and>
       (e = None \<and> rq_err r' = None \<longrightarrow> (\<exists>blank. strip_cr blank = [] \<and> 10 \<notin> set blank \<and>
          br_data b = lines_of raws @ blank @ 10 # br_data b')) \<and>
       (e \<noteq> None \<longrightarrow> e = Some (br_end b)) \<and> list_all (\<lambda>l. strip_cr l \<noteq> [] \<and> 10 \<notin> set l) raws"
proof (induction "length (br_data b)" arbitrary: b r rule: less_induct)
  case less
  show ?case
  proof (cases "rq_err r")
    case (Some er)
    then have "upgrade_loop rd hh u b r = Some (None, b, r)" by (subst upgrade_loop.simps) simp
    with Some less.prems(1) show ?thesis
      by (intro exI [of _ None] exI [of _ b] exI [of _ r] exI [of _ "[]"]) (simp add: lines_of_def)
  next
    case None
    from less.prems show ?thesis
    proof (cases rule: readLine_returns)
      case (End b')
      then have "upgrade_loop rd hh u b r = Some (Some (br_end b), b', r)" using None by (subst upgrade_loop.simps) simp
      with End show ?thesis
        by (intro exI [of _ "Some (br_end b)"] exI [of _ b'] exI [of _ r] exI [of _ "[]"]) (simp add: lines_of_def)
    next
      case (Line l b')
      obtain k v ok where p: "httpParseHeaderLine (strip_cr l) = (k, v, ok)" by (cases "httpParseHeaderLine (strip_cr l)")
      show ?thesis
      proof (cases "strip_cr l = []")
        case True
        then have "upgrade_loop rd hh u b r = Some (None, b', r)" using None Line(1) by (subst upgrade_loop.simps) simp
        with True Line show ?thesis
          by (intro exI [of _ None] exI [of _ b'] exI [of _ r] exI [of _ "[]"]) (auto simp: lines_of_def)
      next
        case False
        show ?thesis
        proof (cases ok)
          case False
          let ?r = "r\<lparr>rq_err := Some ErrMalformedRequest\<rparr>"
          have "upgrade_loop rd hh u b r = Some (None, b', ?r)"
            using None Line(1) p \<open>strip_cr l \<noteq> []\<close> False by (subst upgrade_loop.simps) simp
          with False Line p None \<open>strip_cr l \<noteq> []\<close> show ?thesis
            by (intro exI [of _ None] exI [of _ b'] exI [of _ ?r] exI [of _ "[l]"]) (simp add: lines_of_def)
        next
          case True
          let ?r = "upgrade_header hh u k v r"
          have st: "upgrade_loop rd hh u b r = upgrade_loop rd hh u b' ?r"
            using None Line(1) p \<open>strip_cr l \<noteq> []\<close> True by (subst upgrade_loop.simps) (simp add: btsToString_def)
          have "length (br_data b') < length (br_data b)" "br_end b' \<noteq> ErrBufferFull" using Line less.prems(2) by simp_all
          from less.hyps [OF this(1) Line(2) this(2), of ?r]
          obtain e b2 r2 raws where ih: "upgrade_loop rd hh u b' ?r = Some (e, b2, r2)" "br_inv b2"
            "r2 = scan_request hh u (map strip_cr raws) ?r" "\<exists>more. br_data b' = lines_of raws @ more"
            "e = None \<and> rq_err r2 = None \<longrightarrow> (\<exists>blank. strip_cr blank = [] \<and> 10 \<notin> set blank \<and>
               br_data b' = lines_of raws @ blank @ 10 # br_data b2)"
            "e \<noteq> None \<longrightarrow> e = Some (br_end b')" "list_all (\<lambda>l. strip_cr l \<noteq> [] \<and> 10 \<notin> set l) raws" by blast
          have d: "br_data b = lines_of (l # raws) @ x \<longleftrightarrow> br_data b' = lines_of raws @ x" for x
            using Line(4) by (simp add: lines_of_def)
          have s: "scan_request hh u (map strip_cr (l # raws)) r = r2" using ih(3) p True None by simp
          show ?thesis
            unfolding st ih(1) using ih(2-7) Line(3,5) \<open>strip_cr l \<noteq> []\<close>
            by (intro exI [of _ e] exI [of _ b2] exI [of _ r2] exI [of _ "l # raws"]) (simp only: d s list.pred_inject, simp)
        qed
      qed
    qed
  qed
qed

end

section \<open>The answer\<close>

definition optional_text :: "(nat \<Rightarrow> byte list) \<Rightarrow> HandshakeHeader option \<Rightarrow> byte list" where
  "optional_text fntext h = (case h of None \<Rightarrow> [] | Some h \<Rightarrow> header_text fntext h)"

definition headers_text :: "(nat \<Rightarrow> byte list) \<Rightarrow> handshakeHeader \<Rightarrow> byte list" where
  "headers_text fntext hs = optional_text fntext (fst hs) @ optional_text fntext (snd hs)"

text \<open>What is decided about a request: the error to reject it with, and the second header.\<close>

definition verdict :: "'p Upgrader \<Rightarrow> 'p request \<Rightarrow> err option \<times> HandshakeHeader option" where
  "verdict u r =
     (if rq_err r = None \<and> rq_seen r \<noteq> headerSeenAll then (missing_header (rq_seen r), None)
      else if rq_err r = None \<and> up_OnBeforeUpgrade u \<noteq> None then
        (snd (the (up_OnBeforeUpgrade u)), fst (the (up_OnBeforeUpgrade u)))
      else (rq_err r, None))"

definition answer_text ::
  "('p HeadOption list \<Rightarrow> byte list) \<Rightarrow> (nat \<Rightarrow> byte list) \<Rightarrow> (err \<Rightarrow> byte list) \<Rightarrow> 'p Upgrader \<Rightarrow> 'p request \<Rightarrow> byte list" where
  "answer_text opttext fntext ext u r =
     (case verdict u r of
        (None, h1) \<Rightarrow> response_text (rq_nonce r) (Protocol (rq_hs r))
          (if Extensions (rq_hs r) = [] then None else Some (opttext (Extensions (rq_hs r))))
          (headers_text fntext (up_Header u, h1))
      | (Some er, h1) \<Rightarrow> (let (c, h1) = rejection er h1
          in error_response ext (Some er) c (headers_text fntext (up_Header u, h1))))"

context buffered_writer
begin

lemma emits_header_loop:
  assumes t: "writes_texts fn fntext"
  shows "emits_header (handshakeHeader_loop wr fn hs n) (concat (map (optional_text fntext) hs))"
proof (induction hs arbitrary: n)
  case Nil
  have "handshakeHeader_loop wr fn [] n b = Some (n, None, b)" for b by simp
  then show ?case by (simp add: emits_header_def puts_refl)
next
  case (Cons h hs)
  show ?case
  proof (cases h)
    case None
    then show ?thesis using Cons [of n] by (simp add: emits_header_def optional_text_def)
  next
    case (Some hd)
    show ?thesis
      unfolding emits_header_def
    proof (intro allI impI)
      fix b assume "bw_inv b"
      then obtain m e b1 where b1: "header_WriteTo wr fn hd b = Some (m, e, b1)" "puts b (header_text fntext hd) b1"
          "e \<noteq> None \<longrightarrow> bw_err b1 \<noteq> None"
        using emits_header_WriteTo [OF t, of hd] by (auto simp: emits_header_def)
      let ?p = "concat (map (optional_text fntext) hs)"
      have o: "concat (map (optional_text fntext) (h # hs)) = header_text fntext hd @ ?p"
        by (simp add: Some optional_text_def)
      show "\<exists>n' e b'. handshakeHeader_loop wr fn (h # hs) n b = Some (n', e, b') \<and>
          puts b (concat (map (optional_text fntext) (h # hs))) b' \<and> (e \<noteq> None \<longrightarrow> bw_err b' \<noteq> None)"
      proof (cases e)
        case None
        obtain n2 e2 b2 where "handshakeHeader_loop wr fn hs (n + m) b1 = Some (n2, e2, b2)" "puts b1 ?p b2"
            "e2 \<noteq> None \<longrightarrow> bw_err b2 \<noteq> None"
          using Cons [of "n + m"] puts_inv [OF b1(2)] by (auto simp: emits_header_def)
        with b1 None puts_trans [OF b1(2)] show ?thesis unfolding o by (simp add: Some)
      next
        case er: (Some er)
        have "puts b (header_text fntext hd @ ?p) b1"
          using puts_trans [OF b1(2) puts_errored [OF _ puts_inv [OF b1(2)]]] b1(3) er by simp
        with b1 er show ?thesis unfolding o by (simp add: Some)
      qed
    qed
  qed
qed

lemma emits_headers:
  "writes_texts fn fntext \<Longrightarrow> emits_header (handshakeHeader_WriteTo wr fn hs) (headers_text fntext hs)"
  using emits_header_loop [of fn fntext "[fst hs, snd hs]" 0] by (simp add: handshakeHeader_WriteTo_def headers_text_def)

lemma finish_upgrade_answers:
  assumes o: "writes_options hh opttext" and t: "writes_texts fn fntext" and b: "bw_inv bw" "bw_err bw = None"
    and n: "length (rq_nonce r) = nonceSize"
    and m: "rq_err r = None \<Longrightarrow> rq_seen r \<noteq> headerSeenAll \<Longrightarrow> missing_header (rq_seen r) \<noteq> None"
  shows "\<exists>fe bw'. finish_upgrade wr hh fn ext u r bw =
      Some (rq_hs r, (case fst (verdict u r) of None \<Rightarrow> fe | Some er \<Rightarrow> Some er), bw') \<and>
    (\<exists>k. bw_out bw' = bw_out bw @ take k (answer_text opttext fntext ext u r)) \<and>
    (fe = None \<longrightarrow> out (bw_dst bw') = bw_out bw @ answer_text opttext fntext ext u r) \<and>
    (calm (bw_dst bw) \<longrightarrow> fe = None)"
proof -
  obtain e h1 where v: "verdict u r = (e, h1)" by (cases "verdict u r")
  have d: "(if rq_err r = None \<and> rq_seen r \<noteq> headerSeenAll then
          (case missing_header (rq_seen r) of None \<Rightarrow> None | Some er \<Rightarrow> Some (Some er, None))
        else if rq_err r = None \<and> up_OnBeforeUpgrade u \<noteq> None then
          (case the (up_OnBeforeUpgrade u) of (h, e) \<Rightarrow> Some (e, h))
        else Some (rq_err r, None)) = Some (e, h1)"
    using v m by (auto simp: verdict_def split: if_splits option.splits prod.splits)
  have h: "case Some (handshakeHeader_WriteTo wr fn hs) of None \<Rightarrow> headers_text fntext hs = [] | Some f \<Rightarrow> emits_header f (headers_text fntext hs)" for hs
    using emits_headers [OF t] by simp
  show ?thesis
  proof (cases e)
    case None
    have "emits (httpWriteResponseUpgrade wr hh (rq_nonce r) (rq_hs r) (Some (handshakeHeader_WriteTo wr fn (up_Header u, h1))))
        (answer_text opttext fntext ext u r)"
      using emits_response [OF o h n, of "rq_hs r" "(up_Header u, h1)"] v None by (simp add: answer_text_def)
    from emits_flush [OF this b] obtain b1 fe b2 where
      "httpWriteResponseUpgrade wr hh (rq_nonce r) (rq_hs r) (Some (handshakeHeader_WriteTo wr fn (up_Header u, h1))) bw = Some b1"
      "bw_Flush wr b1 = Some (fe, b2)" "\<exists>k. bw_out b2 = bw_out bw @ take k (answer_text opttext fntext ext u r)"
      "fe = None \<longrightarrow> out (bw_dst b2) = bw_out bw @ answer_text opttext fntext ext u r" "calm (bw_dst bw) \<longrightarrow> fe = None" by blast
    then show ?thesis
      unfolding finish_upgrade_def d using None v by simp
  next
    case (Some er)
    obtain c h2 where rj: "rejection er h1 = (c, h2)" by (cases "rejection er h1")
    have "emits (httpWriteResponseError wr ext (Some er) c (Some (handshakeHeader_WriteTo wr fn (up_Header u, h2))))
        (answer_text opttext fntext ext u r)"
      using emits_response_error [OF h, of ext "Some er" c "(up_Header u, h2)"] v Some rj by (simp add: answer_text_def)
    from emits_flush [OF this b] obtain b1 fe b2 where
      "httpWriteResponseError wr ext (Some er) c (Some (handshakeHeader_WriteTo wr fn (up_Header u, h2))) bw = Some b1"
      "bw_Flush wr b1 = Some (fe, b2)" "\<exists>k. bw_out b2 = bw_out bw @ take k (answer_text opttext fntext ext u r)"
      "fe = None \<longrightarrow> out (bw_dst b2) = bw_out bw @ answer_text opttext fntext ext u r" "calm (bw_dst bw) \<longrightarrow> fe = None" by blast
    then show ?thesis
      unfolding finish_upgrade_def d using Some v rj by (intro exI [of _ fe] exI [of _ b2]) simp
  qed
qed

end

section \<open>Upgrade over a connection\<close>

lemma scan_request_length: "length (rq_nonce (scan_request hh u ls r)) = length (rq_nonce r)"
proof (induction ls arbitrary: r)
  case (Cons l ls)
  then show ?case
    by (cases "httpParseHeaderLine l") (simp add: upgrade_header_nonce)
qed simp

lemma prefix_take: "(\<exists>k. xs @ ys = zs @ take k ws) \<Longrightarrow> \<exists>k. xs = take k (zs @ ws)"
proof -
  assume "\<exists>k. xs @ ys = zs @ take k ws"
  then obtain k where "xs @ ys = take (length zs + k) (zs @ ws)" by auto
  then have "xs = take (length xs) (take (length zs + k) (zs @ ws))" by (metis append_eq_conv_conj)
  then show ?thesis by (metis take_take)
qed

lemma request_line_error: "snd (httpParseRequestLine l) = None \<or> snd (httpParseRequestLine l) = Some ErrMalformedRequest"
  by (simp add: httpParseRequestLine_def Let_def split_def)

text \<open>What becomes of the request at the front of a stream.\<close>

datatype 'p request_fate = Unread | BadLine err | Decided "'p request"

definition request_fate :: "('p, 'd) httphead \<Rightarrow> 'p Upgrader \<Rightarrow> byte list \<Rightarrow> 'p request_fate" where
  "request_fate hh u bs =
     (case stream_lines bs of
        [] \<Rightarrow> Unread
      | l # ls \<Rightarrow>
          (case httpParseRequestLine l of
             (req, Some er) \<Rightarrow> BadLine er
           | (req, None) \<Rightarrow>
               (case scan_lines hh u ls (new_request (request_error u req)) of
                  None \<Rightarrow> Unread
                | Some r \<Rightarrow> Decided r)))"

lemma request_fate_bad: "request_fate hh u bs = BadLine er \<Longrightarrow> er = ErrMalformedRequest"
  using request_line_error by (auto simp: request_fate_def split: list.splits prod.splits option.splits) (metis option.inject option.simps(3) snd_conv)

locale handshaking = lively_stream rd inv fin data ending + buffered_writer wr winv out calm
  for rd :: "'s rd" and inv fin data ending and wr :: "'d wr" and winv out calm
begin

lemma reader_new:
  assumes "inv s" and "0 < sz"
  shows "br_inv (NewBufReader s sz)" "br_data (NewBufReader s sz) = data s"
    "br_end (NewBufReader s sz) = ending s"
  using assms by (simp_all add: br_inv_def br_data_def br_end_def NewBufReader_def)

lemma writer_new:
  assumes "winv d" and "0 < sz"
  shows "bw_inv (NewBufWriter d sz)" "bw_err (NewBufWriter d sz) = None"
    "bw_out (NewBufWriter d sz) = out d" "bw_dst (NewBufWriter d sz) = d"
  using assms by (simp_all add: bw_inv_def bw_out_def NewBufWriter_def)

text \<open>
  What is assumed of a handshake: reads bring bytes or an error, the
  error is not the one \<open>bufio\<close> uses itself, the pool gives buffers, and the parts that are
  written by other code write their texts.
\<close>

definition ready ::
  "'s \<Rightarrow> 'd \<Rightarrow> (int \<Rightarrow> nat) \<Rightarrow> ('p, 'd) httphead \<Rightarrow> ('p HeadOption list \<Rightarrow> byte list) \<Rightarrow>
     (nat \<Rightarrow> 'd header_func) \<Rightarrow> (nat \<Rightarrow> byte list) \<Rightarrow> bool" where
  "ready s d pool hh opttext fn fntext \<longleftrightarrow> inv s \<and> ending s \<noteq> ErrBufferFull \<and> winv d \<and> (\<forall>n. 0 < pool n) \<and>
     writes_options hh opttext \<and> writes_texts fn fntext"

text \<open>
  \<open>answers u r hs e d d'\<close>: the request in which \<open>r\<close> was found is answered: its text, or a
  part of it when the connection fails, is sent, and the caller gets the verdict.
\<close>

definition answers ::
  "('p HeadOption list \<Rightarrow> byte list) \<Rightarrow> (nat \<Rightarrow> byte list) \<Rightarrow> (err \<Rightarrow> byte list) \<Rightarrow> 'p Upgrader \<Rightarrow> 'p request \<Rightarrow>
     'p Handshake \<Rightarrow> err option \<Rightarrow> 'd \<Rightarrow> 'd \<Rightarrow> bool" where
  "answers opttext fntext ext u r hs e d d' \<longleftrightarrow> hs = rq_hs r \<and>
     (\<exists>fe. e = (case fst (verdict u r) of None \<Rightarrow> fe | Some er \<Rightarrow> Some er) \<and>
       (\<exists>k. out d' = take k (out d @ answer_text opttext fntext ext u r)) \<and>
       (fe = None \<longrightarrow> out d' = out d @ answer_text opttext fntext ext u r) \<and> (calm d \<longrightarrow> fe = None))"

lemma finish_answers:
  assumes env: "ready s d pool hh opttext fn fntext"
    and n: "length (rq_nonce r) = nonceSize"
    and m: "rq_err r = None \<Longrightarrow> rq_seen r \<noteq> headerSeenAll \<Longrightarrow> missing_header (rq_seen r) \<noteq> None"
  shows "\<exists>hs e bw'. finish_upgrade wr hh fn ext u r (NewBufWriter d (pool x)) = Some (hs, e, bw') \<and>
    answers opttext fntext ext u r hs e d (bw_dst bw')"
proof -
  have wi: "winv d" and sz: "0 < pool x" and o: "writes_options hh opttext" and t: "writes_texts fn fntext"
    using env by (simp_all add: ready_def)
  note w = writer_new [OF wi sz]
  obtain fe bw' where f: "finish_upgrade wr hh fn ext u r (NewBufWriter d (pool x)) =
      Some (rq_hs r, (case fst (verdict u r) of None \<Rightarrow> fe | Some er \<Rightarrow> Some er), bw')"
      "\<exists>k. bw_out bw' = out d @ take k (answer_text opttext fntext ext u r)"
      "fe = None \<longrightarrow> out (bw_dst bw') = out d @ answer_text opttext fntext ext u r" "calm d \<longrightarrow> fe = None"
    using finish_upgrade_answers [where u = u and ext = ext, OF o t w(1,2) n m] unfolding w(3,4) by blast
  have "\<exists>k. out (bw_dst bw') = take k (out d @ answer_text opttext fntext ext u r)"
    using f(2) by (intro prefix_take [where ys = "bw_buf bw'"]) (simp add: bw_out_def)
  with f show ?thesis unfolding answers_def by blast
qed

text \<open>Every outcome of \<open>Upgrade\<close>.\<close>

definition outcome ::
  "('p, 'd) httphead \<Rightarrow> ('p HeadOption list \<Rightarrow> byte list) \<Rightarrow> (nat \<Rightarrow> byte list) \<Rightarrow> (err \<Rightarrow> byte list) \<Rightarrow> 'p Upgrader \<Rightarrow>
     's \<Rightarrow> 'd \<Rightarrow> 'p Handshake \<Rightarrow> err option \<Rightarrow> 'd \<Rightarrow> bool" where
  "outcome hh opttext fntext ext u s d hs e d' \<longleftrightarrow>
     (d' = d \<and> (e = Some (ending s) \<or>
       (\<exists>raw more. data s = raw @ 10 # more \<and> 10 \<notin> set raw \<and> e = snd (httpParseRequestLine (strip_cr raw)) \<and> e \<noteq> None))) \<or>
     (\<exists>raw raws req more. data s = raw @ 10 # lines_of raws @ more \<and> 10 \<notin> set raw \<and>
       httpParseRequestLine (strip_cr raw) = (req, None) \<and> list_all (\<lambda>l. strip_cr l \<noteq> [] \<and> 10 \<notin> set l) raws \<and>
       (let r = scan_request hh u (map strip_cr raws) (new_request (request_error u req))
        in (rq_err r = None \<longrightarrow> (\<exists>blank rest. strip_cr blank = [] \<and> 10 \<notin> set blank \<and> more = blank @ 10 # rest)) \<and>
           answers opttext fntext ext u r hs e d d'))"

lemma Upgrade_outcome:
  assumes env: "ready s d pool hh opttext fn fntext"
  shows "\<exists>hs e s' d'. Upgrader_Upgrade rd wr hh fn ext pool u s d = Some (hs, e, s', d') \<and>
    outcome hh opttext fntext ext u s d hs e d'"
proof -
  have s: "inv s" "ending s \<noteq> ErrBufferFull" and sz: "0 < pool n" for n
    using env by (simp_all add: ready_def)
  let ?b = "NewBufReader s (pool (nonZero (up_ReadBufferSize u) DefaultServerReadBufferSize))"
    and ?w = "NewBufWriter d (pool (nonZero (up_WriteBufferSize u) DefaultServerWriteBufferSize))"
  note b = reader_new [OF s(1) sz, of "nonZero (up_ReadBufferSize u) DefaultServerReadBufferSize"]
  have be: "br_end ?b \<noteq> ErrBufferFull" using b(3) s(2) by simp
  from b(1) be show ?thesis
  proof (cases rule: readLine_returns)
    case (End b')
    then show ?thesis using b by (simp add: Upgrader_Upgrade_def Let_def outcome_def)
  next
    case (Line l b')
    have d0: "data s = l @ 10 # br_data b'" using Line(4) b(2) by simp
    obtain req pe where p: "httpParseRequestLine (strip_cr l) = (req, pe)" by (cases "httpParseRequestLine (strip_cr l)")
    show ?thesis
    proof (cases pe)
      case (Some er)
      have "Upgrader_Upgrade rd wr hh fn ext pool u s d = Some (\<lparr>Protocol = [], Extensions = []\<rparr>, Some er, br_src b', d)"
        using Line(1) p Some by (simp add: Upgrader_Upgrade_def Let_def)
      moreover have "outcome hh opttext fntext ext u s d \<lparr>Protocol = [], Extensions = []\<rparr> (Some er) d"
        unfolding outcome_def using d0 Line(3) p Some by (intro disjI1 conjI refl disjI2 exI [of _ l] exI [of _ "br_data b'"]) simp_all
      ultimately show ?thesis by blast
    next
      case None
      let ?rq = "new_request (request_error u req) :: 'a request"
      have be': "br_end b' \<noteq> ErrBufferFull" using Line(5) be by simp
      obtain e b2 r raws where lp: "upgrade_loop rd hh u b' ?rq = Some (e, b2, r)"
          "r = scan_request hh u (map strip_cr raws) ?rq" "\<exists>more. br_data b' = lines_of raws @ more"
          "e = None \<and> rq_err r = None \<longrightarrow> (\<exists>blank. strip_cr blank = [] \<and> 10 \<notin> set blank \<and>
             br_data b' = lines_of raws @ blank @ 10 # br_data b2)"
          "e \<noteq> None \<longrightarrow> e = Some (br_end b')" "list_all (\<lambda>l. strip_cr l \<noteq> [] \<and> 10 \<notin> set l) raws"
        using upgrade_loop_returns [OF Line(2) be', of hh u ?rq] by blast
      have up: "Upgrader_Upgrade rd wr hh fn ext pool u s d =
          (if e \<noteq> None then Some (rq_hs r, e, br_src b2, d)
           else Option.bind (finish_upgrade wr hh fn ext u r ?w) (\<lambda>(hs, e, bw). Some (hs, e, br_src b2, bw_dst bw)))"
        using Line(1) p None lp(1) by (simp add: Upgrader_Upgrade_def Let_def new_request_def)
      show ?thesis
      proof (cases e)
        case (Some er)
        then have "outcome hh opttext fntext ext u s d (rq_hs r) e d"
          using lp(5) Line(5) b(3) by (simp add: outcome_def)
        with Some up show ?thesis by simp
      next
        case e: None
        have n: "length (rq_nonce r) = nonceSize" by (simp add: lp(2) scan_request_length new_request_def)
        obtain hs e2 bw' where f: "finish_upgrade wr hh fn ext u r ?w = Some (hs, e2, bw')"
            "answers opttext fntext ext u r hs e2 d (bw_dst bw')"
          using finish_answers [where x = "nonZero (up_WriteBufferSize u) DefaultServerWriteBufferSize" and ext = ext and u = u
                and d = d, OF env n] missing_reported
          unfolding lp(2) by blast
        obtain more where m: "br_data b' = lines_of raws @ more" using lp(3) by blast
        have "rq_err r = None \<longrightarrow> (\<exists>blank rest. strip_cr blank = [] \<and> 10 \<notin> set blank \<and> more = blank @ 10 # rest)"
          using lp(4) e m by auto
        then have "outcome hh opttext fntext ext u s d hs e2 (bw_dst bw')"
          unfolding outcome_def Let_def
          using d0 m Line(3) p None lp(6) f(2)
          by (intro disjI2 exI [of _ l] exI [of _ raws] exI [of _ req] exI [of _ more]) (simp add: lp(2) [symmetric])
        with up e f(1) show ?thesis by simp
      qed
    qed
  qed
qed

lemma outcomeE:
  assumes "outcome hh opttext fntext ext u s d hs e d'"
  obtains (Silent) "d' = d" "e = Some (ending s) \<or> e = Some ErrMalformedRequest"
    | (Answered) raw raws req more where "data s = raw @ 10 # lines_of raws @ more"
      "httpParseRequestLine (strip_cr raw) = (req, None)"
      "rq_err (scan_request hh u (map strip_cr raws) (new_request (request_error u req))) = None \<Longrightarrow>
         \<exists>bl rest. strip_cr bl = [] \<and> more = bl @ 10 # rest"
      "answers opttext fntext ext u (scan_request hh u (map strip_cr raws) (new_request (request_error u req))) hs e d d'"
  using assms unfolding outcome_def Let_def
proof (elim disjE conjE exE)
  fix raw more
  assume "e = snd (httpParseRequestLine (strip_cr raw))" "e \<noteq> None" "d' = d"
  then show thesis using Silent request_line_error [of "strip_cr raw"] by auto
next
  fix raw raws req more
  assume "data s = raw @ 10 # lines_of raws @ more" "httpParseRequestLine (strip_cr raw) = (req, None)"
    "rq_err (scan_request hh u (map strip_cr raws) (new_request (request_error u req))) = None \<longrightarrow>
       (\<exists>blank rest. strip_cr blank = [] \<and> 10 \<notin> set blank \<and> more = blank @ 10 # rest)"
    "answers opttext fntext ext u (scan_request hh u (map strip_cr raws) (new_request (request_error u req))) hs e d d'"
  then show thesis by (intro Answered) blast+
qed (use Silent in simp)

text \<open>
  The same, decided by the stream alone: it ends before a decision, its first line is no request
  line, or the request comes to \<open>r\<close>.
\<close>

lemma Upgrade_decided:
  assumes env: "ready s d pool hh opttext fn fntext"
  shows "\<exists>hs e s' d'. Upgrader_Upgrade rd wr hh fn ext pool u s d = Some (hs, e, s', d') \<and>
    (case request_fate hh u (data s) of
       Unread \<Rightarrow> e = Some (ending s) \<and> d' = d
     | BadLine er \<Rightarrow> e = Some er \<and> d' = d
     | Decided r \<Rightarrow> answers opttext fntext ext u r hs e d d')"
proof -
  have s: "inv s" "ending s \<noteq> ErrBufferFull" and sz: "0 < pool n" for n
    using env by (simp_all add: ready_def)
  let ?b = "NewBufReader s (pool (nonZero (up_ReadBufferSize u) DefaultServerReadBufferSize))"
    and ?w = "NewBufWriter d (pool (nonZero (up_WriteBufferSize u) DefaultServerWriteBufferSize))"
  note b = reader_new [OF s(1) sz, of "nonZero (up_ReadBufferSize u) DefaultServerReadBufferSize"]
  have be: "br_end ?b \<noteq> ErrBufferFull" using b(3) s(2) by simp
  from b(1) be show ?thesis
  proof (cases rule: readLine_returns)
    case (End b')
    then show ?thesis using b by (simp add: Upgrader_Upgrade_def Let_def request_fate_def stream_lines_end)
  next
    case (Line l b')
    have d0: "stream_lines (data s) = strip_cr l # stream_lines (br_data b')"
      using Line(3,4) b(2) by (simp add: stream_lines_line)
    obtain req pe where p: "httpParseRequestLine (strip_cr l) = (req, pe)" by (cases "httpParseRequestLine (strip_cr l)")
    show ?thesis
    proof (cases pe)
      case (Some er)
      then show ?thesis using Line(1) p d0 by (simp add: Upgrader_Upgrade_def request_fate_def Let_def)
    next
      case None
      let ?rq = "new_request (request_error u req) :: 'a request"
      have be': "br_end b' \<noteq> ErrBufferFull" using Line(5) be by simp
      obtain e b2 r where lp: "upgrade_loop rd hh u b' ?rq = Some (e, b2, r)"
          "case scan_lines hh u (stream_lines (br_data b')) ?rq of None \<Rightarrow> e = Some (br_end b') | Some r2 \<Rightarrow> e = None \<and> r = r2"
        using upgrade_loop_scans [OF Line(2) be', of hh u ?rq] by blast
      obtain raws where r: "r = scan_request hh u (map strip_cr raws) ?rq"
        using upgrade_loop_returns [OF Line(2) be', of hh u ?rq] lp(1) by auto
      have n: "length (rq_nonce r) = nonceSize" by (simp add: r scan_request_length new_request_def)
      obtain hs e2 bw' where f: "finish_upgrade wr hh fn ext u r ?w = Some (hs, e2, bw')"
          "answers opttext fntext ext u r hs e2 d (bw_dst bw')"
        using finish_answers [where x = "nonZero (up_WriteBufferSize u) DefaultServerWriteBufferSize" and ext = ext and u = u
              and d = d, OF env n] missing_reported
        unfolding r by blast
      have up: "Upgrader_Upgrade rd wr hh fn ext pool u s d =
          (if e \<noteq> None then Some (rq_hs r, e, br_src b2, d) else Some (hs, e2, br_src b2, bw_dst bw'))"
        using Line(1) p None lp(1) f(1) by (simp add: Upgrader_Upgrade_def Let_def new_request_def)
      have ft: "request_fate hh u (data s) =
          (case scan_lines hh u (stream_lines (br_data b')) ?rq of None \<Rightarrow> Unread | Some r \<Rightarrow> Decided r)"
        using d0 p None by (simp add: request_fate_def)
      show ?thesis
      proof (cases "scan_lines hh u (stream_lines (br_data b')) ?rq")
        case None
        then show ?thesis using lp(2) up ft Line(5) b(3) by simp
      next
        case (Some r2)
        then show ?thesis using lp(2) up ft f(2) by simp
      qed
    qed
  qed
qed

end

section \<open>A request that is served\<close>

context lively_stream
begin

lemma upgrade_loop_lines:
  "br_inv b \<Longrightarrow> br_end b \<noteq> ErrBufferFull \<Longrightarrow> br_data b = lines_of raws @ bl @ 10 # rest \<Longrightarrow>
     list_all (\<lambda>l. strip_cr l \<noteq> [] \<and> 10 \<notin> set l) raws \<Longrightarrow> strip_cr bl = [] \<Longrightarrow> 10 \<notin> set bl \<Longrightarrow>
     rq_err (scan_request hh u (map strip_cr raws) r) = None \<Longrightarrow>
     \<exists>b'. upgrade_loop rd hh u b r = Some (None, b', scan_request hh u (map strip_cr raws) r) \<and> br_data b' = rest"
proof (induction raws arbitrary: b r)
  case Nil
  then obtain b' where "readLine rd b = Some (strip_cr bl, None, b')" "br_data b' = rest"
    using readLine_line [of b bl rest] by (auto simp: lines_of_def)
  with Nil show ?case by (subst upgrade_loop.simps) simp
next
  case (Cons l raws)
  obtain k v ok where p: "httpParseHeaderLine (strip_cr l) = (k, v, ok)" by (cases "httpParseHeaderLine (strip_cr l)")
  have e: "rq_err r = None" by (rule scan_request_None [OF Cons.prems(7)])
  have ok: "ok" using Cons.prems(7) p e by (cases ok) auto
  have d: "br_data b = l @ 10 # lines_of raws @ bl @ 10 # rest" using Cons.prems(3) by (simp add: lines_of_def)
  obtain b1 where b1: "readLine rd b = Some (strip_cr l, None, b1)" "br_inv b1"
      "br_data b1 = lines_of raws @ bl @ 10 # rest" "br_end b1 = br_end b"
    using readLine_line [OF Cons.prems(1,2) d] Cons.prems(4) by auto
  have "upgrade_loop rd hh u b r = upgrade_loop rd hh u b1 (upgrade_header hh u k v r)"
    using e b1(1) p ok Cons.prems(4) by (subst upgrade_loop.simps) (simp add: btsToString_def)
  with Cons.IH [OF b1(2) _ b1(3), of "upgrade_header hh u k v r"] Cons.prems b1(4) p e ok show ?case by simp
qed

end

lemma default_header:
  assumes "header_fine (hh_ScanTokens hh) k v" and "rq_err r = None"
  shows "rq_err (upgrade_header hh DefaultUpgrader k v r) = None \<and>
    rq_hs (upgrade_header hh DefaultUpgrader k v r) = rq_hs r"
  by (rule header_cases [of k];
      use assms in \<open>simp add: upgrade_header_def header_fine_def DefaultUpgrader_def canonical_neq Let_def
      select_protocol_def select_extensions_def\<close>)

lemma default_scan:
  "list_all (\<lambda>l. let (k, v, ok) = httpParseHeaderLine l in ok \<and> header_fine (hh_ScanTokens hh) k v) ls \<Longrightarrow> rq_err r = None \<Longrightarrow>
     rq_err (scan_request hh DefaultUpgrader ls r) = None \<and> rq_hs (scan_request hh DefaultUpgrader ls r) = rq_hs r"
  by (induction ls arbitrary: r) (auto simp: Let_def default_header split: prod.splits)

lemma valid_default:
  fixes hh :: "('p, 'd) httphead"
  assumes v: "valid_request (hh_ScanTokens hh) line ls" and p: "httpParseRequestLine line = (req, e)"
  defines "r \<equiv> scan_request hh DefaultUpgrader ls (new_request (request_error (DefaultUpgrader :: 'p Upgrader) req))"
  shows "e = None" "rq_err r = None" "rq_seen r = headerSeenAll" "rq_nonce r = request_key ls"
    "rq_hs r = \<lparr>Protocol = [], Extensions = []\<rparr>"
proof -
  have la: "list_all (\<lambda>l. let (k, v, ok) = httpParseHeaderLine l in ok \<and> header_fine (hh_ScanTokens hh) k v) ls"
    using v by (simp add: valid_request_def)
  show "e = None" using v p by (simp add: valid_request_def)
  have "request_error (DefaultUpgrader :: 'p Upgrader) req = None"
    using v p by (simp add: valid_request_def request_error_def DefaultUpgrader_def btsToString_def)
  then have n: "rq_err (new_request (request_error (DefaultUpgrader :: 'p Upgrader) req) :: 'p request) = None"
    by (simp add: new_request_def)
  from default_scan [OF la n] show e: "rq_err r = None" and "rq_hs r = \<lparr>Protocol = [], Extensions = []\<rparr>"
    by (simp_all add: r_def new_request_def)
  note f = scan_request_fine [OF e [unfolded r_def], folded r_def]
  show "rq_nonce r = request_key ls" using f by (simp add: request_key_def new_request_def)
  have "bit (seen_bits (key_values ls) 0) n \<longleftrightarrow> n < 5" for n
  proof
    assume "n < 5"
    then have "n = 0 \<or> n = 1 \<or> n = 2 \<or> n = 3 \<or> n = 4" by auto
    then show "bit (seen_bits (key_values ls) 0) n"
      using v by (auto simp: valid_request_def has_key_values bit_seen_bits bit_seen_bit)
  qed (rule seen_bits_small)
  then have "seen_bits (key_values ls) 0 = headerSeenAll"
    by (auto simp: bit_eq_iff [of "seen_bits (key_values ls) 0"] bit_seenAll)
  then show "rq_seen r = headerSeenAll" using f by (simp add: new_request_def)
qed

text \<open>Lines as a client sends them.\<close>

definition crlf_lines :: "byte list list \<Rightarrow> byte list" where
  "crlf_lines ls = concat (map (\<lambda>l. l @ CRLF) ls)"

definition clean_line :: "byte list \<Rightarrow> bool" where
  "clean_line l \<longleftrightarrow> l \<noteq> [] \<and> 10 \<notin> set l"

lemma CRLF_bytes: "CRLF = [13, 10]"
  by code_simp

lemma crlf_lines_of: "crlf_lines ls = lines_of (map (\<lambda>l. l @ [13]) ls)"
  by (induction ls) (simp_all add: crlf_lines_def lines_of_def CRLF_bytes)

lemma strip_crlf [simp]: "strip_cr (l @ [13]) = l" "strip_cr [13] = []"
  by (simp_all add: strip_cr_def)

context handshaking
begin

lemma serve_request:
  assumes env: "ready s d pool hh opttext fn fntext"
    and s: "data s = crlf_lines (line # ls) @ CRLF @ rest" and c: "list_all clean_line (line # ls)"
    and v: "valid_request (hh_ScanTokens hh) line ls"
  shows "\<exists>e s' d'. Upgrade rd wr hh fn ext pool s d = Some (\<lparr>Protocol = [], Extensions = []\<rparr>, e, s', d') \<and>
    (\<exists>k. out d' = take k (out d @ response_text (request_key ls) [] None [])) \<and>
    (e = None \<longrightarrow> out d' = out d @ response_text (request_key ls) [] None []) \<and> (calm d \<longrightarrow> e = None)"
proof -
  have l: "inv s" "ending s \<noteq> ErrBufferFull" and sz: "0 < pool n" for n
    using env by (simp_all add: ready_def)
  let ?u = "DefaultUpgrader :: 'a Upgrader"
  let ?b = "NewBufReader s (pool (nonZero (up_ReadBufferSize ?u) DefaultServerReadBufferSize))"
    and ?w = "NewBufWriter d (pool (nonZero (up_WriteBufferSize ?u) DefaultServerWriteBufferSize))"
  note b = reader_new [OF l(1) sz, of "nonZero (up_ReadBufferSize ?u) DefaultServerReadBufferSize"]
  obtain req e where p: "httpParseRequestLine line = (req, e)" by (cases "httpParseRequestLine line")
  note vd = valid_default [OF v p]
  let ?rq = "new_request (request_error ?u req) :: 'a request"
  let ?r = "scan_request hh ?u ls ?rq"
  have d: "br_data ?b = (line @ [13]) @ 10 # lines_of (map (\<lambda>l. l @ [13]) ls) @ [13] @ 10 # rest"
    using s b(2) by (simp add: crlf_lines_of lines_of_def CRLF_bytes)
  have cl: "10 \<notin> set (line @ [13])" using c by (simp add: clean_line_def)
  obtain b1 where b1: "readLine rd ?b = Some (line, None, b1)" "br_inv b1"
      "br_data b1 = lines_of (map (\<lambda>l. l @ [13]) ls) @ [13] @ 10 # rest" "br_end b1 = br_end ?b"
    using readLine_line [OF b(1) _ d cl] b(3) l(2) by auto
  have m: "map strip_cr (map (\<lambda>l. l @ [13]) ls) = ls" by (induction ls) simp_all
  have la: "list_all (\<lambda>l. strip_cr l \<noteq> [] \<and> 10 \<notin> set l) (map (\<lambda>l. l @ [13]) ls)"
    using c by (simp add: list_all_iff clean_line_def)
  obtain b2 where b2: "upgrade_loop rd hh ?u b1 ?rq = Some (None, b2, ?r)"
    using upgrade_loop_lines [where hh = hh and u = ?u and r = ?rq, OF b1(2) _ b1(3) la] b1(4) b(3) l(2) vd(2) unfolding m by auto
  have n: "length (rq_nonce ?r) = nonceSize" by (simp add: vd(4) length_request_key)
  obtain hs fe bw where f: "finish_upgrade wr hh fn ext ?u ?r ?w = Some (hs, fe, bw)"
      "answers opttext fntext ext ?u ?r hs fe d (bw_dst bw)"
    using finish_answers [where u = ?u and ext = ext and d = d, OF env n] vd(3) by blast
  have vt: "verdict ?u ?r = (None, None)" using vd(2,3) by (simp add: verdict_def DefaultUpgrader_def)
  have ht: "headers_text fntext (None, None) = []" by (simp add: headers_text_def optional_text_def)
  have up: "Upgrade rd wr hh fn ext pool s d = Some (hs, fe, br_src b2, bw_dst bw)"
    using b1(1) p vd(1) b2 f(1) by (simp add: Upgrade_def Upgrader_Upgrade_def Let_def new_request_def)
  have "up_Header ?u = None" by (simp add: DefaultUpgrader_def)
  then have a: "answer_text opttext fntext ext ?u ?r = response_text (request_key ls) [] None []"
    using vt vd(4,5) ht by (simp add: answer_text_def)
  show ?thesis
    using up f(2) vd(5) vt unfolding answers_def a by auto
qed

end

interpretation conn_side: handshaking conn_read conn_lively conn_fin conn_data conn_end conn_write "\<lambda>_. True" conn_out "\<lambda>d. faults d = []"
  by unfold_locales

text \<open>The assumption for a network connection.\<close>

definition handshake_env ::
  "rd_event list \<Rightarrow> (int \<Rightarrow> nat) \<Rightarrow> ('p, dest) httphead \<Rightarrow> ('p HeadOption list \<Rightarrow> byte list) \<Rightarrow>
     (nat \<Rightarrow> dest header_func) \<Rightarrow> (nat \<Rightarrow> byte list) \<Rightarrow> bool" where
  "handshake_env s pool hh opttext fn fntext \<longleftrightarrow> conn_lively s \<and> conn_end s \<noteq> ErrBufferFull \<and> (\<forall>n. 0 < pool n) \<and>
     conn_bw.writes_options hh opttext \<and> conn_bw.writes_texts fn fntext"

lemma handshake_ready:
  "handshake_env s pool hh opttext fn fntext \<Longrightarrow> conn_side.ready s d pool hh opttext fn fntext"
  by (simp add: handshake_env_def conn_side.ready_def)

lemmas serve_request = conn_side.serve_request [OF handshake_ready]
lemmas Upgrade_outcome = conn_side.Upgrade_outcome [OF handshake_ready]
lemmas conn_reader_new = conn_side.reader_new
lemmas conn_writer_new = conn_side.writer_new [OF TrueI]

section \<open>Properties of the server side\<close>

text \<open>
  A concrete instance of the parts outside of the program, for the witnesses: tokens are the
  parts between commas, options are written by their names.
\<close>

fun comma_parts :: "byte list \<Rightarrow> byte list \<Rightarrow> byte list list" where
  "comma_parts acc [] = [acc]"
| "comma_parts acc (b # bs) = (if b = 0x2C then acc # comma_parts [] bs else comma_parts (acc @ [b]) bs)"

fun calls_until :: "(byte list \<Rightarrow> bool) \<Rightarrow> byte list list \<Rightarrow> byte list list" where
  "calls_until f [] = []"
| "calls_until f (x # xs) = x # (if f x then calls_until f xs else [])"

definition comma_tokens :: scan_tokens where
  "comma_tokens h f = (calls_until f (map btrim (comma_parts [] h)), True)"

definition simple_head :: "(unit, dest) httphead" where
  "simple_head = \<lparr>hh_ScanTokens = comma_tokens, hh_ScanOptions = (\<lambda>h f. ([], True)),
     hh_Select = (\<lambda>h xs f. (xs, True)), hh_WriteOptions = (\<lambda>xs. put_string conn_write (concat (map opt_Name xs))),
     hh_Size = (\<lambda>_. 0), hh_Set = (\<lambda>_ _ p. p), hh_Copy = (\<lambda>p. p), hh_zero = ()\<rparr>"

definition no_headers :: "nat \<Rightarrow> dest header_func" where
  "no_headers i b = Some (0, None, b)"

lemma simple_env:
  "conn_lively s \<Longrightarrow> conn_end s \<noteq> ErrBufferFull \<Longrightarrow>
     handshake_env s (\<lambda>n. 16) simple_head (\<lambda>xs. concat (map opt_Name xs)) no_headers (\<lambda>_. [])"
  by (simp add: handshake_env_def conn_bw.writes_options_def simple_head_def conn_bw.emits_string
      conn_bw.writes_texts_def conn_bw.emits_header_def no_headers_def conn_bw.puts_refl)

definition sample_key :: "byte list" where
  "sample_key = str_bytes ''dGhlIHNhbXBsZSBub25jZQ==''"

definition sample_lines :: "byte list list" where
  "sample_lines = [str_bytes ''Host: server.example.com'', str_bytes ''upgrade: WebSocket'',
     str_bytes ''Connection: keep-alive, Upgrade'', str_bytes ''Sec-WebSocket-Key: '' @ sample_key,
     str_bytes ''sec-websocket-version:13''] "

definition sample_line :: "byte list" where
  "sample_line = str_bytes ''GET /chat HTTP/1.1''"

definition sample_request :: "byte list" where
  "sample_request = crlf_lines (sample_line # sample_lines) @ CRLF"

lemma sample_valid:
  "valid_request (hh_ScanTokens simple_head) sample_line sample_lines" "list_all clean_line (sample_line # sample_lines)"
  "request_key sample_lines = sample_key"
  by code_simp+

definition sample_conn :: "rd_event list" where
  "sample_conn = [REv (take 7 sample_request) None, REv (drop 7 sample_request @ [0x81]) None]"

lemma sample_conn:
  "conn_lively sample_conn" "conn_end sample_conn \<noteq> ErrBufferFull"
  "conn_data sample_conn = crlf_lines (sample_line # sample_lines) @ CRLF @ [0x81]"
proof -
  have "take 7 sample_request \<noteq> []" by code_simp
  then show "conn_lively sample_conn" "conn_end sample_conn \<noteq> ErrBufferFull" by (simp_all add: sample_conn_def)
  show "conn_data sample_conn = crlf_lines (sample_line # sample_lines) @ CRLF @ [0x81]"
    by (simp add: sample_conn_def append_assoc [symmetric] del: append_assoc) (simp add: sample_request_def)
qed

text \<open>
  C14: \<open>Upgrade\<close> accepts every valid request, whatever the size of its buffers and however the
  network cuts the request: with the default settings it answers 101 with the accept value of
  the request's key, and over a connection without faults it reports success.
\<close>

theorem upgrade_serves_valid:
  assumes "handshake_env s pool hh opttext fn fntext"
    and "conn_data s = crlf_lines (line # ls) @ CRLF @ rest" and "list_all clean_line (line # ls)"
    and "valid_request (hh_ScanTokens hh) line ls" and "faults d = []"
  shows "\<exists>s' d'. Upgrade conn_read conn_write hh fn ext pool s d = Some (\<lparr>Protocol = [], Extensions = []\<rparr>, None, s', d') \<and>
    conn_out d' = conn_out d @ response_text (request_key ls) [] None []"
  using serve_request [OF assms(1-4), of ext d] assms(5) by auto

theorem upgrade_serves_valid_witness:
  "\<exists>s' d'. Upgrade conn_read conn_write simple_head no_headers (\<lambda>_. []) (\<lambda>n. 16) sample_conn
      \<lparr>sent = [], faults = [], rands = (\<lambda>_. 0)\<rparr> = Some (\<lparr>Protocol = [], Extensions = []\<rparr>, None, s', d') \<and>
    conn_out d' = response_text sample_key [] None []"
  using upgrade_serves_valid [OF simple_env [OF sample_conn(1,2)] sample_conn(3) sample_valid(2,1),
      of "\<lparr>sent = [], faults = [], rands = (\<lambda>_. 0)\<rparr>"]
  by (simp add: sample_valid(3) conn_out_def)

text \<open>
  C7: \<open>Upgrade\<close> succeeds only on a valid request: \<open>GET\<close>, HTTP/1.1 or later, each required header
  with the required value and nothing malformed, up to the empty line; and then it has sent
  the response with the accept value of the key of that request.
\<close>

theorem upgrade_accepts_valid:
  assumes "handshake_env s pool hh opttext fn fntext"
    and "Upgrader_Upgrade conn_read conn_write hh fn ext pool u s d = Some (hs, None, s', d')"
  shows "\<exists>raw raws bl rest opts hdr. conn_data s = lines_of (raw # raws) @ bl @ 10 # rest \<and> strip_cr bl = [] \<and>
    valid_request (hh_ScanTokens hh) (strip_cr raw) (map strip_cr raws) \<and>
    conn_out d' = conn_out d @ response_text (request_key (map strip_cr raws)) (Protocol hs) opts hdr"
proof -
  have o: "conn_side.outcome hh opttext fntext ext u s d hs None d'"
    using Upgrade_outcome [OF assms(1), of ext u d] assms(2) by auto
  obtain raw raws req more where r: "conn_data s = raw @ 10 # lines_of raws @ more"
      "httpParseRequestLine (strip_cr raw) = (req, None)"
      "rq_err (scan_request hh u (map strip_cr raws) (new_request (request_error u req))) = None \<Longrightarrow>
         \<exists>bl rest. strip_cr bl = [] \<and> more = bl @ 10 # rest"
      "conn_side.answers opttext fntext ext u (scan_request hh u (map strip_cr raws) (new_request (request_error u req))) hs None d d'"
    by (rule conn_side.outcomeE [OF o]) simp_all
  let ?r = "scan_request hh u (map strip_cr raws) (new_request (request_error u req))"
  have v: "fst (verdict u ?r) = None" and a: "conn_out d' = conn_out d @ answer_text opttext fntext ext u ?r" and h: "hs = rq_hs ?r"
    using r(4) unfolding conn_side.answers_def by (auto split: option.splits)
  have e: "rq_err ?r = None" and s: "rq_seen ?r = headerSeenAll"
    using v missing_reported [of hh u "map strip_cr raws" "request_error u req"]
    by (auto simp: verdict_def split: if_splits)
  obtain bl rest where "strip_cr bl = []" "more = bl @ 10 # rest" using r(3) e by blast
  moreover note accepted_valid [OF r(2) e s]
  moreover obtain h1 where "verdict u ?r = (None, h1)" using v by (cases "verdict u ?r") auto
  ultimately show ?thesis
    using r(1) a h
    by (intro exI [of _ raw] exI [of _ raws] exI [of _ bl] exI [of _ rest]) (auto simp: lines_of_def answer_text_def)
qed

theorem upgrade_accepts_valid_witness:
  "\<exists>hs s' d'. Upgrader_Upgrade conn_read conn_write simple_head no_headers (\<lambda>_. []) (\<lambda>n. 16) DefaultUpgrader sample_conn
      \<lparr>sent = [], faults = [], rands = (\<lambda>_. 0)\<rparr> = Some (hs, None, s', d') \<and>
    (\<exists>raw raws. valid_request comma_tokens (strip_cr raw) (map strip_cr raws))"
proof -
  let ?d = "\<lparr>sent = [], faults = [], rands = (\<lambda>_. 0)\<rparr>"
  note env = simple_env [OF sample_conn(1,2)]
  obtain s' d' where u: "Upgrader_Upgrade conn_read conn_write simple_head no_headers (\<lambda>_. []) (\<lambda>n. 16) DefaultUpgrader
      sample_conn ?d = Some (\<lparr>Protocol = [], Extensions = []\<rparr>, None, s', d')"
    using serve_request [OF env sample_conn(3) sample_valid(2,1), of "\<lambda>_. []" ?d] by (auto simp: Upgrade_def)
  have "hh_ScanTokens simple_head = comma_tokens" by (simp add: simple_head_def)
  with u upgrade_accepts_valid [OF env u] show ?thesis by auto
qed

text \<open>
  The status of the response to an error: the one a rejection asks for, and 500 without one.
\<close>

definition error_code :: "err \<Rightarrow> int" where
  "error_code er = (case er of ConnectionRejected a r \<Rightarrow> if reject_code r = 0 then 500 else reject_code r | _ \<Rightarrow> 500)"

lemma answer_text_error:
  "fst (verdict u r) = Some er \<Longrightarrow>
     \<exists>hdr. answer_text opttext fntext ext u r = status_text (error_code er) @ hdr @ error_tail (error_text ext er)"
  by (cases "verdict u r")
    (auto simp: answer_text_def error_response_def rejection_def error_code_def Let_def split: err.splits)

text \<open>
  C15: \<open>Upgrade\<close> returns on every connection, whatever its writes do, and what the peer sent decides the
  result. When the stream ends before the request line or the headers do, the error is the
  one of the connection, and when the first line is no request line it is \<open>ErrMalformedRequest\<close>: these
  two are not answered. Every other request, with an error in its values, a
  malformed header line, a missing header or a refusal by the application as well as one that is accepted, is answered: the answer or a
  part of it is sent, all of it when no write fails. The answer to an error has the
  status that belongs to the error and its text, and the error is what \<open>Upgrade\<close> returns.
\<close>

theorem upgrade_rejects:
  assumes "handshake_env s pool hh opttext fn fntext"
  shows "\<exists>hs e s' d'. Upgrader_Upgrade conn_read conn_write hh fn ext pool u s d = Some (hs, e, s', d') \<and>
    (case request_fate hh u (conn_data s) of
       Unread \<Rightarrow> e = Some (conn_end s) \<and> d' = d
     | BadLine er \<Rightarrow> er = ErrMalformedRequest \<and> e = Some er \<and> d' = d
     | Decided r \<Rightarrow>
         (\<exists>text k. conn_out d' = take k (conn_out d @ text) \<and> (faults d = [] \<longrightarrow> conn_out d' = conn_out d @ text) \<and>
           (case fst (verdict u r) of
              None \<Rightarrow> text = answer_text opttext fntext ext u r \<and> (faults d = [] \<longrightarrow> e = None)
            | Some er \<Rightarrow> e = Some er \<and>
                (\<exists>hdr. text = status_text (error_code er) @ hdr @ error_tail (error_text ext er)))))"
proof -
  obtain hs e s' d' where u: "Upgrader_Upgrade conn_read conn_write hh fn ext pool u s d = Some (hs, e, s', d')"
      "case request_fate hh u (conn_data s) of Unread \<Rightarrow> e = Some (conn_end s) \<and> d' = d
       | BadLine er \<Rightarrow> e = Some er \<and> d' = d
       | Decided r \<Rightarrow> conn_side.answers opttext fntext ext u r hs e d d'"
    using conn_side.Upgrade_decided [OF handshake_ready [OF assms]] by blast
  show ?thesis
  proof (cases "request_fate hh u (conn_data s)")
    case (BadLine er)
    then have "er = ErrMalformedRequest" by (rule request_fate_bad)
    with u BadLine show ?thesis by auto
  next
    case (Decided r)
    let ?t = "answer_text opttext fntext ext u r"
    obtain fe k where a: "e = (case fst (verdict u r) of None \<Rightarrow> fe | Some er \<Rightarrow> Some er)" "conn_out d' = take k (conn_out d @ ?t)"
        "fe = None \<longrightarrow> conn_out d' = conn_out d @ ?t" "faults d = [] \<longrightarrow> fe = None"
      using u(2) Decided unfolding conn_side.answers_def by auto
    have "case fst (verdict u r) of None \<Rightarrow> ?t = ?t \<and> (faults d = [] \<longrightarrow> e = None)
        | Some er \<Rightarrow> e = Some er \<and> (\<exists>hdr. ?t = status_text (error_code er) @ hdr @ error_tail (error_text ext er))"
      using a(1,4) answer_text_error by (auto split: option.splits)
    with u(1) a Decided show ?thesis by auto
  qed (use u in auto)
qed

text \<open>A header line without a colon is answered.\<close>

theorem upgrade_rejects_witness:
  "\<exists>hs s' d' hdr. Upgrader_Upgrade conn_read conn_write simple_head no_headers (\<lambda>_. []) (\<lambda>n. 16) DefaultUpgrader
      [REv (str_bytes ''GET / HTTP/1.1'' @ CRLF @ str_bytes ''no header'' @ CRLF) None] \<lparr>sent = [], faults = [], rands = (\<lambda>_. 0)\<rparr> =
        Some (hs, Some ErrMalformedRequest, s', d') \<and>
    conn_out d' = status_text 400 @ hdr @ error_tail (error_text (\<lambda>_. []) ErrMalformedRequest)"
proof -
  let ?bs = "str_bytes ''GET / HTTP/1.1'' @ CRLF @ str_bytes ''no header'' @ CRLF"
  have "?bs \<noteq> []" by code_simp
  then have c: "conn_lively [REv ?bs None]" "conn_end [REv ?bs None] \<noteq> ErrBufferFull" "conn_data [REv ?bs None] = ?bs" by simp_all
  have "(case request_fate simple_head DefaultUpgrader ?bs of Decided r \<Rightarrow> fst (verdict DefaultUpgrader r) | _ \<Rightarrow> None) = Some ErrMalformedRequest"
    by code_simp
  then obtain r where "request_fate simple_head DefaultUpgrader ?bs = Decided r" "fst (verdict DefaultUpgrader r) = Some ErrMalformedRequest"
    by (auto split: request_fate.splits)
  moreover have "error_code ErrMalformedRequest = 400" by code_simp
  ultimately show ?thesis
    using upgrade_rejects [OF simple_env [OF c(1,2)], of "\<lambda>_. []" DefaultUpgrader "\<lparr>sent = [], faults = [], rands = (\<lambda>_. 0)\<rparr>"] c(3)
    by (auto simp: conn_out_def)
qed

end
