(* ===== verification/ClientHandshake.thy ===== *)
theory ClientHandshake
  imports ServerHandshake Dialer
begin

text \<open>
  What the client side of the handshake guarantees: the request that is sent, that a response is
  accepted only with status 101 and the accept value of the key that was sent, and that the two
  sides of the program accept each other.
\<close>

section \<open>The key\<close>

lemma initNonce_some:
  assumes "nonceKeySize \<le> length rnd"
  shows "initNonce rnd (replicate nonceSize 0) = Some (base64 (take nonceKeySize rnd))"
    "length (base64 (take nonceKeySize rnd)) = nonceSize"
proof -
  show l: "length (base64 (take nonceKeySize rnd)) = nonceSize"
    using assms by (simp add: length_base64 nonceSize_def nonceKeySize_def)
  then show "initNonce rnd (replicate nonceSize 0) = Some (base64 (take nonceKeySize rnd))"
    by (simp add: initNonce_def base64_Encode_def put_at_all)
qed

text \<open>The check of an accept value accepts exactly the one of the key.\<close>

lemma checkAccept_eq:
  "length nonce = nonceSize \<Longrightarrow> checkAcceptFromNonce v nonce = Some (v = accept_of nonce)"
  by (auto simp: checkAcceptFromNonce_def initAccept_eq)

section \<open>The header lines of a response\<close>

text \<open>The loop of the dialer as a function of the lines.\<close>

fun scan_response ::
  "('p, 'd) httphead \<Rightarrow> ('p, 's) Dialer \<Rightarrow> byte list \<Rightarrow> byte list list \<Rightarrow> 'p response \<Rightarrow> err option \<times> 'p response" where
  "scan_response hh di nonce [] r = (None, r)"
| "scan_response hh di nonce (l # ls) r =
     (let (k, v, ok) = httpParseHeaderLine l
      in if \<not> ok then (Some ErrMalformedResponse, r)
         else (case the (dial_header hh di nonce k v r) of
                 (Some e, r) \<Rightarrow> (Some e, r)
               | (None, r) \<Rightarrow> scan_response hh di nonce ls r))"

definition response_bit :: "byte list \<Rightarrow> byte" where
  "response_bit k =
     (if k = headerUpgradeCanonical then seenUpgrade
      else if k = headerConnectionCanonical then seenConnection
      else if k = headerSecAcceptCanonical then seenSecAccept
      else 0)"

definition response_fine :: "byte list \<Rightarrow> byte list \<Rightarrow> byte list \<Rightarrow> bool" where
  "response_fine nonce k v \<longleftrightarrow>
     (if k = headerUpgradeCanonical then v = specHeaderValueUpgrade \<or> EqualFold v specHeaderValueUpgrade
      else if k = headerConnectionCanonical then v = specHeaderValueConnection \<or> EqualFold v specHeaderValueConnection
      else if k = headerSecAcceptCanonical then v = accept_of nonce
      else True)"

lemma accept_distinct:
  "distinct [headerUpgradeCanonical, headerConnectionCanonical, headerSecAcceptCanonical,
     headerSecProtocolCanonical, headerSecExtensionsCanonical]"
  "distinct [headerSecExtensionsCanonical, headerSecProtocolCanonical, headerSecAcceptCanonical,
     headerConnectionCanonical, headerUpgradeCanonical]"
  by code_simp+

lemmas accept_neq = accept_distinct [unfolded distinct.simps list.set insert_iff empty_iff de_Morgan_disj simp_thms]

lemma response_cases:
  obtains "k = headerUpgradeCanonical" | "k = headerConnectionCanonical" | "k = headerSecAcceptCanonical"
    | "k \<noteq> headerUpgradeCanonical" "k \<noteq> headerConnectionCanonical" "k \<noteq> headerSecAcceptCanonical"
  by blast

lemma dial_header_some:
  assumes "length nonce = nonceSize"
  shows "\<exists>e r'. dial_header hh di nonce k v r = Some (e, r') \<and> rs_seen r' = rs_seen r OR response_bit k \<and>
    (e = None \<longrightarrow> response_fine nonce k v)"
  by (rule response_cases [of k];
      simp add: dial_header_def response_bit_def response_fine_def accept_neq Let_def checkAccept_eq [OF assms]
        split: prod.split option.split)

definition response_bits :: "(byte list \<times> byte list) list \<Rightarrow> byte \<Rightarrow> byte" where
  "response_bits kvs s = fold (\<lambda>(k, v) s. s OR response_bit k) kvs s"

lemma scan_response_fine:
  assumes n: "length nonce = nonceSize"
  shows "scan_response hh di nonce ls r = (None, r') \<Longrightarrow>
     list_all (\<lambda>l. let (k, v, ok) = httpParseHeaderLine l in ok \<and> response_fine nonce k v) ls \<and>
     rs_seen r' = response_bits (key_values ls) (rs_seen r)"
proof (induction ls arbitrary: r)
  case (Cons l ls)
  obtain k v ok where p: "httpParseHeaderLine l = (k, v, ok)" by (cases "httpParseHeaderLine l")
  obtain e r1 where h: "dial_header hh di nonce k v r = Some (e, r1)" "rs_seen r1 = rs_seen r OR response_bit k"
      "e = None \<longrightarrow> response_fine nonce k v"
    using dial_header_some [OF n, of hh di k v r] by blast
  have "ok" "e = None" using Cons.prems p h by (auto split: if_splits option.splits)
  then show ?case
    using Cons.IH [of r1] Cons.prems p h by (simp add: key_values_def response_bits_def)
qed (simp add: key_values_def response_bits_def)

lemma response_values [simp]:
  "bit seenUpgrade n = (n = 0)" "bit seenConnection n = (n = 1)" "bit seenSecAccept n = (n = 2)"
proof -
  have p: "seenUpgrade = 2 ^ 0" "seenConnection = 2 ^ 1" "seenSecAccept = 2 ^ 2"
    by (simp_all add: seenUpgrade_def seenConnection_def seenSecAccept_def)
  have b: "bit (2 ^ m :: byte) n \<longleftrightarrow> n = m" if "m < 8" for m using that by (auto simp: bit_exp_iff)
  show "bit seenUpgrade n = (n = 0)" "bit seenConnection n = (n = 1)" "bit seenSecAccept n = (n = 2)"
    unfolding p by (rule b; simp)+
qed

lemma bit_response_bit: "bit (response_bit k) n \<longleftrightarrow>
   (k = headerUpgradeCanonical \<and> n = 0) \<or> (k = headerConnectionCanonical \<and> n = 1) \<or> (k = headerSecAcceptCanonical \<and> n = 2)"
  by (rule response_cases [of k]; simp add: response_bit_def accept_neq)

lemma bit_response_bits: "bit (response_bits kvs s) n \<longleftrightarrow> bit s n \<or> (\<exists>(k, v) \<in> set kvs. bit (response_bit k) n)"
  by (induction kvs arbitrary: s) (auto simp: response_bits_def bit_or_iff split: prod.splits)

lemma bit_response_all: "bit seenAll n \<longleftrightarrow> n < 3"
  by (auto simp: seenAll_def bit_or_iff)

lemma missing_response_bits:
  assumes "\<And>n. bit s n \<Longrightarrow> n < 3"
  shows "missing_response_header s = None \<longleftrightarrow> bit s 0 \<and> bit s 1 \<and> bit s 2"
proof -
  have z: "s AND c = 0 \<longleftrightarrow> \<not> bit s i" if "\<And>n :: nat. bit c n = (n = i)" for c i
    using that assms [of i] by (auto simp: bit_eq_iff [of "s AND c" 0] bit_and_iff dest!: spec [of _ i])
  show ?thesis
    by (simp add: missing_response_header_def z [of seenUpgrade 0] z [of seenConnection 1] z [of seenSecAccept 2])
qed

lemma missing_response_some:
  assumes "\<And>n. bit s n \<Longrightarrow> n < 3"
  shows "missing_response_header s = None \<longleftrightarrow> s = seenAll"
proof -
  have "missing_response_header s = None \<longleftrightarrow> bit s 0 \<and> bit s 1 \<and> bit s 2" by (rule missing_response_bits [OF assms])
  also have "\<dots> \<longleftrightarrow> (\<forall>n. bit s n \<longleftrightarrow> n < 3)"
    using assms by (auto simp: less_Suc_eq numeral_eq_Suc)
  also have "\<dots> \<longleftrightarrow> s = seenAll" using assms by (auto simp: bit_eq_iff [of s seenAll] bit_response_all)
  finally show ?thesis .
qed

text \<open>A response that opens the connection for the key.\<close>

definition valid_response :: "byte list \<Rightarrow> byte list \<Rightarrow> byte list list \<Rightarrow> bool" where
  "valid_response nonce line ls \<longleftrightarrow>
     (let (resp, e) = httpParseResponseLine line
      in e = None \<and> resp_major resp = 1 \<and> 1 \<le> sint (resp_minor resp) \<and> resp_status resp = 101) \<and>
     list_all (\<lambda>l. let (k, v, ok) = httpParseHeaderLine l in ok \<and> response_fine nonce k v) ls \<and>
     has_key ls headerUpgradeCanonical \<and> has_key ls headerConnectionCanonical \<and> has_key ls headerSecAcceptCanonical"

lemma seen_has_keys:
  "response_bits (key_values ls) 0 = seenAll \<longleftrightarrow>
     has_key ls headerUpgradeCanonical \<and> has_key ls headerConnectionCanonical \<and> has_key ls headerSecAcceptCanonical"
    (is "?s = _ \<longleftrightarrow> ?h")
proof -
  have small: "n < 3" if "bit ?s n" for n using that by (auto simp: bit_response_bits bit_response_bit)
  have b: "bit ?s 0 \<longleftrightarrow> has_key ls headerUpgradeCanonical" "bit ?s 1 \<longleftrightarrow> has_key ls headerConnectionCanonical"
    "bit ?s 2 \<longleftrightarrow> has_key ls headerSecAcceptCanonical"
    by (auto simp: bit_response_bits bit_response_bit has_key_values)
  have "?s = seenAll \<longleftrightarrow> missing_response_header ?s = None" using missing_response_some [OF small] by simp
  also have "\<dots> \<longleftrightarrow> bit ?s 0 \<and> bit ?s 1 \<and> bit ?s 2" by (rule missing_response_bits [OF small])
  finally show ?thesis unfolding b .
qed

section \<open>The loop on a stream\<close>

context lively_stream
begin

lemma dial_loop_returns:
  assumes n: "length nonce = nonceSize"
  shows "br_inv b \<Longrightarrow> br_end b \<noteq> ErrBufferFull \<Longrightarrow>
     \<exists>e b' r'. dial_loop rd hh di nonce b r = Some (e, b', r') \<and>
       (e = None \<longrightarrow> (\<exists>raws bl. scan_response hh di nonce (map strip_cr raws) r = (None, r') \<and>
          strip_cr bl = [] \<and> br_data b = lines_of raws @ bl @ 10 # br_data b'))"
proof (induction "length (br_data b)" arbitrary: b r rule: less_induct)
  case less
  from less.prems show ?case
  proof (cases rule: readLine_returns)
    case (End b')
    then show ?thesis by (subst dial_loop.simps) simp
  next
    case (Line l b')
    obtain k v ok where p: "httpParseHeaderLine (strip_cr l) = (k, v, ok)" by (cases "httpParseHeaderLine (strip_cr l)")
    obtain e1 r1 where h: "dial_header hh di nonce k v r = Some (e1, r1)"
      using dial_header_some [OF n, of hh di k v r] by blast
    consider (Blank) "strip_cr l = []" | (Bad) "strip_cr l \<noteq> []" "\<not> ok" | (Err) er where "strip_cr l \<noteq> []" "ok" "e1 = Some er"
      | (Go) "strip_cr l \<noteq> []" "ok" "e1 = None" by (cases e1) auto
    then show ?thesis
    proof cases
      case Blank
      then have "dial_loop rd hh di nonce b r = Some (None, b', r)" using Line(1) by (subst dial_loop.simps) simp
      with Blank Line show ?thesis
        by (intro exI [of _ None] exI [of _ b'] exI [of _ r] conjI impI exI [of _ "[]"] exI [of _ l]) (auto simp: lines_of_def)
    next
      case Bad
      then show ?thesis using Line(1) p by (subst dial_loop.simps) simp
    next
      case Err
      then show ?thesis using Line(1) p h by (subst dial_loop.simps) (simp add: btsToString_def)
    next
      case Go
      then have st: "dial_loop rd hh di nonce b r = dial_loop rd hh di nonce b' r1"
        using Line(1) p h by (subst dial_loop.simps) (simp add: btsToString_def)
      have "length (br_data b') < length (br_data b)" "br_end b' \<noteq> ErrBufferFull" using Line less.prems(2) by simp_all
      from less.hyps [OF this(1) Line(2) this(2), of r1]
      obtain e b2 r2 where ih: "dial_loop rd hh di nonce b' r1 = Some (e, b2, r2)"
        "e = None \<longrightarrow> (\<exists>raws bl. scan_response hh di nonce (map strip_cr raws) r1 = (None, r2) \<and>
          strip_cr bl = [] \<and> br_data b' = lines_of raws @ bl @ 10 # br_data b2)" by blast
      have "\<exists>raws bl. scan_response hh di nonce (map strip_cr raws) r = (None, r2) \<and>
          strip_cr bl = [] \<and> br_data b = lines_of raws @ bl @ 10 # br_data b2" if e0: "e = None"
      proof -
        obtain raws bl where "scan_response hh di nonce (map strip_cr raws) r1 = (None, r2)" "strip_cr bl = []"
            "br_data b' = lines_of raws @ bl @ 10 # br_data b2" using ih(2) e0 by blast
        then show ?thesis
          using Go p h Line(4) by (intro exI [of _ "l # raws"] exI [of _ bl]) (simp add: lines_of_def)
      qed
      with ih(1) show ?thesis unfolding st by blast
    qed
  qed
qed

lemma dial_loop_lines:
  assumes n: "length nonce = nonceSize"
  shows "br_inv b \<Longrightarrow> br_end b \<noteq> ErrBufferFull \<Longrightarrow> br_data b = lines_of raws @ bl @ 10 # rest \<Longrightarrow>
     list_all (\<lambda>l. strip_cr l \<noteq> [] \<and> 10 \<notin> set l) raws \<Longrightarrow> strip_cr bl = [] \<Longrightarrow> 10 \<notin> set bl \<Longrightarrow>
     scan_response hh di nonce (map strip_cr raws) r = (None, r') \<Longrightarrow>
     \<exists>b'. dial_loop rd hh di nonce b r = Some (None, b', r') \<and> br_data b' = rest"
proof (induction raws arbitrary: b r)
  case Nil
  then obtain b' where "readLine rd b = Some (strip_cr bl, None, b')" "br_data b' = rest"
    using readLine_line [of b bl rest] by (auto simp: lines_of_def)
  with Nil show ?case by (subst dial_loop.simps) simp
next
  case (Cons l raws)
  obtain k v ok where p: "httpParseHeaderLine (strip_cr l) = (k, v, ok)" by (cases "httpParseHeaderLine (strip_cr l)")
  obtain e1 r1 where h: "dial_header hh di nonce k v r = Some (e1, r1)"
    using dial_header_some [OF n, of hh di k v r] by blast
  have g: "ok" "e1 = None" using Cons.prems(7) p h by (auto split: if_splits option.splits)
  have d: "br_data b = l @ 10 # lines_of raws @ bl @ 10 # rest" using Cons.prems(3) by (simp add: lines_of_def)
  obtain b1 where b1: "readLine rd b = Some (strip_cr l, None, b1)" "br_inv b1"
      "br_data b1 = lines_of raws @ bl @ 10 # rest" "br_end b1 = br_end b"
    using readLine_line [OF Cons.prems(1,2) d] Cons.prems(4) by auto
  have "dial_loop rd hh di nonce b r = dial_loop rd hh di nonce b1 r1"
    using b1(1) p h g Cons.prems(4) by (subst dial_loop.simps) (simp add: btsToString_def)
  with Cons.IH [OF b1(2) _ b1(3), of r1] Cons.prems b1(4) p h g show ?case by simp
qed

text \<open>A response is read, and it is accepted only when it is valid for the key.\<close>

lemma read_response_returns:
  assumes n: "length nonce = nonceSize" and b: "br_inv b" "br_end b \<noteq> ErrBufferFull" and o: "\<And>f c t br. di_OnStatusError di = Some f \<Longrightarrow> f c t br \<noteq> None"
  shows "\<exists>hs e b'. read_response rd hh di nonce b = Some (hs, e, b') \<and>
    (e = None \<longrightarrow> (\<exists>raw raws bl. br_data b = lines_of (raw # raws) @ bl @ 10 # br_data b' \<and> strip_cr bl = [] \<and>
       valid_response nonce (strip_cr raw) (map strip_cr raws)))"
  using b
proof (cases rule: readLine_returns)
  case (End b')
  then show ?thesis by (simp add: read_response_def)
next
  case (Line l b')
  obtain resp pe where p: "httpParseResponseLine (strip_cr l) = (resp, pe)" by (cases "httpParseResponseLine (strip_cr l)")
  have be: "br_end b' \<noteq> ErrBufferFull" using Line(5) b(2) by simp
  let ?r = "\<lparr>rs_hs = \<lparr>Protocol = [], Extensions = []\<rparr>, rs_seen = 0\<rparr>"
  obtain e b2 r where lp: "dial_loop rd hh di nonce b' ?r = Some (e, b2, r)"
      "e = None \<longrightarrow> (\<exists>raws bl. scan_response hh di nonce (map strip_cr raws) ?r = (None, r) \<and>
          strip_cr bl = [] \<and> br_data b' = lines_of raws @ bl @ 10 # br_data b2)"
    using dial_loop_returns [OF n Line(2) be] by blast
  show ?thesis
  proof (cases "pe = None \<and> resp_major resp = 1 \<and> \<not> sint (resp_minor resp) < 1 \<and> resp_status resp = 101 \<and> e = None")
    case False
    then show ?thesis
    proof (cases "di_OnStatusError di")
      case None
      then show ?thesis using False Line(1) p lp(1) by (auto simp: read_response_def Let_def)
    next
      case (Some f)
      obtain br where "f (resp_status resp) (resp_reason resp) b' = Some br" using o [OF Some] by blast
      then show ?thesis using Some False Line(1) p lp(1) by (auto simp: read_response_def Let_def)
    qed
  next
    case True
    then obtain raws bl where s: "scan_response hh di nonce (map strip_cr raws) ?r = (None, r)" "strip_cr bl = []"
        "br_data b' = lines_of raws @ bl @ 10 # br_data b2" using lp(2) by blast
    note f = scan_response_fine [OF n s(1)]
    have sn: "rs_seen r = response_bits (key_values (map strip_cr raws)) 0" using f by simp
    have small: "m < 3" if "bit (rs_seen r) m" for m
      using that unfolding sn by (auto simp: bit_response_bits bit_response_bit)
    show ?thesis
    proof (cases "rs_seen r = seenAll")
      case all: True
      have "valid_response nonce (strip_cr l) (map strip_cr raws)"
        using True p f all sn seen_has_keys [of "map strip_cr raws"] by (auto simp: valid_response_def)
      moreover have "br_data b = lines_of (l # raws) @ bl @ 10 # br_data b2" using Line(4) s(3) by (simp add: lines_of_def)
      moreover have "read_response rd hh di nonce b = Some (rs_hs r, None, b2)"
        using Line(1) p True lp(1) all by (simp add: read_response_def Let_def)
      ultimately show ?thesis using s(2) by blast
    next
      case False
      then have "missing_response_header (rs_seen r) \<noteq> None" using missing_response_some [OF small] by simp
      then show ?thesis using Line(1) p True lp(1) False by (auto simp: read_response_def Let_def)
    qed
  qed
qed

end

section \<open>The dialer over a connection\<close>

definition dial_request_text ::
  "('p HeadOption list \<Rightarrow> byte list) \<Rightarrow> (nat \<Rightarrow> byte list) \<Rightarrow> byte list \<Rightarrow> ('p, 's) Dialer \<Rightarrow> URL \<Rightarrow> byte list" where
  "dial_request_text opttext fntext rnd di u =
     request_text u (base64 (take nonceKeySize rnd)) (di_Protocols di)
       (if di_Extensions di = [] then None else Some (opttext (di_Extensions di))) (optional_text fntext (di_Header di))"

lemma dial_request:
  assumes env: "handshake_env s pool hh opttext fn fntext" and r: "nonceKeySize \<le> length rnd"
  shows "\<exists>b1 fe b2. httpWriteUpgradeRequest conn_write hh u (base64 (take nonceKeySize rnd)) (di_Protocols di) (di_Extensions di)
      (map_option (header_WriteTo conn_write fn) (di_Header di)) (NewBufWriter d (pool x)) = Some b1 \<and>
    bw_Flush conn_write b1 = Some (fe, b2) \<and>
    (fe = None \<longrightarrow> conn_out (bw_dst b2) = conn_out d @ dial_request_text opttext fntext rnd di u) \<and> (faults d = [] \<longrightarrow> fe = None)"
proof -
  have sz: "0 < pool x" and o: "conn_bw.writes_options hh opttext" and t: "conn_bw.writes_texts fn fntext"
    using env by (simp_all add: handshake_env_def)
  note w = conn_writer_new [OF sz, of d]
  have h: "case map_option (header_WriteTo conn_write fn) (di_Header di) of None \<Rightarrow> optional_text fntext (di_Header di) = []
      | Some f \<Rightarrow> conn_bw.emits_header f (optional_text fntext (di_Header di))"
    using conn_bw.emits_header_WriteTo [OF t] by (simp add: optional_text_def split: option.split)
  from conn_bw.emits_flush [OF conn_bw.emits_request [OF o h] w(1,2)]
  show ?thesis unfolding w(3,4) dial_request_text_def by blast
qed

lemma Dialer_outcome:
  assumes env: "handshake_env s pool hh opttext fn fntext" and r: "nonceKeySize \<le> length rnd"
    and o: "\<And>f c t br. di_OnStatusError di = Some f \<Longrightarrow> f c t br \<noteq> None"
  shows "\<exists>br hs e s' d'. Dialer_Upgrade conn_read conn_write hh fn pool rnd di u s d = Some (br, hs, e, s', d') \<and>
    (e = None \<longrightarrow> conn_out d' = conn_out d @ dial_request_text opttext fntext rnd di u \<and>
      (\<exists>raw raws bl rest. conn_data s = lines_of (raw # raws) @ bl @ 10 # rest \<and> strip_cr bl = [] \<and>
         valid_response (base64 (take nonceKeySize rnd)) (strip_cr raw) (map strip_cr raws) \<and>
         (case br of None \<Rightarrow> rest = [] \<or> rest = conn_data s' | Some b \<Rightarrow> rest = lively.br_data b)))"
proof -
  let ?n = "base64 (take nonceKeySize rnd)"
  have s: "conn_lively s" "conn_end s \<noteq> ErrBufferFull" and sz: "0 < pool n" for n
    using env by (simp_all add: handshake_env_def)
  note n = initNonce_some [OF r]
  let ?b = "NewBufReader s (pool (nonZero (di_ReadBufferSize di) DefaultClientReadBufferSize))"
  note b = conn_reader_new [OF s(1) sz, of "nonZero (di_ReadBufferSize di) DefaultClientReadBufferSize"]
  have be: "lively.br_end ?b \<noteq> ErrBufferFull" using b(3) s(2) by simp
  obtain b1 fe b2 where w: "httpWriteUpgradeRequest conn_write hh u ?n (di_Protocols di) (di_Extensions di)
      (map_option (header_WriteTo conn_write fn) (di_Header di))
      (NewBufWriter d (pool (nonZero (di_WriteBufferSize di) DefaultClientWriteBufferSize))) = Some b1"
      "bw_Flush conn_write b1 = Some (fe, b2)" "fe = None \<longrightarrow> conn_out (bw_dst b2) = conn_out d @ dial_request_text opttext fntext rnd di u"
    using dial_request [OF env r] by blast
  show ?thesis
  proof (cases fe)
    case (Some er)
    then show ?thesis using n(1) w(1,2) by (simp add: Dialer_Upgrade_def Let_def)
  next
    case None
    obtain hs e b' where rr: "read_response conn_read hh di ?n ?b = Some (hs, e, b')"
      "e = None \<longrightarrow> (\<exists>raw raws bl. conn_data s = lines_of (raw # raws) @ bl @ 10 # lively.br_data b' \<and> strip_cr bl = [] \<and>
         valid_response ?n (strip_cr raw) (map strip_cr raws))"
      using lively.read_response_returns [where di = di and hh = hh, OF n(2) b(1) be] o unfolding b(2) by blast
    let ?br = "if br_Buffered b' = 0 \<or> e \<noteq> None then None else Some b'"
    have up: "Dialer_Upgrade conn_read conn_write hh fn pool rnd di u s d = Some (?br, hs, e, br_src b', bw_dst b2)"
      using n(1) w(1,2) None rr(1) by (simp add: Dialer_Upgrade_def Let_def)
    have k: "case ?br of None \<Rightarrow> lively.br_data b' = [] \<or> lively.br_data b' = conn_data (br_src b') | Some b \<Rightarrow> lively.br_data b' = lively.br_data b"
      if e0: "e = None"
      using e0 by (simp add: br_Buffered_def lively.br_data_def)
    have "e = None \<longrightarrow> conn_out (bw_dst b2) = conn_out d @ dial_request_text opttext fntext rnd di u \<and>
      (\<exists>raw raws bl rest. conn_data s = lines_of (raw # raws) @ bl @ 10 # rest \<and> strip_cr bl = [] \<and>
         valid_response ?n (strip_cr raw) (map strip_cr raws) \<and>
         (case ?br of None \<Rightarrow> rest = [] \<or> rest = conn_data (br_src b') | Some b \<Rightarrow> rest = lively.br_data b))"
    proof
      assume e0: "e = None"
      then obtain raw raws bl where "conn_data s = lines_of (raw # raws) @ bl @ 10 # lively.br_data b'" "strip_cr bl = []"
         "valid_response ?n (strip_cr raw) (map strip_cr raws)" using rr(2) by blast
      with k [OF e0] w(3) None show "conn_out (bw_dst b2) = conn_out d @ dial_request_text opttext fntext rnd di u \<and>
        (\<exists>raw raws bl rest. conn_data s = lines_of (raw # raws) @ bl @ 10 # rest \<and> strip_cr bl = [] \<and>
         valid_response ?n (strip_cr raw) (map strip_cr raws) \<and>
         (case ?br of None \<Rightarrow> rest = [] \<or> rest = conn_data (br_src b') | Some b \<Rightarrow> rest = lively.br_data b))" by blast
    qed
    with up show ?thesis by blast
  qed
qed

section \<open>Header lines that come out as they went in\<close>

lemma b64_char_visible: "32 < b64_char i"
proof -
  have l: "length b64_alphabet = 64" "list_all (\<lambda>b. 32 < b) b64_alphabet" by code_simp+
  have "i AND 0x3F \<le> 0x3F" by (rule word_and_le1)
  then have "unat (i AND 0x3F) < 64" by (simp add: word_le_nat_alt)
  then have "b64_char i \<in> set b64_alphabet" unfolding b64_char_def by (intro nth_mem) (simp add: l(1))
  with l(2) show ?thesis by (simp add: list_all_iff)
qed

lemma base64_visible: "b \<in> set (base64 xs) \<Longrightarrow> 32 < b"
  by (induction xs rule: base64.induct) (auto simp: b64_char_visible b64_pad_def)

text \<open>A value without blanks at its ends.\<close>

definition trimmed :: "byte list \<Rightarrow> bool" where
  "trimmed v \<longleftrightarrow> v = [] \<or> \<not> blank (hd v) \<and> \<not> blank (last v)"

lemma btrim_trimmed: "trimmed v \<Longrightarrow> btrim v = v"
proof -
  assume t: "trimmed v"
  have a: "dropWhile blank v = v" using t by (cases v) (auto simp: trimmed_def)
  have "dropWhile blank (rev v) = rev v" using t by (cases v rule: rev_cases) (auto simp: trimmed_def)
  then show "btrim v = v" by (simp add: btrim_spec a)
qed

lemma btrim_space: "btrim (32 # v) = btrim v"
  by (simp add: btrim_spec blank_def)

lemma trimmed_base64: "trimmed (base64 xs)"
proof (cases "base64 xs = []")
  case False
  then have "32 < hd (base64 xs)" "32 < last (base64 xs)" by (auto intro: base64_visible [of _ xs])
  then show ?thesis by (auto simp: trimmed_def blank_def word_less_nat_alt)
qed (simp add: trimmed_def)

definition header_field :: "byte list \<Rightarrow> byte list \<Rightarrow> byte list" where
  "header_field k v = (k @ colonAndSpace) @ v"

lemma header_line_field: "header_line k v = header_field k v @ CRLF"
  by (simp add: header_line_def header_field_def)

lemma parse_header_field:
  assumes "0x3A \<notin> set k"
  shows "httpParseHeaderLine (header_field k v) = (canonicalizeHeaderKey (btrim k), btrim v, True)"
proof -
  have "colonAndSpace = [0x3A, 32]" by code_simp
  then have c: "header_field k v = k @ 0x3A # 32 # v" by (simp add: header_field_def)
  have i: "index_byte (header_field k v) 0x3A = int (length k)" unfolding c by (rule index_byte_Some [OF assms])
  have "nat (int (length k) + 1) = Suc (length k)" by simp
  then have "take (nat (int (length k))) (header_field k v) = k" "drop (nat (int (length k) + 1)) (header_field k v) = 32 # v"
    by (simp_all add: c)
  then show ?thesis unfolding httpParseHeaderLine_def i Let_def by (simp add: btrim_space)
qed

text \<open>The keys the program writes, in the form in which they are read back.\<close>

lemma handshake_keys:
  "list_all (\<lambda>(k, c). 0x3A \<notin> set k \<and> canonicalizeHeaderKey (btrim k) = c)
     [(headerHost, headerHostCanonical), (headerUpgrade, headerUpgradeCanonical),
      (headerConnection, headerConnectionCanonical), (headerSecVersion, headerSecVersionCanonical),
      (headerSecKey, headerSecKeyCanonical), (headerSecAccept, headerSecAcceptCanonical)]"
  "list_all trimmed [specHeaderValueUpgrade, specHeaderValueConnection, specHeaderValueSecVersion]"
  by code_simp+

lemmas parse_fields =
  handshake_keys [simplified list.pred_inject prod.case] parse_header_field btrim_trimmed

section \<open>The request of the dialer\<close>

definition clean_url :: "URL \<Rightarrow> bool" where
  "clean_url u \<longleftrightarrow> 10 \<notin> set (url_RequestURI u) \<and> 32 \<notin> set (url_RequestURI u) \<and> 10 \<notin> set (url_Host u)"

definition request_line :: "URL \<Rightarrow> byte list" where
  "request_line u = str_bytes ''GET'' @ 32 # url_RequestURI u @ 32 # httpVersion1_1"

definition request_fields :: "URL \<Rightarrow> byte list \<Rightarrow> byte list list" where
  "request_fields u nonce =
     [header_field headerHost (url_Host u), header_field headerUpgrade specHeaderValueUpgrade,
      header_field headerConnection specHeaderValueConnection, header_field headerSecVersion specHeaderValueSecVersion,
      header_field headerSecKey nonce]"

lemma request_text_lines:
  "request_text u nonce [] None [] = crlf_lines (request_line u # request_fields u nonce) @ CRLF"
proof -
  have "str_bytes ''GET '' = str_bytes ''GET'' @ [32]" "str_bytes '' HTTP/1.1'' = 32 # httpVersion1_1" by code_simp+
  then show ?thesis
    by (simp add: request_text_def header_line_field crlf_lines_def request_line_def request_fields_def)
qed


lemma request_line_parse:
  assumes "clean_url u"
  shows "httpParseRequestLine (request_line u) =
    (\<lparr>req_method = str_bytes ''GET'', req_uri = url_RequestURI u, req_major = 1, req_minor = 1\<rparr>, None)"
proof -
  have g: "(32 :: byte) \<notin> set (str_bytes ''GET'')" by code_simp
  have "bsplit3 (request_line u) 32 = (str_bytes ''GET'', url_RequestURI u, httpVersion1_1)"
    unfolding request_line_def by (rule bsplit3_parts [OF g]) (use assms in \<open>simp add: clean_url_def\<close>)
  moreover have "httpParseVersion httpVersion1_1 = (1, 1, True)" by code_simp
  ultimately show ?thesis by (simp add: httpParseRequestLine_def)
qed

lemma request_keys:
  assumes "trimmed nonce"
  shows "key_values (request_fields u nonce) =
    [(headerHostCanonical, btrim (url_Host u)), (headerUpgradeCanonical, specHeaderValueUpgrade),
     (headerConnectionCanonical, specHeaderValueConnection), (headerSecVersionCanonical, specHeaderValueSecVersion),
     (headerSecKeyCanonical, nonce)]"
    and "list_all (\<lambda>l. snd (snd (httpParseHeaderLine l))) (request_fields u nonce)"
  using assms by (simp_all add: key_values_def request_fields_def parse_fields)

lemma request_lines_valid:
  assumes u: "clean_url u" and n: "trimmed nonce" "length nonce = nonceSize" "10 \<notin> set nonce"
  shows "valid_request tokens (request_line u) (request_fields u nonce)"
    "request_key (request_fields u nonce) = nonce"
    "list_all clean_line (request_line u # request_fields u nonce)"
proof -
  have "list_all (\<lambda>(k, v). header_fine tokens k v) (key_values (request_fields u nonce))"
    by (simp add: request_keys(1) [OF n(1)] header_fine_def canonical_neq n(2))
  with request_keys(2) [OF n(1), of u]
  have l: "list_all (\<lambda>l. let (k, v, ok) = httpParseHeaderLine l in ok \<and> header_fine tokens k v) (request_fields u nonce)"
    by (auto simp: list_all_iff key_values_def split_def Let_def)
  show "valid_request tokens (request_line u) (request_fields u nonce)"
    using l by (simp add: valid_request_def request_line_parse [OF u] has_key_values request_keys(1) [OF n(1)]) blast
  show "request_key (request_fields u nonce) = nonce"
    by (simp add: request_key_def request_keys(1) [OF n(1)] last_key_def canonical_neq n(2) put_at_all)
  have k: "list_all (\<lambda>k. k \<noteq> [] \<and> 10 \<notin> set (k @ colonAndSpace)) [headerHost, headerUpgrade, headerConnection, headerSecVersion, headerSecKey]"
      "list_all (\<lambda>v. 10 \<notin> set v) [specHeaderValueUpgrade, specHeaderValueConnection, specHeaderValueSecVersion,
         str_bytes ''GET'', httpVersion1_1]"
    by code_simp+
  show "list_all clean_line (request_line u # request_fields u nonce)"
    using u n(3) k by (simp add: clean_line_def request_line_def request_fields_def header_field_def clean_url_def)
qed

section \<open>The response of the server\<close>

definition response_fields :: "byte list \<Rightarrow> byte list list" where
  "response_fields nonce =
     [header_field headerUpgrade specHeaderValueUpgrade, header_field headerConnection specHeaderValueConnection,
      header_field headerSecAccept (accept_of nonce)]"

definition response_line :: "byte list" where
  "response_line = str_bytes ''HTTP/1.1 101 Switching Protocols''"

lemma response_text_lines:
  "response_text nonce [] None [] = crlf_lines (response_line # response_fields nonce) @ CRLF"
proof -
  have "textHeadUpgrade = crlf_lines [response_line, header_field headerUpgrade specHeaderValueUpgrade,
      header_field headerConnection specHeaderValueConnection]" by code_simp
  then show ?thesis
    by (simp add: response_text_def header_line_field crlf_lines_def response_fields_def)
qed

lemma response_line_parse:
  "httpParseResponseLine response_line =
    (\<lparr>resp_major = 1, resp_minor = 1, resp_status = 101, resp_reason = str_bytes ''Switching Protocols''\<rparr>, None)"
  by code_simp

lemma response_clean: "list_all clean_line (response_line # response_fields nonce)"
proof -
  have "10 \<notin> set (accept_of nonce)" unfolding accept_of_def using base64_visible [of 10] by auto
  moreover have "list_all (\<lambda>k. k \<noteq> [] \<and> 10 \<notin> set (k @ colonAndSpace)) [headerUpgrade, headerConnection, headerSecAccept]"
      "list_all (\<lambda>v. 10 \<notin> set v) [specHeaderValueUpgrade, specHeaderValueConnection]" "clean_line response_line"
    by code_simp+
  ultimately show ?thesis by (simp add: clean_line_def response_fields_def header_field_def)
qed

lemma response_keys:
  "list_all (\<lambda>l. snd (snd (httpParseHeaderLine l))) (response_fields nonce)"
  "key_values (response_fields nonce) =
    [(headerUpgradeCanonical, specHeaderValueUpgrade), (headerConnectionCanonical, specHeaderValueConnection),
     (headerSecAcceptCanonical, accept_of nonce)]"
  by (simp_all add: key_values_def response_fields_def parse_fields accept_of_def trimmed_base64)

lemma response_scan:
  assumes "length nonce = nonceSize"
  shows "scan_response hh di nonce (response_fields nonce) r = (None, r\<lparr>rs_seen := ((rs_seen r OR seenUpgrade) OR seenConnection) OR seenSecAccept\<rparr>)"
  using assms
  by (simp add: response_fields_def parse_fields accept_of_def trimmed_base64 dial_header_def accept_neq)
     (simp add: checkAccept_eq accept_of_def)

text \<open>A dialer that asks for nothing special reads the response to its own key.\<close>

lemma read_own_response:
  assumes n: "length nonce = nonceSize" and b: "lively.br_inv b" "lively.br_end b \<noteq> ErrBufferFull"
    and d: "lively.br_data b = response_text nonce [] None [] @ rest"
  shows "\<exists>b'. read_response conn_read hh di nonce b = Some (\<lparr>Protocol = [], Extensions = []\<rparr>, None, b') \<and>
    lively.br_data b' = rest"
proof -
  let ?ls = "map (\<lambda>l. l @ [13]) (response_fields nonce)"
  have m: "map strip_cr ?ls = response_fields nonce" by (simp add: comp_def)
  have c: "list_all (\<lambda>l. strip_cr l \<noteq> [] \<and> 10 \<notin> set l) ?ls" "10 \<notin> set (response_line @ [13])"
    using response_clean [of nonce] by (simp_all add: list_all_iff clean_line_def)
  have "lively.br_data b = (response_line @ [13]) @ 10 # lines_of ?ls @ [13] @ 10 # rest"
    using d by (simp add: response_text_lines crlf_lines_of lines_of_def CRLF_bytes)
  from lively.readLine_line [OF b this c(2)] obtain b1 where
    b1: "readLine conn_read b = Some (response_line, None, b1)" "lively.br_inv b1"
      "lively.br_data b1 = lines_of ?ls @ [13] @ 10 # rest" "lively.br_end b1 = lively.br_end b" by auto
  let ?r = "\<lparr>rs_hs = \<lparr>Protocol = [], Extensions = []\<rparr>, rs_seen = 0\<rparr>"
  obtain b2 where b2: "dial_loop conn_read hh di nonce b1 ?r =
      Some (None, b2, \<lparr>rs_hs = \<lparr>Protocol = [], Extensions = []\<rparr>, rs_seen = seenAll\<rparr>)" "lively.br_data b2 = rest"
    using lively.dial_loop_lines [where hh = hh and di = di and r = ?r, OF n b1(2) _ b1(3) c(1)] b1(4) b(2)
      response_scan [OF n, of hh di ?r] unfolding m by (auto simp: seenAll_def or.assoc)
  show ?thesis
    using b1(1) b2 by (simp add: read_response_def response_line_parse Let_def)
qed

section \<open>Properties of the client side and of the two sides\<close>

definition sample_random :: "byte list" where
  "sample_random = map of_nat [0..<16]"

definition sample_url :: URL where
  "sample_url = \<lparr>url_Scheme = str_bytes ''ws'', url_Host = str_bytes ''example.com'', url_RequestURI = str_bytes ''/chat''\<rparr>"

definition sample_dest :: dest where
  "sample_dest = \<lparr>sent = [], faults = [], rands = (\<lambda>_. 0)\<rparr>"

lemma sample_client: "nonceKeySize \<le> length sample_random" "clean_url sample_url" "faults sample_dest = []"
  by (code_simp, code_simp, simp add: sample_dest_def)

text \<open>Each side with what the other one writes.\<close>

lemma default_request:
  "dial_request_text opttext fntext rnd DefaultDialer u = request_text u (base64 (take nonceKeySize rnd)) [] None []"
  by (simp add: dial_request_text_def DefaultDialer_def optional_text_def)

lemma handshake_nonce:
  assumes "nonceKeySize \<le> length rnd"
  defines "nonce \<equiv> base64 (take nonceKeySize rnd)"
  shows "trimmed nonce" "length nonce = nonceSize" "10 \<notin> set nonce"
  using initNonce_some(2) [OF assms(1)] trimmed_base64 base64_visible [of 10] by (auto simp: nonce_def)

lemma dial_own_response:
  assumes env: "handshake_env s pool hh opttext fn fntext" and r: "nonceKeySize \<le> length rnd" and f: "faults d = []"
    and s: "conn_data s = response_text (base64 (take nonceKeySize rnd)) [] None [] @ rest"
  shows "\<exists>br s' d'. Dialer_Upgrade conn_read conn_write hh fn pool rnd di u s d =
      Some (br, \<lparr>Protocol = [], Extensions = []\<rparr>, None, s', d') \<and>
    conn_out d' = conn_out d @ dial_request_text opttext fntext rnd di u \<and>
    (case br of None \<Rightarrow> rest = [] \<or> rest = conn_data s' | Some b \<Rightarrow> rest = lively.br_data b)"
proof -
  let ?n = "base64 (take nonceKeySize rnd)"
  have sl: "conn_lively s" "conn_end s \<noteq> ErrBufferFull" and sz: "0 < pool n" for n
    using env by (simp_all add: handshake_env_def)
  note n = initNonce_some [OF r]
  let ?b = "NewBufReader s (pool (nonZero (di_ReadBufferSize di) DefaultClientReadBufferSize))"
  note b = conn_reader_new [OF sl(1) sz, of "nonZero (di_ReadBufferSize di) DefaultClientReadBufferSize"]
  obtain b1 b2 where w: "httpWriteUpgradeRequest conn_write hh u ?n (di_Protocols di) (di_Extensions di)
      (map_option (header_WriteTo conn_write fn) (di_Header di))
      (NewBufWriter d (pool (nonZero (di_WriteBufferSize di) DefaultClientWriteBufferSize))) = Some b1"
      "bw_Flush conn_write b1 = Some (None, b2)" "conn_out (bw_dst b2) = conn_out d @ dial_request_text opttext fntext rnd di u"
    using dial_request [OF env r, of u di d "nonZero (di_WriteBufferSize di) DefaultClientWriteBufferSize"] f by auto
  have be: "lively.br_end ?b \<noteq> ErrBufferFull" using b(3) sl(2) by simp
  have bd: "lively.br_data ?b = response_text ?n [] None [] @ rest" using b(2) s by simp
  obtain b' where rr: "read_response conn_read hh di ?n ?b = Some (\<lparr>Protocol = [], Extensions = []\<rparr>, None, b')"
      "lively.br_data b' = rest"
    using read_own_response [OF n(2) b(1) be bd] by blast
  let ?br = "if br_Buffered b' = 0 then None else Some b'"
  have "Dialer_Upgrade conn_read conn_write hh fn pool rnd di u s d =
      Some (?br, \<lparr>Protocol = [], Extensions = []\<rparr>, None, br_src b', bw_dst b2)"
    using n(1) w(1,2) rr(1) by (simp add: Dialer_Upgrade_def Let_def)
  moreover have "case ?br of None \<Rightarrow> rest = [] \<or> rest = conn_data (br_src b') | Some b \<Rightarrow> rest = lively.br_data b"
    using rr(2) by (auto simp: br_Buffered_def lively.br_data_def)
  ultimately show ?thesis using w(3) by blast
qed

text \<open>
  C8: the dialer returns on every connection, and it reports success only after the whole request
  with its key was sent and a valid response arrived: HTTP/1.1 or later with status 101, the
  required headers, and the accept value of the key that was sent; the bytes of the server
  after the response are in the returned reader or still in the connection.
\<close>

theorem dial_accepts_valid:
  assumes "handshake_env s pool hh opttext fn fntext" and "nonceKeySize \<le> length rnd"
    and "\<And>f c t br. di_OnStatusError di = Some f \<Longrightarrow> f c t br \<noteq> None"
  shows "\<exists>br hs e s' d'. Dialer_Upgrade conn_read conn_write hh fn pool rnd di u s d = Some (br, hs, e, s', d') \<and>
    (e = None \<longrightarrow> conn_out d' = conn_out d @ dial_request_text opttext fntext rnd di u \<and>
      (\<exists>raw raws bl rest. conn_data s = lines_of (raw # raws) @ bl @ 10 # rest \<and> strip_cr bl = [] \<and>
         valid_response (base64 (take nonceKeySize rnd)) (strip_cr raw) (map strip_cr raws) \<and>
         (case br of None \<Rightarrow> rest = [] \<or> rest = conn_data s' | Some b \<Rightarrow> rest = lively.br_data b)))"
  by (rule Dialer_outcome [OF assms(1,2)]) (rule assms(3))

theorem dial_accepts_valid_witness:
  "\<exists>s br hs s' d'. Dialer_Upgrade conn_read conn_write simple_head no_headers (\<lambda>n. 16) sample_random DefaultDialer
      sample_url s sample_dest = Some (br, hs, None, s', d') \<and>
    (\<exists>raw raws. valid_response (base64 (take nonceKeySize sample_random)) (strip_cr raw) (map strip_cr raws))"
proof -
  let ?p = "response_text (base64 (take nonceKeySize sample_random)) [] None []"
  let ?s = "[REv ?p None]"
  have c: "conn_lively ?s" "conn_end ?s \<noteq> ErrBufferFull" "conn_data ?s = ?p @ []"
    by (simp_all add: response_text_def CRLF_bytes)
  note env = simple_env [OF c(1,2)]
  obtain br s' d' where d: "Dialer_Upgrade conn_read conn_write simple_head no_headers (\<lambda>n. 16) sample_random DefaultDialer
      sample_url ?s sample_dest = Some (br, \<lparr>Protocol = [], Extensions = []\<rparr>, None, s', d')"
    using dial_own_response [OF env sample_client(1,3) c(3), of DefaultDialer sample_url] by blast
  have "di_OnStatusError (DefaultDialer :: (unit, rd_event list) Dialer) = None" by (simp add: DefaultDialer_def)
  then obtain raw raws where "valid_response (base64 (take nonceKeySize sample_random)) (strip_cr raw) (map strip_cr raws)"
    using dial_accepts_valid [OF env sample_client(1), of DefaultDialer sample_url sample_dest] d by auto
  with d show ?thesis by (intro exI conjI) auto
qed

text \<open>
  C6: the two sides of the program open a connection with each other: a default dialer
  that reads what \<open>Upgrade\<close> answers to its request succeeds, and \<open>Upgrade\<close>, reading what that
  dialer sends, succeeds and answers exactly this; bytes that follow on either connection do not matter,
  nor do the sizes of the buffers and of the reads.
\<close>

theorem handshake_end_to_end:
  assumes "handshake_env sc pool hh opttext fn fntext" and "handshake_env ss pool hh opttext fn fntext"
    and "nonceKeySize \<le> length rnd" and "clean_url u" and "faults dc = []" and "faults ds = []"
    and "conn_data ss = request_text u (base64 (take nonceKeySize rnd)) [] None [] @ after"
    and "conn_data sc = response_text (base64 (take nonceKeySize rnd)) [] None [] @ rest"
  shows "(\<exists>ss' ds'. Upgrade conn_read conn_write hh fn ext pool ss ds =
        Some (\<lparr>Protocol = [], Extensions = []\<rparr>, None, ss', ds') \<and>
      conn_out ds' = conn_out ds @ response_text (base64 (take nonceKeySize rnd)) [] None []) \<and>
    (\<exists>br sc' dc'. Dialer_Upgrade conn_read conn_write hh fn pool rnd DefaultDialer u sc dc =
        Some (br, \<lparr>Protocol = [], Extensions = []\<rparr>, None, sc', dc') \<and>
      conn_out dc' = conn_out dc @ request_text u (base64 (take nonceKeySize rnd)) [] None [] \<and>
      (case br of None \<Rightarrow> rest = [] \<or> rest = conn_data sc' | Some b \<Rightarrow> rest = lively.br_data b))"
proof
  note n = handshake_nonce [OF assms(3)]
  note v = request_lines_valid [OF assms(4) n]
  have "conn_data ss = crlf_lines (request_line u # request_fields u (base64 (take nonceKeySize rnd))) @ CRLF @ after"
    using assms(7) by (simp add: request_text_lines)
  from serve_request [OF assms(2) this v(3,1), of ext ds]
  show "\<exists>ss' ds'. Upgrade conn_read conn_write hh fn ext pool ss ds =
        Some (\<lparr>Protocol = [], Extensions = []\<rparr>, None, ss', ds') \<and>
      conn_out ds' = conn_out ds @ response_text (base64 (take nonceKeySize rnd)) [] None []"
    using assms(6) v(2) by auto
next
  show "\<exists>br sc' dc'. Dialer_Upgrade conn_read conn_write hh fn pool rnd DefaultDialer u sc dc =
        Some (br, \<lparr>Protocol = [], Extensions = []\<rparr>, None, sc', dc') \<and>
      conn_out dc' = conn_out dc @ request_text u (base64 (take nonceKeySize rnd)) [] None [] \<and>
      (case br of None \<Rightarrow> rest = [] \<or> rest = conn_data sc' | Some b \<Rightarrow> rest = lively.br_data b)"
    using dial_own_response [OF assms(1,3,5,8), of DefaultDialer u] by (simp only: default_request)
qed

theorem handshake_end_to_end_witness:
  "\<exists>ss sc br ss' ds' sc' dc'.
     Upgrade conn_read conn_write simple_head no_headers (\<lambda>_. []) (\<lambda>n. 16) ss sample_dest =
       Some (\<lparr>Protocol = [], Extensions = []\<rparr>, None, ss', ds') \<and>
     Dialer_Upgrade conn_read conn_write simple_head no_headers (\<lambda>n. 16) sample_random DefaultDialer sample_url sc sample_dest =
       Some (br, \<lparr>Protocol = [], Extensions = []\<rparr>, None, sc', dc') \<and>
     conn_out ds' = conn_data sc \<and> conn_out dc' = conn_data ss"
proof -
  let ?q = "request_text sample_url (base64 (take nonceKeySize sample_random)) [] None []"
    and ?p = "response_text (base64 (take nonceKeySize sample_random)) [] None []"
  let ?ss = "[REv ?q None]" and ?sc = "[REv ?p None]"
  have c: "conn_lively ?sc" "conn_end ?sc \<noteq> ErrBufferFull" "conn_data ?sc = ?p @ []"
      "conn_lively ?ss" "conn_end ?ss \<noteq> ErrBufferFull" "conn_data ?ss = ?q @ []"
    by (simp_all add: response_text_def request_text_def CRLF_bytes)
  note w = handshake_end_to_end [OF simple_env [OF c(1,2)] simple_env [OF c(4,5)] sample_client sample_client(3) c(6,3), of "\<lambda>_. []"]
  have z: "conn_out sample_dest = []" by (simp add: sample_dest_def conn_out_def)
  obtain ss' ds' where a: "Upgrade conn_read conn_write simple_head no_headers (\<lambda>_. []) (\<lambda>n. 16) ?ss sample_dest =
       Some (\<lparr>Protocol = [], Extensions = []\<rparr>, None, ss', ds')" "conn_out ds' = conn_data ?sc"
    using w z c(3) by auto
  obtain br sc' dc' where b: "Dialer_Upgrade conn_read conn_write simple_head no_headers (\<lambda>n. 16) sample_random DefaultDialer
       sample_url ?sc sample_dest = Some (br, \<lparr>Protocol = [], Extensions = []\<rparr>, None, sc', dc')" "conn_out dc' = conn_data ?ss"
    using w z c(6) by auto
  from a b show ?thesis by (intro exI conjI)
qed

end
