(* ===== verification/Server.thy ===== *)
theory Server
  imports Session
begin

text \<open>
  The server (server.go): \<open>Run\<close> up to the listener as a function, and from there on the main
  goroutine, the accept loop and one goroutine for each connection as a step relation, whose
  labels are what the goroutines do. A connection is handled by \<open>Connecter.Run\<close> (msutil/connecter.go), of which
  the steps between its waits are kept: it looks at the context only between two frames and waits for its peer
  inside of a turn. The listener is closed when \<open>Run\<close> returns; it does not wait for
  the accept loop and the connections.
\<close>

section \<open>Starting\<close>

record ServerConfig =
  sv_addr :: "byte list"

definition NewServer :: "byte list \<Rightarrow> ServerConfig" where
  "NewServer addr = \<lparr>sv_addr = addr\<rparr>"

datatype start = AddrError err | SocketError err | ListenError err | Listening Addr

text \<open>\<open>listen\<close> is \<open>net.Listen\<close>; a nil address would be a panic.\<close>

definition Server_start ::
  "(byte list \<Rightarrow> (byte list \<times> byte list \<times> byte list) + err) \<Rightarrow> (byte list \<Rightarrow> err option) \<Rightarrow> (err \<Rightarrow> bool) \<Rightarrow>
     (byte list \<Rightarrow> byte list \<Rightarrow> err option) \<Rightarrow> ServerConfig \<Rightarrow> start option" where
  "Server_start parse remove notExist listen s =
     (case ParserAddr parse (sv_addr s) of
        (_, Some e) \<Rightarrow> Some (AddrError e)
      | (None, None) \<Rightarrow> None
      | (Some u, None) \<Rightarrow>
          (let (n, a) = Addr_Data u
           in case clearEnvConnect remove notExist n a of
                Some e \<Rightarrow> Some (SocketError e)
              | None \<Rightarrow> (case listen n a of Some e \<Rightarrow> Some (ListenError e) | None \<Rightarrow> Some (Listening u))))"

section \<open>Serving\<close>

datatype accept_phase = Selecting | Accepting | Stopped

text \<open>
  Where \<open>Connecter.Run\<close> is: in \<open>SessionsHandler.Connect\<close>, at the \<open>select\<close> of its loop, in a turn, that is in
  \<open>NextFrame\<close> or in the handler of the frame, on its way out, or back, with the connection closed. The
  session has a context of its own, below the server's, that the application and a failed write can cancel.
\<close>

datatype conn_phase = Connecting | AtSelect | InTurn | Leaving | Served

record sv_conn =
  cn_phase :: conn_phase
  cn_cancelled :: bool

datatype conn_event = Connect_ok | Connect_refused | Section_cancelled | Done_seen | Turn_begins | Turn_ends | Turn_fails

text \<open>
  The first argument is whether the server's context is done. A turn ends, well or with an error, only when the peer has sent
  a frame or the connection has ended: there is no other step out of it.
\<close>

inductive conn_step :: "bool \<Rightarrow> sv_conn \<Rightarrow> conn_event \<Rightarrow> sv_conn \<Rightarrow> bool" where
  connect_ok: "cn_phase c = Connecting \<Longrightarrow> conn_step done c Connect_ok (c\<lparr>cn_phase := AtSelect\<rparr>)"
| connect_refused: "cn_phase c = Connecting \<Longrightarrow> conn_step done c Connect_refused (c\<lparr>cn_phase := Leaving\<rparr>)"
| section_cancelled: "cn_phase c \<noteq> Served \<Longrightarrow> \<not> cn_cancelled c \<Longrightarrow>
    conn_step done c Section_cancelled (c\<lparr>cn_cancelled := True\<rparr>)"
| select_section_done: "cn_phase c = AtSelect \<Longrightarrow> done \<or> cn_cancelled c \<Longrightarrow> conn_step done c Done_seen (c\<lparr>cn_phase := Leaving\<rparr>)"
| select_section_default: "cn_phase c = AtSelect \<Longrightarrow> \<not> done \<Longrightarrow> \<not> cn_cancelled c \<Longrightarrow>
    conn_step done c Turn_begins (c\<lparr>cn_phase := InTurn\<rparr>)"
| turn_ends: "cn_phase c = InTurn \<Longrightarrow> conn_step done c Turn_ends (c\<lparr>cn_phase := AtSelect\<rparr>)"
| turn_fails: "cn_phase c = InTurn \<Longrightarrow> conn_step done c Turn_fails (c\<lparr>cn_phase := Leaving\<rparr>)"

record server =
  sv_done :: bool
  sv_listening :: bool
  sv_returned :: bool
  sv_accept :: accept_phase
  sv_conns :: "sv_conn list"

datatype server_event =
    Cancelled | Closed_listener | Stop_accepting | Try_accept | Accepted nat | Not_accepted | Handles nat conn_event | Closed_conn nat

definition Server_serving :: server where
  "Server_serving = \<lparr>sv_done = False, sv_listening = True, sv_returned = False, sv_accept = Selecting, sv_conns = []\<rparr>"

definition new_conn :: sv_conn where
  "new_conn = \<lparr>cn_phase = Connecting, cn_cancelled = False\<rparr>"

text \<open>
  \<open>Accept\<close> can fail at any time, and always does once the listener is closed; the loop then looks at
  the context again. A connection may still be accepted between the end of the context
  and the close of the listener.
\<close>

inductive server_step :: "server \<Rightarrow> server_event \<Rightarrow> server \<Rightarrow> bool" where
  cancelled: "\<not> sv_done s \<Longrightarrow> server_step s Cancelled (s\<lparr>sv_done := True\<rparr>)"
| run_returns: "\<not> sv_returned s \<Longrightarrow> sv_done s \<Longrightarrow>
    server_step s Closed_listener (s\<lparr>sv_returned := True, sv_listening := False\<rparr>)"
| select_done: "sv_accept s = Selecting \<Longrightarrow> sv_done s \<Longrightarrow> server_step s Stop_accepting (s\<lparr>sv_accept := Stopped\<rparr>)"
| select_default: "sv_accept s = Selecting \<Longrightarrow> \<not> sv_done s \<Longrightarrow> server_step s Try_accept (s\<lparr>sv_accept := Accepting\<rparr>)"
| accepts: "sv_accept s = Accepting \<Longrightarrow> sv_listening s \<Longrightarrow>
    server_step s (Accepted (length (sv_conns s))) (s\<lparr>sv_accept := Selecting, sv_conns := sv_conns s @ [new_conn]\<rparr>)"
| accept_fails: "sv_accept s = Accepting \<Longrightarrow> server_step s Not_accepted (s\<lparr>sv_accept := Selecting\<rparr>)"
| handles: "i < length (sv_conns s) \<Longrightarrow> conn_step (sv_done s) (sv_conns s ! i) e c \<Longrightarrow>
    server_step s (Handles i e) (s\<lparr>sv_conns := (sv_conns s)[i := c]\<rparr>)"
| closes: "i < length (sv_conns s) \<Longrightarrow> cn_phase (sv_conns s ! i) = Leaving \<Longrightarrow>
    server_step s (Closed_conn i) (s\<lparr>sv_conns := (sv_conns s)[i := (sv_conns s ! i)\<lparr>cn_phase := Served\<rparr>]\<rparr>)"

inductive server_run :: "server \<Rightarrow> server_event list \<Rightarrow> server \<Rightarrow> bool" where
  start: "server_run s [] s"
| step: "server_run s es s1 \<Longrightarrow> server_step s1 e s2 \<Longrightarrow> server_run s (es @ [e]) s2"

inductive_cases server_stepE: "server_step s e s'"
inductive_cases conn_stepE: "conn_step d c e c'"

lemma conn_step_open: "conn_step d c e c' \<Longrightarrow> cn_phase c \<noteq> Served \<and> cn_phase c' \<noteq> Served"
  by (erule conn_stepE) simp_all

section \<open>Every connection is closed once\<close>

text \<open>What the events so far say of the state.\<close>

definition server_log :: "server_event list \<Rightarrow> server \<Rightarrow> bool" where
  "server_log es s \<longleftrightarrow>
     (\<forall>i. count_list es (Accepted i) = of_bool (i < length (sv_conns s)) \<and>
        count_list es (Closed_conn i) = of_bool (i < length (sv_conns s) \<and> cn_phase (sv_conns s ! i) = Served)) \<and>
     (sv_returned s \<longleftrightarrow> Closed_listener \<in> set es) \<and> (sv_listening s \<longleftrightarrow> \<not> sv_returned s) \<and>
     (sv_done s \<longleftrightarrow> Cancelled \<in> set es) \<and> (sv_returned s \<or> sv_accept s = Stopped \<longrightarrow> sv_done s)"

lemma server_log_step: "server_log es s \<Longrightarrow> server_step s e s' \<Longrightarrow> server_log (es @ [e]) s'"
  by (erule server_stepE; simp add: server_log_def new_conn_def nth_append nth_list_update less_Suc_eq)
     (auto simp: nth_list_update dest: conn_step_open)

lemma server_log: "server_run Server_serving es s \<Longrightarrow> server_log es s"
proof (induction Server_serving es s rule: server_run.induct)
  case start
  show ?case by (simp add: server_log_def Server_serving_def)
qed (rule server_log_step)

text \<open>A run in two parts.\<close>

lemma server_run_split: "server_run s (xs @ ys) s' \<Longrightarrow> \<exists>s1. server_run s xs s1 \<and> server_run s1 ys s'"
proof (induction ys arbitrary: s' rule: rev_induct)
  case Nil
  then show ?case by (auto intro: server_run.start)
next
  case (snoc e ys)
  from snoc.prems obtain s2 where "server_run s (xs @ ys) s2" "server_step s2 e s'"
    by (auto elim: server_run.cases)
  then show ?case using snoc.IH by (blast intro: server_run.step)
qed

lemma server_run_append: "server_run s1 ys s' \<Longrightarrow> server_run s xs s1 \<Longrightarrow> server_run s (xs @ ys) s'"
  by (induction rule: server_run.induct) (auto simp flip: append_assoc intro: server_run.step)

lemma server_run_Nil: "server_run s [] s' \<longleftrightarrow> s' = s"
  by (auto intro: server_run.start elim: server_run.cases)

lemma server_run_Cons: "server_run s (e # es) s' \<longleftrightarrow> (\<exists>s1. server_step s e s1 \<and> server_run s1 es s')"
proof -
  have one: "server_run s [e] s1 \<longleftrightarrow> server_step s e s1" for s1
    by (auto simp: server_run_Nil dest: server_run.step [OF server_run.start] elim: server_run.cases [of s "[e]"])
  show ?thesis
    using server_run_split [of s "[e]" es s'] server_run_append [of _ es s' s "[e]"] by (auto simp: one)
qed

inductive_simps server_step_events:
  "server_step s Cancelled s'" "server_step s Closed_listener s'" "server_step s Stop_accepting s'"
  "server_step s Try_accept s'" "server_step s (Accepted i) s'" "server_step s Not_accepted s'" "server_step s (Handles i e) s'"
  "server_step s (Closed_conn i) s'"

inductive_simps conn_step_events:
  "conn_step d c Connect_ok c'" "conn_step d c Connect_refused c'" "conn_step d c Section_cancelled c'" "conn_step d c Done_seen c'"
  "conn_step d c Turn_begins c'" "conn_step d c Turn_ends c'" "conn_step d c Turn_fails c'"

lemma returned_stays: "server_run s es s' \<Longrightarrow> sv_returned s \<Longrightarrow> \<not> sv_listening s \<Longrightarrow> sv_returned s' \<and> \<not> sv_listening s'"
  by (induction rule: server_run.induct) (auto elim!: server_stepE)

text \<open>Without a listener nothing is accepted.\<close>

lemma returned_accepts_nothing:
  assumes "server_run s es s'" "sv_returned s" "\<not> sv_listening s"
  shows "Accepted i \<notin> set es"
  using assms
proof (induction rule: server_run.induct)
  case (step s es s1 e s2)
  then have "\<not> sv_listening s1" using returned_stays by blast
  with step show ?case by (auto elim: server_stepE)
qed simp

section \<open>The end of a server\<close>

text \<open>What can at most be done once \<open>Run\<close> has returned.\<close>

definition conn_work :: "sv_conn \<Rightarrow> nat" where
  "conn_work c =
     (case cn_phase c of Connecting \<Rightarrow> 3 | InTurn \<Rightarrow> 3 | AtSelect \<Rightarrow> 2 | Leaving \<Rightarrow> 1 | Served \<Rightarrow> 0) +
     of_bool (cn_phase c \<noteq> Served \<and> \<not> cn_cancelled c)"

definition server_work :: "server \<Rightarrow> nat" where
  "server_work s = (case sv_accept s of Accepting \<Rightarrow> 2 | Selecting \<Rightarrow> 1 | Stopped \<Rightarrow> 0) + sum_list (map conn_work (sv_conns s))"

definition open_conns :: "server \<Rightarrow> nat" where
  "open_conns s = length (filter (\<lambda>c. cn_phase c \<noteq> Served) (sv_conns s))"

lemma conn_work_le: "conn_work c \<le> (if cn_phase c \<noteq> Served then 4 else 0)"
  by (simp add: conn_work_def split: conn_phase.split)

lemma server_work_le: "server_work s \<le> 2 + 4 * open_conns s"
proof -
  have "sum_list (map conn_work cs) \<le> 4 * length (filter (\<lambda>c. cn_phase c \<noteq> Served) cs)" for cs
  proof (induction cs)
    case (Cons c cs)
    then show ?case using conn_work_le [of c] by (cases "cn_phase c = Served") simp_all
  qed simp
  from this [of "sv_conns s"] show ?thesis by (cases "sv_accept s") (simp_all add: server_work_def open_conns_def)
qed

lemma conn_step_works: "conn_step True c e c' \<Longrightarrow> conn_work c' < conn_work c \<and> e \<noteq> Turn_begins"
  by (erule conn_stepE) (auto simp: conn_work_def split: conn_phase.split)

lemma sum_work_update:
  assumes "i < length cs" and "conn_work c < conn_work (cs ! i)"
  shows "sum_list (map conn_work (cs[i := c])) < sum_list (map conn_work cs)"
  using assms by (induction cs arbitrary: i) (auto simp: nth_Cons split: nat.splits)

lemma server_step_works:
  assumes "server_step s e s'" "sv_returned s" "\<not> sv_listening s" "sv_done s"
  shows "server_work s' < server_work s \<and> sv_done s' \<and> (\<forall>i. e \<noteq> Handles i Turn_begins)"
  using assms(1)
proof (cases rule: server_step.cases)
  case (handles i f c)
  then have "conn_work c < conn_work (sv_conns s ! i)" "f \<noteq> Turn_begins" using conn_step_works assms(4) by auto
  with handles sum_work_update [of i "sv_conns s" c] assms(4) show ?thesis by (simp add: server_work_def)
next
  case (closes i)
  then have "conn_work ((sv_conns s ! i)\<lparr>cn_phase := Served\<rparr>) < conn_work (sv_conns s ! i)" by (simp add: conn_work_def)
  with closes sum_work_update [of i "sv_conns s"] assms(4) show ?thesis by (simp add: server_work_def)
qed (use assms in \<open>auto simp: server_work_def\<close>)

lemma server_run_works:
  assumes "server_run s es s'" "sv_returned s" "\<not> sv_listening s" "sv_done s"
  shows "length es + server_work s' \<le> server_work s \<and> sv_done s' \<and> (\<forall>i. Handles i Turn_begins \<notin> set es)"
  using assms
proof (induction rule: server_run.induct)
  case (step s es s1 e s2)
  then show ?case using server_step_works [of s1 e s2] returned_stays [of s es s1] by auto
qed simp

text \<open>The steps that are not the server's: a peer sends a frame or its connection ends, and a session is cancelled.\<close>

definition by_peer :: "nat \<Rightarrow> server_event \<Rightarrow> bool" where
  "by_peer i e \<longleftrightarrow> e = Handles i Turn_ends \<or> e = Handles i Turn_fails"

lemma server_stuck:
  assumes "\<forall>e s'. server_step s e s' \<longrightarrow> (\<exists>i. by_peer i e \<or> e = Handles i Section_cancelled)" and "sv_done s"
  shows "sv_accept s = Stopped \<and> (\<forall>c \<in> set (sv_conns s). cn_phase c = Served \<or> cn_phase c = InTurn)"
proof
  note own = server_step.select_done [of s] server_step.accept_fails [of s]
  show "sv_accept s = Stopped" using own assms by (cases "sv_accept s") (fastforce simp: by_peer_def)+
  have "cn_phase (sv_conns s ! i) = Served \<or> cn_phase (sv_conns s ! i) = InTurn" if i: "i < length (sv_conns s)" for i
  proof (cases "cn_phase (sv_conns s ! i)")
    case Connecting
    then show ?thesis using assms(1) server_step.handles [OF i conn_step.connect_ok] by (fastforce simp: by_peer_def)
  next
    case AtSelect
    then show ?thesis using assms server_step.handles [OF i conn_step.select_section_done] by (fastforce simp: by_peer_def)
  next
    case Leaving
    then show ?thesis using assms(1) server_step.closes [OF i] by (fastforce simp: by_peer_def)
  qed simp_all
  then show "\<forall>c \<in> set (sv_conns s). cn_phase c = Served \<or> cn_phase c = InTurn" by (metis in_set_conv_nth)
qed

text \<open>A connection whose peer is silent stays where it is.\<close>

lemma silent_step:
  assumes "server_step s e s'" "i < length (sv_conns s)" "cn_phase (sv_conns s ! i) = InTurn" "\<not> by_peer i e"
  shows "i < length (sv_conns s') \<and> cn_phase (sv_conns s' ! i) = InTurn \<and> e \<noteq> Closed_conn i"
  using assms
  by (auto elim!: server_stepE conn_stepE simp: nth_append nth_list_update by_peer_def split: if_splits)

lemma silent_run:
  "server_run s es s' \<Longrightarrow> i < length (sv_conns s) \<Longrightarrow> cn_phase (sv_conns s ! i) = InTurn \<Longrightarrow> \<forall>e \<in> set es. \<not> by_peer i e \<Longrightarrow>
    i < length (sv_conns s') \<and> cn_phase (sv_conns s' ! i) = InTurn \<and> Closed_conn i \<notin> set es"
proof (induction rule: server_run.induct)
  case (step s es s1 e s2)
  then show ?case using silent_step [of s1 e s2 i] by auto
qed simp

text \<open>
  C25: however the goroutines of the server interleave, a connection is closed only after it was accepted
  and no more than once, and after the listener is closed, which happens only when the context is
  done, no connection is accepted.
\<close>

theorem server_connections:
  assumes "server_run Server_serving es s"
  shows "(\<forall>i. count_list es (Accepted i) \<le> 1 \<and> count_list es (Closed_conn i) \<le> 1) \<and>
    (\<forall>xs i ys. es = xs @ Closed_conn i # ys \<longrightarrow> Accepted i \<in> set xs) \<and>
    (\<forall>xs i ys. es = xs @ Closed_listener # ys \<longrightarrow> Cancelled \<in> set xs \<and> Accepted i \<notin> set ys)"
proof (intro conjI allI impI)
  note l = server_log [OF assms]
  show "count_list es (Accepted i) \<le> 1" "count_list es (Closed_conn i) \<le> 1" for i
    using l by (simp_all add: server_log_def)
next
  fix xs i ys
  assume "es = xs @ Closed_conn i # ys"
  then obtain s1 where "server_run Server_serving (xs @ [Closed_conn i]) s1"
    using server_run_split [of Server_serving "xs @ [Closed_conn i]" ys s] assms by auto
  then have "server_log (xs @ [Closed_conn i]) s1" by (rule server_log)
  then have "count_list (xs @ [Closed_conn i]) (Closed_conn i) = of_bool (i < length (sv_conns s1) \<and> cn_phase (sv_conns s1 ! i) = Served)"
      "count_list (xs @ [Closed_conn i]) (Accepted i) = of_bool (i < length (sv_conns s1))"
    unfolding server_log_def by blast+
  then have "count_list xs (Accepted i) = 1" by (auto split: if_splits simp: of_bool_def)
  then show "Accepted i \<in> set xs" using count_notin [of "Accepted i" xs] by auto
next
  fix xs i ys
  assume e: "es = xs @ Closed_listener # ys"
  then obtain s1 where s1: "server_run Server_serving (xs @ [Closed_listener]) s1" "server_run s1 ys s"
    using server_run_split [of Server_serving "xs @ [Closed_listener]" ys s] assms by auto
  have "sv_returned s1" "\<not> sv_listening s1" "Cancelled \<in> set (xs @ [Closed_listener])"
    using server_log [OF s1(1)] by (auto simp: server_log_def)
  then show "Cancelled \<in> set xs" "Accepted i \<notin> set ys"
    using returned_accepts_nothing [OF s1(2)] by auto
qed

text \<open>A run of a server that serves one connection and is cancelled while it waits for another.\<close>

definition sample_run :: "server_event list" where
  "sample_run = [Try_accept, Accepted 0, Try_accept, Handles 0 Connect_ok, Handles 0 Turn_begins, Cancelled, Closed_listener, Not_accepted,
     Handles 0 Turn_ends, Handles 0 Done_seen, Closed_conn 0, Stop_accepting]"

definition sample_server :: "conn_phase \<Rightarrow> accept_phase \<Rightarrow> server" where
  "sample_server p a = \<lparr>sv_done = True, sv_listening = False, sv_returned = True, sv_accept = a,
     sv_conns = [\<lparr>cn_phase = p, cn_cancelled = False\<rparr>]\<rparr>"

lemma sample_run:
  "server_run Server_serving (take 7 sample_run) (sample_server InTurn Accepting)"
  "server_run (sample_server InTurn Accepting) (drop 7 sample_run) (sample_server Served Stopped)"
  by (simp_all add: sample_run_def sample_server_def Server_serving_def new_conn_def server_run_Cons server_run_Nil
      server_step_events conn_step_events)

theorem server_connections_witness:
  "count_list sample_run (Closed_conn 0) \<le> 1 \<and> Accepted 0 \<in> set (take 10 sample_run) \<and> Accepted 1 \<notin> set (drop 7 sample_run)"
proof -
  note r = server_connections [OF server_run_append [OF sample_run(2,1)]]
  have e: "take 7 sample_run @ drop 7 sample_run = sample_run" by simp
  have s: "sample_run = take 10 sample_run @ Closed_conn 0 # [Stop_accepting]"
      "sample_run = take 6 sample_run @ Closed_listener # drop 7 sample_run"
    by (simp_all add: sample_run_def)
  from r have "count_list sample_run (Closed_conn 0) \<le> 1" "Accepted 0 \<in> set (take 10 sample_run)" "Accepted 1 \<notin> set (drop 7 sample_run)"
    unfolding e using s by (blast, metis, metis)
  then show ?thesis by blast
qed

text \<open>
  C26: what is left once \<open>Run\<close> has returned. Every further run, whatever its interleaving, is bounded, by two
  steps of the accept loop and four for each connection that is open, and no connection begins
  another turn. When only peers can go on (or a session be cancelled), the accept loop has stopped, and every connection is closed
  or waits for its peer in a turn. And one that waits is not woken by the end of the context: as long as its peer sends nothing and
  its connection does not end, it stays open.
\<close>

theorem server_winds_down:
  assumes "server_run Server_serving es s" and "sv_returned s" and "server_run s es' s'"
  shows "length es' \<le> 2 + 4 * open_conns s \<and> (\<forall>i. Handles i Turn_begins \<notin> set es') \<and>
    ((\<forall>e s2. server_step s' e s2 \<longrightarrow> (\<exists>i. by_peer i e \<or> e = Handles i Section_cancelled)) \<longrightarrow>
       sv_accept s' = Stopped \<and> (\<forall>c \<in> set (sv_conns s'). cn_phase c = Served \<or> cn_phase c = InTurn)) \<and>
    (\<forall>i < length (sv_conns s). cn_phase (sv_conns s ! i) = InTurn \<and> (\<forall>e \<in> set es'. \<not> by_peer i e) \<longrightarrow>
       cn_phase (sv_conns s' ! i) = InTurn \<and> Closed_conn i \<notin> set es')"
proof -
  have "\<not> sv_listening s" "sv_done s" using server_log [OF assms(1)] assms(2) by (auto simp: server_log_def)
  then have w: "length es' + server_work s' \<le> server_work s" "sv_done s'" "\<forall>i. Handles i Turn_begins \<notin> set es'"
    using server_run_works [OF assms(3,2)] by blast+
  have "length es' \<le> 2 + 4 * open_conns s" using w(1) server_work_le [of s] by linarith
  with w(3) server_stuck [OF _ w(2)] silent_run [OF assms(3)] show ?thesis by blast
qed

theorem server_winds_down_witness:
  "length (drop 7 sample_run) \<le> 2 + 4 * open_conns (sample_server InTurn Accepting) \<and>
   cn_phase (sv_conns (sample_server InTurn Stopped) ! 0) = InTurn"
proof -
  have "server_run (sample_server InTurn Accepting) [Not_accepted, Stop_accepting] (sample_server InTurn Stopped)"
    by (simp add: sample_server_def server_run_Cons server_run_Nil server_step_events)
  note a = server_winds_down [OF sample_run(1) _ sample_run(2)] and b = server_winds_down [OF sample_run(1) _ this]
  from a have "length (drop 7 sample_run) \<le> 2 + 4 * open_conns (sample_server InTurn Accepting)" by (simp add: sample_server_def)
  moreover from b have "cn_phase (sv_conns (sample_server InTurn Stopped) ! 0) = InTurn"
    by (simp add: sample_server_def by_peer_def)
  ultimately show ?thesis by blast
qed

end
