(* ===== verification/Reconnect.thy ===== *)
theory Reconnect
  imports Session
begin

text \<open>
  The client that connects again (\<open>AutoConnectClient\<close> in msutil/client.go): its goroutines as a step relation, whose labels
  are what they do, the delays before its attempts, and how it ends.
\<close>

section \<open>The client that connects again\<close>

text \<open>
  At any time one goroutine is at work: \<open>autoReconnect\<close>, at the top of its loop, between the delay and the counter, or
  dialling, or \<open>connect\<close>, or none any more. Besides, there are \<open>ac_resets\<close> goroutines that have got a
  connection, have started \<open>connect\<close> for it, and are about to set the counter to zero: the code starts the one before it does the
  other, so the new goroutine may overtake it. The accesses to the counter are not synchronised; each is taken as one step here.
\<close>

datatype phase = LoopTop | Counting | Dialling | Connected | Finished

record AutoConnectClient =
  ac_phase :: phase
  ac_errors :: nat
  ac_resets :: nat
  ac_cancelled :: bool

text \<open>\<open>Run\<close> with the answer of the first dial.\<close>

definition AutoConnect_Run :: "err option \<Rightarrow> nat \<Rightarrow> AutoConnectClient" where
  "AutoConnect_Run e errs =
     \<lparr>ac_phase = (if e \<noteq> None then LoopTop else Connected), ac_errors = errs, ac_resets = 0, ac_cancelled = False\<rparr>"

text \<open>What \<open>autoReconnect\<close> makes of the answer of a dial.\<close>

definition reconnect_dialled :: "err option \<Rightarrow> AutoConnectClient \<Rightarrow> AutoConnectClient" where
  "reconnect_dialled e c =
     (case e of
        None \<Rightarrow> c\<lparr>ac_phase := Connected, ac_resets := ac_resets c + 1\<rparr>
      | Some er \<Rightarrow>
          if er = ErrNoURL then c\<lparr>ac_phase := Finished, ac_cancelled := True\<rparr> else c\<lparr>ac_phase := LoopTop\<rparr>)"

text \<open>The code \<open>connect\<close> ends with: the context was done, or the client returned an error.\<close>

definition connect_code :: "err option option \<Rightarrow> int" where
  "connect_code outcome =
     (case outcome of
        None \<Rightarrow> 1
      | Some None \<Rightarrow> 0
      | Some (Some e) \<Rightarrow> if e = ErrClientClosed then 1 else 0)"

definition auto_close :: "int \<Rightarrow> AutoConnectClient \<Rightarrow> AutoConnectClient" where
  "auto_close c a =
     (if c = 0 then a\<lparr>ac_phase := LoopTop\<rparr> else a\<lparr>ac_phase := Finished, ac_cancelled := True\<rparr>)"

datatype auto_event = Waits nat | Counts | Dialled "err option" | Resets | Ended "err option" | Ctx_done | Cancels

inductive auto_step :: "AutoConnectClient \<Rightarrow> auto_event \<Rightarrow> AutoConnectClient \<Rightarrow> bool" where
  waits: "ac_phase c = LoopTop \<Longrightarrow> auto_step c (Waits (ac_errors c * 2)) (c\<lparr>ac_phase := Counting\<rparr>)"
| counts: "ac_phase c = Counting \<Longrightarrow> auto_step c Counts (c\<lparr>ac_phase := Dialling, ac_errors := ac_errors c + 1\<rparr>)"
| dialled: "ac_phase c = Dialling \<Longrightarrow> auto_step c (Dialled e) (reconnect_dialled e c)"
| resets: "0 < ac_resets c \<Longrightarrow> auto_step c Resets (c\<lparr>ac_errors := 0, ac_resets := ac_resets c - 1\<rparr>)"
| ended: "ac_phase c = Connected \<Longrightarrow> auto_step c (Ended e) (auto_close (connect_code (Some e)) c)"
| ctx_done: "ac_phase c = Connected \<Longrightarrow> ac_cancelled c \<Longrightarrow> auto_step c Ctx_done (auto_close (connect_code None) c)"
| cancel: "auto_step c Cancels (c\<lparr>ac_cancelled := True\<rparr>)"

inductive auto_run :: "AutoConnectClient \<Rightarrow> auto_event list \<Rightarrow> AutoConnectClient \<Rightarrow> bool" where
  start: "auto_run c [] c"
| step: "auto_run c es c1 \<Longrightarrow> auto_step c1 e c2 \<Longrightarrow> auto_run c (es @ [e]) c2"

inductive_cases auto_stepE: "auto_step c e c'"

inductive_simps auto_step_events:
  "auto_step c (Waits d) c'" "auto_step c Counts c'" "auto_step c (Dialled e) c'" "auto_step c Resets c'" "auto_step c (Ended e) c'"
  "auto_step c Ctx_done c'" "auto_step c Cancels c'"

lemma auto_run_split: "auto_run c (xs @ ys) c' \<Longrightarrow> \<exists>c1. auto_run c xs c1 \<and> auto_run c1 ys c'"
proof (induction ys arbitrary: c' rule: rev_induct)
  case Nil
  then show ?case by (auto intro: auto_run.start)
next
  case (snoc e ys)
  from snoc.prems obtain c2 where "auto_run c (xs @ ys) c2" "auto_step c2 e c'"
    by (auto elim: auto_run.cases)
  then show ?case using snoc.IH by (blast intro: auto_run.step)
qed

lemma auto_run_Nil: "auto_run c [] c' \<longleftrightarrow> c' = c"
  by (auto intro: auto_run.start elim: auto_run.cases)

lemma auto_run_snoc: "auto_run c (es @ [e]) c' \<longleftrightarrow> (\<exists>c1. auto_run c es c1 \<and> auto_step c1 e c')"
  by (auto intro: auto_run.step elim: auto_run.cases)

lemma auto_run_append: "auto_run c1 ys c' \<Longrightarrow> auto_run c xs c1 \<Longrightarrow> auto_run c (xs @ ys) c'"
  by (induction rule: auto_run.induct) (auto simp flip: append_assoc intro: auto_run.step)

lemma auto_run_one: "auto_run c [e] c' \<longleftrightarrow> auto_step c e c'"
  using auto_run_snoc [of c "[]" e c'] by (simp add: auto_run_Nil)

lemma auto_run_Cons: "auto_run c (e # es) c' \<longleftrightarrow> (\<exists>c1. auto_step c e c1 \<and> auto_run c1 es c')"
  using auto_run_split [of c "[e]" es c'] auto_run_append [of _ es c' c "[e]"] by (auto simp: auto_run_one)

section \<open>The delays\<close>

text \<open>
  Of a run so far: what happened since the last \<open>e\<close>, the dials that failed since the last connection, and how
  many connections have not set the counter to zero yet.
\<close>

definition since :: "auto_event \<Rightarrow> auto_event list \<Rightarrow> auto_event list" where
  "since e es = takeWhile (\<lambda>x. x \<noteq> e) (rev es)"

definition failures :: "auto_event list \<Rightarrow> nat" where
  "failures es = length (filter (\<lambda>x. \<exists>er. x = Dialled (Some er)) (since (Dialled None) es))"

definition pending :: "auto_event list \<Rightarrow> nat" where
  "pending es = count_list es (Dialled None) - count_list es Resets"

text \<open>No attempt is begun between a connection and its reset of the counter.\<close>

fun attempting :: "auto_event \<Rightarrow> bool" where
  "attempting (Waits d) = True"
| "attempting Counts = True"
| "attempting _ = False"

definition in_order :: "auto_event list \<Rightarrow> bool" where
  "in_order es \<longleftrightarrow> (\<forall>i < length es. attempting (es ! i) \<longrightarrow> pending (take i es) = 0)"

lemma since_snoc [simp]: "since e (es @ [x]) = (if x = e then [] else x # since e es)"
  by (simp add: since_def)

lemma since_Nil [simp]: "since e [] = []"
  by (simp add: since_def)

lemma in_order_snoc: "in_order (es @ [x]) \<longleftrightarrow> in_order es \<and> (attempting x \<longrightarrow> pending es = 0)"
  by (auto simp: in_order_def nth_append less_Suc_eq)

text \<open>What the events of a run say of the state it has reached.\<close>

definition auto_log :: "auto_event list \<Rightarrow> AutoConnectClient \<Rightarrow> bool" where
  "auto_log es c \<longleftrightarrow>
     ac_errors c = count_list (since Resets es) Counts \<and>
     count_list es (Dialled None) = count_list es Resets + ac_resets c \<and>
     (ac_phase c \<noteq> Finished \<longrightarrow> count_list (since (Dialled None) es) Counts = failures es + of_bool (ac_phase c = Dialling)) \<and>
     (in_order es \<longrightarrow> (if ac_resets c = 0 then ac_errors c = count_list (since (Dialled None) es) Counts
        else ac_resets c = 1 \<and> count_list (since (Dialled None) es) Counts = 0)) \<and>
     (ac_phase c = Finished \<longrightarrow> ac_cancelled c)"

lemma auto_log_pending: "auto_log es c \<Longrightarrow> pending es = ac_resets c"
  by (simp add: auto_log_def pending_def)

lemma auto_log_step:
  assumes l: "auto_log es c" and s: "auto_step c e c'"
  shows "auto_log (es @ [e]) c'"
  using s
proof (cases rule: auto_step.cases)
  case (dialled f)
  then show ?thesis
    using l by (cases f) (auto simp: auto_log_def auto_log_pending [OF l] reconnect_dialled_def failures_def in_order_snoc split: if_splits)
qed (use l auto_log_pending [OF l] in \<open>auto simp: auto_log_def failures_def in_order_snoc auto_close_def\<close>)

lemma auto_log: "auto_run (AutoConnect_Run e 0) es c \<Longrightarrow> auto_log es c"
proof (induction "AutoConnect_Run e 0" es c rule: auto_run.induct)
  case start
  show ?case by (simp add: auto_log_def AutoConnect_Run_def failures_def in_order_def)
qed (rule auto_log_step)

lemma finished_stays: "auto_run c es c' \<Longrightarrow> ac_phase c = Finished \<Longrightarrow> ac_phase c' = Finished \<and> set es \<subseteq> {Resets, Cancels}"
  by (induction rule: auto_run.induct) (auto elim!: auto_stepE)

text \<open>
  C35: before an attempt the client waits two seconds for each attempt that it has counted since a goroutine last set the counter
  to zero, which only one that has got a connection does, and once for each connection. So, as long as no attempt begins between a connection and its
  reset of the counter, the delay is two seconds for each dial that has failed since the last connection: 0, 2, 4, ... seconds, and 0 again after a
  connection. And the client has finished only when its context is cancelled, and then it makes no further attempt.
\<close>

theorem reconnect_delays:
  assumes "auto_run (AutoConnect_Run e 0) es c"
  shows "(\<forall>xs d ys. es = xs @ Waits d # ys \<longrightarrow>
      d = 2 * count_list (since Resets xs) Counts \<and> count_list xs Resets \<le> count_list xs (Dialled None) \<and>
      (in_order (xs @ [Waits d]) \<longrightarrow> d = 2 * failures xs)) \<and>
    (ac_phase c = Finished \<longrightarrow> ac_cancelled c \<and> (\<forall>es' c'. auto_run c es' c' \<longrightarrow> set es' \<subseteq> {Resets, Cancels}))"
proof (intro conjI allI impI)
  fix xs d ys assume es: "es = xs @ Waits d # ys"
  then obtain c1 where "auto_run (AutoConnect_Run e 0) (xs @ [Waits d]) c1"
    using auto_run_split [of "AutoConnect_Run e 0" "xs @ [Waits d]" ys c] assms by auto
  then obtain c0 where c0: "auto_run (AutoConnect_Run e 0) xs c0" "auto_step c0 (Waits d) c1" by (auto simp: auto_run_snoc)
  have l: "auto_log xs c0" by (rule auto_log [OF c0(1)])
  have d: "d = 2 * ac_errors c0" "ac_phase c0 = LoopTop" using c0(2) by (simp_all add: auto_step_events)
  show "d = 2 * count_list (since Resets xs) Counts" "count_list xs Resets \<le> count_list xs (Dialled None)"
    using d(1) l by (simp_all add: auto_log_def)
  assume "in_order (xs @ [Waits d])"
  then show "d = 2 * failures xs" using d l auto_log_pending [OF l] by (auto simp: auto_log_def in_order_snoc)
next
  assume "ac_phase c = Finished"
  then show "ac_cancelled c" "auto_run c es' c' \<Longrightarrow> set es' \<subseteq> {Resets, Cancels}" for es' c'
    using auto_log [OF assms] finished_stays by (auto simp: auto_log_def)
qed

text \<open>Two failed dials, a connection that ends with its stream, and the next attempt, without and with the race.\<close>

definition two_failures :: "auto_event list" where
  "two_failures = [Waits 0, Counts, Dialled (Some (NetErr 0)), Waits 2, Counts, Dialled (Some (NetErr 0)), Waits 4, Counts, Dialled None]"

lemma two_failures_run:
  "auto_run (AutoConnect_Run (Some EOF) 0) (two_failures @ [Resets, Ended (Some EOF), Waits 0])
     \<lparr>ac_phase = Counting, ac_errors = 0, ac_resets = 0, ac_cancelled = False\<rparr>"
  "auto_run (AutoConnect_Run (Some EOF) 0) (two_failures @ [Ended (Some EOF), Waits 6])
     \<lparr>ac_phase = Counting, ac_errors = 3, ac_resets = 1, ac_cancelled = False\<rparr>"
  unfolding two_failures_def
  by (simp_all add: auto_run_Cons auto_run_Nil auto_step_events AutoConnect_Run_def reconnect_dialled_def auto_close_def connect_code_def)

theorem reconnect_delays_witness:
  "(4::nat) = 2 * failures (take 6 two_failures) \<and> (0::nat) = 2 * failures (two_failures @ [Resets, Ended (Some EOF)])"
proof -
  note r = reconnect_delays [OF two_failures_run(1)]
  have a: "two_failures @ [Resets, Ended (Some EOF), Waits 0] = take 6 two_failures @ Waits 4 # [Counts, Dialled None, Resets, Ended (Some EOF), Waits 0]"
      "two_failures @ [Resets, Ended (Some EOF), Waits 0] = (two_failures @ [Resets, Ended (Some EOF)]) @ Waits 0 # []"
    by (simp_all add: two_failures_def)
  have o: "in_order (take 6 two_failures @ [Waits 4])" "in_order ((two_failures @ [Resets, Ended (Some EOF)]) @ [Waits 0])"
    by (simp_all add: in_order_def two_failures_def pending_def All_less_Suc2 numeral_eq_Suc)
  from r a(1) o(1) have "4 = 2 * failures (take 6 two_failures)" by blast
  moreover from r a(2) o(2) have "0 = 2 * failures (two_failures @ [Resets, Ended (Some EOF)])" by blast
  ultimately show ?thesis by blast
qed

text \<open>
  The race: the new connection ends and the next attempt begins before the counter is set to zero, and
  waits for six seconds after a connection; the late reset then falls into the new round of attempts.
\<close>

lemma late_reset: "Waits 6 \<in> set (two_failures @ [Ended (Some EOF), Waits 6]) \<and> failures (two_failures @ [Ended (Some EOF)]) = 0"
  by (simp add: failures_def two_failures_def since_def)

text \<open>
  Cancelling the context does not stop the attempts: a cancelled client that is connecting again
  makes another attempt and gets a connection.
\<close>

lemma reconnect_ignores_cancel:
  "ac_phase c = LoopTop \<Longrightarrow> ac_cancelled c \<Longrightarrow>
     \<exists>c'. auto_run c [Waits (ac_errors c * 2), Counts, Dialled None] c' \<and> ac_phase c' = Connected \<and> ac_cancelled c'"
  by (simp add: auto_run_Cons auto_run_Nil auto_step_events reconnect_dialled_def)

end
