(* ===== verification/Deadline.thy ===== *)
theory Deadline
  imports Dialer
begin

text \<open>
  The interrupter of \<open>Dial\<close> (\<open>setupContextDeadliner\<close> in dialer.go): the goroutine that watches the
  context, the two channels it shares with \<open>done\<close>, and the connection it poisons. \<open>quit\<close> is
  closed by \<open>done\<close>; \<open>interrupt\<close> has room for one value.
\<close>

datatype watcher = Watching | Poisoned err | Gone

datatype caller = Working | Closing "err option" | Ended "err option"

record interrupter =
  ip_watcher :: watcher
  ip_caller :: caller
  ip_ctx :: "err option"
  ip_quit :: bool
  ip_interrupt :: "err option list"
  ip_poisoned :: bool

definition setupContextDeadliner :: "err option \<Rightarrow> interrupter" where
  "setupContextDeadliner ctx = \<lparr>ip_watcher = Watching, ip_caller = Working, ip_ctx = ctx, ip_quit = False,
     ip_interrupt = [], ip_poisoned = False\<rparr>"

text \<open>
  The select of the goroutine may take either branch when both are ready; a send needs room in the
  channel, a receive needs a value.
\<close>

inductive interrupter_step :: "(err \<Rightarrow> bool) \<Rightarrow> interrupter \<Rightarrow> interrupter \<Rightarrow> bool" for isTimeout where
  expires: "ip_ctx s = None \<Longrightarrow> interrupter_step isTimeout s (s\<lparr>ip_ctx := Some er\<rparr>)"
| sees_quit: "ip_watcher s = Watching \<Longrightarrow> ip_quit s \<Longrightarrow> length (ip_interrupt s) < 1 \<Longrightarrow>
    interrupter_step isTimeout s (s\<lparr>ip_watcher := Gone, ip_interrupt := ip_interrupt s @ [None]\<rparr>)"
| sees_ctx: "ip_watcher s = Watching \<Longrightarrow> ip_ctx s = Some er \<Longrightarrow>
    interrupter_step isTimeout s (s\<lparr>ip_watcher := Poisoned er, ip_poisoned := True\<rparr>)"
| reports: "ip_watcher s = Poisoned er \<Longrightarrow> length (ip_interrupt s) < 1 \<Longrightarrow>
    interrupter_step isTimeout s (s\<lparr>ip_watcher := Gone, ip_interrupt := ip_interrupt s @ [Some er]\<rparr>)"
| done_called: "ip_caller s = Working \<Longrightarrow> interrupter_step isTimeout s (s\<lparr>ip_caller := Closing e, ip_quit := True\<rparr>)"
| done_returns: "ip_caller s = Closing e \<Longrightarrow> ip_interrupt s = x # xs \<Longrightarrow>
    interrupter_step isTimeout s (s\<lparr>ip_caller := Ended (map_ctx_err isTimeout x e), ip_interrupt := xs\<rparr>)"

inductive interrupter_run :: "(err \<Rightarrow> bool) \<Rightarrow> interrupter \<Rightarrow> nat \<Rightarrow> interrupter \<Rightarrow> bool" for isTimeout where
  start: "interrupter_run isTimeout s 0 s"
| step: "interrupter_run isTimeout s n s1 \<Longrightarrow> interrupter_step isTimeout s1 s2 \<Longrightarrow> interrupter_run isTimeout s (Suc n) s2"

inductive_cases interrupter_stepE: "interrupter_step isTimeout s s'"

section \<open>The invariant\<close>

text \<open>The value that the goroutine reported or will report, by what it has done to the connection.\<close>

definition interrupter_inv :: "(err \<Rightarrow> bool) \<Rightarrow> interrupter \<Rightarrow> bool" where
  "interrupter_inv isTimeout s \<longleftrightarrow>
     (case ip_watcher s of
        Watching \<Rightarrow> ip_interrupt s = [] \<and> \<not> ip_poisoned s
      | Poisoned er \<Rightarrow> ip_interrupt s = [] \<and> ip_poisoned s \<and> ip_ctx s = Some er
      | Gone \<Rightarrow> True) \<and>
     (case ip_caller s of
        Ended r \<Rightarrow> ip_watcher s = Gone \<and> ip_interrupt s = [] \<and>
          (\<exists>x e. r = map_ctx_err isTimeout x e \<and> (ip_poisoned s \<longleftrightarrow> x \<noteq> None) \<and> (x \<noteq> None \<longrightarrow> x = ip_ctx s))
      | _ \<Rightarrow> ip_watcher s = Gone \<longrightarrow>
          (\<exists>x. ip_interrupt s = [x] \<and> (ip_poisoned s \<longleftrightarrow> x \<noteq> None) \<and> (x \<noteq> None \<longrightarrow> x = ip_ctx s))) \<and>
     (ip_quit s \<longleftrightarrow> ip_caller s \<noteq> Working)"

lemma interrupter_step_inv: "interrupter_step isTimeout s s' \<Longrightarrow> interrupter_inv isTimeout s \<Longrightarrow> interrupter_inv isTimeout s'"
  by (erule interrupter_stepE) (auto simp: interrupter_inv_def split: watcher.splits caller.splits)

lemma interrupter_run_inv: "interrupter_run isTimeout s n s' \<Longrightarrow> interrupter_inv isTimeout s \<Longrightarrow> interrupter_inv isTimeout s'"
  by (induction rule: interrupter_run.induct) (auto intro: interrupter_step_inv)

lemma setup_inv: "interrupter_inv isTimeout (setupContextDeadliner ctx)"
  by (simp add: interrupter_inv_def setupContextDeadliner_def)

text \<open>What every goroutine has left to do.\<close>

definition interrupter_work :: "interrupter \<Rightarrow> nat" where
  "interrupter_work s =
     (case ip_watcher s of Watching \<Rightarrow> 2 | Poisoned er \<Rightarrow> 1 | Gone \<Rightarrow> 0) +
     (case ip_caller s of Working \<Rightarrow> 2 | Closing e \<Rightarrow> 1 | Ended e \<Rightarrow> 0) + (if ip_ctx s = None then 1 else 0)"

lemma interrupter_step_work: "interrupter_step isTimeout s s' \<Longrightarrow> interrupter_work s' < interrupter_work s"
  by (erule interrupter_stepE) (auto simp: interrupter_work_def)

lemma interrupter_run_work: "interrupter_run isTimeout s n s' \<Longrightarrow> n + interrupter_work s' \<le> interrupter_work s"
  by (induction rule: interrupter_run.induct) (auto dest: interrupter_step_work)

lemma ended_stays: "interrupter_run isTimeout s n s' \<Longrightarrow> ip_caller s = Ended r \<Longrightarrow> interrupter_inv isTimeout s \<Longrightarrow>
    ip_caller s' = Ended r \<and> ip_poisoned s' = ip_poisoned s"
proof (induction rule: interrupter_run.induct)
  case (step s n s1 s2)
  then have "interrupter_inv isTimeout s1" "ip_caller s1 = Ended r" using interrupter_run_inv by blast+
  with step show ?case by (auto elim!: interrupter_stepE simp: interrupter_inv_def)
qed simp

text \<open>
  C27: after \<open>done\<close> has returned, the interrupter is gone and never touches the connection again; an error that
  \<open>done\<close> leaves away means that it never did: a dial that succeeds hands out a connection with its
  deadline as it was. An expired context that did poison the connection is reported, over the
  absence of an error and over timeouts.
\<close>

theorem deadliner_done:
  assumes "interrupter_run isTimeout (setupContextDeadliner ctx) n s" and "ip_caller s = Ended r"
  shows "ip_watcher s = Gone \<and> (r = None \<longrightarrow> \<not> ip_poisoned s) \<and>
    (ip_poisoned s \<longrightarrow> r = ip_ctx s \<or> (\<exists>er. r = Some er \<and> \<not> isTimeout er)) \<and>
    (\<forall>m s'. interrupter_run isTimeout s m s' \<longrightarrow> ip_caller s' = Ended r \<and> ip_poisoned s' = ip_poisoned s)"
proof -
  have i: "interrupter_inv isTimeout s" by (rule interrupter_run_inv [OF assms(1) setup_inv])
  then obtain x e where "ip_watcher s = Gone" "r = map_ctx_err isTimeout x e" "ip_poisoned s \<longleftrightarrow> x \<noteq> None" "x \<noteq> None \<longrightarrow> x = ip_ctx s"
    using assms(2) by (auto simp: interrupter_inv_def)
  with ended_stays [OF _ assms(2) i] show ?thesis by (auto simp: map_ctx_err_def split: option.splits if_splits)
qed

text \<open>A context that expires while \<open>done\<close> is called for an operation without an error.\<close>

definition interrupted :: "watcher \<Rightarrow> caller \<Rightarrow> bool \<Rightarrow> err option list \<Rightarrow> bool \<Rightarrow> interrupter" where
  "interrupted w c q i p = \<lparr>ip_watcher = w, ip_caller = c, ip_ctx = Some (ExtErr 0), ip_quit = q, ip_interrupt = i, ip_poisoned = p\<rparr>"

lemma interrupted_steps:
  "interrupter_step isTimeout (interrupted Watching c q i p) (interrupted (Poisoned (ExtErr 0)) c q i True)"
  "interrupter_step isTimeout (interrupted w Working q i p) (interrupted w (Closing e) True i p)"
  "interrupter_step isTimeout (interrupted (Poisoned er) c q [] p) (interrupted Gone c q [Some er] p)"
  "interrupter_step isTimeout (interrupted w (Closing e) q [x] p) (interrupted w (Ended (map_ctx_err isTimeout x e)) q [] p)"
  using interrupter_step.sees_ctx [of "interrupted Watching c q i p" "ExtErr 0" isTimeout]
    interrupter_step.done_called [of "interrupted w Working q i p" isTimeout e]
    interrupter_step.reports [of "interrupted (Poisoned er) c q [] p" er isTimeout]
    interrupter_step.done_returns [of "interrupted w (Closing e) q [x] p" e x "[]" isTimeout]
  by (simp_all add: interrupted_def)

lemma interrupted_run:
  "interrupter_run isTimeout (setupContextDeadliner (Some (ExtErr 0))) 2 (interrupted (Poisoned (ExtErr 0)) (Closing None) True [] True)"
  "interrupter_run isTimeout (setupContextDeadliner (Some (ExtErr 0))) 4 (interrupted Gone (Ended (Some (ExtErr 0))) True [] True)"
proof -
  have s: "setupContextDeadliner (Some (ExtErr 0)) = interrupted Watching Working False [] False"
    by (simp add: interrupted_def setupContextDeadliner_def)
  show a: "interrupter_run isTimeout (setupContextDeadliner (Some (ExtErr 0))) 2 (interrupted (Poisoned (ExtErr 0)) (Closing None) True [] True)"
    unfolding s using interrupter_run.step [OF interrupter_run.step [OF interrupter_run.start interrupted_steps(1)] interrupted_steps(2)]
    by (simp add: numeral_eq_Suc)
  have "map_ctx_err isTimeout (Some (ExtErr 0)) None = Some (ExtErr 0)" by (simp add: map_ctx_err_def)
  with interrupter_run.step [OF interrupter_run.step [OF a interrupted_steps(3)] interrupted_steps(4)]
  show "interrupter_run isTimeout (setupContextDeadliner (Some (ExtErr 0))) 4 (interrupted Gone (Ended (Some (ExtErr 0))) True [] True)"
    by (simp add: numeral_eq_Suc)
qed

theorem deadliner_done_witness:
  "ip_watcher (interrupted Gone (Ended (Some (ExtErr 0))) True [] True) = Gone \<and>
   ip_caller (interrupted Gone (Ended (Some (ExtErr 0))) True [] True) = Ended (ip_ctx (interrupted Gone (Ended (Some (ExtErr 0))) True [] True))"
  using deadliner_done [OF interrupted_run(2) [of "\<lambda>_. True"]] by (simp add: interrupted_def)

text \<open>
  C28: \<open>done\<close> always returns: no run of the goroutines is longer than five steps, and while it waits,
  another step is possible.
\<close>

theorem deadliner_returns:
  assumes "interrupter_run isTimeout (setupContextDeadliner ctx) n s"
  shows "n \<le> 5 \<and> (ip_caller s = Closing e \<longrightarrow> (\<exists>s'. interrupter_step isTimeout s s' \<and> ip_ctx s' = ip_ctx s))"
proof
  show "n \<le> 5"
    using interrupter_run_work [OF assms] by (simp add: interrupter_work_def setupContextDeadliner_def split: if_splits)
  have i: "interrupter_inv isTimeout s" by (rule interrupter_run_inv [OF assms setup_inv])
  show "ip_caller s = Closing e \<longrightarrow> (\<exists>s'. interrupter_step isTimeout s s' \<and> ip_ctx s' = ip_ctx s)"
  proof
    assume c: "ip_caller s = Closing e"
    show "\<exists>s'. interrupter_step isTimeout s s' \<and> ip_ctx s' = ip_ctx s"
    proof (cases "ip_watcher s")
      case Watching
      with i c have "ip_quit s" "length (ip_interrupt s) < 1" by (simp_all add: interrupter_inv_def)
      from interrupter_step.sees_quit [OF Watching this] show ?thesis by force
    next
      case (Poisoned er)
      with i have "length (ip_interrupt s) < 1" by (simp add: interrupter_inv_def)
      from interrupter_step.reports [OF Poisoned this] show ?thesis by force
    next
      case Gone
      with i c obtain x where "ip_interrupt s = [x]" by (auto simp: interrupter_inv_def)
      from interrupter_step.done_returns [OF c this] show ?thesis by force
    qed
  qed
qed

theorem deadliner_returns_witness:
  "\<exists>s'. interrupter_step (\<lambda>_. True) (interrupted (Poisoned (ExtErr 0)) (Closing None) True [] True) s'"
  using deadliner_returns [OF interrupted_run(1) [of "\<lambda>_. True"], of None] by (auto simp: interrupted_def)

end
