(* ===== verification/Logging.thy ===== *)
theory Logging
  imports Errors
begin

text \<open>
  The loggers (log.go): the levels, the logger that drops everything and the one that prints. A
  message is given by the texts of its operands; what is printed by one call is a line, without
  the time that \<open>log.Print\<close> puts in front of it.
\<close>

section \<open>Levels\<close>

definition colors :: "(byte list \<times> byte list) list" where
  "colors = [(str_bytes ''INFO'', 27 # str_bytes ''[36m''), (str_bytes ''WARN'', 27 # str_bytes ''[33m''),
     (str_bytes ''ERROR'', 27 # str_bytes ''[31m'')]"

definition levelToInt :: "(byte list \<times> int) list" where
  "levelToInt = [([], -1), (str_bytes ''DEBUG'', 0), (str_bytes ''INFO'', 1), (str_bytes ''WARN'', 2), (str_bytes ''ERROR'', 3)]"

definition LevelToSeverity :: "(byte list \<times> int) list" where
  "LevelToSeverity = [([], 0), (str_bytes ''DEBUG'', 0), (str_bytes ''INFO'', 0), (str_bytes ''WARN'', 1), (str_bytes ''ERROR'', 2)]"

text \<open>A key that is not in a map has the zero value.\<close>

definition map_index :: "('k \<times> 'v) list \<Rightarrow> 'v \<Rightarrow> 'k \<Rightarrow> 'v" where
  "map_index m z k = (case map_of m k of None \<Rightarrow> z | Some v \<Rightarrow> v)"

text \<open>
  \<open>strings.ToUpper\<close>, as far as it can give the name of a level: the ASCII letters, and the two
  other characters with an ASCII upper case, the dotless i and the long s.
\<close>

fun ToUpper :: "byte list \<Rightarrow> byte list" where
  "ToUpper (c # d # s) =
     (if c = 0xC4 \<and> d = 0xB1 then 0x49 # ToUpper s
      else if c = 0xC5 \<and> d = 0xBF then 0x53 # ToUpper s
      else (if 0x61 \<le> c \<and> c \<le> 0x7A then c - 0x20 else c) # ToUpper (d # s))"
| "ToUpper [c] = [if 0x61 \<le> c \<and> c \<le> 0x7A then c - 0x20 else c]"
| "ToUpper [] = []"

section \<open>The loggers\<close>

record stdoutLogger =
  lg_mod :: "byte list"
  lg_color :: bool
  lg_min :: int

datatype Logger = Noop | StdoutLogger stdoutLogger

definition Stdout :: "byte list \<Rightarrow> byte list \<Rightarrow> bool \<Rightarrow> Logger" where
  "Stdout module minLevel color =
     StdoutLogger \<lparr>lg_mod = module, lg_color = color, lg_min = map_index levelToInt 0 (ToUpper minLevel)\<rparr>"

text \<open>\<open>fmt.Sprintln\<close> of operands with these texts.\<close>

fun Sprintln :: "byte list list \<Rightarrow> byte list" where
  "Sprintln [] = [10]"
| "Sprintln [m] = m @ [10]"
| "Sprintln (m # ms) = m @ 32 # Sprintln ms"

text \<open>The text of one line; all operands of \<open>log.Print\<close> are strings and follow each other.\<close>

definition log_line :: "stdoutLogger \<Rightarrow> byte list \<Rightarrow> byte list \<Rightarrow> byte list" where
  "log_line s level outmsg =
     (let (colorStart, colorReset) =
        (if lg_color s then (map_index colors [] level, 27 # str_bytes ''[0m'') else ([], []))
      in colorStart @ str_bytes ''['' @ lg_mod s @ str_bytes '' '' @ level @ str_bytes ''] '' @ outmsg @ colorReset)"

text \<open>\<open>sprintf\<close> is \<open>fmt.Sprintf\<close>.\<close>

definition outputf ::
  "(byte list \<Rightarrow> byte list list \<Rightarrow> byte list) \<Rightarrow> stdoutLogger \<Rightarrow> byte list \<Rightarrow> byte list \<Rightarrow> byte list list \<Rightarrow> byte list option" where
  "outputf sprintf s level msg args =
     (if map_index levelToInt 0 level < lg_min s then None
      else Some (log_line s level (if 0 < length args then sprintf msg args else msg)))"

definition logger_output :: "stdoutLogger \<Rightarrow> byte list \<Rightarrow> byte list list \<Rightarrow> byte list option" where
  "logger_output s level msgs =
     (if map_index levelToInt 0 level < lg_min s then None
      else (let outmsg = Sprintln msgs in Some (log_line s level (take (length outmsg - 1) outmsg))))"

definition log_with :: "byte list \<Rightarrow> Logger \<Rightarrow> byte list list \<Rightarrow> byte list option" where
  "log_with level l msgs = (case l of Noop \<Rightarrow> None | StdoutLogger s \<Rightarrow> logger_output s level msgs)"

definition Warn :: "Logger \<Rightarrow> byte list list \<Rightarrow> byte list option" where "Warn = log_with (str_bytes ''WARN'')"
definition Error :: "Logger \<Rightarrow> byte list list \<Rightarrow> byte list option" where "Error = log_with (str_bytes ''ERROR'')"
definition Info :: "Logger \<Rightarrow> byte list list \<Rightarrow> byte list option" where "Info = log_with (str_bytes ''INFO'')"
definition Debug :: "Logger \<Rightarrow> byte list list \<Rightarrow> byte list option" where "Debug = log_with (str_bytes ''DEBUG'')"

section \<open>What is printed\<close>

fun spaced :: "byte list list \<Rightarrow> byte list" where
  "spaced [] = []"
| "spaced [m] = m"
| "spaced (m # ms) = m @ 32 # spaced ms"

lemma Sprintln_spaced: "Sprintln ms = spaced ms @ [10]"
  by (induction ms rule: Sprintln.induct) simp_all

lemma logger_output_eq:
  "logger_output s level msgs = (if map_index levelToInt 0 level < lg_min s then None else Some (log_line s level (spaced msgs)))"
  by (simp add: logger_output_def Sprintln_spaced Let_def)

lemma level_values:
  "map_index levelToInt 0 (str_bytes ''DEBUG'') = 0" "map_index levelToInt 0 (str_bytes ''INFO'') = 1"
  "map_index levelToInt 0 (str_bytes ''WARN'') = 2" "map_index levelToInt 0 (str_bytes ''ERROR'') = 3"
  by code_simp+

lemma level_names:
  "distinct [str_bytes ''DEBUG'', str_bytes ''INFO'', str_bytes ''WARN'', str_bytes ''ERROR'', []]"
  by code_simp

lemma level_least: "map_index levelToInt 0 l \<le> 3"
  "2 < map_index levelToInt 0 l \<longleftrightarrow> l = str_bytes ''ERROR''"
  "1 < map_index levelToInt 0 l \<longleftrightarrow> l \<in> {str_bytes ''WARN'', str_bytes ''ERROR''}"
  "0 < map_index levelToInt 0 l \<longleftrightarrow> l \<in> {str_bytes ''INFO'', str_bytes ''WARN'', str_bytes ''ERROR''}"
  using level_names by (auto simp: map_index_def levelToInt_def split: if_splits)

text \<open>
  Which calls of a logger print: \<open>Error\<close> always, and each other level unless the level given to \<open>Stdout\<close>, in
  any case, is the name of a higher one; a level that does not exist is the one of \<open>Debug\<close>. What
  is printed are the operands with spaces between them, after the module and the level.
\<close>

theorem logger_threshold:
  "Error (Stdout module minLevel color) msgs \<noteq> None \<and>
   (Warn (Stdout module minLevel color) msgs = None \<longleftrightarrow> ToUpper minLevel = str_bytes ''ERROR'') \<and>
   (Info (Stdout module minLevel color) msgs = None \<longleftrightarrow> ToUpper minLevel \<in> {str_bytes ''WARN'', str_bytes ''ERROR''}) \<and>
   (Debug (Stdout module minLevel color) msgs = None \<longleftrightarrow>
      ToUpper minLevel \<in> {str_bytes ''INFO'', str_bytes ''WARN'', str_bytes ''ERROR''}) \<and>
   log_with level Noop msgs = None \<and>
   log_with level (Stdout module minLevel color) msgs \<in> {None,
     Some ((if color then map_index colors [] level else []) @ str_bytes ''['' @ module @
       str_bytes '' '' @ level @ str_bytes ''] '' @ spaced msgs @ (if color then 27 # str_bytes ''[0m'' else []))}"
  using level_least(1) [of "ToUpper minLevel"]
  by (simp add: not_less [of "map_index levelToInt 0 (ToUpper minLevel)"] log_with_def Stdout_def Error_def Warn_def Info_def Debug_def
    logger_output_eq level_values level_least(2-4) log_line_def)

end
