(* ===== verification/DebugUpgrade.thy ===== *)
theory DebugUpgrade
  imports ServerHandshake
begin

text \<open>
  \<open>DebugUpgrader\<close> (msutil/upgrader.go): an \<open>Upgrade\<close> whose request and response are shown to two
  callbacks. The request is read once by \<open>http.ReadRequest\<close>, through a reader that keeps what
  it reads, and then read again from what was kept, followed by the connection; the response is written to
  the connection and to a buffer. Of package net/http the order of its reads is modelled: line by line to the empty line, through a
  buffered reader; what it makes of the lines are parameters.
\<close>

section \<open>The readers and writers of package io\<close>

text \<open>\<open>io.TeeReader(conn, &buf)\<close>: the connection and what was read from it.\<close>

fun tee_read :: "'s rd \<Rightarrow> ('s \<times> byte list) rd" where
  "tee_read rd n (s, buf) = do { (bs, e, s) \<leftarrow> rd n s; Some (bs, e, (s, buf @ bs)) }"

text \<open>
  \<open>http.ReadRequest\<close> reads the request line and the header lines up to the empty line. It gives up, with an
  error, when the connection does or when the lines so far are no request to it: \<open>stop ls\<close>. The result is whether it has got a request, its
  lines and the buffered reader.
\<close>

partial_function (option) ReadRequest ::
  "'s rd \<Rightarrow> (byte list list \<Rightarrow> bool) \<Rightarrow> byte list list \<Rightarrow> 's BufReader \<Rightarrow> (bool \<times> byte list list \<times> 's BufReader) option" where
  "ReadRequest rd stop ls b =
     Option.bind (readLine rd b) (\<lambda>(l, e, b).
       if e \<noteq> None then Some (False, ls, b)
       else if l = [] \<and> ls \<noteq> [] then Some (True, ls, b)
       else if stop (ls @ [l]) then Some (False, ls @ [l], b)
       else ReadRequest rd stop (ls @ [l]) b)"

declare ReadRequest.simps [code]

text \<open>
  Then the body is read to its end; \<open>body ls\<close> are the sizes of the reads that reach the connection for it, none for a
  request that announces no body.
\<close>

fun tee_reads :: "'s rd \<Rightarrow> nat list \<Rightarrow> 's \<times> byte list \<Rightarrow> ('s \<times> byte list) option" where
  "tee_reads rd [] x = Some x"
| "tee_reads rd (n # ns) x = do { (bs, e, x) \<leftarrow> tee_read rd n x; tee_reads rd ns x }"

definition defaultBufSize :: nat where "defaultBufSize = 4096"

definition shown_request ::
  "'s rd \<Rightarrow> (byte list list \<Rightarrow> bool) \<Rightarrow> (byte list list \<Rightarrow> nat list) \<Rightarrow> 's \<Rightarrow> ('s \<times> byte list) option" where
  "shown_request rd stop body s = do {
     (ok, ls, b) \<leftarrow> ReadRequest (tee_read rd) stop [] (NewBufReader (s, []) defaultBufSize);
     (if ok then tee_reads rd (body ls) (br_src b) else Some (br_src b))
   }"

text \<open>
  The connection itself, or \<open>io.MultiReader(&buf, conn)\<close> while it reads the buffer, while it reads the
  connection, and after its end.
\<close>

datatype 's debug_src = Plain 's | Both "byte list" 's | Rest 's | Over 's

definition rest_read :: "'s rd \<Rightarrow> nat \<Rightarrow> 's \<Rightarrow> (byte list \<times> err option \<times> 's debug_src) option" where
  "rest_read rd n s = do {
     (bs, e, s) \<leftarrow> rd n s;
     Some (bs, e, if e = Some EOF then Over s else Rest s)
   }"

fun debug_read :: "'s rd \<Rightarrow> 's debug_src rd" where
  "debug_read rd n (Plain s) = do { (bs, e, s) \<leftarrow> rd n s; Some (bs, e, Plain s) }"
| "debug_read rd n (Both buf s) =
     (if buf \<noteq> [] then Some (take n buf, None, Both (drop n buf) s)
      else if n = 0 then Some ([], None, Both [] s)
      else rest_read rd n s)"
| "debug_read rd n (Rest s) = rest_read rd n s"
| "debug_read rd n (Over s) = Some ([], Some EOF, Over s)"

text \<open>The connection and the buffer beside it: with \<open>on\<close>, \<open>io.MultiWriter(conn, &buf)\<close>, and otherwise the connection alone.\<close>

fun debug_write :: "'d wr \<Rightarrow> bool \<Rightarrow> ('d \<times> byte list) wr" where
  "debug_write wr on p (d, buf) = do {
     (n, e, d) \<leftarrow> wr p d;
     (if \<not> on \<or> e \<noteq> None then Some (n, e, (d, buf))
      else if n \<noteq> length p then Some (n, Some ErrShortWrite, (d, buf))
      else Some (length p, None, (d, buf @ p)))
   }"

section \<open>The upgrader\<close>

text \<open>The callbacks only get bytes: here it is said whether they are set.\<close>

record 'p DebugUpgrader =
  du_Upgrader :: "'p Upgrader"
  du_OnRequest :: bool
  du_OnResponse :: bool

text \<open>The result, the two parts of the connection and what the callbacks got.\<close>

definition DebugUpgrader_Upgrade ::
  "'s rd \<Rightarrow> 'd wr \<Rightarrow> ('p, 'd \<times> byte list) httphead \<Rightarrow> (nat \<Rightarrow> ('d \<times> byte list) header_func) \<Rightarrow>
     (err \<Rightarrow> byte list) \<Rightarrow> (int \<Rightarrow> nat) \<Rightarrow> (byte list list \<Rightarrow> bool) \<Rightarrow> (byte list list \<Rightarrow> nat list) \<Rightarrow> 'p DebugUpgrader \<Rightarrow> 's \<Rightarrow> 'd \<Rightarrow>
     ('p Handshake \<times> err option \<times> 's debug_src \<times> 'd \<times> byte list option \<times> byte list option) option" where
  "DebugUpgrader_Upgrade rd wr hh fn ext pool stop body u s d = do {
     (req, r) \<leftarrow> (if du_OnRequest u then do { (s, buf) \<leftarrow> shown_request rd stop body s; Some (Some buf, Both buf s) }
                 else Some (None, Plain s));
     (hs, e, r, (d, resp)) \<leftarrow> Upgrader_Upgrade (debug_read rd) (debug_write wr (du_OnResponse u)) hh fn ext pool (du_Upgrader u) r (d, []);
     Some (hs, e, r, d, req, if du_OnResponse u then Some resp else None)
   }"

section \<open>Reading twice is reading once\<close>

fun debug_conn :: "rd_event list debug_src \<Rightarrow> rd_event list" where
  "debug_conn (Plain s) = s" | "debug_conn (Both buf s) = s" | "debug_conn (Rest s) = s" | "debug_conn (Over s) = s"

fun debug_data :: "rd_event list debug_src \<Rightarrow> byte list" where
  "debug_data (Both buf s) = buf @ conn_data s"
| "debug_data (Over s) = []"
| "debug_data r = conn_data (debug_conn r)"

fun debug_end :: "rd_event list debug_src \<Rightarrow> err" where
  "debug_end (Over s) = EOF"
| "debug_end r = conn_end (debug_conn r)"

fun debug_fin :: "rd_event list debug_src \<Rightarrow> nat" where
  "debug_fin (Both buf s) = Suc (length buf + conn_fin s)"
| "debug_fin (Over s) = 0"
| "debug_fin r = conn_fin (debug_conn r)"

lemma debug_readE:
  assumes "debug_read conn_read n r = Some (bs, e, r')"
  obtains (Plain) s s' where "r = Plain s" "conn_read n s = Some (bs, e, s')" "r' = Plain s'"
  | (Buffer) buf s where "r = Both buf s" "buf \<noteq> [] \<or> n = 0" "bs = take n buf" "e = None" "r' = Both (drop n buf) s"
  | (Conn) s s' where "r = Both [] s \<and> 0 < n \<or> r = Rest s" "conn_read n s = Some (bs, e, s')"
      "r' = (if e = Some EOF then Over s' else Rest s')"
  | (End) s where "r = Over s" "bs = []" "e = Some EOF" "r' = r"
  using assms by (cases r) (auto simp: rest_read_def bind_Some_iff split: if_splits prod.splits)

abbreviation "debug_inv \<equiv> conn_lively \<circ> debug_conn"

lemma debug_returns: "\<exists>bs e r'. debug_read conn_read n r = Some (bs, e, r')"
proof -
  have c: "\<exists>bs e s'. conn_read n s = Some (bs, e, s')" for s by (rule conn.rd_returns [OF TrueI])
  show ?thesis
    using c [of "debug_conn r"] by (cases r) (auto simp: rest_read_def split: prod.splits)
qed

interpretation debug_side: lively_stream "debug_read conn_read" debug_inv debug_fin debug_data debug_end
proof unfold_locales
  fix n r
  show "\<exists>bs e r'. debug_read conn_read n r = Some (bs, e, r')" by (rule debug_returns)
next
  fix n r bs e r'
  assume i: "debug_inv r" and r: "debug_read conn_read n r = Some (bs, e, r')"
  from r i show "length bs \<le> n" by (cases rule: debug_readE) (auto dest: lively.rd_length)
  from r i show "debug_inv r'" by (cases rule: debug_readE) (auto dest: lively.rd_inv)
  from r i show "debug_fin r' \<le> debug_fin r" by (cases rule: debug_readE) (auto dest: lively.rd_fin)
next
  fix n r bs e r'
  assume i: "debug_inv r" and n: "0 < n" and r: "debug_read conn_read n r = Some (bs, e, r')" and p: "e = None \<or> bs \<noteq> []"
  from r show "debug_fin r' < debug_fin r"
  proof (cases rule: debug_readE)
    case (Conn s s')
    then have "conn_fin s' < conn_fin s" using lively.rd_progress [OF _ n Conn(2) p] i by auto
    with Conn show ?thesis by auto
  qed (use i n p in \<open>auto dest: lively.rd_progress [OF _ n]\<close>)
next
  fix n r bs r'
  assume i: "debug_inv r" and r: "debug_read conn_read n r = Some (bs, None, r')"
  from r show "debug_data r = bs @ debug_data r' \<and> debug_end r' = debug_end r"
    by (cases rule: debug_readE) (use i in \<open>auto dest: lively.rd_data\<close>)
next
  fix n r bs e r'
  assume i: "debug_inv r" and r: "debug_read conn_read n r = Some (bs, Some e, r')"
  from r show "debug_data r = bs \<and> debug_end r = e" and "bs = []"
    by (cases rule: debug_readE; use i in \<open>auto dest: lively.rd_end\<close>)+
next
  fix n r r'
  assume i: "debug_inv r" and n: "0 < n" and r: "debug_read conn_read n r = Some ([], None, r')"
  from r show False by (cases rule: debug_readE) (use i n lively.rd_lively in auto)
qed

section \<open>The response is shown as it was sent\<close>

interpretation debug_out: buffered_writer "debug_write conn_write True" "\<lambda>_. True" "conn_out \<circ> fst" "\<lambda>d. faults (fst d) = []"
proof unfold_locales
  fix p and d :: "dest \<times> byte list"
  obtain d0 b where d: "d = (d0, b)" by (cases d)
  obtain n e d1 where w: "conn_write p d0 = Some (n, e, d1)" using conn_w.wr_returns by blast
  then show "\<exists>n e d'. debug_write conn_write True p d = Some (n, e, d')" by (simp add: d)
next
  fix p and d :: "dest \<times> byte list" and n e d'
  assume w: "debug_write conn_write True p d = Some (n, e, d')"
  obtain d0 b where d: "d = (d0, b)" by (cases d)
  obtain m er d1 where c: "conn_write p d0 = Some (m, er, d1)" using conn_w.wr_returns by blast
  note f = conn_w.wr_out [OF TrueI c] conn_w.wr_full [OF TrueI c] conn_bw.wr_calm [OF TrueI _ c]
  show "(conn_out \<circ> fst) d' = (conn_out \<circ> fst) d @ take n p" "n \<le> length p \<and> (e = None \<longrightarrow> n = length p)"
    using w c f by (auto simp: d split: if_splits)+
  show "faults (fst d) = [] \<Longrightarrow> e = None \<and> faults (fst d') = []"
    using w c f by (auto simp: d split: if_splits)+
qed simp

text \<open>Without faults, the buffer is a writer that takes everything.\<close>

abbreviation "copying \<equiv> \<lambda>d :: dest \<times> byte list. faults (fst d) = []"

interpretation debug_copy: buffered_writer "debug_write conn_write True" copying snd "\<lambda>_. True"
  by unfold_locales (auto split: list.splits option.splits prod.splits if_splits)

interpretation debug_sent: handshaking "debug_read conn_read" debug_inv debug_fin debug_data debug_end
  "debug_write conn_write True" "\<lambda>_. True" "conn_out \<circ> fst" "\<lambda>d. faults (fst d) = []"
  by unfold_locales

interpretation debug_shown: handshaking "debug_read conn_read" debug_inv debug_fin debug_data debug_end
  "debug_write conn_write True" copying snd "\<lambda>_. True"
  by unfold_locales

text \<open>A connection that does not fail.\<close>

fun conn_quiet :: "rd_event list \<Rightarrow> bool" where
  "conn_quiet [] = True"
| "conn_quiet (REv d e # es) = (e = None \<and> d \<noteq> [] \<and> conn_quiet es)"

lemma conn_quiet_lively: "conn_quiet s \<Longrightarrow> conn_lively s \<and> conn_end s = EOF"
  by (induction s rule: conn_quiet.induct) auto

lemma conn_quiet_read: "conn_quiet s \<Longrightarrow> conn_read n s = Some (bs, e, s') \<Longrightarrow> conn_quiet s' \<and> conn_data s = bs @ conn_data s'"
  by (rule conn_read_cases [of s n]) auto

section \<open>The request is shown whole\<close>

text \<open>A reader that keeps what it reads, over a connection that brings \<open>D\<close>.\<close>

definition teeing :: "byte list \<Rightarrow> rd_event list \<times> byte list \<Rightarrow> bool" where
  "teeing D x \<longleftrightarrow> conn_quiet (fst x) \<and> D = snd x @ conn_data (fst x)"

lemma tee_readE:
  assumes "tee_read conn_read n x = Some (bs, e, x')"
  obtains s buf s' where "x = (s, buf)" "conn_read n s = Some (bs, e, s')" "x' = (s', buf @ bs)"
  using assms by (cases x) (auto simp: bind_Some_iff)

lemma teeing_read: "teeing D x \<Longrightarrow> tee_read conn_read n x = Some (bs, e, x') \<Longrightarrow> teeing D x'"
  by (erule tee_readE) (auto simp: teeing_def dest: conn_quiet_read)

lemma conn_quiet_ended: "conn_quiet s \<Longrightarrow> conn_read n s = Some (bs, Some e, s') \<Longrightarrow> conn_data s' = []"
  by (rule conn_read_cases [of s n]) auto

interpretation tee: lively_stream "tee_read conn_read" "teeing D" "\<lambda>x. conn_fin (fst x)" "\<lambda>x. conn_data (fst x)" "\<lambda>x. conn_end (fst x)" for D
proof unfold_locales
  fix n and x :: "rd_event list \<times> byte list"
  obtain s buf where x: "x = (s, buf)" by (cases x)
  show "\<exists>bs e x'. tee_read conn_read n x = Some (bs, e, x')"
    using conn.rd_returns [OF TrueI, of n s] by (auto simp: x)
next
  fix n x bs e x'
  assume i: "teeing D x" and r: "tee_read conn_read n x = Some (bs, e, x')"
  have l: "conn_lively (fst x)" using i conn_quiet_lively by (simp add: teeing_def)
  from r show "length bs \<le> n" by (rule tee_readE) (use l in \<open>auto dest: lively.rd_length\<close>)
  from i r show "teeing D x'" by (rule teeing_read)
  from r show "conn_fin (fst x') \<le> conn_fin (fst x)" by (rule tee_readE) (use l in \<open>auto dest: lively.rd_fin\<close>)
next
  fix n x bs e x'
  assume i: "teeing D x" and n: "0 < n" and r: "tee_read conn_read n x = Some (bs, e, x')" and p: "e = None \<or> bs \<noteq> []"
  have l: "conn_lively (fst x)" using i conn_quiet_lively by (simp add: teeing_def)
  from r show "conn_fin (fst x') < conn_fin (fst x)"
    by (rule tee_readE) (use l n p in \<open>auto dest: lively.rd_progress [OF _ n]\<close>)
next
  fix n x bs x'
  assume i: "teeing D x" and r: "tee_read conn_read n x = Some (bs, None, x')"
  have l: "conn_lively (fst x)" using i conn_quiet_lively by (simp add: teeing_def)
  from r show "conn_data (fst x) = bs @ conn_data (fst x') \<and> conn_end (fst x') = conn_end (fst x)"
    by (rule tee_readE) (use l in \<open>auto dest: lively.rd_data\<close>)
next
  fix n x bs e x'
  assume i: "teeing D x" and r: "tee_read conn_read n x = Some (bs, Some e, x')"
  have l: "conn_lively (fst x)" using i conn_quiet_lively by (simp add: teeing_def)
  from r show "conn_data (fst x) = bs \<and> conn_end (fst x) = e" and "bs = []"
    by (rule tee_readE; use l in \<open>auto dest: lively.rd_end\<close>)+
next
  fix n x x'
  assume i: "teeing D x" and n: "0 < n" and r: "tee_read conn_read n x = Some ([], None, x')"
  have l: "conn_lively (fst x)" using i conn_quiet_lively by (simp add: teeing_def)
  from r show False by (rule tee_readE) (use l n lively.rd_lively in auto)
qed

text \<open>A buffered reader over it stores an error only when the connection has nothing more.\<close>

definition at_end :: "(rd_event list \<times> byte list) BufReader \<Rightarrow> bool" where
  "at_end b \<longleftrightarrow> conn_quiet (fst (br_src b)) \<and> (br_err b \<noteq> None \<longrightarrow> conn_data (fst (br_src b)) = [])"

lemma fill_at_end:
  assumes "at_end b" "br_err b = None" "length (br_buf b) < br_size b" "br_fill (tee_read conn_read) b = Some b'"
  shows "at_end b'"
proof -
  let ?n = "br_size b - length (br_buf b)"
  obtain s buf where b: "br_src b = (s, buf)" by (cases "br_src b")
  have q: "conn_quiet s" using assms(1) b by (simp add: at_end_def)
  obtain bs e s' where r: "conn_read ?n s = Some (bs, e, s')" using conn.rd_returns [OF TrueI] by blast
  have l: "e \<noteq> None \<or> bs \<noteq> []"
    using lively.rd_lively [of s ?n s'] conn_quiet_lively [OF q] r assms(3) by (cases e; cases bs) auto
  have "b' = (if e = None then b\<lparr>br_src := (s', buf @ bs), br_buf := br_buf b @ bs\<rparr>
      else b\<lparr>br_src := (s', buf @ bs), br_buf := br_buf b @ bs, br_err := e\<rparr>)"
    using assms(4) r b l unfolding br_fill_def by (auto simp: numeral_eq_Suc Let_def split: if_splits)
  then show ?thesis
    using conn_quiet_read [OF q r] conn_quiet_ended [OF q] r assms(2) by (cases e) (auto simp: at_end_def)
qed

abbreviation "ends_well rd b r \<equiv> rd = tee_read conn_read \<and> at_end b \<longrightarrow> at_end (snd (snd r))"

lemma ReadSlice_at_end: "ReadSlice rd c b = Some r \<Longrightarrow> ends_well rd b r"
proof (rule ReadSlice.raw_induct [where P = "\<lambda>rd c b r. ends_well rd b r"], intro impI, elim conjE)
  fix f rd c b r
  assume ih: "\<And>rd c b r. f rd c b = Some r \<Longrightarrow> ends_well rd b r" and rd: "rd = tee_read conn_read" and b: "at_end b"
    and run: "(if c \<in> set (br_buf b) then
        Some (takeWhile (\<lambda>x. x \<noteq> c) (br_buf b) @ [c], None, b\<lparr>br_buf := tl (dropWhile (\<lambda>x. x \<noteq> c) (br_buf b))\<rparr>)
      else if br_err b \<noteq> None then Some (br_buf b, br_err b, b\<lparr>br_buf := [], br_err := None\<rparr>)
      else if br_size b \<le> length (br_buf b) then Some (br_buf b, Some ErrBufferFull, b\<lparr>br_buf := []\<rparr>)
      else Option.bind (br_fill rd b) (f rd c)) = Some r"
  show "at_end (snd (snd r))"
  proof (cases "c \<in> set (br_buf b) \<or> br_err b \<noteq> None \<or> br_size b \<le> length (br_buf b)")
    case True
    with run b show ?thesis by (auto simp: at_end_def split: if_splits)
  next
    case False
    with run obtain x where x: "br_fill rd b = Some x" "f rd c x = Some r" by (auto simp: bind_Some_iff)
    with False b rd have "at_end x" using fill_at_end [of b x] by simp
    with ih [OF x(2)] rd show ?thesis by simp
  qed
qed assumption

lemma read_line_at_end: "read_line_loop rd l b = Some r \<Longrightarrow> ends_well rd b r"
proof (rule read_line_loop.raw_induct [where P = "\<lambda>rd l b r. ends_well rd b r"], intro impI, elim conjE)
  fix f rd l b r
  assume ih: "\<And>rd l b r. f rd l b = Some r \<Longrightarrow> ends_well rd b r" and rd: "rd = tee_read conn_read" and b: "at_end b"
    and run: "Option.bind (ReadSlice rd 10 b) (\<lambda>(bts, e, br).
       if e = Some ErrBufferFull then f rd (l @ bts) br
       else if e \<noteq> None then Some (l @ bts, e, br)
       else Some (cut_line (l @ bts), None, br)) = Some r"
  then obtain bts e br where s: "ReadSlice rd 10 b = Some (bts, e, br)" by (auto simp: bind_Some_iff)
  then have "at_end br" using ReadSlice_at_end [OF s] rd b by simp
  with s run ih [of rd "l @ bts" br r] rd show "at_end (snd (snd r))" by (auto split: if_splits)
qed assumption

lemma readLine_at_end: "readLine (tee_read conn_read) b = Some r \<Longrightarrow> at_end b \<Longrightarrow> at_end (snd (snd r))"
  using read_line_at_end [of "tee_read conn_read" "[]" b r] by (simp add: readLine_def)

text \<open>\<open>ReadRequest\<close> returns, and reads a request that the parser takes to its empty line.\<close>

lemma ReadRequest_returns:
  "tee.br_inv D b \<Longrightarrow> tee.br_end b \<noteq> ErrBufferFull \<Longrightarrow>
     \<exists>ok ls' b'. ReadRequest (tee_read conn_read) stop ls b = Some (ok, ls', b') \<and> tee.br_inv D b'"
proof (induction "length (tee.br_data b)" arbitrary: ls b rule: less_induct)
  case less
  from less.prems show ?case
  proof (cases rule: tee.readLine_returns)
    case (End b')
    then show ?thesis by (subst ReadRequest.simps) auto
  next
    case (Line l b')
    have "length (tee.br_data b') < length (tee.br_data b)" "tee.br_end b' \<noteq> ErrBufferFull" using Line less.prems(2) by simp_all
    from less.hyps [OF this(1) Line(2) this(2)] Line show ?thesis by (subst ReadRequest.simps) auto
  qed
qed

lemma ReadRequest_reads:
  "tee.br_inv D b \<Longrightarrow> tee.br_end b \<noteq> ErrBufferFull \<Longrightarrow> at_end b \<Longrightarrow> tee.br_data b = crlf_lines ls @ CRLF @ rest \<Longrightarrow>
    list_all clean_line ls \<Longrightarrow> pre @ ls \<noteq> [] \<Longrightarrow> \<forall>k < length ls. \<not> stop (pre @ take (Suc k) ls) \<Longrightarrow>
     \<exists>b'. ReadRequest (tee_read conn_read) stop pre b = Some (True, pre @ ls, b') \<and> tee.br_inv D b' \<and> tee.br_data b' = rest \<and> at_end b'"
proof (induction ls arbitrary: pre b)
  case Nil
  have d: "tee.br_data b = [13] @ 10 # rest" using Nil(4) by (simp add: crlf_lines_def CRLF_bytes)
  obtain b' where b': "readLine (tee_read conn_read) b = Some ([], None, b')" "tee.br_inv D b'" "tee.br_data b' = rest"
    using tee.readLine_line [OF Nil(1,2) d] by auto
  with readLine_at_end [OF b'(1) Nil(3)] Nil(6) show ?case by (subst ReadRequest.simps) simp
next
  case (Cons l ls)
  have d: "tee.br_data b = (l @ [13]) @ 10 # (crlf_lines ls @ CRLF @ rest)" and c: "10 \<notin> set (l @ [13])" "l \<noteq> []"
    using Cons.prems(4,5) by (simp_all add: crlf_lines_def CRLF_bytes clean_line_def)
  obtain b' where b': "readLine (tee_read conn_read) b = Some (l, None, b')" "tee.br_inv D b'" "tee.br_data b' = crlf_lines ls @ CRLF @ rest"
      "tee.br_end b' = tee.br_end b"
    using tee.readLine_line [OF Cons.prems(1,2) d c(1)] by auto
  have s: "\<not> stop (pre @ [l])" "\<forall>k < length ls. \<not> stop ((pre @ [l]) @ take (Suc k) ls)" using Cons.prems(7) by (auto dest: spec [of _ "Suc _"])
  have "at_end b'" using readLine_at_end [OF b'(1) Cons.prems(3)] by simp
  from Cons.IH [OF b'(2) _ this b'(3), of "pre @ [l]"] Cons.prems(2,5) b'(4) s c(2) b'(1) show ?case
    by (subst ReadRequest.simps) simp
qed

lemma tee_reads_teeing: "teeing D x \<Longrightarrow> \<exists>x'. tee_reads conn_read ns x = Some x' \<and> teeing D x' \<and> (\<exists>more. snd x' = snd x @ more)"
proof (induction ns arbitrary: x)
  case (Cons n ns)
  obtain bs e x1 where r: "tee_read conn_read n x = Some (bs, e, x1)" using tee.rd_returns [OF Cons.prems] by blast
  have "snd x1 = snd x @ bs" using r by (rule tee_readE) simp
  with Cons.IH [OF teeing_read [OF Cons.prems r]] r show ?case by auto
qed simp

text \<open>The request is accepted by the parser of net/http, as far as it looks at it line by line.\<close>

definition http_takes :: "(byte list list \<Rightarrow> bool) \<Rightarrow> byte list list \<Rightarrow> bool" where
  "http_takes stop ls \<longleftrightarrow> list_all clean_line ls \<and> ls \<noteq> [] \<and> (\<forall>k < length ls. \<not> stop (take (Suc k) ls))"

lemma shown_request_front:
  assumes q: "conn_quiet s"
  shows "\<exists>s' req. shown_request conn_read stop body s = Some (s', req) \<and> conn_quiet s' \<and> conn_data s = req @ conn_data s' \<and>
    (\<forall>ls rest. conn_data s = crlf_lines ls @ CRLF @ rest \<and> http_takes stop ls \<longrightarrow> (\<exists>more. req = crlf_lines ls @ CRLF @ more))"
proof -
  let ?D = "conn_data s" and ?b = "NewBufReader (s, [] :: byte list) defaultBufSize"
  have b: "tee.br_inv ?D ?b" "tee.br_end ?b \<noteq> ErrBufferFull" "at_end ?b" "tee.br_data ?b = ?D"
    using q conn_quiet_lively [OF q]
    by (simp_all add: tee.br_inv_def tee.br_end_def tee.br_data_def NewBufReader_def teeing_def at_end_def defaultBufSize_def)
  obtain ok ls' b' where r: "ReadRequest (tee_read conn_read) stop [] ?b = Some (ok, ls', b')" "tee.br_inv ?D b'"
    using ReadRequest_returns [OF b(1,2)] by blast
  have t: "teeing ?D (br_src b')" using r(2) by (simp add: tee.br_inv_def)
  obtain x' where x': "tee_reads conn_read (body ls') (br_src b') = Some x'" "teeing ?D x'" "\<exists>more. snd x' = snd (br_src b') @ more"
    using tee_reads_teeing [OF t] by blast
  let ?x = "if ok then x' else br_src b'"
  have sh: "shown_request conn_read stop body s = Some ?x" using r(1) x'(1) by (simp add: shown_request_def)
  have "\<exists>more. snd ?x = crlf_lines ls @ CRLF @ more" if d: "?D = crlf_lines ls @ CRLF @ rest" and h: "http_takes stop ls" for ls rest
  proof -
    obtain b2 where "ReadRequest (tee_read conn_read) stop [] ?b = Some (True, ls, b2)" "tee.br_data b2 = rest" "at_end b2"
      using ReadRequest_reads [OF b(1-3), of ls rest "[]" stop] b(4) d h by (auto simp: http_takes_def)
    with r(1) have ok: "ok" "tee.br_data b' = rest" "at_end b'" by simp_all
    then have "rest = br_buf b' @ conn_data (fst (br_src b'))" by (auto simp: tee.br_data_def at_end_def split: if_splits)
    with d t have "snd (br_src b') = crlf_lines ls @ CRLF @ br_buf b'" by (simp add: teeing_def)
    with x'(3) ok(1) show ?thesis by auto
  qed
  moreover have "teeing ?D ?x" using t x'(2) by simp
  ultimately show ?thesis
    using sh by (intro exI [of _ "fst ?x"] exI [of _ "snd ?x"]) (auto simp: teeing_def)
qed

definition debug_env ::
  "(int \<Rightarrow> nat) \<Rightarrow> ('p, dest \<times> byte list) httphead \<Rightarrow> ('p HeadOption list \<Rightarrow> byte list) \<Rightarrow>
     (nat \<Rightarrow> (dest \<times> byte list) header_func) \<Rightarrow> (nat \<Rightarrow> byte list) \<Rightarrow> bool" where
  "debug_env pool hh opttext fn fntext \<longleftrightarrow> (\<forall>n. 0 < pool n) \<and>
     debug_out.writes_options hh opttext \<and> debug_out.writes_texts fn fntext \<and>
     debug_copy.writes_options hh opttext \<and> debug_copy.writes_texts fn fntext"

text \<open>What is collected for the callback is what was sent, when no write fails.\<close>

lemma Upgrade_shows:
  assumes env: "debug_env pool hh opttext fn fntext" and s: "conn_lively s" "conn_end s = EOF" and d: "faults d = []"
    and u: "Upgrader_Upgrade (debug_read conn_read) (debug_write conn_write True) hh fn ext pool u (Both req s) (d, []) = Some (hs, e, r', (d', resp))"
  shows "conn_out d' = conn_out d @ resp"
proof -
  let ?r = "Both req s" and ?d = "(d, [] :: byte list)"
  have a: "debug_sent.ready ?r ?d pool hh opttext fn fntext" "debug_shown.ready ?r ?d pool hh opttext fn fntext"
    using env s d by (simp_all add: debug_sent.ready_def debug_shown.ready_def debug_env_def)
  from debug_sent.Upgrade_decided [where u = u and ext = ext, OF a(1)] debug_shown.Upgrade_decided [where u = u and ext = ext, OF a(2)] u d
  show ?thesis
    by (cases "request_fate hh u (debug_data ?r)")
      (auto simp: debug_sent.answers_def debug_shown.answers_def)
qed

text \<open>
  C34: \<open>DebugUpgrader\<close> with both callbacks, around any \<open>Upgrader\<close>, on a connection that brings its bytes in any pieces and then ends, and whatever
  the writes do. It decides as \<open>Upgrade\<close> does (C15), on all that has arrived, though the request is read twice: the
  stream ends early, or has no request line, or the request is answered. The callback for the request gets the front of what arrived,
  and all of a request, to its empty line, whose lines the parser of net/http takes. When no write fails, the
  callback for the response gets what was sent.
\<close>

theorem debug_upgrade_serves:
  assumes "debug_env pool hh opttext fn fntext" and "conn_quiet s"
  shows "\<exists>hs e r d' req resp. DebugUpgrader_Upgrade conn_read conn_write hh fn ext pool stop body
        \<lparr>du_Upgrader = u, du_OnRequest = True, du_OnResponse = True\<rparr> s d = Some (hs, e, r, d', Some req, Some resp) \<and>
    (case request_fate hh u (conn_data s) of
       Unread \<Rightarrow> e = Some EOF \<and> conn_out d' = conn_out d
     | BadLine er \<Rightarrow> e = Some er \<and> conn_out d' = conn_out d
     | Decided rq \<Rightarrow> hs = rq_hs rq \<and>
         (\<exists>k. conn_out d' = take k (conn_out d @ answer_text opttext fntext ext u rq)) \<and>
         (faults d = [] \<longrightarrow> conn_out d' = conn_out d @ answer_text opttext fntext ext u rq \<and> e = fst (verdict u rq)) \<and>
         (fst (verdict u rq) \<noteq> None \<longrightarrow> e = fst (verdict u rq))) \<and>
    (\<exists>unread. conn_data s = req @ unread) \<and>
    (\<forall>ls rest. conn_data s = crlf_lines ls @ CRLF @ rest \<and> http_takes stop ls \<longrightarrow> (\<exists>more. req = crlf_lines ls @ CRLF @ more)) \<and>
    (faults d = [] \<longrightarrow> conn_out d' = conn_out d @ resp)"
proof -
  obtain s' req where t: "shown_request conn_read stop body s = Some (s', req)" "conn_quiet s'" "conn_data s = req @ conn_data s'"
      "\<forall>ls rest. conn_data s = crlf_lines ls @ CRLF @ rest \<and> http_takes stop ls \<longrightarrow> (\<exists>more. req = crlf_lines ls @ CRLF @ more)"
    using shown_request_front [OF assms(2), of stop body] by blast
  let ?r = "Both req s'" and ?d = "(d, [] :: byte list)"
  have q: "conn_lively s'" "conn_end s' = EOF" using conn_quiet_lively [OF t(2)] by simp_all
  have a: "debug_sent.ready ?r ?d pool hh opttext fn fntext"
    using assms(1) q by (simp add: debug_sent.ready_def debug_env_def)
  have dd: "debug_data ?r = conn_data s" "debug_end ?r = EOF" using t(3) q by simp_all
  obtain hs e r' d' resp where up: "Upgrader_Upgrade (debug_read conn_read) (debug_write conn_write True) hh fn ext pool u ?r ?d = Some (hs, e, r', (d', resp))"
      "case request_fate hh u (conn_data s) of Unread \<Rightarrow> e = Some EOF \<and> (d', resp) = ?d
       | BadLine er \<Rightarrow> e = Some er \<and> (d', resp) = ?d
       | Decided rq \<Rightarrow> debug_sent.answers opttext fntext ext u rq hs e ?d (d', resp)"
    using debug_sent.Upgrade_decided [where u = u and ext = ext, OF a] unfolding dd by auto
  have "DebugUpgrader_Upgrade conn_read conn_write hh fn ext pool stop body
      \<lparr>du_Upgrader = u, du_OnRequest = True, du_OnResponse = True\<rparr> s d = Some (hs, e, r', d', Some req, Some resp)"
    using t(1) up(1) by (simp add: DebugUpgrader_Upgrade_def)
  then show ?thesis
    using Upgrade_shows [OF assms(1) q _ up(1)] t(3,4) up(2)
    by (auto simp: debug_sent.answers_def split: request_fate.splits option.splits)
qed

text \<open>An instance of the parts outside of the program for this writer.\<close>

definition debug_head :: "(unit, dest \<times> byte list) httphead" where
  "debug_head = \<lparr>hh_ScanTokens = comma_tokens, hh_ScanOptions = (\<lambda>h f. ([], True)),
     hh_Select = (\<lambda>h xs f. (xs, True)), hh_WriteOptions = (\<lambda>xs. put_string (debug_write conn_write True) (concat (map opt_Name xs))),
     hh_Size = (\<lambda>_. 0), hh_Set = (\<lambda>_ _ p. p), hh_Copy = (\<lambda>p. p), hh_zero = ()\<rparr>"

lemma debug_env_simple:
  "debug_env (\<lambda>n. 16) debug_head (\<lambda>xs. concat (map opt_Name xs)) (\<lambda>i b. Some (0, None, b)) (\<lambda>_. [])"
  by (simp add: debug_env_def debug_head_def debug_out.writes_options_def debug_copy.writes_options_def debug_out.emits_string
      debug_copy.emits_string debug_out.writes_texts_def debug_copy.writes_texts_def debug_out.emits_header_def
      debug_copy.emits_header_def debug_out.puts_refl debug_copy.puts_refl)

lemma sample_quiet: "conn_quiet sample_conn"
proof -
  have "take 7 sample_request \<noteq> []" by code_simp
  then show ?thesis by (simp add: sample_conn_def)
qed

theorem debug_upgrade_serves_witness:
  "\<exists>hs r d' req resp. DebugUpgrader_Upgrade conn_read conn_write debug_head (\<lambda>i b. Some (0, None, b)) (\<lambda>_. []) (\<lambda>n. 16) (\<lambda>ls. False) (\<lambda>ls. [])
      \<lparr>du_Upgrader = DefaultUpgrader, du_OnRequest = True, du_OnResponse = True\<rparr> sample_conn
      \<lparr>sent = [], faults = [], rands = (\<lambda>_. 0)\<rparr> = Some (hs, None, r, d', Some req, Some resp) \<and>
    conn_out d' = resp \<and> (\<exists>more. req = sample_request @ more)"
proof -
  have h: "http_takes (\<lambda>ls. False) (sample_line # sample_lines)" using sample_valid(2) by (simp add: http_takes_def)
  have "(case request_fate debug_head DefaultUpgrader (sample_request @ [0x81]) of Decided r \<Rightarrow> fst (verdict DefaultUpgrader r) | _ \<Rightarrow> Some EOF) = None"
    by code_simp
  then obtain rq where f: "request_fate debug_head DefaultUpgrader (conn_data sample_conn) = Decided rq" "fst (verdict DefaultUpgrader rq) = None"
    by (auto simp: sample_conn(3) sample_request_def split: request_fate.splits)
  show ?thesis
    using debug_upgrade_serves [OF debug_env_simple sample_quiet, of "\<lambda>_. []" "\<lambda>ls. False" "\<lambda>ls. []" DefaultUpgrader
        "\<lparr>sent = [], faults = [], rands = (\<lambda>_. 0)\<rparr>"] f h sample_conn(3)
    by (auto simp: conn_out_def sample_request_def)
qed

end
