(* ===== verification/Messaging.thy ===== *)
theory Messaging
  imports Delivery
begin

text \<open>
  Whole messages, written and read by the helpers (msutil/helper.go): what one end of a connection writes
  with \<open>WriteMessage\<close> is what the other end reads with \<open>ReadData\<close>.
\<close>

lemma writeFrame_delivers:
  assumes "length p < 2 ^ 63"
  shows "\<exists>e d' m. writeFrame st op fin p d = Some (e, d') \<and> delivers (frame_bytes (out_frame st op fin m p)) d d' e"
proof (cases "ClientSide st")
  case True
  obtain m d1 where m: "NewMask d = (m, d1)" by (cases "NewMask d")
  have f: "MaskFrameInPlace (NewFrame op fin (put_at 0 p (replicate (length p) 0))) d = (out_frame st op fin m p, d1)"
    by (simp add: MaskFrameInPlace_def m put_at_whole NewFrame_def MaskFrameInPlaceWith_def out_frame_def True zero_header_def)
  obtain e d' where w: "WriteFrame conn_write (out_frame st op fin m p) d1 = Some (e, d')"
      "delivers (frame_bytes (out_frame st op fin m p)) d1 d' e" using WriteFrame_delivers by blast
  have "writeFrame st op fin p d = Some (e, d')" using w(1) True by (simp only: writeFrame_def f Let_def prod.case if_True)
  moreover have "delivers (frame_bytes (out_frame st op fin m p)) d d' e"
    using w(2) NewMask_out [OF m] by (simp add: delivers_def)
  ultimately show ?thesis by blast
next
  case False
  then have "NewFrame op fin p = out_frame st op fin zeroMask p"
    by (simp add: NewFrame_def out_frame_def zero_header_def)
  then have "writeFrame st op fin p d = WriteFrame conn_write (out_frame st op fin zeroMask p) d"
    using False by (simp add: writeFrame_def)
  with WriteFrame_delivers [of "out_frame st op fin zeroMask p" d] show ?thesis by metis
qed

text \<open>A caller that writes messages, each an operation code and a payload, until an error.\<close>

fun send_all :: "byte \<Rightarrow> (byte \<times> byte list) list \<Rightarrow> dest \<Rightarrow> (err option \<times> dest) option" where
  "send_all st [] d = Some (None, d)"
| "send_all st ((op, p) # ms) d =
     (case WriteMessage d st op p of
        None \<Rightarrow> None
      | Some (Some e, d) \<Rightarrow> Some (Some e, d)
      | Some (None, d) \<Rightarrow> send_all st ms d)"

text \<open>A caller that reads a number of messages, until an error.\<close>

fun receive_all ::
  "'s rd \<Rightarrow> (nat \<Rightarrow> nat) \<Rightarrow> (int \<Rightarrow> byte list option) \<Rightarrow> byte \<Rightarrow> nat \<Rightarrow> 's \<Rightarrow> dest \<Rightarrow>
     ((byte \<times> byte list) list \<times> err option \<times> 's \<times> dest) option" where
  "receive_all rd room getlen st 0 s d = Some ([], None, s, d)"
| "receive_all rd room getlen st (Suc n) s d =
     (case ReadData rd room getlen st s d of
        None \<Rightarrow> None
      | Some (bs, op, Some e, s, d) \<Rightarrow> Some ([], Some e, s, d)
      | Some (bs, op, None, s, d) \<Rightarrow>
          map_option (\<lambda>(ms, e, s, d). ((op, bs) # ms, e, s, d)) (receive_all rd room getlen st n s d))"

definition sendable :: "byte \<times> byte list \<Rightarrow> bool" where
  "sendable m \<longleftrightarrow> (fst m = OpText \<and> ValidString (snd m) \<or> fst m = OpBinary) \<and> length (snd m) < 2 ^ 63"

definition sent_as :: "byte \<Rightarrow> byte \<times> byte list \<Rightarrow> frame \<Rightarrow> bool" where
  "sent_as st x f \<longleftrightarrow> (\<exists>m. f = out_frame st (fst x) True m (snd x))"

definition message_frames :: "byte \<Rightarrow> (byte \<times> byte list) list \<Rightarrow> frame list \<Rightarrow> bool" where
  "message_frames st ms fs \<longleftrightarrow> list_all2 (sent_as st) ms fs"

lemma send_all_wire:
  "list_all sendable ms \<Longrightarrow> faults d = [] \<Longrightarrow>
     \<exists>d' fs. send_all st ms d = Some (None, d') \<and> message_frames st ms fs \<and> conn_out d' = conn_out d @ wire fs \<and> faults d' = []"
proof (induction ms arbitrary: d)
  case (Cons x ms)
  obtain op p where x: "x = (op, p)" by (cases x)
  obtain d1 f where d1: "writeFrame st op True p d = Some (None, d1)" "sent_as st x f"
      "conn_out d1 = conn_out d @ frame_bytes f" "faults d1 = []"
  proof -
    obtain e d1 m where "writeFrame st op True p d = Some (e, d1)" "delivers (frame_bytes (out_frame st op True m p)) d d1 e"
      using writeFrame_delivers [of p st op True d] Cons.prems x by (auto simp: sendable_def)
    moreover have "sent_as st x (out_frame st op True m p)" unfolding sent_as_def x fst_conv snd_conv by blast
    ultimately show thesis
      using Cons.prems by (intro that [of d1 "out_frame st op True m p"]) (auto simp: delivers_def)
  qed
  obtain d2 fs where "send_all st ms d1 = Some (None, d2)" "message_frames st ms fs" "conn_out d2 = conn_out d1 @ wire fs" "faults d2 = []"
    using Cons.IH [OF _ d1(4)] Cons.prems by auto
  then show ?case
    using d1 x by (intro exI [of _ d2] exI [of _ "f # fs"]) (simp add: WriteMessage_def message_frames_def)
qed (simp add: message_frames_def)

lemma data_ops:
  "\<not> IsControl OpText" "\<not> IsControl OpBinary" "OpText AND (OpText OR OpBinary) \<noteq> 0" "OpBinary AND (OpText OR OpBinary) \<noteq> 0"
  "OpBinary \<noteq> OpText"
  by code_simp+

lemma ReadData_out_frame:
  assumes s: "conn_sane s" "conn_data s = frame_bytes (out_frame st op True m p) @ rest" and x: "sendable (op, p)"
    and pr: "peers st st'" "\<not> Fragmented st'" and env: "faults d = []" "byte_pool getlen" "\<And>k. 0 < room k"
  shows "\<exists>s'. ReadData conn_read room getlen st' s d = Some (p, op, None, s', d) \<and> conn_sane s' \<and> conn_data s' = rest \<and>
    conn_end s' = conn_end s"
proof -
  let ?f = "out_frame st op True m p"
  have "whole st op [?f] p"
    unfolding whole_def using x by (intro exI [of _ "[]"] exI [of _ m] exI [of _ p]) (simp add: frags_def sendable_def)
  then have m: "message_ok (data_conf conn_read getlen st') quiet_ping st' [?f]"
    using whole_message [of st op "[?f]" p st' "data_conf conn_read getlen st'" quiet_ping] x pr
    by (auto simp: sendable_def data_conf_def zero_conf_def)
  have o: "\<not> IsControl (OpCode (Header ?f))" "OpCode (Header ?f) AND (OpText OR OpBinary) \<noteq> 0"
    using x data_ops by (auto simp: sendable_def)
  have "conn_data s = wire (concat []) @ wire [?f] @ rest" using s(2) by simp
  from data_reader.readData_message [OF conn_data_reader [OF env(2)], where room = room and us = "[]" and w = d,
      OF s(1) this pr(2) _ _ m o env(3)] x env(1) data_ops(5)
  show ?thesis by (auto simp: calm_def out_frame_plain sendable_def ReadData_def split: if_splits)
qed

lemma receive_all_frames:
  "message_frames st ms fs \<Longrightarrow> list_all sendable ms \<Longrightarrow> conn_sane s \<Longrightarrow> conn_data s = wire fs @ rest \<Longrightarrow>
     peers st st' \<Longrightarrow> \<not> Fragmented st' \<Longrightarrow> faults d = [] \<Longrightarrow> byte_pool getlen \<Longrightarrow> (\<And>k. 0 < room k) \<Longrightarrow>
     \<exists>s'. receive_all conn_read room getlen st' (length ms) s d = Some (ms, None, s', d) \<and> conn_data s' = rest"
proof (induction ms arbitrary: fs s)
  case Nil
  then show ?case by (simp add: message_frames_def)
next
  case (Cons x ms)
  obtain op p where x: "x = (op, p)" by (cases x)
  obtain f gs where fs: "fs = f # gs" "sent_as st x f" "message_frames st ms gs"
    using Cons.prems(1) by (auto simp: message_frames_def list_all2_Cons1)
  then obtain m where f: "f = out_frame st op True m p" using x unfolding sent_as_def by auto
  have "conn_data s = frame_bytes (out_frame st op True m p) @ wire gs @ rest" using Cons.prems(4) fs(1) f by simp
  from ReadData_out_frame [where room = room, OF Cons.prems(3) this _ Cons.prems(5,6,7,8,9)] Cons.prems(2) x
  obtain s1 where s1: "ReadData conn_read room getlen st' s d = Some (p, op, None, s1, d)" "conn_sane s1" "conn_data s1 = wire gs @ rest"
    by auto
  from Cons.IH [OF fs(3) _ s1(2,3) Cons.prems(5-8)] Cons.prems(9) Cons.prems(2) s1(1) x show ?case by auto
qed

text \<open>
  C11: messages written one after the other with \<open>WriteMessage\<close>, by a client or a server, are what
  as many calls of \<open>ReadData\<close> at the other end return, in order, with their operation codes and payloads, however the
  network cuts the bytes; nothing is written back and the bytes after the messages are left for the next read.
\<close>

theorem messages_roundtrip:
  assumes "list_all sendable ms" and "peers st st'" and "\<not> Fragmented st'" and "faults d = []"
    and "faults dr = []" and "byte_pool getlen" and "\<And>k. 0 < room k"
  shows "\<exists>d'. send_all st ms d = Some (None, d') \<and>
    (\<forall>s rest. conn_sane s \<and> conn_out d @ conn_data s = conn_out d' @ rest \<longrightarrow>
      (\<exists>s'. receive_all conn_read room getlen st' (length ms) s dr = Some (ms, None, s', dr) \<and> conn_data s' = rest))"
proof -
  obtain d' fs where w: "send_all st ms d = Some (None, d')" "message_frames st ms fs" "conn_out d' = conn_out d @ wire fs"
    using send_all_wire [OF assms(1,4)] by blast
  have "\<exists>s'. receive_all conn_read room getlen st' (length ms) s dr = Some (ms, None, s', dr) \<and> conn_data s' = rest"
    if "conn_sane s" "conn_out d @ conn_data s = conn_out d' @ rest" for s rest
    using receive_all_frames [where room = room, OF w(2) assms(1) that(1) _ assms(2,3,5,6,7)] that(2) w(3) by simp
  with w(1) show ?thesis by blast
qed

theorem messages_roundtrip_witness:
  "let ms = [(OpText, [104, 105]), (OpBinary, [255]), (OpText, [])]; d = \<lparr>sent = [], faults = [], rands = (\<lambda>_. 7)\<rparr>
   in \<exists>d' s'. send_all StateClientSide ms d = Some (None, d') \<and>
     receive_all conn_read Suc fresh_pool StateServerSide 3 [REv (conn_out d' @ [9]) None] d = Some (ms, None, s', d) \<and> conn_data s' = [9]"
proof -
  let ?ms = "[(OpText, [104, 105]), (OpBinary, [255]), (OpText, [])]" and ?d = "\<lparr>sent = [], faults = [], rands = (\<lambda>_. 7)\<rparr>"
  have p: "peers StateClientSide StateServerSide" "\<not> Fragmented StateServerSide" by (simp_all add: peers_def) code_simp+
  have m: "list_all sendable ?ms" by (simp add: sendable_def)
  obtain d' where d': "send_all StateClientSide ?ms ?d = Some (None, d')"
      "\<And>s rest. conn_sane s \<Longrightarrow> conn_out ?d @ conn_data s = conn_out d' @ rest \<Longrightarrow>
         \<exists>s'. receive_all conn_read Suc fresh_pool StateServerSide (length ?ms) s ?d = Some (?ms, None, s', ?d) \<and> conn_data s' = rest"
    using messages_roundtrip [where room = Suc, OF m p, of ?d ?d fresh_pool] fresh.byte_pool_axioms by auto
  from d'(2) [of "[REv (conn_out d' @ [9]) None]" "[9]"] d'(1) show ?thesis
    by (auto simp: conn_out_def Let_def numeral_eq_Suc)
qed

end
