(* ===== verification/Examples.thy ===== *)
theory Examples
  imports Messaging
begin

text \<open>
  The servers of the examples that are written over the helpers (example/autobahn): what they do
  with a connection once it is upgraded. They read a message and write it back, until an error.
  Logging is left out; a result holds the error that ends the loop.
\<close>

section \<open>An echo over the helpers\<close>

partial_function (option) helpersHighLevelHandler ::
  "'s rd \<Rightarrow> (nat \<Rightarrow> nat) \<Rightarrow> (int \<Rightarrow> byte list option) \<Rightarrow> 's \<Rightarrow> dest \<Rightarrow> (err \<times> 's \<times> dest) option" where
  "helpersHighLevelHandler rd room getlen s d =
     Option.bind (ReadClientData rd room getlen s d) (\<lambda>(bts, op, e, s, d).
       case e of
         Some er \<Rightarrow> Some (er, s, d)
       | None \<Rightarrow>
           Option.bind (WriteServerMessage d op bts) (\<lambda>(e, d).
             case e of
               Some er \<Rightarrow> Some (er, s, d)
             | None \<Rightarrow> helpersHighLevelHandler rd room getlen s d))"

declare helpersHighLevelHandler.simps [code]

section \<open>An echo over messages\<close>

text \<open>The messages of one read: control messages are handled, the others written back.\<close>

fun answer_messages ::
  "(int \<Rightarrow> byte list option) \<Rightarrow> Message list \<Rightarrow> dest \<Rightarrow> (err option \<times> dest) option" where
  "answer_messages getlen [] d = Some (None, d)"
| "answer_messages getlen (m # ms) d = do {
     (e, d) \<leftarrow> (if IsControl (MOpCode m) then HandleClientControlMessage getlen d m
               else WriteServerMessage d (MOpCode m) (MPayload m));
     (if e \<noteq> None then Some (e, d) else answer_messages getlen ms d)
   }"

partial_function (option) helpersLowLevelHandler ::
  "'s rd \<Rightarrow> (nat \<Rightarrow> nat) \<Rightarrow> (nat \<Rightarrow> nat) \<Rightarrow> (int \<Rightarrow> byte list option) \<Rightarrow> 's \<Rightarrow> dest \<Rightarrow> (err \<times> 's \<times> dest) option" where
  "helpersLowLevelHandler rd room room' getlen s d =
     Option.bind (ReadClientMessage rd room room' s []) (\<lambda>(msg, e, s).
       case e of
         Some er \<Rightarrow> Some (er, s, d)
       | None \<Rightarrow>
           Option.bind (answer_messages getlen msg d) (\<lambda>(e, d).
             case e of
               Some er \<Rightarrow> Some (er, s, d)
             | None \<Rightarrow> helpersLowLevelHandler rd room room' getlen s d))"

declare helpersLowLevelHandler.simps [code]

section \<open>The echo comes back\<close>

text \<open>Nothing more to read: the read reports how the connection ended.\<close>

lemma ReadData_ended:
  assumes "conn_sane s" and "conn_data s = []" and "\<not> Fragmented st"
  shows "\<exists>op s'. ReadData conn_read room getlen st s d = Some ([], op, Some (conn_end s), s', d)"
proof -
  obtain s' where h: "ReadHeader conn_read s = Some (zero_header, Some (conn_end s), s')"
    using net.io_ReadFull_short [OF assms(1), of 2] assms(2) by (auto simp: ReadHeader_def)
  have "frame_error (data_conf conn_read getlen st) ((NewReader s st)\<lparr>src := s'\<rparr>) zero_header (Some (conn_end s)) = Some (conn_end s)"
    using assms(3) by (simp add: frame_error_def fragmented_def NewReader_def)
  then have "NextFrame conn_read (data_conf conn_read getlen st) (NewReader s st, d) =
      Some (zero_header, Some (conn_end s), (NewReader s st)\<lparr>src := s'\<rparr>, d)"
    using h by (simp add: NextFrame_def NewReader_def Let_def)
  then show ?thesis by (simp add: ReadData_def readData_def read_data_loop.simps)
qed

lemma server_rest: "\<not> Fragmented StateServerSide" "peers StateClientSide StateServerSide"
  "\<not> Fragmented StateClientSide" "peers StateServerSide StateClientSide"
  by (simp_all add: peers_def) code_simp+

lemma echo_frames:
  assumes "byte_pool getlen" and "\<And>k. 0 < room k"
  shows "message_frames StateClientSide ms fs \<Longrightarrow> list_all sendable ms \<Longrightarrow> conn_sane s \<Longrightarrow> conn_data s = wire fs \<Longrightarrow> faults d = [] \<Longrightarrow>
     \<exists>s' d' gs. helpersHighLevelHandler conn_read room getlen s d = Some (conn_end s, s', d') \<and>
       message_frames StateServerSide ms gs \<and> conn_out d' = conn_out d @ wire gs"
proof (induction ms arbitrary: fs s d)
  case Nil
  then obtain op s' where "ReadData conn_read room getlen StateServerSide s d = Some ([], op, Some (conn_end s), s', d)"
    using ReadData_ended [OF Nil(3)] by (fastforce simp: message_frames_def server_rest)
  then show ?case by (subst helpersHighLevelHandler.simps) (simp add: ReadClientData_def message_frames_def)
next
  case (Cons x ms)
  obtain op p where x: "x = (op, p)" by (cases x)
  obtain f gs where fs: "fs = f # gs" "sent_as StateClientSide x f" "message_frames StateClientSide ms gs"
    using Cons.prems(1) by (auto simp: message_frames_def list_all2_Cons1)
  then obtain m where f: "f = out_frame StateClientSide op True m p" using x unfolding sent_as_def by auto
  have "conn_data s = frame_bytes (out_frame StateClientSide op True m p) @ wire gs" using Cons.prems(4) fs(1) f by simp
  from ReadData_out_frame [where room = room, OF Cons.prems(3) this _ server_rest(2,1) Cons.prems(5) assms] Cons.prems(2) x
  obtain s1 where s1: "ReadData conn_read room getlen StateServerSide s d = Some (p, op, None, s1, d)" "conn_sane s1"
      "conn_data s1 = wire gs" and en: "conn_end s1 = conn_end s" by auto
  obtain d1 fs1 where d1: "send_all StateServerSide [x] d = Some (None, d1)" "message_frames StateServerSide [x] fs1"
      "conn_out d1 = conn_out d @ wire fs1" "faults d1 = []"
    using send_all_wire [of "[x]" d StateServerSide] Cons.prems(2,5) by auto
  have w: "WriteServerMessage d op p = Some (None, d1)"
    using d1(1) x by (auto simp: WriteServerMessage_def split: option.splits)
  obtain s2 d2 hs where r: "helpersHighLevelHandler conn_read room getlen s1 d1 = Some (conn_end s1, s2, d2)"
      "message_frames StateServerSide ms hs" "conn_out d2 = conn_out d1 @ wire hs"
    using Cons.IH [OF fs(3) _ s1(2,3) d1(4)] Cons.prems(2) by auto
  have "helpersHighLevelHandler conn_read room getlen s d = Some (conn_end s, s2, d2)"
    using s1(1) w r(1) en by (subst helpersHighLevelHandler.simps) (simp add: ReadClientData_def)
  moreover have "message_frames StateServerSide (x # ms) (fs1 @ hs)"
    using d1(2) r(2) by (auto simp: message_frames_def list_all2_Cons1)
  moreover have "conn_out d2 = conn_out d @ wire (fs1 @ hs)" using d1(3) r(3) by (simp add: wire_append)
  ultimately show ?case by blast
qed

text \<open>
  C19: a client that writes messages to the echo server of the examples gets the same messages back, in order,
  with the same operation codes, however the network cuts the bytes in either direction; when the
  client's side of the connection ends, the server's loop ends with the error that says so.
\<close>

theorem echo_roundtrip:
  assumes "list_all sendable ms" and "faults dc = []" and "faults ds = []" and "byte_pool getlen" and "\<And>k. 0 < room k"
  shows "\<exists>dc'. send_all StateClientSide ms dc = Some (None, dc') \<and>
    (\<forall>ss. conn_sane ss \<and> conn_out dc @ conn_data ss = conn_out dc' \<longrightarrow>
      (\<exists>ss' ds'. helpersHighLevelHandler conn_read room getlen ss ds = Some (conn_end ss, ss', ds') \<and>
        (\<forall>sc rest. conn_sane sc \<and> conn_out ds @ conn_data sc = conn_out ds' @ rest \<longrightarrow>
          (\<exists>sc'. receive_all conn_read room getlen StateClientSide (length ms) sc dc' = Some (ms, None, sc', dc') \<and>
             conn_data sc' = rest))))"
proof -
  obtain dc' fs where w: "send_all StateClientSide ms dc = Some (None, dc')" "message_frames StateClientSide ms fs"
      "conn_out dc' = conn_out dc @ wire fs" "faults dc' = []"
    using send_all_wire [OF assms(1,2)] by blast
  have "\<exists>ss' ds'. helpersHighLevelHandler conn_read room getlen ss ds = Some (conn_end ss, ss', ds') \<and>
      (\<forall>sc rest. conn_sane sc \<and> conn_out ds @ conn_data sc = conn_out ds' @ rest \<longrightarrow>
        (\<exists>sc'. receive_all conn_read room getlen StateClientSide (length ms) sc dc' = Some (ms, None, sc', dc') \<and>
           conn_data sc' = rest))"
    if ss: "conn_sane ss" "conn_out dc @ conn_data ss = conn_out dc'" for ss
  proof -
    have "conn_data ss = wire fs" using ss(2) w(3) by simp
    from echo_frames [where room = room, OF assms(4,5) w(2) assms(1) ss(1) this assms(3)]
    obtain ss' ds' gs where e: "helpersHighLevelHandler conn_read room getlen ss ds = Some (conn_end ss, ss', ds')"
        "message_frames StateServerSide ms gs" "conn_out ds' = conn_out ds @ wire gs" by blast
    have "\<exists>sc'. receive_all conn_read room getlen StateClientSide (length ms) sc dc' = Some (ms, None, sc', dc') \<and> conn_data sc' = rest"
      if "conn_sane sc" "conn_out ds @ conn_data sc = conn_out ds' @ rest" for sc rest
      using receive_all_frames [where room = room, OF e(2) assms(1) that(1) _ server_rest(4,3) w(4) assms(4,5)] that(2) e(3) by simp
    with e(1) show ?thesis by blast
  qed
  with w(1) show ?thesis by blast
qed

theorem echo_roundtrip_witness:
  "let ms = [(OpText, [104, 105]), (OpBinary, [255])]; d = \<lparr>sent = [], faults = [], rands = (\<lambda>_. 7)\<rparr>
   in \<exists>dc' ss' ds' sc'. send_all StateClientSide ms d = Some (None, dc') \<and>
     helpersHighLevelHandler conn_read Suc fresh_pool [REv (conn_out dc') None] d = Some (EOF, ss', ds') \<and>
     receive_all conn_read Suc fresh_pool StateClientSide 2 [REv (conn_out ds') None] dc' = Some (ms, None, sc', dc')"
proof -
  let ?ms = "[(OpText, [104, 105]), (OpBinary, [255])]" and ?d = "\<lparr>sent = [], faults = [], rands = (\<lambda>_. 7)\<rparr>"
  have m: "list_all sendable ?ms" by (simp add: sendable_def)
  obtain dc' where a: "send_all StateClientSide ?ms ?d = Some (None, dc')"
    and b: "\<And>ss. conn_sane ss \<Longrightarrow> conn_out ?d @ conn_data ss = conn_out dc' \<Longrightarrow>
      \<exists>ss' ds'. helpersHighLevelHandler conn_read Suc fresh_pool ss ?d = Some (conn_end ss, ss', ds') \<and>
        (\<forall>sc rest. conn_sane sc \<and> conn_out ?d @ conn_data sc = conn_out ds' @ rest \<longrightarrow>
          (\<exists>sc'. receive_all conn_read Suc fresh_pool StateClientSide (length ?ms) sc dc' = Some (?ms, None, sc', dc') \<and>
             conn_data sc' = rest))"
    using echo_roundtrip [where room = Suc, OF m _ _ fresh.byte_pool_axioms, of ?d ?d] by auto
  have o: "conn_out ?d = []" by (simp add: conn_out_def)
  obtain ss' ds' where c: "helpersHighLevelHandler conn_read Suc fresh_pool [REv (conn_out dc') None] ?d = Some (EOF, ss', ds')"
    and d: "\<And>sc rest. conn_sane sc \<Longrightarrow> conn_out ?d @ conn_data sc = conn_out ds' @ rest \<Longrightarrow>
          \<exists>sc'. receive_all conn_read Suc fresh_pool StateClientSide (length ?ms) sc dc' = Some (?ms, None, sc', dc') \<and> conn_data sc' = rest"
    using b [of "[REv (conn_out dc') None]"] o by auto
  from d [of "[REv (conn_out ds') None]" "[]"] o a c show ?thesis by (auto simp: Let_def numeral_eq_Suc)
qed

end
