(* ===== verification/RawEcho.thy ===== *)
theory RawEcho
  imports Control
begin

text \<open>
  The server of the examples that works on raw frames (\<open>wsHandler\<close> of example/autobahn): a loop that reads
  a header, checks it, reads the payload through one \<open>CipherReader\<close> and, for text, one \<open>UTF8Reader\<close> that live as long as the
  connection, answers control frames and writes data frames back. The lemmas show that it refines an echo over
  frames, and that its loop ends on every connection: it returns, or it panics in the \<open>make\<close> for a
  payload whose length is out of range. Logging and the closing of the connection are left out.
\<close>

section \<open>The handler\<close>

definition closeInvalidPayload :: "byte list option" where
  "closeInvalidPayload =
     Option.bind (NewCloseFrameBody StatusInvalidFramePayloadData []) (\<lambda>body. MustCompileFrame (NewCloseFrame body))"

definition closeProtocolError :: "byte list option" where
  "closeProtocolError =
     Option.bind (NewCloseFrameBody StatusProtocolError []) (\<lambda>body. MustCompileFrame (NewCloseFrame body))"

text \<open>
  The variables that live through the loop. The reader of the payload is the cipher over
  \<open>io.LimitReader(conn, header.Length)\<close>; the code resets one \<open>CipherReader\<close> for every frame and points the
  \<open>UTF8Reader\<close> at it whenever it is going to read through it.
\<close>

text \<open>How the handler ends: it returns after the error that breaks its loop, if any, or it panics.\<close>

datatype ws_end = Returns "err option" | Panics

type_synonym 's payload_rd = "(int \<times> 's) CipherReader"

record 's ws_vars =
  ws_state :: byte
  ws_textPending :: bool
  ws_utf8 :: "'s payload_rd UTF8Reader"

definition ws_start :: "'s ws_vars" where
  "ws_start = \<lparr>ws_state = StateServerSide, ws_textPending = False, ws_utf8 = NewUTF8Reader None\<rparr>"

text \<open>
  The switch over the operation code for a frame that is not a ping or pong: whether the text must be complete
  after this frame (\<open>utf8Fin\<close>), whether the payload is read through the \<open>UTF8Reader\<close>, and the
  variables.
\<close>

definition ws_switch :: "header \<Rightarrow> 's payload_rd \<Rightarrow> 's ws_vars \<Rightarrow> bool \<times> bool \<times> 's ws_vars" where
  "ws_switch h c v =
     (if OpCode h = OpClose then (True, False, v)
      else if OpCode h = OpContinuation then
        (let r = ws_textPending v;
             v = (if r then v\<lparr>ws_utf8 := (ws_utf8 v)\<lparr>Source := Some c\<rparr>\<rparr> else v)
         in if Fin h then (True, r, v\<lparr>ws_state := Clear (ws_state v) StateFragmented, ws_textPending := False\<rparr>)
            else (False, r, v))
      else if OpCode h = OpText then
        (let v = v\<lparr>ws_utf8 := UTF8Reader_Reset (ws_utf8 v) (Some c)\<rparr>
         in if \<not> Fin h then (False, True, v\<lparr>ws_state := Set (ws_state v) StateFragmented, ws_textPending := True\<rparr>)
            else (True, True, v))
      else if OpCode h = OpBinary then
        (False, False, if \<not> Fin h then v\<lparr>ws_state := Set (ws_state v) StateFragmented\<rparr> else v)
      else (False, False, v))"

text \<open>\<open>io.ReadFull(r, payload)\<close>, from either reader.\<close>

definition ws_read :: "'s rd \<Rightarrow> nat \<Rightarrow> bool \<Rightarrow> 's payload_rd \<Rightarrow> 's ws_vars \<Rightarrow> (byte list \<times> err option \<times> 's \<times> 's ws_vars) option" where
  "ws_read rd k through c v =
     (if through then do {
        (p, e, u) \<leftarrow> io_ReadFull (utf8_read (CipherReader_Read (limited_read rd))) k (ws_utf8 v);
        c \<leftarrow> Source u;
        Some (p, e, snd (cr_r c), v\<lparr>ws_utf8 := u\<rparr>)
      }
      else do {
        (p, e, c) \<leftarrow> io_ReadFull (CipherReader_Read (limited_read rd)) k c;
        Some (p, e, snd (cr_r c), v)
      })"

text \<open>\<open>conn.Write\<close> of a compiled frame, and the answer to a close frame; errors of the writes are ignored.\<close>

definition ws_send :: "byte list option \<Rightarrow> dest \<Rightarrow> dest option" where
  "ws_send bts d = do {
     bts \<leftarrow> bts;
     (n, e, d) \<leftarrow> conn_write bts d;
     Some d
   }"

definition ws_closed :: "byte list \<Rightarrow> dest \<Rightarrow> (err option \<times> dest) option" where
  "ws_closed payload d =
     (let (code, reason) = ParseCloseFrameData payload
      in if \<not> Empty code then
           (case (if IsProtocolSpec code \<and> \<not> IsProtocolDefined code
                  then Some (FmtError (str_bytes ''close code from spec range is not defined''))
                  else CheckCloseFrameData code reason) of
              Some er \<Rightarrow> do {
                d \<leftarrow> ws_send closeProtocolError d;
                Some (Some er, d)
              }
            | None \<Rightarrow> do {
                body \<leftarrow> NewCloseFrameBody code [];
                (e, d) \<leftarrow> WriteFrame conn_write (NewCloseFrame body) d;
                Some (None, d)
              })
         else do {
           d \<leftarrow> ws_send CompiledClose d;
           Some (None, d)
         })"

text \<open>
  One turn of the loop: the error that ends it or the variables for the next turn. \<open>io.CopyN\<close> is
  \<open>io.Copy\<close> from a \<open>LimitedReader\<close>; its result and the errors of the writes are ignored.
\<close>

definition ws_turn ::
  "'s rd \<Rightarrow> 's \<Rightarrow> dest \<Rightarrow> 's ws_vars \<Rightarrow> ((ws_end + 's ws_vars) \<times> 's \<times> dest) option" where
  "ws_turn rd s d v = do {
     (h, e, s) \<leftarrow> ReadHeader rd s;
     case e of
       Some er \<Rightarrow> Some (Inl (Returns (Some er)), s, d)
     | None \<Rightarrow>
         (case CheckHeader h (ws_state v) of
            Some er \<Rightarrow> do {
              d \<leftarrow> ws_send closeProtocolError d;
              Some (Inl (Returns (Some er)), s, d)
            }
          | None \<Rightarrow>
              (let n = sint (Length h);
                   c = NewCipherReader (n, s) (Mask h)
               in if OpCode h = OpPing then do {
                    (e, d) \<leftarrow> WriteHeader conn_write (h\<lparr>OpCode := OpPong, Masked := False\<rparr>) d;
                    (e, x, d) \<leftarrow> io_Copy None (limited_read (CipherReader_Read (limited_read rd))) conn_write
                      (copy_size (Some n)) (n, c) d;
                    Some (Inr v, snd (cr_r (snd x)), d)
                  }
                  else if OpCode h = OpPong then do {
                    (e, x) \<leftarrow> io_Discard (limited_read rd) (n, s);
                    Some (Inr v, snd x, d)
                  }
                  else do {
                    let (utf8Fin, through, v) = ws_switch h c v;
                    (case make_bytes n of
                       None \<Rightarrow> Some (Inl Panics, s, d)
                     | Some buf \<Rightarrow> do {
                         (payload, e, s, v) \<leftarrow> ws_read rd (length buf) through c v;
                         (case (if e = None \<and> utf8Fin \<and> \<not> UTF8Reader_Valid (ws_utf8 v) then Some ErrInvalidUTF8 else e) of
                            Some er \<Rightarrow> do {
                              d \<leftarrow> ws_send (if er = ErrInvalidUTF8 then closeInvalidPayload else CompiledClose) d;
                              Some (Inl (Returns (Some er)), s, d)
                            }
                          | None \<Rightarrow>
                              if OpCode h = OpClose then do {
                                (e, d) \<leftarrow> ws_closed payload d;
                                Some (Inl (Returns e), s, d)
                              }
                              else do {
                                (e, d) \<leftarrow> WriteHeader conn_write (h\<lparr>Masked := False\<rparr>) d;
                                (n, e, d) \<leftarrow> conn_write payload d;
                                Some (Inr v, s, d)
                              })
                       })
                  }))
   }"

partial_function (option) ws_loop :: "'s rd \<Rightarrow> 's \<Rightarrow> dest \<Rightarrow> 's ws_vars \<Rightarrow> (ws_end \<times> 's \<times> dest) option" where
  "ws_loop rd s d v =
     Option.bind (ws_turn rd s d v) (\<lambda>(x, s, d).
       case x of
         Inl e \<Rightarrow> Some (e, s, d)
       | Inr v \<Rightarrow> ws_loop rd s d v)"

declare ws_loop.simps [code]

definition wsHandler :: "'s rd \<Rightarrow> 's \<Rightarrow> dest \<Rightarrow> (ws_end \<times> 's \<times> dest) option" where
  "wsHandler rd s d = ws_loop rd s d ws_start"

section \<open>An echo over frames\<close>

text \<open>
  What is expected of the loop, over whole frames: the side's memory is whether it is inside of a message, and
  of a text the bytes so far.
\<close>

datatype echo_state = Idle | InText "byte list" | InBinary

fun echo_flags :: "echo_state \<Rightarrow> byte" where
  "echo_flags Idle = StateServerSide"
| "echo_flags q = Set StateServerSide StateFragmented"

text \<open>The text of the message after a data frame, if it is a text.\<close>

definition text_after :: "echo_state \<Rightarrow> frame \<Rightarrow> byte list option" where
  "text_after q f =
     (if OpCode (Header f) = OpText then Some (plain f)
      else case q of InText t \<Rightarrow> Some (t @ plain f) | _ \<Rightarrow> None)"

definition echo_next :: "echo_state \<Rightarrow> frame \<Rightarrow> echo_state" where
  "echo_next q f =
     (if Fin (Header f) then Idle else case text_after q f of Some t \<Rightarrow> InText t | None \<Rightarrow> InBinary)"

text \<open>A text is refused when it is complete and invalid, or when nothing can make it valid any more.\<close>

definition text_refused :: "bool \<Rightarrow> byte list \<Rightarrow> bool" where
  "text_refused complete t \<longleftrightarrow> (if complete then \<not> ValidString t else \<nexists>zs. ValidString (t @ zs))"

definition close_frame :: "uint16 \<Rightarrow> frame" where
  "close_frame code = NewCloseFrame (be_bytes 2 code)"

definition echo_close :: "byte list \<Rightarrow> frame \<times> err option" where
  "echo_close p =
     (let (code, reason) = ParseCloseFrameData p
      in if code = 0 then (NewCloseFrame [], None)
         else if CheckCloseFrameData code reason = None then (close_frame code, None)
         else (close_frame StatusProtocolError,
           Some (if IsProtocolSpec code \<and> \<not> IsProtocolDefined code
                 then FmtError (str_bytes ''close code from spec range is not defined'')
                 else the (CheckCloseFrameData code reason))))"

text \<open>
  The answer to one frame: the frames sent back, and how the echo ends or what it remembers. A data frame that is
  longer than any slice ends it with a panic.
\<close>

definition echo_frame :: "echo_state \<Rightarrow> frame \<Rightarrow> frame list \<times> (ws_end + echo_state)" where
  "echo_frame q f =
     (let h = Header f
      in case CheckHeader h (echo_flags q) of
           Some er \<Rightarrow> ([close_frame StatusProtocolError], Inl (Returns (Some er)))
         | None \<Rightarrow>
             if OpCode h = OpPing then ([NewPongFrame (plain f)], Inr q)
             else if OpCode h = OpPong then ([], Inr q)
             else if OpCode h = OpClose then
               (case q of
                  InText t \<Rightarrow>
                    if text_refused True t then ([close_frame StatusInvalidFramePayloadData], Inl (Returns (Some ErrInvalidUTF8)))
                    else (let (g, e) = echo_close (plain f) in ([g], Inl (Returns e)))
                | _ \<Rightarrow> (let (g, e) = echo_close (plain f) in ([g], Inl (Returns e))))
             else if maxAlloc < int (length (Payload f)) then ([], Inl Panics)
             else if (case text_after q f of Some t \<Rightarrow> text_refused (Fin h) t | None \<Rightarrow> False) then
               ([close_frame StatusInvalidFramePayloadData], Inl (Returns (Some ErrInvalidUTF8)))
             else ([NewFrame (OpCode h) (Fin h) (plain f)], Inr (echo_next q f)))"

fun echo_frames :: "err \<Rightarrow> echo_state \<Rightarrow> frame list \<Rightarrow> frame list \<times> ws_end" where
  "echo_frames e0 q [] = ([], Returns (Some e0))"
| "echo_frames e0 q (f # fs) =
     (case echo_frame q f of
        (gs, Inl e) \<Rightarrow> (gs, e)
      | (gs, Inr q') \<Rightarrow> (let (hs, e) = echo_frames e0 q' fs in (gs @ hs, e)))"

section \<open>Reading a payload\<close>

text \<open>Reading \<open>k\<close> bytes through a limit of \<open>k\<close>, a cipher or the text check is reading them from below.\<close>

lemma read_full_step: "length got < k \<Longrightarrow> rd (k - length got) s = Some (bs, None, s') \<Longrightarrow>
    read_full_loop rd k got s = read_full_loop rd k (got @ bs) s'"
  by (subst read_full_loop.simps) simp

lemma read_full_last: "length got < k \<Longrightarrow> rd (k - length got) s = Some (bs, Some er, s') \<Longrightarrow>
    read_full_loop rd k got s = Some (got @ bs, read_full_err k (got @ bs) er, s')"
  by (subst read_full_loop.simps) simp

lemma Cipher_empty: "Cipher bs mk off = [] \<longleftrightarrow> bs = []"
  by (simp only: length_Cipher flip: length_0_conv)

context io_reader
begin

lemma read_full_limited:
  "inv s \<Longrightarrow> length got \<le> k \<Longrightarrow>
     read_full_loop (limited_read rd) k got (int (k - length got), s) =
       map_option (\<lambda>(bs, e, s'). (bs, e, (int (k - length bs), s'))) (read_full_loop rd k got s)"
proof (induction "fin s" arbitrary: got s rule: less_induct)
  case less
  show ?case
  proof (cases "length got < k")
    case False
    with less.prems show ?thesis by (simp add: read_full_loop.simps)
  next
    case True
    obtain bs e s' where r: "rd (k - length got) s = Some (bs, e, s')" using rd_returns [OF less.prems(1)] by blast
    note l = rd_length [OF less.prems(1) r]
    then have N: "int (k - length got) - int (length bs) = int (k - length (got @ bs))" by simp
    have lr: "limited_read rd (k - length got) (int (k - length got), s) = Some (bs, e, (int (k - length (got @ bs)), s'))"
      using True r N by (simp add: limited_read.simps)
    show ?thesis
    proof (cases e)
      case None
      have "fin s' < fin s" using rd_progress [OF less.prems(1) _ r] None True by simp
      from less.hyps [OF this rd_inv [OF less.prems(1) r], of "got @ bs"] l True
      have "read_full_loop (limited_read rd) k (got @ bs) (int (k - length (got @ bs)), s') =
          map_option (\<lambda>(bs, e, s'). (bs, e, (int (k - length bs), s'))) (read_full_loop rd k (got @ bs) s')" by simp
      then show ?thesis by (simp only: read_full_step [where rd = "rd", OF True r [unfolded None]] read_full_step [where rd = "limited_read rd", OF True lr [unfolded None]])
    next
      case (Some er)
      then show ?thesis by (simp add: read_full_last [where rd = "rd", OF True r [unfolded Some]] read_full_last [where rd = "limited_read rd", OF True lr [unfolded Some]])
    qed
  qed
qed

lemma read_full_ciphered:
  "inv s \<Longrightarrow> read_full_loop (CipherReader_Read rd) k (Cipher got mk 0) \<lparr>cr_r = s, cr_mask = mk, cr_pos = length got\<rparr> =
     map_option (\<lambda>(bs, e, s'). (Cipher bs mk 0, e, \<lparr>cr_r = s', cr_mask = mk, cr_pos = length bs\<rparr>)) (read_full_loop rd k got s)"
proof (induction "fin s" arbitrary: got s rule: less_induct)
  case less
  show ?case
  proof (cases "length got < k")
    case False
    with less.prems show ?thesis by (simp add: read_full_loop.simps)
  next
    case True
    obtain bs e s' where r: "rd (k - length got) s = Some (bs, e, s')" using rd_returns [OF less.prems(1)] by blast
    have ca: "Cipher got mk 0 @ Cipher bs mk (length got) = Cipher (got @ bs) mk 0" by (simp add: Cipher_append)
    have True': "length (Cipher got mk 0) < k" using True by simp
    have cr: "CipherReader_Read rd (k - length (Cipher got mk 0)) \<lparr>cr_r = s, cr_mask = mk, cr_pos = length got\<rparr> =
        Some (Cipher bs mk (length got), e, \<lparr>cr_r = s', cr_mask = mk, cr_pos = length (got @ bs)\<rparr>)"
      by (simp add: CipherReader_Read_def r)
    show ?thesis
    proof (cases e)
      case None
      have "fin s' < fin s" using rd_progress [OF less.prems(1) _ r] None True by simp
      from less.hyps [OF this rd_inv [OF less.prems(1) r], of "got @ bs"]
      show ?thesis
        unfolding read_full_step [where rd = rd, OF True r [unfolded None]]
          read_full_step [where rd = "CipherReader_Read rd", OF True' cr [unfolded None]] ca .
    next
      case (Some er)
      have "read_full_err k (Cipher (got @ bs) mk 0) er = read_full_err k (got @ bs) er"
        using Cipher_empty [of "got @ bs" mk 0] by (simp add: read_full_err_def)
      then show ?thesis by (simp add: read_full_last [where rd = "rd", OF True r [unfolded Some]] read_full_last [where rd = "CipherReader_Read rd", OF True' cr [unfolded Some]] ca del: length_append)
    qed
  qed
qed

end

context io_reader
begin

lemma read_full_extends:
  "inv s \<Longrightarrow> \<exists>ys e s'. read_full_loop rd k got s = Some (got @ ys, e, s')"
proof (induction "fin s" arbitrary: got s rule: less_induct)
  case less
  show ?case
  proof (cases "length got < k")
    case False
    then show ?thesis by (simp add: read_full_loop.simps)
  next
    case True
    obtain bs e s' where r: "rd (k - length got) s = Some (bs, e, s')" using rd_returns [OF less.prems] by blast
    show ?thesis
    proof (cases e)
      case None
      have "fin s' < fin s" using rd_progress [OF less.prems _ r] None True by simp
      from less.hyps [OF this rd_inv [OF less.prems r], of "got @ bs"] show ?thesis
        using read_full_step [where rd = rd, OF True r [unfolded None]] by auto
    next
      case (Some er)
      then show ?thesis using read_full_last [where rd = rd, OF True r [unfolded Some]] by auto
    qed
  qed
qed

end

context utf8_checked
begin

lemma read_full_utf8:
  "utf8_inv inv u \<Longrightarrow> Source u = Some s \<Longrightarrow> state u \<noteq> 12 \<Longrightarrow> length got \<le> k \<Longrightarrow>
     \<exists>ys e s'. read_full_loop rd k got s = Some (got @ ys, e, s') \<and>
       (if utf8_run (state u) ys = 12
        then \<exists>bs u'. read_full_loop (utf8_read rd) k got u = Some (bs, Some ErrInvalidUTF8, u') \<and> Source u' \<noteq> None
        else \<exists>u'. read_full_loop (utf8_read rd) k got u = Some (got @ ys, e, u') \<and> Source u' = Some s' \<and>
          state u' = utf8_run (state u) ys)"
proof (induction "fin s" arbitrary: got u s rule: less_induct)
  case less
  show ?case
  proof (cases "length got < k")
    case False
    with less.prems show ?thesis by (simp add: read_full_loop.simps)
  next
    case True
    have i: "inv s" using less.prems(1,2) by (simp add: utf8_inv_def)
    obtain bs e s' where r: "rd (k - length got) s = Some (bs, e, s')" using rd_returns [OF i] by blast
    note l = rd_length [OF i r]
    obtain n e' u' where u: "UTF8Reader_Read rd (k - length got) u = Some (n, bs, e', u')" "n \<le> length bs"
        "Source u' = Some s'" "state u' = utf8_run (state u) bs"
        "if bs \<noteq> [] \<and> utf8_run (state u) bs = 12 then e' = Some ErrInvalidUTF8 else n = length bs \<and> e' = e"
        "utf8_short (state u) bs n (accepted u')"
      using utf8_readD [where rd = rd, OF less.prems(1,2) r] by blast
    have ur: "utf8_read rd (k - length got) u = Some (take n bs, e', u')" by (simp add: utf8_read_def u(1))
    have iu: "utf8_inv inv u'" using utf8.rd_inv [OF less.prems(1) ur] .
    show ?thesis
    proof (cases "utf8_run (state u) bs = 12")
      case rj: True
      then have ne: "bs \<noteq> []" using less.prems(3) by auto
      with rj u(5,6) have n: "e' = Some ErrInvalidUTF8" "n < length bs" by (simp_all add: utf8_short_def)
      have "read_full_err k (got @ take n bs) ErrInvalidUTF8 = Some ErrInvalidUTF8" using n(2) l True by (simp add: read_full_err_def)
      then have a: "\<exists>b. read_full_loop (utf8_read rd) k got u = Some (b, Some ErrInvalidUTF8, u') \<and> Source u' \<noteq> None"
        using read_full_last [where rd = "utf8_read rd", OF True ur [unfolded n(1)]] u(3) by simp
      have "\<exists>ys e s'. read_full_loop rd k got s = Some (got @ bs @ ys, e, s')"
      proof (cases e)
        case None
        with read_full_extends [OF rd_inv [OF i r], of k "got @ bs"] show ?thesis
          using read_full_step [where rd = rd, OF True r [unfolded None]] by auto
      next
        case (Some er)
        then show ?thesis using read_full_last [where rd = rd, OF True r [unfolded Some]] by auto
      qed
      then obtain ys e s' where "read_full_loop rd k got s = Some (got @ bs @ ys, e, s')" by blast
      then show ?thesis using a rj by (intro exI [of _ "bs @ ys"]) auto
    next
      case False
      then have e: "e' = e" "take n bs = bs" using u(5) by (auto split: if_splits)
      show ?thesis
      proof (cases e)
        case None
        have "fin s' < fin s" using rd_progress [OF i _ r] None True by simp
        from less.hyps [OF this iu u(3) _, of "got @ bs"] False u(4) l True
        show ?thesis
          using read_full_step [where rd = rd, OF True r [unfolded None]]
            read_full_step [where rd = "utf8_read rd", OF True ur [unfolded e None]]
          by fastforce
      next
        case (Some er)
        then show ?thesis using read_full_last [where rd = rd, OF True r [unfolded Some]]
            read_full_last [where rd = "utf8_read rd", OF True ur [unfolded e Some]] False u(3,4)
          by auto
      qed
    qed
  qed
qed

end

interpretation conn_payload: ciphered_reader "limited_read conn_read" "(\<lambda>_. True) \<circ> snd" "conn_fin \<circ> snd"
  by unfold_locales

interpretation conn_text: utf8_checked "CipherReader_Read (limited_read conn_read)"
  "((\<lambda>_. True) \<circ> snd) \<circ> cr_r" "(conn_fin \<circ> snd) \<circ> cr_r"
  by unfold_locales

interpretation conn_payload_limited: limited_reader "CipherReader_Read (limited_read conn_read)"
  "((\<lambda>_. True) \<circ> snd) \<circ> cr_r" "(conn_fin \<circ> snd) \<circ> cr_r"
  by unfold_locales

text \<open>\<open>comes s p s'\<close>: the connection \<open>s\<close> brings the bytes \<open>p\<close> and then what \<open>s'\<close> brings.\<close>

definition comes :: "rd_event list \<Rightarrow> byte list \<Rightarrow> rd_event list \<Rightarrow> bool" where
  "comes s p s' \<longleftrightarrow> conn_data s = p @ conn_data s' \<and> conn_end s' = conn_end s \<and> conn_sane s \<and> conn_sane s'"

lemma payload_read:
  assumes "conn_sane s" and "conn_data s = p @ rest"
  shows "\<exists>s'. comes s p s' \<and> conn_data s' = rest \<and>
    read_full_loop (CipherReader_Read (limited_read conn_read)) (length p) [] (NewCipherReader (int (length p), s) mk) =
      Some (Cipher p mk 0, None, \<lparr>cr_r = (0, s'), cr_mask = mk, cr_pos = length p\<rparr>)"
proof -
  obtain s' where s': "read_full_loop conn_read (length p) [] s = Some (p, None, s')" "conn_data s' = rest"
      "conn_end s' = conn_end s" "conn_sane s'"
    using net.read_full_loop_enough [OF assms(1), of "[]" "length p"] assms(2) by auto
  have "read_full_loop (limited_read conn_read) (length p) [] (int (length p), s) = Some (p, None, (0, s'))"
    using conn.read_full_limited [where s = s and got = "[]" and k = "length p"] s'(1) by simp
  with conn.limited.read_full_ciphered [where s = "(int (length p), s)" and k = "length p" and got = "[]" and mk = mk] s' assms show ?thesis
    by (intro exI [of _ s']) (simp add: comes_def NewCipherReader_def)
qed

lemma ws_read_plain:
  assumes "conn_sane s" and "conn_data s = p @ rest"
  shows "\<exists>s'. comes s p s' \<and> conn_data s' = rest \<and>
    ws_read conn_read (length p) False (NewCipherReader (int (length p), s) mk) v = Some (Cipher p mk 0, None, s', v)"
  using payload_read [OF assms, of mk] by (auto simp: ws_read_def io_ReadFull_def)

lemma ws_read_text:
  assumes "conn_sane s" and "conn_data s = p @ rest"
    and "Source (ws_utf8 v) = Some (NewCipherReader (int (length p), s) mk)"
    and st: "state (ws_utf8 v) \<in> utf8_states" "state (ws_utf8 v) \<noteq> 12"
  shows "if utf8_run (state (ws_utf8 v)) (Cipher p mk 0) = 12
    then \<exists>b s' v'. ws_read conn_read (length p) True c v = Some (b, Some ErrInvalidUTF8, s', v')
    else \<exists>s' u'. comes s p s' \<and> conn_data s' = rest \<and> state u' = utf8_run (state (ws_utf8 v)) (Cipher p mk 0) \<and>
      ws_read conn_read (length p) True c v = Some (Cipher p mk 0, None, s', v\<lparr>ws_utf8 := u'\<rparr>)"
proof -
  have i: "utf8_inv (((\<lambda>_. True) \<circ> snd) \<circ> cr_r) (ws_utf8 v)" using assms(3) st(1) by (simp add: utf8_inv_def)
  from payload_read [OF assms(1,2), of mk] conn_text.read_full_utf8 [OF i assms(3) st(2), of "[]" "length p"] show ?thesis
    by (fastforce simp: ws_read_def io_ReadFull_def)
qed

section \<open>One turn, one frame\<close>

text \<open>A frame with one of the control codes or data codes, written in two parts.\<close>

lemma header_bytes_out:
  assumes "Fin h = fin" and "Rsv h = 0" and "sint (Length h) = int (length p)"
  shows "the (header_bytes (h\<lparr>OpCode := op, Masked := False\<rparr>)) @ p = frame_bytes (NewFrame op fin p)"
proof -
  have "word_of_int (sint (Length h)) = Length h" by simp
  then have "Length h = of_nat (length p)" by (simp add: assms(3))
  with assms show ?thesis
    by (simp add: frame_bytes_def NewFrame_def header_bytes_eq first_byte_def len_code_def len_part_def mask_bit_def mask_part_def Let_def
      cong: if_cong)
qed

lemma header_bytes_whole:
  assumes "Rsv h = 0" and "sint (Length h) = int (length p)"
  shows "the (header_bytes (h\<lparr>Masked := False\<rparr>)) @ p = frame_bytes (NewFrame (OpCode h) (Fin h) p)"
  using header_bytes_out [OF refl assms, of "OpCode h"] by simp

lemma MustCompileFrame_eq: "MustCompileFrame f = Some (frame_bytes f)"
  by (simp add: MustCompileFrame_def CompileFrame_def WriteFrame_def WriteHeader_def header_bytes_eq buffer_write_def frame_bytes_def)

lemma compiled_closes:
  "closeInvalidPayload = Some (frame_bytes (close_frame StatusInvalidFramePayloadData))"
  "closeProtocolError = Some (frame_bytes (close_frame StatusProtocolError))"
  "CompiledClose = Some (frame_bytes (NewCloseFrame []))"
  by (simp_all add: closeInvalidPayload_def closeProtocolError_def CompiledClose_def NewCloseFrameBody_eq MustCompileFrame_eq close_frame_def)

text \<open>Writes on a connection without faults: \<open>says d bs d'\<close>.\<close>

definition says :: "dest \<Rightarrow> byte list \<Rightarrow> dest \<Rightarrow> bool" where
  "says d bs d' \<longleftrightarrow> faults d = [] \<and> faults d' = [] \<and> conn_out d' = conn_out d @ bs"

lemma says_trans: "says d a d' \<Longrightarrow> says d' b d'' \<Longrightarrow> says d (a @ b) d''"
  by (simp add: says_def)

lemma says_write: "faults d = [] \<Longrightarrow> \<exists>d'. conn_write p d = Some (length p, None, d') \<and> says d p d'"
  by (simp add: says_def conn_write.simps conn_out_def)

lemma says_header: "faults d = [] \<Longrightarrow> \<exists>d'. WriteHeader conn_write h d = Some (None, d') \<and> says d (the (header_bytes h)) d'"
  using says_write [of d "the (header_bytes h)"] by (auto simp: WriteHeader_def header_bytes_eq)

lemma says_frame: "faults d = [] \<Longrightarrow> \<exists>d'. WriteFrame conn_write f d = Some (None, d') \<and> says d (frame_bytes f) d'"
  using WriteFrame_delivers [of f d] by (auto simp: delivers_def says_def)

lemma says_send: "faults d = [] \<Longrightarrow> \<exists>d'. ws_send (Some bs) d = Some d' \<and> says d bs d'"
  using says_write [of d bs] by (auto simp: ws_send_def)

lemma ws_closed_answers:
  assumes "faults d = []"
  shows "\<exists>d'. ws_closed p d = Some (snd (echo_close p), d') \<and> says d (frame_bytes (fst (echo_close p))) d'"
proof -
  obtain code reason where p: "ParseCloseFrameData p = (code, reason)" by fastforce
  obtain d1 d2 d3 where
      "ws_send closeProtocolError d = Some d1" "says d (frame_bytes (close_frame StatusProtocolError)) d1"
      "WriteFrame conn_write (close_frame code) d = Some (None, d2)" "says d (frame_bytes (close_frame code)) d2"
      "ws_send CompiledClose d = Some d3" "says d (frame_bytes (NewCloseFrame [])) d3"
    using says_send [OF assms] says_frame [OF assms] unfolding compiled_closes by metis
  moreover have "IsProtocolSpec code \<and> \<not> IsProtocolDefined code \<Longrightarrow> CheckCloseFrameData code reason \<noteq> None"
    by (auto simp: CheckCloseFrameData_def)
  ultimately show ?thesis
    by (cases "CheckCloseFrameData code reason")
      (auto simp: ws_closed_def echo_close_def p NewCloseFrameBody_eq Empty_def simp flip: close_frame_def)
qed

text \<open>A ping's payload is copied, unmasked, in whatever pieces it comes.\<close>

lemma copy_payload_pieces:
  "conn_sane s \<Longrightarrow> conn_data s = p @ rest \<Longrightarrow> faults d = [] \<Longrightarrow> 0 < sz \<Longrightarrow>
     \<exists>s' d'. io_copy_loop (limited_read (CipherReader_Read (limited_read conn_read))) conn_write sz
         (int (length p), \<lparr>cr_r = (int (length p), s), cr_mask = mk, cr_pos = off\<rparr>) d =
       Some (None, (0, \<lparr>cr_r = (0, s'), cr_mask = mk, cr_pos = off + length p\<rparr>), d') \<and>
       comes s p s' \<and> conn_data s' = rest \<and> says d (Cipher p mk off) d'"
proof (induction "conn_fin s" arbitrary: s p off d rule: less_induct)
  case less
  let ?rd = "limited_read (CipherReader_Read (limited_read conn_read))"
  let ?x = "\<lambda>s n off. (int n, \<lparr>cr_r = (int n, s), cr_mask = mk, cr_pos = off\<rparr>)"
  show ?case
  proof (cases "p = []")
    case True
    with less.prems show ?thesis
      by (subst io_copy_loop.simps) (simp add: limited_read.simps comes_def says_def Cipher_empty)
  next
    case False
    let ?n = "min sz (length p)"
    have n0: "0 < ?n" using False less.prems(4) by simp
    obtain bs e s1 where r: "conn_read ?n s = Some (bs, e, s1)" using conn.rd_returns by blast
    have e: "e = None"
      using net.rd_end [OF less.prems(1)] r less.prems(2) False by (cases e) auto
    note s1 = net.rd_inv [OF less.prems(1) r] net.rd_data [OF less.prems(1) r [unfolded e]] net.rd_length [OF less.prems(1) r]
    obtain q where q: "p = bs @ q" using s1(2,3) less.prems(2) by (auto simp: append_eq_append_conv2)
    have lt: "conn_fin s1 < conn_fin s" using net.rd_progress [OF less.prems(1) n0 r] e by simp
    have len: "int (length p) - int (length bs) = int (length q)" "0 < length p" using q False by simp_all
    have rr: "?rd sz (?x s (length p) off) = Some (Cipher bs mk off, None, ?x s1 (length q) (off + length bs))"
      using len r e by (simp add: limited_read.simps CipherReader_Read_def min.assoc)
    obtain d1 where d1: "conn_write (Cipher bs mk off) d = Some (length (Cipher bs mk off), None, d1)" "says d (Cipher bs mk off) d1"
      using says_write [OF less.prems(3)] by blast
    define d0 where "d0 = (if bs = [] then d else d1)"
    have d0: "says d (Cipher bs mk off) d0" using d1(2) less.prems(3) by (simp add: d0_def says_def Cipher_empty)
    have c: "conn_data s1 = q @ rest" "faults d0 = []" using s1(2) less.prems(2) q d0 by (simp_all add: says_def)
    obtain s2 d2 where i: "io_copy_loop ?rd conn_write sz (?x s1 (length q) (off + length bs)) d0 =
        Some (None, (0, \<lparr>cr_r = (0, s2), cr_mask = mk, cr_pos = off + length bs + length q\<rparr>), d2)"
        "comes s1 q s2" "conn_data s2 = rest" "says d0 (Cipher q mk (off + length bs)) d2"
      using less.hyps [OF lt s1(1) c less.prems(4)] by blast
    have "io_copy_loop ?rd conn_write sz (?x s (length p) off) d =
        io_copy_loop ?rd conn_write sz (?x s1 (length q) (off + length bs)) d0"
      by (subst io_copy_loop.simps) (simp add: rr d1(1) [unfolded length_Cipher] Cipher_empty d0_def)
    moreover have "says d (Cipher p mk off) d2" using says_trans [OF d0 i(4)] by (simp add: q Cipher_append)
    moreover have "comes s p s2" using i(2) s1 less.prems(1) q by (simp add: comes_def)
    ultimately show ?thesis using i(1,3) q by (intro exI [of _ s2] exI [of _ d2]) (simp add: add.assoc)
  qed
qed

text \<open>How the variables of the loop hold the memory of the echo.\<close>

definition text_of :: "echo_state \<Rightarrow> byte list" where
  "text_of q = (case q of InText t \<Rightarrow> t | _ \<Rightarrow> [])"

definition ws_ok :: "echo_state \<Rightarrow> 's ws_vars \<Rightarrow> bool" where
  "ws_ok q v \<longleftrightarrow> ws_state v = echo_flags q \<and> ws_textPending v = (\<exists>t. q = InText t) \<and>
     state (ws_utf8 v) = utf8_run 0 (text_of q) \<and> utf8_run 0 (text_of q) \<noteq> 12"

text \<open>The loop has read and checked the header of \<open>f\<close>; what it then has to do.\<close>

definition taken :: "echo_state \<Rightarrow> frame \<Rightarrow> byte list \<Rightarrow> rd_event list \<Rightarrow> dest \<Rightarrow> rd_event list ws_vars \<Rightarrow> rd_event list \<Rightarrow> bool" where
  "taken q f rest s d v s1 \<longleftrightarrow> ReadHeader conn_read s = Some (Header f, None, s1) \<and> conn_sane s \<and> conn_sane s1 \<and>
     conn_end s1 = conn_end s \<and> conn_data s = frame_bytes f @ rest \<and> conn_data s1 = Payload f @ rest \<and>
     faults d = [] \<and> ws_ok q v \<and> CheckHeader (Header f) (echo_flags q) = None \<and> wf_frame f"

definition turned ::
  "echo_state \<Rightarrow> frame \<Rightarrow> rd_event list \<Rightarrow> dest \<Rightarrow>
    ((ws_end + rd_event list ws_vars) \<times> rd_event list \<times> dest) option \<Rightarrow> bool" where
  "turned q f s d r \<longleftrightarrow> (\<exists>x s' d'. r = Some (x, s', d') \<and> says d (wire (fst (echo_frame q f))) d' \<and>
     (case snd (echo_frame q f) of
        Inl e \<Rightarrow> x = Inl e
      | Inr q' \<Rightarrow> \<exists>v'. x = Inr v' \<and> ws_ok q' v' \<and> comes s (frame_bytes f) s'))"

lemma echo_flags_are [simp]:
  "ServerSide (echo_flags q)" "\<not> Extended (echo_flags q)" "Fragmented (echo_flags q) = (q \<noteq> Idle)"
proof -
  have "ServerSide StateServerSide" "\<not> Extended StateServerSide" "\<not> Fragmented StateServerSide" by code_simp+
  then show "ServerSide (echo_flags q)" "\<not> Extended (echo_flags q)" "Fragmented (echo_flags q) = (q \<noteq> Idle)"
    by (cases q; simp)+
qed

lemma takenD:
  assumes "taken q f rest s d v s1"
  shows "Masked (Header f)" "Rsv (Header f) = 0" "\<not> IsReserved (OpCode (Header f))" "IsControl (OpCode (Header f)) \<Longrightarrow> Fin (Header f)"
    "sint (Length (Header f)) = int (length (Payload f))" "plain f = Cipher (Payload f) (Mask (Header f)) 0"
    "OpCode (Header f) < 16" "if q = Idle then OpCode (Header f) \<noteq> OpContinuation else IsControl (OpCode (Header f)) \<or> OpCode (Header f) = OpContinuation"
    "comes s1 (Payload f) s' \<Longrightarrow> comes s (frame_bytes f) s'"
proof -
  have c: "CheckHeader (Header f) (echo_flags q) = None" and w: "wf_frame f" using assms by (simp_all add: taken_def)
  from c show m: "Masked (Header f)" "Rsv (Header f) = 0" "\<not> IsReserved (OpCode (Header f))" "IsControl (OpCode (Header f)) \<Longrightarrow> Fin (Header f)"
    by (simp_all add: CheckHeader_None)
  show "sint (Length (Header f)) = int (length (Payload f))" "plain f = Cipher (Payload f) (Mask (Header f)) 0" "OpCode (Header f) < 16"
    using w m by (simp_all add: wf_frame_def wf_header_def plain_def)
  show "if q = Idle then OpCode (Header f) \<noteq> OpContinuation else IsControl (OpCode (Header f)) \<or> OpCode (Header f) = OpContinuation"
    using c by (simp add: CheckHeader_None split: if_splits)
  show "comes s1 (Payload f) s' \<Longrightarrow> comes s (frame_bytes f) s'" using assms by (auto simp: comes_def taken_def)
qed

lemma takenD_short:
  assumes "taken q f rest s d v s1" and "IsControl (OpCode (Header f))"
  shows "int (length (Payload f)) \<le> 125"
proof -
  have "CheckHeader (Header f) (echo_flags q) = None" using assms(1) by (simp add: taken_def)
  then have "sint (Length (Header f)) \<le> 125" using assms(2) by (simp add: CheckHeader_None MaxControlFramePayloadSize_def)
  then show ?thesis by (simp add: takenD(5) [OF assms(1)])
qed

lemma turn_ping:
  assumes t: "taken q f rest s d v s1" and op: "OpCode (Header f) = OpPing"
  shows "turned q f s d (ws_turn conn_read s d v)"
proof -
  let ?h = "Header f" and ?n = "int (length (Payload f))"
  have a: "ReadHeader conn_read s = Some (?h, None, s1)" "CheckHeader ?h (ws_state v) = None" "ws_ok q v" "conn_sane s1"
      "conn_data s1 = Payload f @ rest" "CheckHeader ?h (echo_flags q) = None" "faults d = []"
    using t by (simp_all add: taken_def ws_ok_def)
  note td = takenD [OF t]
  have fin: "Fin ?h" using td(4) op by (simp add: IsControl_def op_defs)
  obtain d1 where d1: "WriteHeader conn_write (?h\<lparr>OpCode := OpPong, Masked := False\<rparr>) d = Some (None, d1)"
      "says d (the (header_bytes (?h\<lparr>OpCode := OpPong, Masked := False\<rparr>))) d1"
    using says_header [OF a(7)] by blast
  have sz: "0 < copy_size (Some ?n)" by (simp add: copy_size_def)
  have f1: "faults d1 = []" using d1(2) by (simp add: says_def)
  obtain s' d2 where c: "io_copy_loop (limited_read (CipherReader_Read (limited_read conn_read))) conn_write (copy_size (Some ?n))
        (?n, NewCipherReader (?n, s1) (Mask ?h)) d1 = Some (None, (0, \<lparr>cr_r = (0, s'), cr_mask = Mask ?h, cr_pos = length (Payload f)\<rparr>), d2)"
      "comes s1 (Payload f) s'" "says d1 (plain f) d2"
    using copy_payload_pieces [OF a(4,5) f1 sz, of "Mask ?h" 0] td(6) by (auto simp: NewCipherReader_def)
  have "ws_turn conn_read s d v = Some (Inr v, s', d2)"
    using a(1,2) td(5) op d1(1) c(1) by (simp add: ws_turn_def io_Copy_def)
  moreover have "echo_frame q f = ([NewPongFrame (plain f)], Inr q)" using a(6) op by (simp add: echo_frame_def)
  moreover have "says d (frame_bytes (NewPongFrame (plain f))) d2"
    using says_trans [OF d1(2) c(3)] header_bytes_out [OF refl td(2), of "plain f" OpPong] td(5,6) fin by (simp add: NewPongFrame_def)
  ultimately show ?thesis using a(3) td(9) [OF c(2)] by (simp add: turned_def)
qed

lemma turn_pong:
  assumes t: "taken q f rest s d v s1" and op: "OpCode (Header f) = OpPong"
  shows "turned q f s d (ws_turn conn_read s d v)"
proof -
  let ?h = "Header f" and ?n = "int (length (Payload f))"
  have a: "ReadHeader conn_read s = Some (?h, None, s1)" "CheckHeader ?h (ws_state v) = None" "ws_ok q v" "conn_sane s1"
      "conn_data s1 = Payload f @ rest" "CheckHeader ?h (echo_flags q) = None" "faults d = []"
    using t by (simp_all add: taken_def ws_ok_def)
  note td = takenD [OF t]
  obtain s' where s': "io_Discard (limited_read conn_read) (?n, s1) = Some (None, (0, s'))" "comes s1 (Payload f) s'"
    using net.limited_Discard [OF a(4), of "length (Payload f)"] a(4,5) by (auto simp: comes_def)
  have "OpPong \<noteq> OpPing" by (simp add: op_defs)
  then have "ws_turn conn_read s d v = Some (Inr v, s', d)" "echo_frame q f = ([], Inr q)"
    using a(1,2,6) td(5) op s'(1) by (simp_all add: ws_turn_def echo_frame_def)
  then show ?thesis using a(3,7) td(9) [OF s'(2)] by (simp add: turned_def says_def)
qed

lemma valid_state: "ws_ok q v \<Longrightarrow> UTF8Reader_Valid (ws_utf8 v) \<longleftrightarrow> ValidString (text_of q)"
  by (simp add: ws_ok_def UTF8Reader_Valid_def utf8Accept_def utf8_run_valid)

lemma turn_close:
  assumes t: "taken q f rest s d v s1" and op: "OpCode (Header f) = OpClose"
  shows "turned q f s d (ws_turn conn_read s d v)"
proof -
  let ?h = "Header f" and ?n = "int (length (Payload f))"
  have a: "ReadHeader conn_read s = Some (?h, None, s1)" "CheckHeader ?h (ws_state v) = None" "ws_ok q v" "conn_sane s1"
      "conn_data s1 = Payload f @ rest" "CheckHeader ?h (echo_flags q) = None" "faults d = []"
    using t by (simp_all add: taken_def ws_ok_def)
  note td = takenD [OF t]
  have ops: "OpClose \<noteq> OpPing" "OpClose \<noteq> OpPong" by (simp_all add: op_defs)
  have short: "int (length (Payload f)) \<le> maxAlloc" using takenD_short [OF t] op by (simp add: IsControl_def op_defs maxAlloc_def)
  obtain s' where s': "ws_read conn_read (length (Payload f)) False (NewCipherReader (?n, s1) (Mask ?h)) v = Some (plain f, None, s', v)"
    using ws_read_plain [OF a(4,5)] td(6) by metis
  obtain d1 where d1: "ws_send closeInvalidPayload d = Some d1" "says d (frame_bytes (close_frame StatusInvalidFramePayloadData)) d1"
    using says_send [OF a(7)] compiled_closes(1) by metis
  obtain d2 where d2: "ws_closed (plain f) d = Some (snd (echo_close (plain f)), d2)" "says d (frame_bytes (fst (echo_close (plain f)))) d2"
    using ws_closed_answers [OF a(7)] by blast
  have e: "echo_frame q f = (if ValidString (text_of q) then ([fst (echo_close (plain f))], Inl (Returns (snd (echo_close (plain f)))))
      else ([close_frame StatusInvalidFramePayloadData], Inl (Returns (Some ErrInvalidUTF8))))"
    using a(6) op ops by (simp add: echo_frame_def text_of_def text_refused_def split: echo_state.split prod.split)
  have "ws_turn conn_read s d v = (if ValidString (text_of q) then Some (Inl (Returns (snd (echo_close (plain f)))), s', d2)
      else Some (Inl (Returns (Some ErrInvalidUTF8)), s', d1))"
    using a(1,2) td(5) op ops s' d1(1) d2(1) valid_state [OF a(3)] make_bytes_Some [OF short] by (simp add: ws_turn_def ws_switch_def)
  then show ?thesis using e d1(2) d2(2) by (simp add: turned_def)
qed

lemma ws_switch_data:
  assumes "ws_ok q v" and "OpCode (Header f) \<in> {OpContinuation, OpText, OpBinary}"
    and "if q = Idle then OpCode (Header f) \<noteq> OpContinuation else OpCode (Header f) = OpContinuation"
  shows "\<exists>v1. ws_switch (Header f) c v = (Fin (Header f) \<and> OpCode (Header f) \<noteq> OpBinary, text_after q f \<noteq> None, v1) \<and>
    ws_state v1 = echo_flags (echo_next q f) \<and> ws_textPending v1 = (\<exists>t. echo_next q f = InText t) \<and>
    (if text_after q f = None then ws_utf8 v1 = ws_utf8 v
     else Source (ws_utf8 v1) = Some c \<and> state (ws_utf8 v1) = utf8_run 0 (if OpCode (Header f) = OpText then [] else text_of q))"
proof -
  have ops: "OpContinuation \<noteq> OpClose" "OpText \<noteq> OpClose" "OpBinary \<noteq> OpClose" "OpText \<noteq> OpContinuation" "OpBinary \<noteq> OpContinuation" "OpBinary \<noteq> OpText"
    by (simp_all add: op_defs)
  have fl: "Clear StateServerSide StateFragmented = StateServerSide" by code_simp
  show ?thesis
    using assms ops ops(4,5) [symmetric] by (cases q; cases "Fin (Header f)")
      (auto simp: ws_ok_def ws_switch_def text_after_def echo_next_def text_of_def UTF8Reader_Reset_def fl Let_def)
qed

lemma text_refused_run [code]: "text_refused complete t \<longleftrightarrow> (if complete then utf8_run 0 t \<noteq> 0 else utf8_run 0 t = 12)"
  by (simp add: text_refused_def utf8_run_valid utf8_rejects_iff)

text \<open>What the loop makes of the payload of a data frame.\<close>

definition data_answered :: "echo_state \<Rightarrow> frame \<Rightarrow> byte list \<Rightarrow> rd_event list \<Rightarrow> (byte list \<times> err option \<times> rd_event list \<times> rd_event list ws_vars) option \<Rightarrow> bool" where
  "data_answered q f rest s1 r \<longleftrightarrow> (\<exists>p e s' v'. r = Some (p, e, s', v') \<and>
     (if (case text_after q f of Some t \<Rightarrow> text_refused (Fin (Header f)) t | None \<Rightarrow> False)
      then (if e = None \<and> (Fin (Header f) \<and> OpCode (Header f) \<noteq> OpBinary) \<and> \<not> UTF8Reader_Valid (ws_utf8 v') then Some ErrInvalidUTF8 else e) = Some ErrInvalidUTF8
      else p = plain f \<and> e = None \<and> comes s1 (Payload f) s' \<and> ws_ok (echo_next q f) v' \<and>
        (Fin (Header f) \<longrightarrow> UTF8Reader_Valid (ws_utf8 v'))))"

lemma data_read:
  assumes t: "taken q f rest s d v s1" and op: "OpCode (Header f) \<in> {OpContinuation, OpText, OpBinary}"
    and c: "c = NewCipherReader (int (length (Payload f)), s1) (Mask (Header f))"
    and w: "ws_switch (Header f) c v = (Fin (Header f) \<and> OpCode (Header f) \<noteq> OpBinary, text_after q f \<noteq> None, v1)"
    and v1: "ws_state v1 = echo_flags (echo_next q f)" "ws_textPending v1 = (\<exists>t. echo_next q f = InText t)"
    and u: "if text_after q f = None then ws_utf8 v1 = ws_utf8 v
     else Source (ws_utf8 v1) = Some c \<and> state (ws_utf8 v1) = utf8_run 0 (if OpCode (Header f) = OpText then [] else text_of q)"
  shows "data_answered q f rest s1 (ws_read conn_read (length (Payload f)) (text_after q f \<noteq> None) c v1)"
proof -
  have a: "conn_sane s1" "conn_data s1 = Payload f @ rest" and ok: "ws_ok q v" using t by (simp_all add: taken_def)
  note td = takenD [OF t]
  have ops: "OpText \<noteq> OpBinary" "OpContinuation \<noteq> OpBinary" by (simp_all add: op_defs)
  show ?thesis
  proof (cases "text_after q f")
    case None
    obtain s' where s': "comes s1 (Payload f) s'" "ws_read conn_read (length (Payload f)) False c v1 = Some (plain f, None, s', v1)"
      using ws_read_plain [OF a, of "Mask (Header f)" v1] td(6) c by auto
    have q: "text_of q = []" using None by (auto simp: text_after_def text_of_def split: echo_state.splits if_splits)
    have "ws_ok (echo_next q f) v1" "UTF8Reader_Valid (ws_utf8 v1)"
      using v1 u None ok q by (auto simp: ws_ok_def echo_next_def text_of_def UTF8Reader_Valid_def utf8Accept_def)
    with s' None show ?thesis by (simp add: data_answered_def)
  next
    case (Some x)
    let ?b = "if OpCode (Header f) = OpText then [] else text_of q"
    have x: "x = ?b @ plain f" and nb: "OpCode (Header f) \<noteq> OpBinary"
      using Some op ops td(8) by (auto simp: text_after_def text_of_def op_defs IsControl_def split: if_splits echo_state.splits)
    have src: "Source (ws_utf8 v1) = Some c" "state (ws_utf8 v1) = utf8_run 0 ?b" using u Some by simp_all
    have z: "(0 :: uint32) \<in> utf8_states" by (simp add: utf8_states_def)
    have st: "state (ws_utf8 v1) \<in> utf8_states" "state (ws_utf8 v1) \<noteq> 12"
      using src(2) utf8_run_states [OF z] ok by (auto simp: ws_ok_def)
    have run: "utf8_run (state (ws_utf8 v1)) (plain f) = utf8_run 0 x" using src(2) x by simp
    note r = ws_read_text [OF a src(1) [unfolded c] st, folded td(6), unfolded run, of c]
    show ?thesis
    proof (cases "utf8_run 0 x = 12")
      case True
      with r Some show ?thesis by (auto simp: data_answered_def text_refused_run)
    next
      case False
      with r obtain s' u' where s': "comes s1 (Payload f) s'" "state u' = utf8_run 0 x"
          "ws_read conn_read (length (Payload f)) True c v1 = Some (plain f, None, s', v1\<lparr>ws_utf8 := u'\<rparr>)" by auto
      have vd: "UTF8Reader_Valid u' \<longleftrightarrow> utf8_run 0 x = 0" by (simp add: UTF8Reader_Valid_def utf8Accept_def s'(2))
      have "Fin (Header f) \<longrightarrow> utf8_run 0 x = 0 \<Longrightarrow> ws_ok (echo_next q f) (v1\<lparr>ws_utf8 := u'\<rparr>)"
        using v1 s'(2) False Some by (auto simp: ws_ok_def echo_next_def text_of_def)
      with s' Some vd False nb show ?thesis by (auto simp: data_answered_def text_refused_run)
    qed
  qed
qed

lemma turn_data:
  assumes t: "taken q f rest s d v s1" and op: "OpCode (Header f) \<in> {OpContinuation, OpText, OpBinary}"
  shows "turned q f s d (ws_turn conn_read s d v)"
proof -
  let ?h = "Header f" and ?n = "int (length (Payload f))"
  let ?bad = "case text_after q f of Some t \<Rightarrow> text_refused (Fin ?h) t | None \<Rightarrow> False"
  define c where "c = NewCipherReader (?n, s1) (Mask ?h)"
  have a: "ReadHeader conn_read s = Some (?h, None, s1)" "CheckHeader ?h (ws_state v) = None" "ws_ok q v"
      "CheckHeader ?h (echo_flags q) = None" "faults d = []"
    using t by (simp_all add: taken_def ws_ok_def)
  note td = takenD [OF t]
  have ops: "OpCode ?h \<noteq> OpPing" "OpCode ?h \<noteq> OpPong" "OpCode ?h \<noteq> OpClose" using op by (auto simp: op_defs)
  have g: "if q = Idle then OpCode ?h \<noteq> OpContinuation else OpCode ?h = OpContinuation"
    using td(8) op by (auto simp: op_defs IsControl_def split: if_splits)
  obtain v1 where v1: "ws_switch ?h c v = (Fin ?h \<and> OpCode ?h \<noteq> OpBinary, text_after q f \<noteq> None, v1)"
      "ws_state v1 = echo_flags (echo_next q f)" "ws_textPending v1 = (\<exists>t. echo_next q f = InText t)"
      "if text_after q f = None then ws_utf8 v1 = ws_utf8 v
       else Source (ws_utf8 v1) = Some c \<and> state (ws_utf8 v1) = utf8_run 0 (if OpCode ?h = OpText then [] else text_of q)"
    using ws_switch_data [OF a(3) op g] by blast
  show ?thesis
  proof (cases "int (length (Payload f)) \<le> maxAlloc")
    case big: False
    then have m: "make_bytes ?n = None" by (simp add: make_bytes_None)
    have "ws_turn conn_read s d v = Some (Inl Panics, s1, d)"
      using a(1,2) ops td(5) v1(1) m by (simp add: ws_turn_def c_def)
    moreover have "echo_frame q f = ([], Inl Panics)" using big a(4) ops by (simp add: echo_frame_def)
    ultimately show ?thesis using a(5) by (simp add: turned_def says_def)
  next
    case short: True
    obtain p e s' v' where r: "ws_read conn_read (length (Payload f)) (text_after q f \<noteq> None) c v1 = Some (p, e, s', v')"
        "if ?bad then (if e = None \<and> (Fin ?h \<and> OpCode ?h \<noteq> OpBinary) \<and> \<not> UTF8Reader_Valid (ws_utf8 v') then Some ErrInvalidUTF8 else e) = Some ErrInvalidUTF8
         else p = plain f \<and> e = None \<and> comes s1 (Payload f) s' \<and> ws_ok (echo_next q f) v' \<and> (Fin ?h \<longrightarrow> UTF8Reader_Valid (ws_utf8 v'))"
      using data_read [OF t op c_def v1] unfolding data_answered_def by blast
    have turn: "ws_turn conn_read s d v =
        (case (if e = None \<and> (Fin ?h \<and> OpCode ?h \<noteq> OpBinary) \<and> \<not> UTF8Reader_Valid (ws_utf8 v') then Some ErrInvalidUTF8 else e) of
           Some er \<Rightarrow> Option.bind (ws_send (if er = ErrInvalidUTF8 then closeInvalidPayload else CompiledClose) d) (\<lambda>d. Some (Inl (Returns (Some er)), s', d))
         | None \<Rightarrow> Option.bind (WriteHeader conn_write (?h\<lparr>Masked := False\<rparr>) d) (\<lambda>(e, d).
             Option.bind (conn_write p d) (\<lambda>(n, e, d). Some (Inr v', s', d))))"
      using a(1,2) ops td(5) v1(1) r(1) make_bytes_Some [OF short] by (simp add: ws_turn_def c_def)
    show ?thesis
    proof (cases ?bad)
      case True
      obtain d1 where d1: "ws_send closeInvalidPayload d = Some d1" "says d (frame_bytes (close_frame StatusInvalidFramePayloadData)) d1"
        using says_send [OF a(5)] compiled_closes(1) by metis
      have "echo_frame q f = ([close_frame StatusInvalidFramePayloadData], Inl (Returns (Some ErrInvalidUTF8)))"
        using True a(4) ops short by (simp add: echo_frame_def)
      moreover have "ws_turn conn_read s d v = Some (Inl (Returns (Some ErrInvalidUTF8)), s', d1)"
        using turn r(2) [unfolded if_P [OF True]] d1(1) by simp
      ultimately show ?thesis using d1(2) by (simp add: turned_def)
    next
      case False
      note ok = r(2) [unfolded if_not_P [OF False]]
      then have ce: "(if e = None \<and> (Fin ?h \<and> OpCode ?h \<noteq> OpBinary) \<and> \<not> UTF8Reader_Valid (ws_utf8 v') then Some ErrInvalidUTF8 else e) = None"
        by auto
      obtain d1 where d1: "WriteHeader conn_write (?h\<lparr>Masked := False\<rparr>) d = Some (None, d1)" "says d (the (header_bytes (?h\<lparr>Masked := False\<rparr>))) d1"
        using says_header [OF a(5)] by blast
      then obtain d2 where d2: "conn_write (plain f) d1 = Some (length (plain f), None, d2)" "says d1 (plain f) d2"
        using says_write [of d1 "plain f"] by (auto simp: says_def)
      have "echo_frame q f = ([NewFrame (OpCode ?h) (Fin ?h) (plain f)], Inr (echo_next q f))"
        using False a(4) ops short by (simp add: echo_frame_def Let_def)
      moreover have "ws_turn conn_read s d v = Some (Inr v', s', d2)"
        using turn [unfolded ce] ok d1(1) d2(1) by simp
      moreover have "says d (frame_bytes (NewFrame (OpCode ?h) (Fin ?h) (plain f))) d2"
        using says_trans [OF d1(2) d2(2)] header_bytes_whole [OF td(2), of "plain f"] td(5,6) by simp
      ultimately show ?thesis using ok td(9) by (simp add: turned_def)
    qed
  qed
qed

lemma turn_frame:
  assumes "conn_sane s" and "conn_data s = frame_bytes f @ rest" and "wf_frame f" and "faults d = []" and "ws_ok q v"
  shows "turned q f s d (ws_turn conn_read s d v)"
proof -
  let ?h = "Header f"
  have wf: "wf_header ?h" using assms(3) by (simp add: wf_frame_def)
  have "conn_data s = the (header_bytes ?h) @ (Payload f @ rest)" using assms(2) by (simp add: frame_bytes_def)
  then obtain s1 where s1: "ReadHeader conn_read s = Some (?h, None, s1)" "conn_data s1 = Payload f @ rest" "conn_end s1 = conn_end s" "conn_sane s1"
    using net.ReadHeader_encoded [OF assms(1) wf header_bytes_eq] by (auto simp: header_bytes_eq)
  show ?thesis
  proof (cases "CheckHeader ?h (echo_flags q)")
    case (Some er)
    obtain d1 where "ws_send closeProtocolError d = Some d1" "says d (frame_bytes (close_frame StatusProtocolError)) d1"
      using says_send [OF assms(4)] compiled_closes(2) by metis
    then show ?thesis using Some s1(1) assms(5) by (simp add: turned_def ws_turn_def echo_frame_def ws_ok_def)
  next
    case None
    with s1 assms have t: "taken q f rest s d v s1" by (simp add: taken_def)
    have "OpCode ?h \<in> {OpContinuation, OpText, OpBinary, OpClose, OpPing, OpPong}"
      using opcode_kinds(2) [OF takenD(7) [OF t]] takenD(3) [OF t] by blast
    then show ?thesis using turn_ping [OF t] turn_pong [OF t] turn_close [OF t] turn_data [OF t] by blast
  qed
qed

lemma ws_loop_echoes:
  "conn_sane s \<Longrightarrow> conn_data s = wire fs \<Longrightarrow> list_all wf_frame fs \<Longrightarrow> faults d = [] \<Longrightarrow> ws_ok q v \<Longrightarrow>
     \<exists>s' d'. ws_loop conn_read s d v = Some (snd (echo_frames (conn_end s) q fs), s', d') \<and>
       says d (wire (fst (echo_frames (conn_end s) q fs))) d'"
proof (induction fs arbitrary: s d q v)
  case Nil
  then obtain s' where "ReadHeader conn_read s = Some (zero_header, Some (conn_end s), s')"
    using net.io_ReadFull_short [OF Nil(1), of 2] by (auto simp: ReadHeader_def)
  then show ?case using Nil(4) by (subst ws_loop.simps) (simp add: ws_turn_def says_def)
next
  case (Cons f fs)
  have "turned q f s d (ws_turn conn_read s d v)"
    using turn_frame [OF Cons.prems(1) _ _ Cons.prems(4,5)] Cons.prems(2,3) by simp
  then obtain x s1 d1 where t: "ws_turn conn_read s d v = Some (x, s1, d1)" "says d (wire (fst (echo_frame q f))) d1"
      "case snd (echo_frame q f) of Inl e \<Rightarrow> x = Inl e
       | Inr q' \<Rightarrow> \<exists>v'. x = Inr v' \<and> ws_ok q' v' \<and> comes s (frame_bytes f) s1"
    unfolding turned_def by blast
  obtain gs y where e: "echo_frame q f = (gs, y)" by fastforce
  show ?case
  proof (cases y)
    case (Inl er)
    then show ?thesis using t e by (subst ws_loop.simps) simp
  next
    case (Inr q')
    with t(3) e obtain v' where v': "x = Inr v'" "ws_ok q' v'" "comes s (frame_bytes f) s1" by auto
    have "conn_data s1 = wire fs" "conn_end s1 = conn_end s" "conn_sane s1" "faults d1 = []"
      using v'(3) t(2) Cons.prems(2) by (simp_all add: comes_def says_def)
    with Cons.IH [OF _ _ _ _ v'(2), of s1 d1] Cons.prems(3) obtain s' d' where
        "ws_loop conn_read s1 d1 v' = Some (snd (echo_frames (conn_end s) q' fs), s', d')"
        "says d1 (wire (fst (echo_frames (conn_end s) q' fs))) d'" by auto
    then show ?thesis using t(1,2) v'(1) e Inr says_trans [of d "wire gs" d1]
      by (subst ws_loop.simps) (simp add: split_beta Let_def)
  qed
qed

section \<open>The loop returns\<close>

context io_reader
begin

lemma io_copy_returns:
  assumes "\<And>bs d. \<exists>n e d'. wr bs d = Some (n, e, d')" and "0 < sz"
  shows "inv s \<Longrightarrow> \<exists>e s' d'. io_copy_loop rd wr sz s d = Some (e, s', d') \<and> inv s' \<and> fin s' \<le> fin s"
proof (induction "fin s" arbitrary: s d rule: less_induct)
  case less
  obtain bs e s1 where r: "rd sz s = Some (bs, e, s1)" using rd_returns [OF less.prems] by blast
  note s1 = rd_inv [OF less.prems r] rd_fin [OF less.prems r]
  obtain n ew d1 where w: "wr bs d = Some (n, ew, d1)" using assms(1) by blast
  have go: "\<exists>e s' d'. io_copy_loop rd wr sz s1 d0 = Some (e, s', d') \<and> inv s' \<and> fin s' \<le> fin s" if "e = None" for d0
  proof -
    have "fin s1 < fin s" using rd_progress [OF less.prems assms(2) r] that by simp
    from less.hyps [OF this s1(1), of d0] s1(2) show ?thesis by force
  qed
  show ?case
    using go [of d] go [of d1] s1 w
    by (subst io_copy_loop.simps) (cases e; cases ew; auto simp: r split: option.splits)
qed

end

lemma ws_read_returns:
  assumes "c = NewCipherReader (N, s) mk" and "through \<Longrightarrow> Source (ws_utf8 v) = Some c" and "state (ws_utf8 v) \<in> utf8_states"
  shows "\<exists>p e s' v'. ws_read conn_read k through c v = Some (p, e, s', v') \<and> conn_fin s' \<le> conn_fin s \<and> state (ws_utf8 v') \<in> utf8_states"
proof (cases through)
  case False
  from conn_payload.ciphered.io_ReadFull_returns [of c k] obtain p e c' where
      "io_ReadFull (CipherReader_Read (limited_read conn_read)) k c = Some (p, e, c')" "conn_fin (snd (cr_r c')) \<le> conn_fin s"
    by (auto simp: assms(1) NewCipherReader_def)
  with False assms(3) show ?thesis by (simp add: ws_read_def)
next
  case True
  have "utf8_inv (((\<lambda>_. True) \<circ> snd) \<circ> cr_r) (ws_utf8 v)" using assms(2,3) True by (simp add: utf8_inv_def)
  from conn_text.utf8.io_ReadFull_returns [OF this, of k] obtain p e u where
      u: "io_ReadFull (utf8_read (CipherReader_Read (limited_read conn_read))) k (ws_utf8 v) = Some (p, e, u)"
      "utf8_inv (((\<lambda>_. True) \<circ> snd) \<circ> cr_r) u" "utf8_fin ((conn_fin \<circ> snd) \<circ> cr_r) u \<le> utf8_fin ((conn_fin \<circ> snd) \<circ> cr_r) (ws_utf8 v)"
    by blast
  moreover have "utf8_fin ((conn_fin \<circ> snd) \<circ> cr_r) (ws_utf8 v) = conn_fin s"
    using assms(1,2) True by (simp add: utf8_fin_def NewCipherReader_def)
  moreover obtain c' where "Source u = Some c'" "state u \<in> utf8_states" using u(2) by (auto simp: utf8_inv_def split: option.splits)
  ultimately show ?thesis using True by (simp add: ws_read_def utf8_fin_def)
qed

lemma ws_send_returns: "\<exists>d'. ws_send (Some bs) d = Some d'"
  using conn_write_out [of bs d] by (auto simp: ws_send_def)

lemma WriteHeader_conn: "\<exists>e d'. WriteHeader conn_write h d = Some (e, d')"
  using conn_w.WriteHeader_returns [where d = d and h = h] by blast

lemma ws_closed_returns: "\<exists>e d'. ws_closed p d = Some (e, d')"
proof -
  obtain code reason where p: "ParseCloseFrameData p = (code, reason)" by fastforce
  obtain d1 d2 d3 e where "ws_send closeProtocolError d = Some d1" "WriteFrame conn_write (close_frame code) d = Some (e, d2)"
      "ws_send CompiledClose d = Some d3"
    using ws_send_returns WriteFrame_delivers unfolding compiled_closes by metis
  then show ?thesis
    by (auto simp: ws_closed_def p NewCloseFrameBody_eq simp flip: close_frame_def split: option.split)
qed

lemma ws_switch_reader:
  "ws_switch h c v = (fin, through, v1) \<Longrightarrow> state (ws_utf8 v) \<in> utf8_states \<Longrightarrow>
     state (ws_utf8 v1) \<in> utf8_states \<and> (through \<longrightarrow> Source (ws_utf8 v1) = Some c)"
  by (auto simp: ws_switch_def UTF8Reader_Reset_def utf8_states_def Let_def split: if_splits)

text \<open>
  The next thing that the connection brings is a header that passes the checks, is no ping and no
  pong, and announces more bytes than can be allocated.
\<close>

definition oversized :: "rd_event list \<Rightarrow> 's ws_vars \<Rightarrow> bool" where
  "oversized s v \<longleftrightarrow>
     (\<exists>h s1. ReadHeader conn_read s = Some (h, None, s1) \<and> CheckHeader h (ws_state v) = None \<and>
       OpCode h \<noteq> OpPing \<and> OpCode h \<noteq> OpPong \<and> maxAlloc < sint (Length h))"

lemma ws_turn_returns:
  assumes st: "state (ws_utf8 v) \<in> utf8_states"
  shows "\<exists>x s' d'. ws_turn conn_read s d v = Some (x, s', d') \<and>
    (\<forall>v'. x = Inr v' \<longrightarrow> conn_fin s' < conn_fin s \<and> state (ws_utf8 v') \<in> utf8_states) \<and> (x = Inl Panics \<longleftrightarrow> oversized s v)"
proof -
  obtain h e s1 where h: "ReadHeader conn_read s = Some (h, e, s1)" "e = None \<longrightarrow> conn_fin s1 < conn_fin s" "e = None \<longrightarrow> wf_header h"
    using conn.ReadHeader_returns [of s] by blast
  obtain d1 where d1: "ws_send closeProtocolError d = Some d1" using ws_send_returns unfolding compiled_closes by blast
  let ?n = "sint (Length h)"
  let ?c = "NewCipherReader (?n, s1) (Mask h)"
  consider (err) "e \<noteq> None" | (bad) "e = None" "CheckHeader h (ws_state v) \<noteq> None"
    | (ping) "e = None" "CheckHeader h (ws_state v) = None" "OpCode h = OpPing"
    | (pong) "e = None" "CheckHeader h (ws_state v) = None" "OpCode h \<noteq> OpPing" "OpCode h = OpPong"
    | (big) "e = None" "CheckHeader h (ws_state v) = None" "OpCode h \<noteq> OpPing" "OpCode h \<noteq> OpPong" "maxAlloc < ?n"
    | (more) "e = None" "CheckHeader h (ws_state v) = None" "OpCode h \<noteq> OpPing" "OpCode h \<noteq> OpPong" "?n \<le> maxAlloc"
    using not_less by blast
  then show ?thesis
  proof cases
    case err
    then show ?thesis using h by (auto simp: ws_turn_def oversized_def)
  next
    case bad
    then show ?thesis using h d1 by (auto simp: ws_turn_def oversized_def)
  next
    case big
    obtain fin through v1 where "ws_switch h ?c v = (fin, through, v1)" by (cases "ws_switch h ?c v")
    with big h(1) show ?thesis by (simp add: ws_turn_def make_bytes_None oversized_def)
  next
    case ping
    obtain e2 d2 where d2: "WriteHeader conn_write (h\<lparr>OpCode := OpPong, Masked := False\<rparr>) d = Some (e2, d2)"
      using WriteHeader_conn by blast
    have w: "\<exists>n e d'. conn_write bs d = Some (n, e, d')" for bs d using conn_write_out [of bs d] by blast
    have sz: "0 < copy_size (Some ?n)" by (simp add: copy_size_def)
    obtain e3 x d3 where "io_copy_loop (limited_read (CipherReader_Read (limited_read conn_read))) conn_write (copy_size (Some ?n)) (?n, ?c) d2 = Some (e3, x, d3)"
        "conn_fin (snd (cr_r (snd x))) \<le> conn_fin s1"
      using conn_payload_limited.limited.io_copy_returns [where wr = conn_write and s = "(?n, ?c)" and d = d2, OF w sz] by (auto simp: NewCipherReader_def)
    then show ?thesis using ping h d2 st by (simp add: ws_turn_def io_Copy_def oversized_def)
  next
    case pong
    obtain e2 x where "io_Discard (limited_read conn_read) (?n, s1) = Some (e2, x)" "conn_fin (snd x) \<le> conn_fin s1"
      using conn.limited.io_Discard_returns [of "(?n, s1)"] by auto
    then show ?thesis using pong h st by (simp add: ws_turn_def oversized_def)
  next
    case more
    obtain fin through v1 where sw: "ws_switch h ?c v = (fin, through, v1)" by (cases "ws_switch h ?c v")
    note sr = ws_switch_reader [OF sw st]
    obtain p e2 s2 v2 where r: "ws_read conn_read (nat ?n) through ?c v1 = Some (p, e2, s2, v2)" "conn_fin s2 \<le> conn_fin s1"
        "state (ws_utf8 v2) \<in> utf8_states"
      using ws_read_returns [OF refl _ conjunct1 [OF sr], of through] sr by blast
    obtain d2 d3 where d2: "ws_send closeInvalidPayload d = Some d2" "ws_send CompiledClose d = Some d3"
      using ws_send_returns unfolding compiled_closes by metis
    obtain e4 d4 where d4: "ws_closed p d = Some (e4, d4)" using ws_closed_returns by blast
    obtain e5 d5 where d5: "WriteHeader conn_write (h\<lparr>Masked := False\<rparr>) d = Some (e5, d5)" using WriteHeader_conn by blast
    obtain n6 e6 d6 where d6: "conn_write p d5 = Some (n6, e6, d6)" using conn_write_out by blast
    have m: "make_bytes ?n = Some (replicate (nat ?n) 0)" using more h(3) by (simp add: make_bytes_def wf_header_def)
    have no: "\<not> oversized s v" using more h(1) by (simp add: oversized_def)
    show ?thesis using more h sw r d2 d4 d5 d6 m no
      by (cases "if e2 = None \<and> fin \<and> \<not> UTF8Reader_Valid (ws_utf8 v2) then Some ErrInvalidUTF8 else e2")
        (simp_all add: ws_turn_def)
  qed
qed

text \<open>The turns of the loop.\<close>

inductive ws_turns ::
  "rd_event list \<Rightarrow> dest \<Rightarrow> rd_event list ws_vars \<Rightarrow> rd_event list \<Rightarrow> dest \<Rightarrow> rd_event list ws_vars \<Rightarrow> bool" where
  here: "ws_turns s d v s d v"
| turn: "ws_turn conn_read s d v = Some (Inr v1, s1, d1) \<Longrightarrow> ws_turns s1 d1 v1 s2 d2 v2 \<Longrightarrow> ws_turns s d v s2 d2 v2"

lemma ws_turns_last:
  "ws_turn conn_read s d v = Some (Inl x, s', d') \<Longrightarrow> ws_turns s d v s2 d2 v2 \<longleftrightarrow> s2 = s \<and> d2 = d \<and> v2 = v"
  by (auto intro: ws_turns.here elim: ws_turns.cases)

lemma ws_turns_next:
  "ws_turn conn_read s d v = Some (Inr v1, s1, d1) \<Longrightarrow>
     ws_turns s d v s2 d2 v2 \<longleftrightarrow> (s2 = s \<and> d2 = d \<and> v2 = v) \<or> ws_turns s1 d1 v1 s2 d2 v2"
  by (auto intro: ws_turns.here ws_turns.turn elim: ws_turns.cases)

lemma ws_loop_returns:
  "state (ws_utf8 v) \<in> utf8_states \<Longrightarrow>
     \<exists>r s' d'. ws_loop conn_read s d v = Some (r, s', d') \<and>
       (r = Panics \<longleftrightarrow> (\<exists>s1 d1 v1. ws_turns s d v s1 d1 v1 \<and> oversized s1 v1))"
proof (induction "conn_fin s" arbitrary: s d v rule: less_induct)
  case less
  obtain x s' d' where t: "ws_turn conn_read s d v = Some (x, s', d')"
      "\<forall>v'. x = Inr v' \<longrightarrow> conn_fin s' < conn_fin s \<and> state (ws_utf8 v') \<in> utf8_states" "x = Inl Panics \<longleftrightarrow> oversized s v"
    using ws_turn_returns [OF less.prems] by blast
  show ?case
  proof (cases x)
    case (Inl e)
    with t(1,3) ws_turns_last [of s d v e s' d'] show ?thesis by (subst ws_loop.simps) auto
  next
    case (Inr v')
    with t(1,3) ws_turns_next [of s d v v' s' d'] less.hyps [of s' v' d'] t(2) show ?thesis by (subst ws_loop.simps) auto
  qed
qed

section \<open>Properties\<close>

text \<open>
  C21: the raw echo server of the examples refines an echo over frames: whatever frames a client sends, however the
  network cuts their bytes, what it sends back is exactly the answer of \<open>echo_frames\<close> (pings answered with their payload, data
  frames echoed unmasked with their fragmentation, the first violation of the protocol or of UTF-8 met with the close
  frame for it, a close frame answered), and it ends the same way, with the same error or with the panic on a payload that no
  slice can hold.
\<close>

theorem wsHandler_echoes:
  assumes "conn_sane s" and "conn_data s = wire fs" and "list_all wf_frame fs" and "faults d = []"
  shows "\<exists>s' d'. wsHandler conn_read s d = Some (snd (echo_frames (conn_end s) Idle fs), s', d') \<and>
    conn_out d' = conn_out d @ wire (fst (echo_frames (conn_end s) Idle fs))"
proof -
  have "ws_ok Idle ws_start" by (simp add: ws_ok_def ws_start_def NewUTF8Reader_def text_of_def)
  from ws_loop_echoes [OF assms this] show ?thesis by (auto simp: wsHandler_def says_def)
qed

text \<open>A text in two parts with a ping between them, and a close.\<close>

definition client_talk :: "frame list" where
  "client_talk = map (\<lambda>f. MaskFrameInPlaceWith f (1, 2, 3, 4))
     [NewFrame OpText False [0xE2, 0x82], NewPingFrame [7], NewFrame OpContinuation True [0xAC], NewCloseFrame [3, 0xE8]]"

theorem wsHandler_echoes_witness:
  "\<exists>s' d'. wsHandler conn_read [REv (wire client_talk) None] \<lparr>sent = [], faults = [], rands = (\<lambda>_. 0)\<rparr> = Some (Returns None, s', d') \<and>
     conn_out d' = wire [NewFrame OpText False [0xE2, 0x82], NewPongFrame [7], NewFrame OpContinuation True [0xAC], NewCloseFrame [3, 0xE8]]"
proof -
  have wf: "list_all wf_frame client_talk" by code_simp
  have e: "echo_frames EOF Idle client_talk =
      ([NewFrame OpText False [0xE2, 0x82], NewPongFrame [7], NewFrame OpContinuation True [0xAC], NewCloseFrame [3, 0xE8]], Returns None)"
    by code_simp
  from wsHandler_echoes [of "[REv (wire client_talk) None]" client_talk "\<lparr>sent = [], faults = [], rands = (\<lambda>_. 0)\<rparr>"] wf e
  show ?thesis by (simp add: conn_out_def)
qed

text \<open>
  C24: the loop of the raw echo server ends on every connection, whatever arrives, in frames or not, and whatever its own
  writes meet; and it ends in a panic exactly when, after some turns, the connection brings a header that passes
  \<open>CheckHeader\<close>, is no ping or pong, and announces more bytes than can be allocated.
\<close>

theorem wsHandler_returns:
  "\<exists>r s' d'. wsHandler conn_read s d = Some (r, s', d') \<and>
    (r = Panics \<longleftrightarrow> (\<exists>s1 d1 v1. ws_turns s d ws_start s1 d1 v1 \<and> oversized s1 v1))"
proof -
  have "state (ws_utf8 (ws_start :: rd_event list ws_vars)) \<in> utf8_states" by (simp add: ws_start_def NewUTF8Reader_def utf8_states_def)
  from ws_loop_returns [OF this, of s d] show ?thesis by (simp add: wsHandler_def)
qed

text \<open>So the header of a masked binary frame of \<open>2 ^ 62\<close> bytes, 14 bytes in all, is enough.\<close>

lemma wsHandler_panics:
  assumes "ReadHeader conn_read s = Some (h, None, s1)" and "CheckHeader h StateServerSide = None"
    and "OpCode h = OpBinary" and "maxAlloc < sint (Length h)"
  shows "\<exists>s' d'. wsHandler conn_read s d = Some (Panics, s', d')"
proof -
  have "oversized s (ws_start :: rd_event list ws_vars)"
    using assms by (auto simp: oversized_def ws_start_def op_defs)
  with ws_turns.here wsHandler_returns [of s d] show ?thesis by blast
qed

lemma wsHandler_panics_sample:
  "\<exists>s' d'. wsHandler conn_read [REv [0x82, 0xFF, 0x40, 0, 0, 0, 0, 0, 0, 0, 1, 2, 3, 4] None] d = Some (Panics, s', d')"
proof (rule wsHandler_panics)
  let ?h = "zero_header\<lparr>Fin := True, OpCode := 2, Masked := True, Mask := (1, 2, 3, 4), Length := 0x4000000000000000\<rparr>"
  show "ReadHeader conn_read [REv [0x82, 0xFF, 0x40, 0, 0, 0, 0, 0, 0, 0, 1, 2, 3, 4] None] = Some (?h, None, [])" by code_simp
  show "CheckHeader ?h StateServerSide = None" by code_simp
  show "OpCode ?h = OpBinary" "maxAlloc < sint (Length ?h)" by code_simp+
qed

text \<open>
  C32: a client that closes inside of a text message, where the part that was sent ends within a character, is told that its
  data was invalid, though what it sent was the beginning of valid text and a proper close frame: the
  check after the switch looks at the state of the text reader for a close frame too. (A text part that no slice can hold is
  met with a panic.)
\<close>

theorem wsHandler_close_in_character:
  assumes "conn_sane s" and "conn_data s = frame_bytes f @ frame_bytes g" and "wf_frame f" and "wf_frame g" and "faults d = []"
    and "CheckHeader (Header f) StateServerSide = None" and "OpCode (Header f) = OpText" and "\<not> Fin (Header f)"
    and "CheckHeader (Header g) (Set StateServerSide StateFragmented) = None" and "OpCode (Header g) = OpClose"
    and "ValidString (plain f @ zs)" and "\<not> ValidString (plain f)"
  shows "if maxAlloc < int (length (Payload f)) then \<exists>s' d'. wsHandler conn_read s d = Some (Panics, s', d')
    else \<exists>s' d'. wsHandler conn_read s d = Some (Returns (Some ErrInvalidUTF8), s', d') \<and>
      conn_out d' = conn_out d @ frame_bytes (NewFrame OpText False (plain f)) @ frame_bytes (close_frame StatusInvalidFramePayloadData)"
proof -
  have ops: "OpText \<noteq> OpPing" "OpText \<noteq> OpPong" "OpText \<noteq> OpClose" "OpClose \<noteq> OpPing" "OpClose \<noteq> OpPong" by (simp_all add: op_defs)
  have "echo_frame Idle f = (if maxAlloc < int (length (Payload f)) then ([], Inl Panics)
      else ([NewFrame OpText False (plain f)], Inr (InText (plain f))))"
    using assms(6-8,11) ops by (auto simp: echo_frame_def text_after_def text_refused_def echo_next_def Let_def)
  moreover have "echo_frame (InText (plain f)) g = ([close_frame StatusInvalidFramePayloadData], Inl (Returns (Some ErrInvalidUTF8)))"
    using assms(9,10,12) ops by (simp add: echo_frame_def text_refused_def)
  ultimately have e: "echo_frames (conn_end s) Idle [f, g] = (if maxAlloc < int (length (Payload f)) then ([], Panics)
      else ([NewFrame OpText False (plain f), close_frame StatusInvalidFramePayloadData], Returns (Some ErrInvalidUTF8)))" by simp
  have "ws_ok Idle ws_start" by (simp add: ws_ok_def ws_start_def NewUTF8Reader_def text_of_def)
  from ws_loop_echoes [OF assms(1) _ _ assms(5) this, of "[f, g]"] assms(2-4) e show ?thesis
    by (auto simp: wsHandler_def says_def)
qed

theorem wsHandler_close_in_character_witness:
  "let f = MaskFrameInPlaceWith (NewFrame OpText False [0xE2, 0x82]) (1, 2, 3, 4); g = MaskFrameInPlaceWith (NewCloseFrame [3, 0xE8]) (5, 6, 7, 8)
   in \<exists>s' d'. wsHandler conn_read [REv (frame_bytes f @ frame_bytes g) None] \<lparr>sent = [], faults = [], rands = (\<lambda>_. 0)\<rparr> =
       Some (Returns (Some ErrInvalidUTF8), s', d') \<and>
     conn_out d' = frame_bytes (NewFrame OpText False [0xE2, 0x82]) @ frame_bytes (close_frame StatusInvalidFramePayloadData)"
proof -
  let ?f = "MaskFrameInPlaceWith (NewFrame OpText False [0xE2, 0x82]) (1, 2, 3, 4)" and ?g = "MaskFrameInPlaceWith (NewCloseFrame [3, 0xE8]) (5, 6, 7, 8)"
  have wf: "wf_frame ?f" "wf_frame ?g" by code_simp+
  have c: "CheckHeader (Header ?f) StateServerSide = None" "OpCode (Header ?f) = OpText" "\<not> Fin (Header ?f)"
      "CheckHeader (Header ?g) (Set StateServerSide StateFragmented) = None" "OpCode (Header ?g) = OpClose" by code_simp+
  have l: "\<not> maxAlloc < int (length (Payload ?f))" by code_simp
  have p: "plain ?f = [0xE2, 0x82]" "ValidString (plain ?f @ [0xAC])" "\<not> ValidString (plain ?f)" by code_simp+
  show ?thesis
    using wsHandler_close_in_character [OF _ _ wf _ c p(2,3), of "[REv (frame_bytes ?f @ frame_bytes ?g) None]"
        "\<lparr>sent = [], faults = [], rands = (\<lambda>_. 0)\<rparr>"]
    by (simp add: Let_def conn_out_def p(1) l)
qed

end
