(* ===== verification/Copying.thy ===== *)
theory Copying
  imports Messaging Session
begin

text \<open>
  Writing a message from a source, as the handler does that an application writes with (msutil/connecter.go,
  msutil/client.go): the writer is reset, the source is copied into it, by \<open>ReadFrom\<close> or by writing itself, and the message is
  flushed. The lemmas show what the peer gets.
\<close>

section \<open>Writing one message\<close>

text \<open>A writer that a session can write its next message with.\<close>

definition reusable :: "byte \<Rightarrow> Writer \<Rightarrow> bool" where
  "reusable st w \<longleftrightarrow> wok w \<and> wstate w = st \<and> werr w = None"

lemma NewWriter_reusable:
  assumes "NewWriter d st op = Some w"
  shows "reusable st w"
proof -
  have b: "NewWriterBuffer d st op (replicate 4096 0) = Some w"
    using assms by (simp add: NewWriter_def NewWriterBufferSize_def make_bytes_def maxAlloc_def MinHeaderSize_def DefaultWriteBuffer_def)
  from NewWriterBuffer_sending [OF b] show ?thesis by (simp add: reusable_def sending_def)
qed

lemma Writer_Reset_reusable:
  assumes "reusable st w"
  shows "\<exists>w'. Writer_Reset w d st op = Some w' \<and> sending (conn_out d) [] w' \<and> wstate w' = st \<and> wop w' = op \<and>
    \<not> noFlush w' \<and> wdest w' = d"
proof -
  let ?w = "w\<lparr>wdest := d, wstate := st, wop := op, offset := nat (reserve st (int (length (raw w)))),
    wn := 0, dirty := False, fseq := 0, extensions := [], noFlush := False\<rparr>"
  have k: "int (offset w) = reserve st (int (length (raw w)))" "offset w < length (raw w)" "length (raw w) < 2 ^ 60" "werr w = None"
    using assms by (auto simp: reusable_def wok_def)
  then have "Writer_Reset w d st op = Some ?w" by (simp add: Writer_Reset_def initBuf_def Let_def)
  moreover have "wok ?w" using k by (simp add: wok_def Size_def flip: k(1))
  then have "sending (conn_out d) [] ?w" using k(4) by (auto simp: sending_def frags_def buffered_data_def)
  ultimately show ?thesis by (intro exI [of _ ?w]) simp
qed

text \<open>The flush at the end, over a connection without faults.\<close>

lemma Flush_reusable:
  assumes s: "sending out0 p w" "dirty w" "faults (wdest w) = []"
  shows "\<exists>w' fs. Flush w = Some (None, w') \<and> reusable (wstate w) w' \<and> faults (wdest w') = [] \<and>
    whole (wstate w) (wop w) fs p \<and> conn_out (wdest w') = out0 @ wire fs"
proof -
  obtain e w' where w': "Flush w = Some (e, w')" "same_writer w w'" "werr w' = e"
      "e = None \<longrightarrow> (\<exists>fs. whole (wstate w) (wop w) fs p \<and> conn_out (wdest w') = out0 @ wire fs \<and> sending (out0 @ wire fs) [] w')"
    using Flush_sending [OF s(1) disjI1 [OF s(2)]] by metis
  have e: "e = None" "faults (wdest w') = []" "wstate w' = wstate w"
    using w'(2,3) s by (simp_all add: same_writer_def sending_def)
  with w'(4) obtain fs where "whole (wstate w) (wop w) fs p" "conn_out (wdest w') = out0 @ wire fs" "sending (out0 @ wire fs) [] w'" by blast
  with w'(1) e show ?thesis by (auto simp: reusable_def sending_def)
qed

lemma write_handler_sends:
  assumes w: "reusable st w" and d: "faults d = []" and p: "p \<noteq> []" "length p < 2 ^ 63"
  shows "\<exists>w' d' fs. write_handler (Some (bytes_WriteTo Writer_Write)) bytes_read st p isText w d = Some (None, [], w', d') \<and>
    reusable st w' \<and> faults d' = [] \<and> whole st (if isText then OpText else OpBinary) fs p \<and> conn_out d' = conn_out d @ wire fs"
proof -
  let ?op = "if isText then OpText else OpBinary"
  obtain w1 where w1: "Writer_Reset w d st ?op = Some w1" "sending (conn_out d) [] w1" "wstate w1 = st" "wop w1 = ?op" "\<not> noFlush w1" "wdest w1 = d"
    using Writer_Reset_reusable [OF w, of d ?op] by blast
  have e1: "werr w1 = None" using w1(2) by (simp add: sending_def)
  obtain n e w2 where w2: "Writer_Write p w1 = Some (n, e, w2)" "same_writer w1 w2" "dirty w2" "werr w2 = e"
      "e = None \<longrightarrow> n = length p \<and> sending (conn_out d) ([] @ p) w2"
    using Write_sending [OF w1(2) p(2)] w1(5) by auto
  have c2: "e = None" "faults (wdest w2) = []" "wstate w2 = st" "wop w2 = ?op"
    using w2(2,4) w1(3,4,6) d e1 by (simp_all add: same_writer_def)
  have s2: "n = length p" "sending (conn_out d) p w2" using w2(5) c2(1) by simp_all
  obtain w3 fs where w3: "Flush w2 = Some (None, w3)" "reusable st w3" "faults (wdest w3) = []"
      "whole st ?op fs p" "conn_out (wdest w3) = conn_out d @ wire fs"
    using Flush_reusable [OF s2(2) w2(3) c2(2)] unfolding c2(3,4) by blast
  have "write_handler (Some (bytes_WriteTo Writer_Write)) bytes_read st p isText w d = Some (None, [], w3, wdest w3)"
    using w1(1) w2(1) c2(1) s2(1) w3(1) p(1) by (cases isText) (simp_all add: write_handler_def copy_to_writer_def bytes_WriteTo_def Let_def)
  with w3(2-5) show ?thesis by blast
qed

section \<open>Copying a stream\<close>

text \<open>\<open>live\<close> states of a source: a read that reports no error brings bytes.\<close>

lemma read_try_once:
  "rd k s = Some (bs, e, s') \<Longrightarrow> bs \<noteq> [] \<or> e \<noteq> None \<Longrightarrow> 0 < i \<Longrightarrow> read_try rd k i s = Some (bs, e, s', False)"
  by (cases i) auto

context io_stream
begin

lemma read_from_sending:
  assumes live: "\<And>n s bs s'. live s \<Longrightarrow> inv s \<Longrightarrow> 0 < n \<Longrightarrow> rd n s = Some (bs, None, s') \<Longrightarrow> bs \<noteq> [] \<and> live s'"
  shows "inv s \<Longrightarrow> live s \<Longrightarrow> sending out0 pl w \<Longrightarrow> \<not> noFlush w \<Longrightarrow> faults (wdest w) = [] \<Longrightarrow>
    \<exists>s' w'. read_from_loop rd n s w = Some (n + length (data s), Some (ending s), False, s', w') \<and> same_writer w w' \<and>
      sending out0 (pl @ data s) w'"
proof (induction "fin s" arbitrary: n s pl w rule: less_induct)
  case less
  have go: "\<exists>s' w'. read_from_loop rd n s w1 = Some (n + length (data s), Some (ending s), False, s', w') \<and> same_writer w1 w' \<and>
      sending out0 (pl @ data s) w'"
    if w1: "sending out0 pl w1" "\<not> noFlush w1" "faults (wdest w1) = []" "Available w1 \<noteq> 0" for w1
  proof -
    obtain bs e s1 where r: "rd (Available w1) s = Some (bs, e, s1)" using rd_returns [OF less.prems(1)] by blast
    have l: "length bs \<le> Available w1" by (rule rd_length [OF less.prems(1) r])
    have rt: "bs \<noteq> [] \<or> e \<noteq> None \<Longrightarrow> read_try rd (Available w1) maxEmptyReads s = Some (bs, e, s1, False)"
      by (rule read_try_once [where rd = rd, OF r]) (simp_all add: maxEmptyReads_def)
    note f = fill_sending [OF w1(1), of bs]
    show ?thesis
    proof (cases e)
      case None
      have lv: "bs \<noteq> []" "live s1" using live [OF less.prems(2,1) _ r [unfolded None]] w1(4) by auto
      note d = rd_data [OF less.prems(1) r [unfolded None]] rd_inv [OF less.prems(1) r]
      have lt: "fin s1 < fin s" using rd_progress [OF less.prems(1) _ r] None w1(4) by simp
      have q: "sending out0 (pl @ bs) (fill bs w1)" "\<not> noFlush (fill bs w1)" "faults (wdest (fill bs w1)) = []" "same_writer w1 (fill bs w1)"
        using f l w1 by (auto simp: same_writer_def sending_def)
      obtain s' w' where "read_from_loop rd (n + length bs) s1 (fill bs w1) = Some (n + length bs + length (data s1), Some (ending s1), False, s', w')"
          "same_writer (fill bs w1) w'" "sending out0 ((pl @ bs) @ data s1) w'"
        using less.hyps [OF lt d(2) lv(2) q(1-3), of "n + length bs"] by blast
      then show ?thesis using rt None lv(1) w1(4) d(1) same_writer_trans [OF q(4)]
        by (subst read_from_loop.simps) (auto simp: Let_def add.assoc)
    next
      case (Some er)
      have "bs = []" "data s = []" "ending s = er" using rd_end [OF less.prems(1) r [unfolded Some]] by simp_all
      then show ?thesis using rt Some w1(4) f w1(1)
        by (subst read_from_loop.simps) (auto simp: Let_def)
    qed
  qed
  show ?case
  proof (cases "Available w = 0")
    case False
    with go [of w] less.prems(3-5) show ?thesis by blast
  next
    case True
    obtain e w1 where w1: "FlushFragment w = Some (e, w1)" "werr w1 = e" "same_writer w w1"
        "e = None \<longrightarrow> sending out0 pl w1 \<and> Buffered w1 = 0 \<and> Size w1 = Size w"
      using FlushFragment_sending [OF less.prems(3)] by metis
    have e: "e = None" "faults (wdest w1) = []" "\<not> noFlush w1"
      using w1(2,3) less.prems(3-5) by (auto simp: same_writer_def sending_def)
    have s1: "sending out0 pl w1" "wn w1 = 0" using w1(4) e(1) by (auto simp: Buffered_def)
    then have "Available w1 \<noteq> 0" by (auto simp: sending_def wok_def Available_def Size_def)
    from go [OF s1(1) e(3,2) this] w1(1,3) e(1) True less.prems(4) same_writer_trans [OF w1(3)] show ?thesis
      by (subst read_from_loop.simps) auto
  qed
qed

lemma ReadFrom_sending:
  assumes live: "\<And>n s bs s'. live s \<Longrightarrow> inv s \<Longrightarrow> 0 < n \<Longrightarrow> rd n s = Some (bs, None, s') \<Longrightarrow> bs \<noteq> [] \<and> live s'"
    and "inv s" and "live s" and "sending out0 pl w" and "\<not> noFlush w" and "faults (wdest w) = []"
  shows "\<exists>s' w'. ReadFrom rd s w = Some (length (data s), if ending s = EOF then None else Some (ending s), s', w') \<and> same_writer w w' \<and>
    sending out0 (pl @ data s) w' \<and> (ending s = EOF \<longrightarrow> dirty w')"
proof -
  obtain s' w' where r: "read_from_loop rd 0 s w = Some (length (data s), Some (ending s), False, s', w')" "same_writer w w'"
      "sending out0 (pl @ data s) w'"
  proof -
    have "\<exists>s' w'. read_from_loop rd 0 s w = Some (0 + length (data s), Some (ending s), False, s', w') \<and> same_writer w w' \<and>
        sending out0 (pl @ data s) w'"
      by (rule read_from_sending [where live = live, OF _ assms(2-)]) (rule live; assumption)
    then show thesis using that by auto
  qed
  then show ?thesis by (cases "ending s = EOF") (auto simp: ReadFrom_def same_writer_def)
qed

end

text \<open>A connection that brings bytes with every read is such a source.\<close>

fun conn_flows :: "rd_event list \<Rightarrow> bool" where
  "conn_flows [] = True"
| "conn_flows (REv d e # es) = ((e = None \<longrightarrow> d \<noteq> []) \<and> conn_flows es)"

lemma conn_read_flows:
  "conn_flows s \<Longrightarrow> 0 < n \<Longrightarrow> conn_read n s = Some (bs, None, s') \<Longrightarrow> bs \<noteq> [] \<and> conn_flows s'"
  by (cases rule: conn_read_cases [of s n]) auto

lemma write_handler_copies:
  assumes w: "reusable st w" and d: "faults d = []" and s: "conn_sane s" "conn_flows s" "conn_end s = EOF"
  shows "\<exists>s' w' d' fs. write_handler None conn_read st s isText w d = Some (None, s', w', d') \<and>
    reusable st w' \<and> faults d' = [] \<and> whole st (if isText then OpText else OpBinary) fs (conn_data s) \<and> conn_out d' = conn_out d @ wire fs"
proof -
  let ?op = "if isText then OpText else OpBinary"
  obtain w1 where w1: "Writer_Reset w d st ?op = Some w1" "sending (conn_out d) [] w1" "wstate w1 = st" "wop w1 = ?op" "\<not> noFlush w1" "wdest w1 = d"
    using Writer_Reset_reusable [OF w, of d ?op] by blast
  have f1: "faults (wdest w1) = []" using w1(6) d by simp
  have "\<exists>s' w'. ReadFrom conn_read s w1 = Some (length (conn_data s), if conn_end s = EOF then None else Some (conn_end s), s', w') \<and>
      same_writer w1 w' \<and> sending (conn_out d) ([] @ conn_data s) w' \<and> (conn_end s = EOF \<longrightarrow> dirty w')"
    by (rule net.ReadFrom_sending [where live = conn_flows, OF _ s(1,2) w1(2,5) f1]) (rule conn_read_flows)
  then obtain s' w2 where w2: "ReadFrom conn_read s w1 = Some (length (conn_data s), None, s', w2)" "same_writer w1 w2"
      "sending (conn_out d) (conn_data s) w2" "dirty w2" using s(3) by auto
  have c2: "faults (wdest w2) = []" "wstate w2 = st" "wop w2 = ?op"
    using w2(2) w1(2-4) f1 by (simp_all add: same_writer_def sending_def)
  obtain w3 fs where w3: "Flush w2 = Some (None, w3)" "reusable st w3" "faults (wdest w3) = []"
      "whole st ?op fs (conn_data s)" "conn_out (wdest w3) = conn_out d @ wire fs"
    using Flush_reusable [OF w2(3,4) c2(1)] unfolding c2(2,3) by blast
  have "write_handler None conn_read st s isText w d = Some (None, s', w3, wdest w3)"
    using w1(1) w2(1) w3(1) by (cases isText) (simp_all add: write_handler_def copy_to_writer_def Let_def)
  with w3(2-5) show ?thesis by blast
qed

section \<open>What the peer reads\<close>

text \<open>A whole message has no control frames, so that nothing is answered inside of it.\<close>

lemma answered_data: "(\<And>g. g \<in> set gs \<Longrightarrow> \<not> IsControl (OpCode (Header g))) \<Longrightarrow> answered ans gs w w' \<longleftrightarrow> w' = w"
  by (induction gs) auto

lemma whole_data:
  assumes "whole st op fs p" and "op = OpText \<or> op = OpBinary" and "g \<in> set fs"
  shows "\<not> IsControl (OpCode (Header g))"
proof -
  have c: "\<not> IsControl OpText" "\<not> IsControl OpBinary" "\<not> IsControl OpContinuation" by code_simp+
  obtain hs m q where fs: "fs = hs @ [out_frame st (if hs = [] then op else OpContinuation) True m q]" "frags st op hs"
    using assms(1) by (auto simp: whole_def)
  have "\<not> IsControl (OpCode (Header g))" if "g \<in> set hs"
    using that fs(2) assms(2) c by (auto simp: frags_def is_frag_def in_set_conv_nth split: if_splits)
  with fs(1) assms(2,3) c show ?thesis by (auto split: if_splits)
qed

lemma ReadData_whole:
  assumes s: "conn_sane s" "conn_data s = wire fs @ rest" and wh: "whole st op fs p" and op: "op = OpText \<and> ValidString p \<or> op = OpBinary"
    and pr: "peers st st'" "\<not> Fragmented st'" and env: "faults d = []" "byte_pool getlen" "\<And>k. 0 < room k"
  shows "\<exists>s'. ReadData conn_read room getlen st' s d = Some (p, op, None, s', d) \<and> conn_sane s' \<and> conn_data s' = rest"
proof -
  let ?cf = "data_conf conn_read getlen st' :: (rd_event list, dest) ReaderConf"
  have op': "op = OpText \<or> op = OpBinary" using op by blast
  have mx: "sint (MaxFrameSize ?cf) \<le> 0" by (simp add: data_conf_def zero_conf_def)
  obtain f gs where f: "fs = f # gs" "message_ok ?cf quiet_ping st' fs" "plain f @ message_payload gs = p" "OpCode (Header f) = op"
    using whole_message [OF wh op' pr mx, of quiet_ping] by blast
  have o: "\<not> IsControl (OpCode (Header f))" "OpCode (Header f) AND (OpText OR OpBinary) \<noteq> 0" using f(4) op' data_ops by auto
  have a: "answered (pongs st') gs d d' \<longleftrightarrow> d' = d" for d'
    by (rule answered_data) (use whole_data [OF wh op'] f(1) in auto)
  have "conn_data s = wire (concat []) @ wire (f # gs) @ rest" using s(2) f(1) by simp
  from data_reader.readData_message [OF conn_data_reader [OF env(2)], where room = room and us = "[]" and w = d,
      OF s(1) this pr(2) _ _ f(2) [unfolded f(1)] o env(3)] f(3,4) op env(1) data_ops(5) a
  show ?thesis by (auto simp: calm_def ReadData_def split: if_splits)
qed

section \<open>Properties\<close>

text \<open>
  C23: the handler that an application writes its messages with: a source that is copied through it, in whatever pieces it brings its bytes and
  however large, arrives at the other end as one message of the kind asked for, whatever the writer was used for before, and
  leaves the writer fit for the next one.
\<close>

theorem copied_stream_arrives:
  assumes "reusable st w" and "faults d = []" and "conn_sane source" and "conn_flows source" and "conn_end source = EOF"
    and "isText \<longrightarrow> ValidString (conn_data source)"
    and "peers st st'" and "\<not> Fragmented st'" and "faults dr = []" and "byte_pool getlen" and "\<And>k. 0 < room k"
  shows "\<exists>source' w' d'. write_handler None conn_read st source isText w d = Some (None, source', w', d') \<and> reusable st w' \<and>
    (\<forall>s rest. conn_sane s \<and> conn_out d @ conn_data s = conn_out d' @ rest \<longrightarrow>
      (\<exists>s'. ReadData conn_read room getlen st' s dr = Some (conn_data source, if isText then OpText else OpBinary, None, s', dr) \<and>
        conn_data s' = rest))"
proof -
  obtain source' w' d' fs where w: "write_handler None conn_read st source isText w d = Some (None, source', w', d')" "reusable st w'"
      "whole st (if isText then OpText else OpBinary) fs (conn_data source)" "conn_out d' = conn_out d @ wire fs"
    using write_handler_copies [OF assms(1-5)] by blast
  have "\<exists>s'. ReadData conn_read room getlen st' s dr = Some (conn_data source, if isText then OpText else OpBinary, None, s', dr) \<and> conn_data s' = rest"
    if "conn_sane s" "conn_out d @ conn_data s = conn_out d' @ rest" for s rest
    using ReadData_whole [where room = room, OF that(1) _ w(3) _ assms(7-11)] that(2) w(4) assms(6) by (auto split: if_splits)
  with w(1,2) show ?thesis by blast
qed

theorem copied_stream_arrives_witness:
  "let d = \<lparr>sent = [], faults = [], rands = (\<lambda>_. 7)\<rparr>; source = [REv [104] None, REv [105, 33] None]
   in \<exists>w source' w' d' s'. NewWriter d StateClientSide 0 = Some w \<and>
     write_handler None conn_read StateClientSide source True w d = Some (None, source', w', d') \<and>
     ReadData conn_read Suc fresh_pool StateServerSide [REv (conn_out d') None] d = Some ([104, 105, 33], OpText, None, s', d)"
proof -
  let ?d = "\<lparr>sent = [], faults = [], rands = (\<lambda>_. 7)\<rparr>" and ?source = "[REv [104] None, REv [105, 33] None]"
  have "NewWriter ?d StateClientSide 0 \<noteq> None"
    by (simp add: NewWriter_def NewWriterBufferSize_def make_bytes_def maxAlloc_def NewWriterBuffer_def initBuf_def Let_def reserve_def
        MinHeaderSize_def DefaultWriteBuffer_def len7_def len16_def)
  then obtain w where w: "NewWriter ?d StateClientSide 0 = Some w" by blast
  have p: "peers StateClientSide StateServerSide" "\<not> Fragmented StateServerSide" by (simp_all add: peers_def) code_simp+
  obtain source' w' d' where c: "write_handler None conn_read StateClientSide ?source True w ?d = Some (None, source', w', d')"
      "\<And>s rest. conn_sane s \<Longrightarrow> conn_out ?d @ conn_data s = conn_out d' @ rest \<Longrightarrow>
        \<exists>s'. ReadData conn_read Suc fresh_pool StateServerSide s ?d = Some (conn_data ?source, if True then OpText else OpBinary, None, s', ?d) \<and> conn_data s' = rest"
    using copied_stream_arrives [where room = Suc and source = ?source and isText = True and d = ?d and dr = ?d,
        OF NewWriter_reusable [OF w] _ _ _ _ _ p _ fresh.byte_pool_axioms] by auto
  from c(2) [of "[REv (conn_out d') None]" "[]"] obtain s' where
      "ReadData conn_read Suc fresh_pool StateServerSide [REv (conn_out d') None] ?d = Some ([104, 105, 33], OpText, None, s', ?d)"
    by (auto simp: conn_out_def)
  with w c(1) show ?thesis unfolding Let_def by blast
qed

end
