(* ===== verification/Writing.thy ===== *)
theory Writing
  imports Copying
begin

text \<open>
  What holds of a \<open>Writer\<close> (msutil/writer.go) however it is used: any calls in any order, over a connection that may fail at
  any time, with the extensions that an application installs. The lemmas of Sending say what is sent as long as
  nothing fails; here the subject is which calls panic or hang: \<open>Reset\<close> of a buffer too small for the
  header of the new side, and \<open>Write\<close> with an extension that fails.
\<close>

declare conn_write.simps [simp del]

section \<open>The type of a writer\<close>

text \<open>
  An extension that only sets the reserved bits, as its interface says, and reports no error; and a
  writer with such extensions, whose buffer has room behind the bytes reserved for a header: the constructors
  accept no other buffer.
\<close>

definition tame :: "bits_fn \<Rightarrow> bool" where
  "tame x \<longleftrightarrow> (\<forall>h. \<exists>r. x h = (h\<lparr>Rsv := r\<rparr>, None))"

definition writer_type :: "Writer \<Rightarrow> bool" where
  "writer_type w \<longleftrightarrow> wok w \<and> (\<forall>x \<in> set (extensions w). tame x)"

lemma apply_bits_tame: "\<forall>x \<in> set xs. tame x \<Longrightarrow> \<exists>r. apply_bits xs h = (h\<lparr>Rsv := r\<rparr>, None)"
proof (induction xs arbitrary: h)
  case Nil
  show ?case by (intro exI [of _ "Rsv h"]) simp
next
  case (Cons x xs)
  have "tame x" using Cons.prems by simp
  then obtain r where "x h = (h\<lparr>Rsv := r\<rparr>, None)" unfolding tame_def by blast
  with Cons.IH [of "h\<lparr>Rsv := r\<rparr>"] Cons.prems show ?case by simp
qed

text \<open>\<open>kept k w w'\<close>: a call that brought at most \<open>k\<close> bytes took the writer from \<open>w\<close> to \<open>w'\<close>.\<close>

definition kept :: "nat \<Rightarrow> Writer \<Rightarrow> Writer \<Rightarrow> bool" where
  "kept k w w' \<longleftrightarrow> writer_type w' \<and> wn w' \<le> wn w + k"

lemma kept_trans: "kept j a b \<Longrightarrow> kept k b c \<Longrightarrow> kept (j + k) a c"
  by (simp add: kept_def)

lemma kept_refl: "writer_type w \<Longrightarrow> kept k w w"
  by (simp add: kept_def)

lemma kept_update:
  assumes "writer_type w" and "length (raw w') = length (raw w)" "offset w' = offset w" "wstate w' = wstate w"
    "extensions w' = extensions w" "wn w' \<le> wn w"
  shows "kept k w w'"
  using assms wok_cong [of w w'] by (simp add: kept_def writer_type_def wok_def Size_def)

section \<open>Each call\<close>

lemma flushFragment_returns:
  assumes t: "writer_type w"
  shows "\<exists>e d r. flushFragment fin w = Some (e, w\<lparr>wdest := d, raw := r\<rparr>) \<and> length r = length (raw w)"
proof -
  define p where "p = buffered_data w"
  obtain m d where md: "NewMask (wdest w) = (m, d)" by (cases "NewMask (wdest w)")
  obtain rs where x: "apply_bits (extensions w) (zero_header\<lparr>OpCode := opCode_of w, Fin := fin, Length := of_nat (length p)\<rparr>) =
      (zero_header\<lparr>OpCode := opCode_of w, Fin := fin, Length := of_nat (length p), Rsv := rs\<rparr>, None)"
    using apply_bits_tame t by (fastforce simp: writer_type_def)
  have w: "wok w" using t by (simp add: writer_type_def)
  define h where "h = zero_header\<lparr>OpCode := opCode_of w, Fin := fin, Length := of_nat (length p), Rsv := rs, Masked := ClientSide (wstate w),
    Mask := (if ClientSide (wstate w) then m else zeroMask)\<rparr>"
  define raw1 where "raw1 = (if ClientSide (wstate w) then put_at (offset w) (Cipher p m 0) (raw w) else raw w)"
  define d1 where "d1 = (if ClientSide (wstate w) then d else wdest w)"
  have fit: "offset w + wn w \<le> length (raw w)" using w unfolding wok_def Size_def by linarith
  have lp: "length p = wn w" using wok_length [OF w] by (simp add: p_def)
  have raw1: "length raw1 = length (raw w)" by (simp add: raw1_def)
  have len: "sint (Length h) = int (length p)" using lp fit w by (simp add: h_def sint_of_nat_small wok_def)
  have "int (length p) \<le> int (length (raw w)) - reserve (wstate w) (int (length (raw w)))"
    using w lp fit by (simp add: wok_def)
  then have hs: "HeaderSize h \<le> int (offset w)"
    using header_fits [OF len, of "int (length (raw w))" "wstate w"] w by (simp add: wok_def h_def)
  define skip where "skip = nat (int (offset w) - HeaderSize h)"
  have skip: "nat (int (offset w) - HeaderSize h) = skip" "\<not> int (offset w) - HeaderSize h < 0" using hs by (simp_all add: skip_def)
  have sk: "int (length (take (offset w - skip) (drop skip raw1))) = HeaderSize h"
    using hs fit HeaderSize_eq [of h] by (simp add: skip_def raw1)
  obtain b where b: "WriteHeader bytesWriter_Write h \<lparr>bbuf = take (offset w - skip) (drop skip raw1), bpos = 0\<rparr> = Some (None, b)"
    using bytesWriter_header [OF sk] by blast
  define raw2 where "raw2 = put_at skip (bbuf b) raw1"
  obtain n e d2 where c: "conn_write (take (offset w + wn w - skip) (drop skip raw2)) d1 = Some (n, e, d2)"
    using conn_write_out by blast
  have h': "zero_header\<lparr>OpCode := opCode_of w, Fin := fin, Length := of_nat (length p), Rsv := rs\<rparr> = h" if "\<not> ClientSide (wstate w)"
    using that by (simp add: h_def zero_header_def)
  have "flushFragment fin w = Some (e, w\<lparr>wdest := d2, raw := raw2\<rparr>)"
  proof (cases "ClientSide (wstate w)")
    case True
    have "put_at (offset w) (Cipher p m 0) (raw w) = raw1" "d = d1" using True by (simp_all add: raw1_def d1_def)
    moreover have "zero_header\<lparr>OpCode := opCode_of w, Fin := fin, Length := of_nat (length p), Rsv := rs, Masked := True, Mask := m\<rparr> = h"
      using True by (simp add: h_def)
    ultimately show ?thesis
      unfolding flushFragment_def Let_def buffered_data_def [symmetric] p_def [symmetric] x prod.case option.case
      using True skip b c md by (simp add: raw2_def [symmetric] split del: if_split)
  next
    case False
    have "raw w = raw1" "wdest w = d1" using False by (simp_all add: raw1_def d1_def)
    then show ?thesis
      unfolding flushFragment_def Let_def buffered_data_def [symmetric] p_def [symmetric] x prod.case option.case
      using False skip b c h' by (simp add: raw2_def [symmetric] split del: if_split)
  qed
  moreover have "length raw2 = length (raw w)" by (simp add: raw2_def raw1)
  ultimately show ?thesis by blast
qed

lemma Flush_kept:
  assumes "writer_type w"
  shows "\<exists>e w'. Flush w = Some (e, w') \<and> kept 0 w w' \<and> werr w' = e"
proof (cases "(\<not> dirty w \<and> Buffered w = 0) \<or> werr w \<noteq> None")
  case True
  with assms show ?thesis by (simp add: Flush_def kept_refl)
next
  case False
  obtain e d r where f: "flushFragment True w = Some (e, w\<lparr>wdest := d, raw := r\<rparr>)" "length r = length (raw w)"
    using flushFragment_returns [OF assms] by blast
  let ?w = "w\<lparr>wdest := d, raw := r, werr := e, wn := 0, dirty := False, fseq := 0\<rparr>"
  have "kept 0 w ?w" by (rule kept_update [OF assms]) (simp_all add: f(2))
  with False f(1) show ?thesis by (auto simp: Flush_def)
qed

lemma FlushFragment_kept:
  assumes "writer_type w"
  shows "\<exists>e w'. FlushFragment w = Some (e, w') \<and> kept 0 w w' \<and> werr w' = e \<and> (e = None \<longrightarrow> wn w' = 0) \<and> noFlush w' = noFlush w"
proof (cases "Buffered w = 0 \<or> werr w \<noteq> None")
  case True
  with assms show ?thesis by (auto simp: FlushFragment_def kept_refl Buffered_def)
next
  case False
  obtain e d r where f: "flushFragment False w = Some (e, w\<lparr>wdest := d, raw := r\<rparr>)" "length r = length (raw w)"
    using flushFragment_returns [OF assms] by blast
  let ?w = "w\<lparr>wdest := d, raw := r, werr := e, wn := 0, fseq := fseq w + 1\<rparr>"
  have "kept 0 w ?w" by (rule kept_update [OF assms]) (simp_all add: f(2))
  with False f(1) show ?thesis by (auto simp: FlushFragment_def)
qed

lemma WriteThrough_returns:
  assumes "writer_type w"
  shows "\<exists>n e w'. WriteThrough p w = Some (n, e, w') \<and> kept 0 w w' \<and> wn w' = wn w \<and> noFlush w' = noFlush w \<and>
    n \<le> length p \<and> (e = None \<longrightarrow> n = length p) \<and> (werr w = None \<and> Buffered w = 0 \<longrightarrow> werr w' = e)"
proof (cases "werr w = None \<and> Buffered w = 0")
  case False
  with assms show ?thesis by (auto simp: WriteThrough_def kept_refl split: option.split)
next
  case True
  obtain rs where x: "apply_bits (extensions w) (zero_header\<lparr>OpCode := opCode_of w, Fin := False, Length := of_nat (length p)\<rparr>) =
      (zero_header\<lparr>OpCode := opCode_of w, Fin := False, Length := of_nat (length p), Rsv := rs\<rparr>, None)" (is "_ = (?h, None)")
    using apply_bits_tame assms by (fastforce simp: writer_type_def)
  obtain f d where f: "(if ClientSide (wstate w) then MaskFrameInPlace \<lparr>Header = ?h, Payload = put_at 0 p (replicate (length p) 0)\<rparr> (wdest w)
      else (\<lparr>Header = ?h, Payload = p\<rparr>, wdest w)) = (f, d)" by (metis surj_pair)
  obtain e d2 where wf: "WriteFrame conn_write f d = Some (e, d2)" using WriteFrame_delivers by blast
  let ?w = "w\<lparr>werr := e, wdest := d2, dirty := True, fseq := fseq w + 1\<rparr>"
  have "WriteThrough p w = Some (if e = None then length p else 0, e, ?w)"
    using True f wf unfolding WriteThrough_def Let_def x by simp
  moreover have "kept 0 w ?w" by (rule kept_update [OF assms]) simp_all
  ultimately show ?thesis using True by auto
qed

lemma WriteThrough_empty:
  assumes "writer_type w" and "wn w = 0" and "werr w = None"
  obtains n e w' where "WriteThrough p w = Some (n, e, w')" "kept 0 w w'" "n \<le> length p" "e = None \<longrightarrow> n = length p" "werr w' = e"
  using WriteThrough_returns [OF assms(1), of p] assms(2,3) unfolding Buffered_def by blast

lemma fill_kept:
  assumes "writer_type w"
  shows "kept (min (Available w) (length p)) w (fill p w)" "noFlush (fill p w) = noFlush w" "werr (fill p w) = werr w"
proof -
  have "extensions (fill p w) = extensions w" "length (raw (fill p w)) = length (raw w)" by (simp_all add: fill_def)
  then show "kept (min (Available w) (length p)) w (fill p w)"
    using assms fill_ok(1,5) [of w p] by (simp add: writer_type_def kept_def)
qed (simp_all add: fill_def)

lemma Grow_kept:
  assumes t: "writer_type w" and n: "wn w + n < 2 ^ 46" "0 < n"
  shows "\<exists>w'. Grow n w = Some w' \<and> kept 0 w w' \<and> n \<le> Available w' \<and> wn w' = wn w \<and> noFlush w' = noFlush w \<and> werr w' = werr w"
proof -
  have w: "wok w" using t by (simp add: writer_type_def)
  obtain w' where g: "Grow n w = Some w'" "wok w'" "n \<le> Available w'" "w' = w\<lparr>raw := raw w', offset := offset w'\<rparr>"
    using Grow_ok [OF w n] by blast
  have eq: "wn w' = wn w" "noFlush w' = noFlush w" "werr w' = werr w" "extensions w' = extensions w" by (subst g(4), simp)+
  with g t show ?thesis by (simp add: writer_type_def kept_def)
qed

section \<open>Write\<close>

text \<open>
  The loop of \<open>Write\<close> ends: it grows at most once, or flushes at most once and then writes through at most once.
\<close>

definition written :: "byte list \<Rightarrow> nat \<Rightarrow> Writer \<Rightarrow> (byte list \<times> nat \<times> Writer) option \<Rightarrow> bool" where
  "written p n w r \<longleftrightarrow> (\<exists>k w'. r = Some (drop k p, n + k, w') \<and> k \<le> length p \<and> kept k w w' \<and>
     (werr w' = None \<longrightarrow> length p - k \<le> Available w'))"

lemma written_stop:
  assumes "writer_type w" and "length p \<le> Available w \<or> werr w \<noteq> None"
  shows "written p n w (write_loop p n w)"
proof -
  have "write_loop p n w = Some (drop 0 p, n + 0, w)" using assms(2) by (subst write_loop.simps) auto
  with assms show ?thesis unfolding written_def by (intro exI [of _ 0] exI [of _ w]) (auto simp: kept_refl)
qed

lemma written_step:
  assumes "written (drop j p) (n + j) w1 r" and "kept j w w1" and "j \<le> length p"
  shows "written p n w r"
proof -
  from assms(1) obtain k w2 where k: "r = Some (drop k (drop j p), n + j + k, w2) \<and> k \<le> length (drop j p) \<and> kept k w1 w2 \<and>
      (werr w2 = None \<longrightarrow> length (drop j p) - k \<le> Available w2)"
    unfolding written_def by (elim exE) (rule that)
  then have "kept (j + k) w w2" using kept_trans [OF assms(2)] by blast
  moreover have "drop k (drop j p) = drop (j + k) p" "length (drop j p) - k = length p - (j + k)" by (simp_all add: add.commute)
  ultimately
  show ?thesis using k assms(3) unfolding written_def
    by (intro exI [of _ "j + k"] exI [of _ w2]) auto
qed

lemma written_through:
  assumes t: "writer_type w" and "wn w = 0" and "\<not> noFlush w"
  shows "written p n w (write_loop p n w)"
proof (cases "length p \<le> Available w \<or> werr w \<noteq> None")
  case True
  then show ?thesis by (rule written_stop [OF t])
next
  case False
  obtain j e w1 where w1: "WriteThrough p w = Some (j, e, w1)" "kept 0 w w1" "j \<le> length p" "e = None \<longrightarrow> j = length p" "werr w1 = e"
    by (rule WriteThrough_empty [OF t assms(2), of p]) (use False in auto)
  have st: "write_loop p n w = write_loop (drop j p) (n + j) w1"
    using False assms(2,3) w1(1) by (subst write_loop.simps) (simp add: Buffered_def)
  have "writer_type w1" using w1(2) by (simp add: kept_def)
  then have "written (drop j p) (n + j) w1 (write_loop (drop j p) (n + j) w1)" by (rule written_stop) (use w1(4,5) in \<open>cases e; simp\<close>)
  moreover have "kept j w w1" using w1(2) by (simp add: kept_def)
  ultimately show ?thesis unfolding st by (rule written_step [OF _ _ w1(3)])
qed

lemma write_loop_returns:
  assumes t: "writer_type w" and n: "wn w + length p < 2 ^ 46"
  shows "written p n w (write_loop p n w)"
proof -
  consider (stop) "length p \<le> Available w \<or> werr w \<noteq> None" | (grow) "Available w < length p" "werr w = None" "noFlush w"
    | (through) "\<not> noFlush w" "wn w = 0" | (flush) "Available w < length p" "werr w = None" "\<not> noFlush w" "wn w \<noteq> 0"
    by linarith
  then show ?thesis
  proof cases
    case stop
    then show ?thesis by (rule written_stop [OF t])
  next
    case grow
    obtain w1 where w1: "Grow (length p) w = Some w1" "kept 0 w w1" "length p \<le> Available w1"
    proof -
      have "0 < length p" using grow(1) by linarith
      from Grow_kept [OF t n this] that show thesis by metis
    qed
    have "write_loop p n w = write_loop p n w1" using grow w1(1) by (subst write_loop.simps) simp
    moreover have "written (drop 0 p) (n + 0) w1 (write_loop p n w1)"
      using written_stop [of w1 p n] w1(2,3) by (simp add: kept_def)
    ultimately show ?thesis using written_step [OF _ w1(2)] by simp
  next
    case through
    with written_through [OF t] show ?thesis by blast
  next
    case flush
    let ?j = "copy_len (offset w + wn w) p (raw w)"
    have j: "?j = min (Available w) (length p)" using fill_ok(3) [of w p] t by (simp add: writer_type_def)
    note f = fill_kept [OF t, of p]
    obtain e w1 where w1: "FlushFragment (fill p w) = Some (e, w1)" "kept 0 (fill p w) w1" "werr w1 = e" "e = None \<longrightarrow> wn w1 = 0"
        "noFlush w1 = noFlush (fill p w)"
      using FlushFragment_kept [of "fill p w"] f(1) by (auto simp: kept_def)
    have k: "kept ?j w w1" using kept_trans [OF f(1) w1(2)] j by simp
    have "write_loop p n w = write_loop (drop ?j p) (n + ?j) w1"
      using flush w1(1) by (subst write_loop.simps) (simp add: Buffered_def Let_def)
    moreover have "written (drop ?j p) (n + ?j) w1 (write_loop (drop ?j p) (n + ?j) w1)"
    proof (cases e)
      case None
      then show ?thesis using written_through [of w1] w1(2,4,5) f(2) flush(3) by (simp add: kept_def)
    next
      case (Some er)
      then show ?thesis using written_stop [of w1] w1(2,3) by (simp add: kept_def)
    qed
    ultimately show ?thesis using written_step [OF _ k] j by simp
  qed
qed

text \<open>\<open>Write\<close> takes all of its argument, or reports an error.\<close>

lemma Write_returns:
  assumes t: "writer_type w" and n: "wn w + length p < 2 ^ 46"
  shows "\<exists>n e w'. Writer_Write p w = Some (n, e, w') \<and> kept (length p) w w' \<and> n \<le> length p \<and> (e = None \<longrightarrow> n = length p)"
proof -
  have t1: "writer_type (w\<lparr>dirty := True\<rparr>)" using t by (simp add: writer_type_def wok_def Size_def)
  obtain k w1 where k: "write_loop p 0 (w\<lparr>dirty := True\<rparr>) = Some (drop k p, k, w1)" "k \<le> length p" "kept k w w1"
      "werr w1 = None \<longrightarrow> length p - k \<le> Available w1"
    using write_loop_returns [OF t1, of p 0] n by (auto simp: written_def kept_def)
  show ?thesis
  proof (cases "werr w1")
    case (Some e)
    moreover have "kept (length p) w w1" using k(2,3) by (simp add: kept_def)
    ultimately show ?thesis using k(1,2) by (simp add: Writer_Write_def)
  next
    case None
    have t2: "writer_type w1" using k(3) by (simp add: kept_def)
    note f = fill_kept [OF t2, of "drop k p"]
    have "copy_len (offset w1 + wn w1) (drop k p) (raw w1) = length p - k"
      using fill_ok(3) [of w1 "drop k p"] t2 k(4) None by (simp add: writer_type_def)
    moreover have "kept (length p) w (fill (drop k p) w1)"
      using kept_trans [OF k(3) f(1)] k(2) unfolding kept_def length_drop by linarith
    ultimately show ?thesis using None k(1,2) by (simp add: Writer_Write_def)
  qed
qed

section \<open>ReadFrom\<close>

context io_source
begin

lemma read_try_returns:
  "inv s \<Longrightarrow> 0 < k \<Longrightarrow> \<exists>bs e s' stuck. read_try rd k i s = Some (bs, e, s', stuck) \<and> inv s' \<and> length bs \<le> k \<and> length bs \<le> length (data s) \<and>
    (e = None \<longrightarrow> length bs + length (data s') = length (data s) \<and> (\<not> stuck \<longrightarrow> fin s' < fin s))"
proof (induction i arbitrary: s)
  case 0
  then show ?case by (intro exI [of _ "[]"] exI [of _ None] exI [of _ s] exI [of _ True]) simp
next
  case (Suc i)
  obtain bs e s' where r: "rd k s = Some (bs, e, s')" using rd_returns [OF Suc.prems(1)] by blast
  note s' = rd_inv [OF Suc.prems(1) r] rd_length [OF Suc.prems(1) r]
  show ?case
  proof (cases e)
    case (Some er)
    then show ?thesis using r s' rd_last [OF Suc.prems(1) r [unfolded Some]] by (auto intro: exI [of _ False])
  next
    case None
    note d = rd_data [OF Suc.prems(1) r [unfolded None]]
    have lt: "fin s' < fin s" using rd_progress [OF Suc.prems(1) _ r] None Suc.prems(2) by simp
    show ?thesis
    proof (cases "bs = []")
      case False
      then show ?thesis using r None s' d lt by (auto intro: exI [of _ False])
    next
      case True
      obtain cs e1 s1 stuck where i: "read_try rd k i s' = Some (cs, e1, s1, stuck)" "inv s1" "length cs \<le> k" "length cs \<le> length (data s')"
          "e1 = None \<longrightarrow> length cs + length (data s1) = length (data s') \<and> (\<not> stuck \<longrightarrow> fin s1 < fin s')"
        using Suc.IH [OF s'(1) Suc.prems(2)] by blast
      with r None True d lt show ?thesis by auto
    qed
  qed
qed

text \<open>
  \<open>ReadFrom\<close> ends on every source: each turn of its loop makes room or uses up a read.
\<close>

lemma read_from_returns:
  "inv s \<Longrightarrow> writer_type w \<Longrightarrow> wn w + length (data s) < 2 ^ 45 \<Longrightarrow>
    \<exists>n' e stuck s' w'. read_from_loop rd n s w = Some (n', e, stuck, s', w') \<and> kept (length (data s)) w w' \<and> e \<noteq> None"
proof (induction "fin s" arbitrary: n s w rule: less_induct)
  case less
  have go: "\<exists>n' e stuck s' w'. read_from_loop rd n s w1 = Some (n', e, stuck, s', w') \<and> kept (length (data s)) w w' \<and> e \<noteq> None"
    if w1: "kept 0 w w1" "Available w1 \<noteq> 0" for w1
  proof -
    have t: "writer_type w1" using w1(1) by (simp add: kept_def)
    obtain bs e s' stuck where r: "read_try rd (Available w1) maxEmptyReads s = Some (bs, e, s', stuck)" "inv s'"
        "length bs \<le> length (data s)" "length bs \<le> Available w1"
        "e = None \<longrightarrow> length bs + length (data s') = length (data s) \<and> (\<not> stuck \<longrightarrow> fin s' < fin s)"
      using read_try_returns [OF less.prems(1), of "Available w1" maxEmptyReads] w1(2) by auto
    have k: "kept (length bs) w (fill bs w1)" using kept_trans [OF w1(1) fill_kept(1) [OF t, of bs]] r(4) by simp
    show ?thesis
    proof (cases "stuck \<or> e \<noteq> None")
      case True
      have "kept (length (data s)) w w1" "kept (length (data s)) w (fill bs w1)" using w1(1) k r(3) by (simp_all add: kept_def)
      then show ?thesis using True r(1) w1(2) by (subst read_from_loop.simps) (auto simp: Let_def split: option.split)
    next
      case False
      then have d: "length bs + length (data s') = length (data s)" "fin s' < fin s" using r(5) by auto
      have "wn (fill bs w1) + length (data s') < 2 ^ 45" using k d(1) less.prems(3) by (simp add: kept_def)
      from less.hyps [OF d(2) r(2) _ this, of "n + length bs"] k obtain n' e' stuck' s2 w2 where
          "read_from_loop rd (n + length bs) s' (fill bs w1) = Some (n', e', stuck', s2, w2)" "kept (length (data s')) (fill bs w1) w2" "e' \<noteq> None"
        by (auto simp: kept_def)
      then show ?thesis using False r(1) w1(2) kept_trans [OF k, of "length (data s')" w2] d(1)
        by (subst read_from_loop.simps) (auto simp: Let_def)
    qed
  qed
  consider (room) "Available w \<noteq> 0" | (grow) "Available w = 0" "noFlush w" | (flush) "Available w = 0" "\<not> noFlush w" by blast
  then show ?case
  proof cases
    case room
    then show ?thesis using go [of w] kept_refl [OF less.prems(2)] by blast
  next
    case grow
    have "0 < wn w" using grow(1) less.prems(2) by (auto simp: Available_def Size_def writer_type_def wok_def)
    then obtain w1 where w1: "Grow (Buffered w) w = Some w1" "kept 0 w w1" "Available w1 \<noteq> 0"
      using Grow_kept [OF less.prems(2), of "wn w"] less.prems(3) by (auto simp: Buffered_def)
    with go [OF w1(2,3)] grow show ?thesis by (subst read_from_loop.simps) simp
  next
    case flush
    obtain e w1 where w1: "FlushFragment w = Some (e, w1)" "kept 0 w w1" "e = None \<longrightarrow> wn w1 = 0"
      using FlushFragment_kept [OF less.prems(2)] by metis
    show ?thesis
    proof (cases e)
      case (Some er)
      moreover have "kept (length (data s)) w w1" using w1(2) by (simp add: kept_def)
      ultimately show ?thesis using w1(1) flush by (subst read_from_loop.simps) (auto intro: exI [of _ False])
    next
      case None
      then have "Available w1 \<noteq> 0" using w1(2,3) by (auto simp: kept_def writer_type_def wok_def Available_def Size_def)
      from go [OF w1(2) this] w1(1) None flush show ?thesis by (subst read_from_loop.simps) simp
    qed
  qed
qed

lemma ReadFrom_returns:
  assumes "inv s" and "writer_type w" and "wn w + length (data s) < 2 ^ 45"
  shows "\<exists>n e s' w'. ReadFrom rd s w = Some (n, e, s', w') \<and> kept (length (data s)) w w'"
proof -
  obtain n e stuck s' w' where r: "read_from_loop rd 0 s w = Some (n, e, stuck, s', w')" "kept (length (data s)) w w'"
    using read_from_returns [OF assms] by blast
  moreover have "kept (length (data s)) w (w'\<lparr>dirty := True\<rparr>)" using r(2) by (simp add: kept_def writer_type_def wok_def Size_def)
  ultimately show ?thesis by (simp add: ReadFrom_def)
qed

end

section \<open>Any calls in any order\<close>

text \<open>The calls of a writer's interface, with their arguments; their results do not matter here.\<close>

datatype writer_call =
    CallWrite "byte list"
  | CallReadFrom "rd_event list"
  | CallWriteThrough "byte list"
  | CallGrow nat
  | CallFlush
  | CallFlushFragment
  | CallResetOp byte
  | CallReset dest byte byte
  | CallSetExtensions "bits_fn list"
  | CallDisableFlush

fun do_call :: "writer_call \<Rightarrow> Writer \<Rightarrow> Writer option" where
  "do_call (CallWrite p) w = do { (n, e, w) \<leftarrow> Writer_Write p w; Some w }"
| "do_call (CallReadFrom s) w = do { (n, e, s, w) \<leftarrow> ReadFrom conn_read s w; Some w }"
| "do_call (CallWriteThrough p) w = do { (n, e, w) \<leftarrow> WriteThrough p w; Some w }"
| "do_call (CallGrow n) w = Grow n w"
| "do_call CallFlush w = do { (e, w) \<leftarrow> Flush w; Some w }"
| "do_call CallFlushFragment w = do { (e, w) \<leftarrow> FlushFragment w; Some w }"
| "do_call (CallResetOp op) w = Some (ResetOp w op)"
| "do_call (CallReset d st op) w = Writer_Reset w d st op"
| "do_call (CallSetExtensions xs) w = Some (SetExtensions w xs)"
| "do_call CallDisableFlush w = Some (DisableFlush w)"

fun writer_calls :: "writer_call list \<Rightarrow> Writer \<Rightarrow> Writer option" where
  "writer_calls [] w = Some w"
| "writer_calls (c # cs) w = Option.bind (do_call c w) (writer_calls cs)"

text \<open>The room a call asks for in the buffer, and what it relies on.\<close>

fun brings :: "writer_call \<Rightarrow> nat" where
  "brings (CallWrite p) = length p"
| "brings (CallReadFrom s) = length (conn_data s)"
| "brings (CallGrow n) = n"
| "brings _ = 0"

fun call_ok :: "writer_call \<Rightarrow> bool" where
  "call_ok (CallReadFrom s) \<longleftrightarrow> conn_sane s"
| "call_ok (CallSetExtensions xs) \<longleftrightarrow> (\<forall>x \<in> set xs. tame x)"
| "call_ok _ \<longleftrightarrow> True"

lemma Grow_0:
  assumes "wok w"
  shows "Grow 0 w = Some w"
proof -
  have "\<not> int (length (raw w)) - int (offset w) - int (Buffered w) < int 0"
    using assms unfolding wok_def Size_def Buffered_def by linarith
  then have "grow_loop (wstate w) (int (Buffered w)) (int 0) (int (length (raw w))) (int (offset w)) = Some (int (length (raw w)), int (offset w))"
    by (subst grow_loop.simps) (simp only: if_False)
  then show ?thesis by (simp add: Grow_def)
qed

text \<open>
  \<open>Reset\<close> panics when the side it is given needs more bytes in front than the buffer has. A buffer that the writer was made
  with can be that small only for a client.
\<close>

fun reset_panics :: "writer_call \<Rightarrow> Writer \<Rightarrow> bool" where
  "reset_panics (CallReset d st op) w \<longleftrightarrow> int (length (raw w)) \<le> reserve st (int (length (raw w)))"
| "reset_panics _ w \<longleftrightarrow> False"

lemma reset_panics_small:
  assumes "reset_panics c w" and "wok w"
  shows "\<exists>d st op. c = CallReset d st op \<and> ClientSide st \<and> length (raw w) \<le> 6"
proof -
  obtain d st op where c: "c = CallReset d st op" using assms(1) by (cases c) auto
  have "reserve (wstate w) (int (length (raw w))) < int (length (raw w))" "int (length (raw w)) \<le> reserve st (int (length (raw w)))"
    using assms c by (auto simp: wok_def)
  then have "ClientSide st \<and> length (raw w) \<le> 6" by (auto simp: reserve_def Let_def len_defs split: if_splits)
  with c show ?thesis by blast
qed

lemma Reset_kept:
  assumes "writer_type w"
  shows "if int (length (raw w)) \<le> reserve st (int (length (raw w))) then Writer_Reset w d st op = None
    else \<exists>w'. Writer_Reset w d st op = Some w' \<and> kept 0 w w'"
  using assms reserve_bounds [of st "int (length (raw w))"]
  by (auto simp: Writer_Reset_def initBuf_def Let_def kept_def writer_type_def wok_def Size_def)

lemma do_call_kept:
  assumes t: "writer_type w" and ok: "call_ok c" and n: "wn w + brings c < 2 ^ 45"
  shows "if reset_panics c w then do_call c w = None else \<exists>w'. do_call c w = Some w' \<and> kept (brings c) w w'"
proof (cases c)
  case (CallWrite p)
  with Write_returns [OF t, of p] n show ?thesis by auto
next
  case (CallReadFrom s)
  with net.ReadFrom_returns [OF _ t, of s] ok n show ?thesis by auto
next
  case (CallWriteThrough p)
  with WriteThrough_returns [OF t, of p] show ?thesis by auto
next
  case (CallGrow k)
  with Grow_kept [OF t, of k] Grow_0 [of w] n t show ?thesis
    by (cases "k = 0") (auto simp: kept_def writer_type_def)
next
  case CallFlush
  with Flush_kept [OF t] show ?thesis by auto
next
  case CallFlushFragment
  with FlushFragment_kept [OF t] show ?thesis by auto
next
  case (CallReset d st op)
  with Reset_kept [OF t, of st d op] show ?thesis by simp
qed (use t ok in \<open>simp_all add: kept_def ResetOp_def SetExtensions_def DisableFlush_def writer_type_def wok_def Size_def\<close>)

text \<open>What becomes of a sequence of calls.\<close>

definition calls_end :: "writer_call list \<Rightarrow> Writer \<Rightarrow> bool" where
  "calls_end cs w \<longleftrightarrow>
     (\<exists>w'. writer_calls cs w = Some w' \<and> kept (sum_list (map brings cs)) w w') \<or>
     (writer_calls cs w = None \<and> (\<exists>xs c ys w1. cs = xs @ c # ys \<and> writer_calls xs w = Some w1 \<and> wok w1 \<and> reset_panics c w1))"

lemma calls_end_Cons:
  assumes "do_call c w = Some w1" and "kept (brings c) w w1" and "calls_end cs w1"
  shows "calls_end (c # cs) w"
  using assms(3)
  unfolding calls_end_def
proof (elim disjE exE conjE)
  fix w' assume "writer_calls cs w1 = Some w'" "kept (sum_list (map brings cs)) w1 w'"
  with assms(1) kept_trans [OF assms(2)] show "(\<exists>w'. writer_calls (c # cs) w = Some w' \<and> kept (sum_list (map brings (c # cs))) w w') \<or>
     (writer_calls (c # cs) w = None \<and> (\<exists>xs b ys w2. c # cs = xs @ b # ys \<and> writer_calls xs w = Some w2 \<and> wok w2 \<and> reset_panics b w2))"
    by auto
next
  fix xs b ys w2 assume "writer_calls cs w1 = None" "cs = xs @ b # ys" "writer_calls xs w1 = Some w2" "wok w2" "reset_panics b w2"
  with assms(1) show "(\<exists>w'. writer_calls (c # cs) w = Some w' \<and> kept (sum_list (map brings (c # cs))) w w') \<or>
     (writer_calls (c # cs) w = None \<and> (\<exists>xs b ys w2. c # cs = xs @ b # ys \<and> writer_calls xs w = Some w2 \<and> wok w2 \<and> reset_panics b w2))"
    by (intro disjI2 conjI exI [of _ "c # xs"] exI [of _ b] exI [of _ ys] exI [of _ w2]) simp_all
qed

lemma writer_calls_end:
  "writer_type w \<Longrightarrow> \<forall>c \<in> set cs. call_ok c \<Longrightarrow> wn w + sum_list (map brings cs) < 2 ^ 45 \<Longrightarrow> calls_end cs w"
proof (induction cs arbitrary: w)
  case Nil
  then show ?case by (simp add: calls_end_def kept_refl)
next
  case (Cons c cs)
  have d: "if reset_panics c w then do_call c w = None else \<exists>w'. do_call c w = Some w' \<and> kept (brings c) w w'"
    using do_call_kept [OF Cons.prems(1), of c] Cons.prems(2,3) by auto
  show ?case
  proof (cases "reset_panics c w")
    case True
    with d Cons.prems(1) show ?thesis
      unfolding calls_end_def
      by (intro disjI2 conjI exI [of _ "[]"] exI [of _ c] exI [of _ cs] exI [of _ w]) (simp_all add: writer_type_def)
  next
    case False
    with d obtain w1 where w1: "do_call c w = Some w1" "kept (brings c) w w1" by auto
    then have "writer_type w1" "wn w1 + sum_list (map brings cs) < 2 ^ 45" using Cons.prems(3) by (simp_all add: kept_def)
    with calls_end_Cons [OF w1] Cons.IH [of w1] Cons.prems(2) show ?thesis by simp
  qed
qed

section \<open>Properties\<close>

text \<open>
  C12: a writer stays what it is, on any buffer its constructors accept, whatever is called on it and in whatever order (writing,
  copying from a connection that delivers no bytes together with an error, writing through, growing, flushing, resetting to any side) and whatever the connection
  does, with extensions that only set reserved bits and report no error (C30 is about the others), and with less than
  \<open>2 ^ 45\<close> bytes brought in all, so that the buffer can be allocated: no call hangs, the bytes in front of the
  buffer stay those that the largest header for its size needs, and the counter stays inside. The one call that panics is a
  \<open>Reset\<close> to the client side of a writer made for the server side with 6 bytes or fewer.
\<close>

theorem writer_stays_well_formed:
  assumes "writer_type w" and "\<forall>c \<in> set cs. call_ok c" and "Buffered w + sum_list (map brings cs) < 2 ^ 45"
  shows "(\<exists>w'. writer_calls cs w = Some w' \<and> writer_type w' \<and> int (offset w') = reserve (wstate w') (int (length (raw w'))) \<and>
      Buffered w' \<le> Size w' \<and> 0 < Size w') \<or>
    (writer_calls cs w = None \<and> (\<exists>xs d st op ys w1. cs = xs @ CallReset d st op # ys \<and> writer_calls xs w = Some w1 \<and>
      ClientSide st \<and> length (raw w1) \<le> 6 \<and> Writer_Reset w1 d st op = None))"
proof -
  have "calls_end cs w" using writer_calls_end [OF assms(1,2)] assms(3) by (simp add: Buffered_def)
  then show ?thesis
    unfolding calls_end_def
  proof (elim disjE exE conjE)
    fix w' assume "writer_calls cs w = Some w'" "kept (sum_list (map brings cs)) w w'"
    then show ?thesis by (intro disjI1 exI [of _ w']) (auto simp: kept_def writer_type_def wok_def Size_def Buffered_def)
  next
    fix xs c ys w1 assume p: "writer_calls cs w = None" "cs = xs @ c # ys" "writer_calls xs w = Some w1" "wok w1" "reset_panics c w1"
    obtain d st op where c: "c = CallReset d st op" "ClientSide st" "length (raw w1) \<le> 6" using reset_panics_small [OF p(5,4)] by blast
    then have "Writer_Reset w1 d st op = None" using p(5) by (simp add: Writer_Reset_def initBuf_def Let_def)
    with p c show ?thesis by blast
  qed
qed

theorem writer_stays_well_formed_witness:
  "let d = \<lparr>sent = [], faults = [None, Some (1, NetErr 0)], rands = (\<lambda>_. 7)\<rparr>;
       cs = [CallWrite [1, 2, 3], CallDisableFlush, CallReadFrom [REv [4, 5] None], CallFlush, CallReset d StateServerSide OpText, CallWrite [6], CallFlushFragment]
   in \<exists>w w'. NewWriterBufferSize d StateClientSide OpBinary 16 = Some w \<and> writer_calls cs w = Some w' \<and> Buffered w' \<le> Size w'"
proof -
  let ?d = "\<lparr>sent = [], faults = [None, Some (1, NetErr 0)], rands = (\<lambda>_. 7)\<rparr>"
  let ?cs = "[CallWrite [1, 2, 3], CallDisableFlush, CallReadFrom [REv [4, 5] None], CallFlush, CallReset ?d StateServerSide OpText, CallWrite [6], CallFlushFragment]"
  have c: "ClientSide StateClientSide" by code_simp
  let ?w = "\<lparr>wdest = ?d, wop = OpBinary, wstate = StateClientSide, extensions = [], noFlush = False, raw = replicate 16 0,
    offset = 6, wn = 0, dirty = False, fseq = 0, werr = None\<rparr>"
  have w: "NewWriterBufferSize ?d StateClientSide OpBinary 16 = Some ?w"
    using c by (simp add: NewWriterBufferSize_def make_bytes_def maxAlloc_def NewWriterBuffer_def initBuf_def reserve_def len_defs MinHeaderSize_def)
  have "writer_type ?w" using c by (simp add: writer_type_def wok_def Size_def reserve_def len_defs)
  moreover have "\<forall>c \<in> set ?cs. call_ok c" by simp
  moreover have "Buffered ?w + sum_list (map brings ?cs) < 2 ^ 45" by (simp add: Buffered_def)
  moreover have "writer_calls ?cs ?w \<noteq> None" by code_simp
  ultimately have "\<exists>w'. writer_calls ?cs ?w = Some w' \<and> Buffered w' \<le> Size w'"
    using writer_stays_well_formed [of ?w ?cs] by meson
  with w show ?thesis unfolding Let_def by blast
qed

text \<open>The writer that panics: four bytes are enough for a server and its data, and too few for a client's header.\<close>

lemma reset_of_small_writer:
  "let d = \<lparr>sent = [], faults = [], rands = (\<lambda>_. 0)\<rparr>
   in \<exists>w. NewWriterBufferSize d StateServerSide OpText 4 = Some w \<and> writer_calls [CallWrite [1, 2], CallReset d StateClientSide OpText] w = None"
proof -
  let ?d = "\<lparr>sent = [], faults = [], rands = (\<lambda>_. 0)\<rparr>"
  have "(case NewWriterBufferSize ?d StateServerSide OpText 4 of None \<Rightarrow> False
     | Some w \<Rightarrow> writer_calls [CallWrite [1, 2], CallReset ?d StateClientSide OpText] w = None)" by code_simp
  then show ?thesis by (auto split: option.splits)
qed

text \<open>
  C30: where \<open>Write\<close> does hang: an extension that reports an error, on a writer with an empty buffer that is given more than the buffer
  holds. \<open>WriteThrough\<close> returns the error without storing it and takes no byte, \<open>Write\<close> looks only at the stored error, and its
  loop comes back to where it was.
\<close>

theorem Write_hangs_on_extension_error:
  assumes "\<And>h. snd (apply_bits (extensions w) h) \<noteq> None"
    and "werr w = None" and "Buffered w = 0" and "\<not> noFlush w" and "Available w < length p"
  shows "(\<exists>e. WriteThrough p w = Some (0, Some e, w)) \<and> Writer_Write p w = None"
proof -
  have t: "\<exists>e. WriteThrough p v = Some (0, Some e, v)" if "extensions v = extensions w" "werr v = None" "Buffered v = 0" for v
    using assms(1) [of "zero_header\<lparr>OpCode := opCode_of v, Fin := False, Length := of_nat (length p)\<rparr>"] that
    by (auto simp: WriteThrough_def Let_def split: prod.split option.split)
  let ?w = "w\<lparr>dirty := True\<rparr>"
  obtain e where e: "WriteThrough p ?w = Some (0, Some e, ?w)" using t [of ?w] assms(2,3) by (auto simp: Buffered_def)
  have no: "q = p \<longrightarrow> v = ?w \<longrightarrow> False" if "write_loop q n v = Some r" for q n v r
  proof (rule write_loop.raw_induct [OF _ that, where P = "\<lambda>q n v r. q = p \<longrightarrow> v = ?w \<longrightarrow> False"], intro impI)
    fix f q n v r
    assume ih: "\<And>q n v r. f q n v = Some r \<Longrightarrow> q = p \<longrightarrow> v = ?w \<longrightarrow> False"
      and run: "(if Available v < length q \<and> werr v = None
        then if noFlush v then Grow (length q) v \<bind> f q n
             else if Buffered v = 0 then WriteThrough q v \<bind> (\<lambda>(nn, e, w). f (drop nn q) (n + nn) w)
             else let nn = copy_len (offset v + wn v) q (raw v) in FlushFragment (fill q v) \<bind> (\<lambda>(e, w). f (drop nn q) (n + nn) w)
        else Some (q, n, v)) = Some r" and qv: "q = p" "v = ?w"
    have "f p n ?w = Some r" using run e assms(2-5) unfolding qv by (simp add: Available_def Size_def Buffered_def)
    with ih show False by blast
  qed
  have "write_loop p 0 ?w = None"
  proof (cases "write_loop p 0 ?w")
    case (Some r)
    from no [OF this] show ?thesis by blast
  qed
  with t [of w] assms(2,3) show ?thesis by (simp add: Writer_Write_def)
qed

theorem Write_hangs_on_extension_error_witness:
  "let d = \<lparr>sent = [], faults = [], rands = (\<lambda>_. 0)\<rparr>; bad = (\<lambda>h. (h, Some (ExtErr 0)))
   in \<exists>w. NewWriterBuffer d StateServerSide OpBinary (replicate 4 0) = Some w \<and> Writer_Write [1, 2, 3] (SetExtensions w [bad]) = None"
proof -
  let ?d = "\<lparr>sent = [], faults = [], rands = (\<lambda>_. 0)\<rparr>" and ?bad = "\<lambda>h. (h, Some (ExtErr 0))"
  have c: "\<not> ClientSide StateServerSide" by code_simp
  let ?w = "\<lparr>wdest = ?d, wop = OpBinary, wstate = StateServerSide, extensions = [], noFlush = False, raw = replicate 4 0,
    offset = 2, wn = 0, dirty = False, fseq = 0, werr = None\<rparr>"
  have w: "NewWriterBuffer ?d StateServerSide OpBinary (replicate 4 0) = Some ?w"
    using c by (simp add: NewWriterBuffer_def initBuf_def reserve_def len_defs)
  have "Writer_Write [1, 2, 3] (SetExtensions ?w [?bad]) = None"
    by (rule conjunct2 [OF Write_hangs_on_extension_error]) (simp_all add: SetExtensions_def Buffered_def Available_def Size_def)
  with w show ?thesis unfolding Let_def by blast
qed

end
