(* ===== verification/Serving.thy ===== *)
theory Serving
  imports Totality Session
begin

text \<open>
  The loops that run a session over a connection: the server's loop returns on every connection and closes
  its session, and what the client's loop does with a control frame.
\<close>

section \<open>The server's loop returns\<close>

text \<open>
  What is asked of an application: its \<open>ReadPump\<close> returns, and when it reports no error it has read
  its message to the end. \<open>P\<close> is a property of its state that it keeps.
\<close>

definition reads_messages :: "('s, 'a) SessionsHandler \<Rightarrow> ('s \<Rightarrow> bool) \<Rightarrow> ('s \<Rightarrow> nat) \<Rightarrow> ('a \<Rightarrow> bool) \<Rightarrow> bool" where
  "reads_messages sh ok left P \<longleftrightarrow>
     (\<forall>n t r d w a. reader_inv ok r \<and> P a \<longrightarrow>
       (\<exists>e r' d' w' a'. on_ReadPump sh n t (r, d) (w, a) = Some (e, (r', d'), (w', a')) \<and> reader_inv ok r' \<and>
          left (src r') \<le> left (src r) \<and> (e = None \<longrightarrow> \<not> fragmented r') \<and> P a'))"

context data_source
begin

lemma connecter_loop_returns:
  assumes st: "st = StateServerSide" and sh: "reads_messages sh inv fin P"
  shows "reader_inv inv r \<Longrightarrow> \<not> fragmented r \<Longrightarrow> P a \<Longrightarrow>
    \<exists>e r' d' a'. connecter_loop rd getlen sh r d w a = Some (e, r', d', a') \<and> P a' \<and> (\<forall>er. e \<noteq> Refused er)"
proof (induction "fin (src r)" arbitrary: r d w a rule: less_induct)
  case less
  show ?case
  proof (cases "on_Done sh a")
    case True
    with less.prems show ?thesis by (subst connecter_loop.simps) simp
  next
    case nd: False
    obtain h e r1 d1 where n: "NextFrame rd conf (r, d) = Some (h, e, r1, d1)" "reader_inv inv r1"
        "fin (src r1) \<le> fin (src r)" "e = None \<longrightarrow> fin (src r1) < fin (src r)"
      using NextFrame_returns [OF less.prems(1), of d] by blast
    show ?thesis
    proof (cases e)
      case (Some er)
      with n nd less.prems show ?thesis by (subst connecter_loop.simps) (simp add: st)
    next
      case None
      have lt: "fin (src r1) < fin (src r)" using n(4) None by simp
      show ?thesis
      proof (cases "IsControl (OpCode h)")
        case True
        obtain e2 r2 v d2 where h: "ControlFrameHandler getlen (reader_src rd conf) st h ((r1, d1), d1) = Some (e2, (r2, v), d2)"
            "reader_inv inv r2" "\<not> fragmented r2" "fin (src r2) \<le> fin (src r1)"
          using control_returns [OF less.prems(1,2) n(1) [unfolded None] n(2) True] by blast
        have "fin (src r2) < fin (src r)" using h(4) lt by simp
        from less.hyps [OF this h(2,3) less.prems(3), of d2 w] nd n None True h less.prems(3) show ?thesis
          by (cases e2; subst connecter_loop.simps) (auto simp: st)
      next
        case False
        obtain e2 r2 d2 w2 a2 where h: "on_ReadPump sh (Length h) (OpCode h = OpText) (r1, d1) (w, a) = Some (e2, (r2, d2), (w2, a2))"
            "reader_inv inv r2" "fin (src r2) \<le> fin (src r1)" "e2 = None \<longrightarrow> \<not> fragmented r2" "P a2"
          using sh n(2) less.prems(3) unfolding reads_messages_def by blast
        show ?thesis
        proof (cases e2)
          case (Some er)
          with nd n None False h show ?thesis by (subst connecter_loop.simps) (auto simp: st)
        next
          case e2: None
          have "fin (src r2) < fin (src r)" "\<not> fragmented r2" using h(3,4) lt e2 by simp_all
          from less.hyps [OF this(1) h(2) this(2) h(5), of d2 w2] nd n None False h e2 show ?thesis
            by (subst connecter_loop.simps) (auto simp: st)
        qed
      qed
    qed
  qed
qed

end

lemma NewWriter_server: "\<exists>w. NewWriter d StateServerSide op = Some w"
  by (simp add: NewWriter_def NewWriterBufferSize_def make_bytes_def maxAlloc_def NewWriterBuffer_def initBuf_def Let_def reserve_def
      MinHeaderSize_def DefaultWriteBuffer_def len7_def len16_def)

text \<open>
  C18: for every application that reads its messages to the end, the server's loop returns on every connection,
  whatever arrives and whatever the handler's answers meet; a session that was opened is closed
  at the end, exactly once, in a state the application's own invariant holds of, and one that is refused is
  not read from and not closed.
\<close>

theorem connecter_returns:
  assumes "byte_pool getlen" and "reads_messages sh (\<lambda>_. True) conn_fin P"
    and "NewWriter d StateServerSide 0 = Some w" and "on_Connect sh d (w, a) = Some (er, d1, w1, a1)" and "P a1"
  shows "\<exists>e s' d' a'. Connecter_Run conn_read getlen sh s d a = Some (e, s', d', a') \<and>
    (case er of
       Some x \<Rightarrow> e = Refused x \<and> s' = s \<and> d' = d1 \<and> a' = a1
     | None \<Rightarrow> (\<forall>x. e \<noteq> Refused x) \<and> (\<exists>a2. P a2 \<and> a' = on_Close sh a2))"
proof (cases er)
  case (Some x)
  with assms(3,4) show ?thesis by (simp add: Connecter_Run_def)
next
  case None
  have "\<not> Fragmented StateServerSide" by code_simp
  then have r: "\<not> fragmented (NewReader s StateServerSide)" by (simp add: fragmented_def NewReader_def)
  obtain e r' d' a2 where "connecter_loop conn_read getlen sh (NewReader s StateServerSide) d1 w1 a1 = Some (e, r', d', a2)"
      "P a2" "\<forall>x. e \<noteq> Refused x"
    using data_source.connecter_loop_returns [OF any_data_source [OF assms(1)] refl assms(2) NewReader_inv r assms(5)] by blast
  with None assms(3,4) show ?thesis by (auto simp: Connecter_Run_def)
qed

text \<open>An application that counts the messages it gets.\<close>

definition counting :: "(rd_event list, nat) SessionsHandler" where
  "counting = \<lparr>on_Connect = (\<lambda>d (w, a). Some (None, d, w, a)), on_Close = (\<lambda>a. a),
     on_ReadPump = (\<lambda>n t (r, d) (w, a). do {
       (e, r, d) \<leftarrow> Discard conn_read (data_conf conn_read fresh_pool StateServerSide) r d;
       Some (e, (r, d), (w, Suc a))
     }),
     on_Done = (\<lambda>a. False)\<rparr>"

lemma counting_reads: "reads_messages counting (\<lambda>_. True) conn_fin (\<lambda>_. True)"
  unfolding reads_messages_def
proof (intro allI impI, elim conjE)
  fix n t r d w a
  assume "reader_inv (\<lambda>_. True) (r :: rd_event list Reader)"
  from any_talk.Discard_returns [OF this, of StateServerSide d]
  show "\<exists>e r' d' w' a'. on_ReadPump counting n t (r, d) (w, a) = Some (e, (r', d'), (w', a')) \<and> reader_inv (\<lambda>_. True) r' \<and>
      conn_fin (src r') \<le> conn_fin (src r) \<and> (e = None \<longrightarrow> \<not> fragmented r') \<and> True"
    by (fastforce simp: counting_def)
qed

theorem connecter_returns_witness:
  "\<exists>e s' d' n. Connecter_Run conn_read fresh_pool counting [REv [0x81, 0x81, 0, 0, 0, 0, 65] None, REv [0x89, 0x80] (Some (NetErr 1))]
     \<lparr>sent = [], faults = [], rands = (\<lambda>_. 0)\<rparr> 0 = Some (e, s', d', n)"
proof -
  let ?d = "\<lparr>sent = [], faults = [], rands = (\<lambda>_. 0)\<rparr>"
  obtain w where "NewWriter ?d StateServerSide 0 = Some w" using NewWriter_server by blast
  from connecter_returns [OF fresh.byte_pool_axioms counting_reads this, of 0 None ?d w 0] show ?thesis
    by (fastforce simp: counting_def)
qed

section \<open>A ping at the client\<close>

text \<open>
  C29: the client's loop takes the payload of a ping for the next frames: it neither answers nor skips a control
  frame between messages, but goes on reading right after its header.
\<close>

theorem client_parses_ping_payload:
  assumes "conn_sane s" and "conn_data s = frame_bytes (NewPingFrame p) @ rest" and "length p \<le> 125"
  shows "\<exists>r. client_loop conn_read getlen sh (NewReader s StateClientSide) d w a = client_loop conn_read getlen sh r d w a \<and>
    conn_data (src r) = p @ rest \<and> conn_sane (src r) \<and> RState r = StateClientSide"
proof -
  let ?h = "Header (NewPingFrame p)" and ?cf = "data_conf conn_read getlen StateClientSide"
  have h: "?h = zero_header\<lparr>Fin := True, OpCode := OpPing, Length := of_nat (length p)\<rparr>"
    by (simp add: NewPingFrame_def NewFrame_def)
  have l: "sint (Length ?h) = int (length p)" using assms(3) by (simp add: h sint_of_nat_small)
  have op: "OpPing < 16" "IsControl OpPing" "OpPing \<noteq> OpText" "\<not> Fragmented StateClientSide" by code_simp+
  have wf: "wf_header ?h" using l op by (simp add: h wf_header_def)
  have "frame_bytes (NewPingFrame p) = the (header_bytes ?h) @ p" by (simp add: frame_bytes_def NewPingFrame_def NewFrame_def)
  then obtain s' where r: "ReadHeader conn_read s = Some (?h, None, s')" "conn_data s' = p @ rest" "conn_sane s'"
    using net.ReadHeader_encoded [OF assms(1) wf header_bytes_eq] assms(2) by (auto simp: header_bytes_eq)
  have "Fin ?h" "OpCode ?h = OpPing" "Rsv ?h = 0" "\<not> Masked ?h" by (simp_all add: h zero_header_def)
  moreover have "\<not> IsReserved OpPing" "OpPing \<noteq> OpContinuation" "\<not> ServerSide StateClientSide" by code_simp+
  ultimately have "CheckHeader ?h StateClientSide = None" using l assms(3) op by (simp add: CheckHeader_None)
  then have fe: "frame_error ?cf ((NewReader s StateClientSide)\<lparr>src := s'\<rparr>) ?h None = None"
    by (simp add: frame_error_def NewReader_def)
  have c: "sint (MaxFrameSize ?cf) = 0" "RExtensions ?cf = []" "OnContinuation ?cf = None" "apply_bits [] ?h = (?h, None)"
    by (simp_all add: data_conf_def zero_conf_def)
  have nf: "\<not> fragmented (NewReader s StateClientSide)" "OpCode ?h = OpPing" "Fin ?h" "\<not> Masked ?h"
    using op by (simp_all add: fragmented_def NewReader_def h zero_header_def)
  have rn: "ReadHeader conn_read (src (NewReader s StateClientSide)) = Some (?h, None, s')" using r(1) by (simp add: NewReader_def)
  have "NextFrame conn_read ?cf (NewReader s StateClientSide, d) =
      load_frame ?cf ?h Raw ((NewReader s StateClientSide)\<lparr>src := s', rawN := sint (Length ?h)\<rparr>, d)"
    using NextFrame_accept [OF rn fe _ c(4) [folded c(2)], of d] c(1) nf by simp
  also have "\<exists>r. \<dots> = Some (?h, None, r, d) \<and> src r = s' \<and> RState r = StateClientSide"
    using nf op(3,4) c(3) by (simp add: load_frame_def Let_def fragmented_def) (simp add: NewReader_def Clear_unfragmented)
  finally have "\<exists>r. NextFrame conn_read ?cf (NewReader s StateClientSide, d) = Some (?h, None, r, d) \<and> src r = s' \<and> RState r = StateClientSide" .
  then show ?thesis using r op(2) nf(2) by (subst client_loop.simps) auto
qed

text \<open>A server can so make the client read a text message that was never sent as a frame.\<close>

theorem client_parses_ping_payload_witness:
  "\<forall>w. \<exists>r. client_loop conn_read fresh_pool counting (NewReader [REv (frame_bytes (NewPingFrame (frame_bytes (NewTextFrame [65])))) None]
        StateClientSide) \<lparr>sent = [], faults = [], rands = (\<lambda>_. 0)\<rparr> w 0 =
      client_loop conn_read fresh_pool counting r \<lparr>sent = [], faults = [], rands = (\<lambda>_. 0)\<rparr> w 0 \<and>
    conn_data (src r) = frame_bytes (NewTextFrame [65])"
proof -
  have "length (frame_bytes (NewTextFrame [65])) \<le> 125" by code_simp
  from client_parses_ping_payload [OF _ _ this, of "[REv (frame_bytes (NewPingFrame (frame_bytes (NewTextFrame [65])))) None]" "[]"]
  show ?thesis by fastforce
qed

end
