(* ===== verification/Sessions.thy ===== *)
theory Sessions
  imports Copying Serving
begin

text \<open>
  The sessions of the examples (example/server and example/client): the table of the server's sessions, a session that
  answers every message with the message after \<open>recv\<close>, and the client's session. Each operation on the table runs under its
  lock, so that it is one step. The lemmas follow a connection of the server from its first byte to its end: the loop of
  msutil/connecter.go over this application.
\<close>

section \<open>The server's sessions\<close>

text \<open>
  A session: its number. The writer, the context and the function that cancels it are those of its
  connection, which \<open>session_env\<close> keeps; the logger is left out.
\<close>

record Client =
  cl_id :: int64

record Sessions =
  maxid :: int64
  items :: "int64 \<rightharpoonup> Client"

definition NewTestSections :: Sessions where
  "NewTestSections = \<lparr>maxid = 0, items = Map.empty\<rparr>"

definition Sessions_Connect :: "Sessions \<Rightarrow> Client \<times> Sessions" where
  "Sessions_Connect s =
     (let s = s\<lparr>maxid := maxid s + 1\<rparr>;
          nid = maxid s;
          sec = \<lparr>cl_id = nid\<rparr>
      in (sec, s\<lparr>items := (items s)(nid \<mapsto> sec)\<rparr>))"

definition Client_GetId :: "Client \<Rightarrow> int64" where
  "Client_GetId c = cl_id c"

text \<open>A connection's view: the table, its session, and whether its context is cancelled.\<close>

record session_env =
  se_sessions :: Sessions
  se_section :: "Client option"
  se_cancelled :: bool

definition Client_Close :: "session_env \<Rightarrow> session_env" where
  "Client_Close a = a\<lparr>se_cancelled := True\<rparr>"

definition Sessions_Close :: "Client \<Rightarrow> session_env \<Rightarrow> session_env" where
  "Sessions_Close c a =
     (let id = Client_GetId c;
          s = se_sessions a
      in Client_Close (a\<lparr>se_sessions := s\<lparr>items := (items s)(id := None)\<rparr>\<rparr>))"

text \<open>
  \<open>ReadPump\<close> drops the error of \<open>io.ReadAll\<close>. Its answer is a \<open>strings.Reader\<close>, which writes itself to the writer of the
  session.
\<close>

definition Client_ReadPump ::
  "'s rd \<Rightarrow> (nat \<Rightarrow> nat) \<Rightarrow> (int \<Rightarrow> byte list option) \<Rightarrow> int64 \<Rightarrow> bool \<Rightarrow> 's Reader \<times> dest \<Rightarrow> Writer \<times> session_env \<Rightarrow>
     (err option \<times> ('s Reader \<times> dest) \<times> (Writer \<times> session_env)) option" where
  "Client_ReadPump rd room getlen len isText = (\<lambda>(r, d) (w, a). do {
     (b, e, r, d) \<leftarrow> io_ReadAll (reader_rd rd (data_conf rd getlen StateServerSide)) room (r, d);
     (e, s, w, d, cancelled) \<leftarrow> connect_write_handler (Some (bytes_WriteTo Writer_Write)) bytes_read
       (str_bytes ''recv '' @ b) isText (se_cancelled a) w d;
     Some (e, (r, d), (w, a\<lparr>se_cancelled := cancelled\<rparr>))
   })"

definition sessions_handler ::
  "'s rd \<Rightarrow> (nat \<Rightarrow> nat) \<Rightarrow> (int \<Rightarrow> byte list option) \<Rightarrow> ('s, session_env) SessionsHandler" where
  "sessions_handler rd room getlen =
     \<lparr>on_Connect = (\<lambda>d (w, a). let (c, s) = Sessions_Connect (se_sessions a)
                             in Some (None, d, w, a\<lparr>se_sessions := s, se_section := Some c, se_cancelled := False\<rparr>)),
      on_Close = (\<lambda>a. case se_section a of None \<Rightarrow> a | Some c \<Rightarrow> Sessions_Close c a),
      on_ReadPump = Client_ReadPump rd room getlen,
      on_Done = se_cancelled\<rparr>"

section \<open>The client's session\<close>

text \<open>
  A \<open>ClientSession\<close>: whether it has a writer, which \<open>Connect\<close> sets and \<open>Close\<close> clears together with the function that
  cancels, and whether that function was called. The writer is the one of its connection.
\<close>

record ClientSession =
  cs_connected :: bool
  cs_cancelled :: bool

definition ClientSession_cancel :: "ClientSession \<Rightarrow> ClientSession" where
  "ClientSession_cancel c = c\<lparr>cs_cancelled := True\<rparr>"

text \<open>A \<open>make\<close> of a length out of range and a call of a \<open>nil\<close> function panic (\<open>None\<close>).\<close>

definition ClientSession_ReadPump ::
  "'s rd \<Rightarrow> (int \<Rightarrow> byte list option) \<Rightarrow> int64 \<Rightarrow> bool \<Rightarrow> 's Reader \<times> dest \<Rightarrow> Writer \<times> ClientSession \<Rightarrow>
     (err option \<times> ('s Reader \<times> dest) \<times> (Writer \<times> ClientSession)) option" where
  "ClientSession_ReadPump rd getlen len isText = (\<lambda>(r, d) (w, c).
     do {
       payload \<leftarrow> make_bytes (sint len);
       (payload, e, r, d) \<leftarrow> io_ReadFull (reader_rd rd (data_conf rd getlen StateClientSide)) (length payload) (r, d);
       (case e of
          Some er \<Rightarrow> Some (Some er, (r, d), (w, c))
        | None \<Rightarrow>
            if isText \<and> payload = str_bytes ''recv cancel'' then
              (if cs_connected c then Some (None, (r, d), (w, ClientSession_cancel c)) else None)
            else Some (None, (r, d), (w, c)))
     })"

definition ClientSession_Send ::
  "byte list \<Rightarrow> ClientSession \<Rightarrow> Writer \<Rightarrow> dest \<Rightarrow> (err option \<times> Writer \<times> dest) option" where
  "ClientSession_Send txt c w d =
     (if cs_connected c then do {
        (e, s, w, d) \<leftarrow> write_handler (Some (bytes_WriteTo Writer_Write)) bytes_read StateClientSide txt True w d;
        Some (e, w, d)
      }
      else Some (None, w, d))"

definition ClientSession_Connect ::
  "ClientSession \<Rightarrow> Writer \<Rightarrow> dest \<Rightarrow> (err option \<times> ClientSession \<times> Writer \<times> dest) option" where
  "ClientSession_Connect c w d =
     (let c = c\<lparr>cs_connected := True, cs_cancelled := False\<rparr>
      in do {
        (e, w, d) \<leftarrow> ClientSession_Send (str_bytes ''Hello'') c w d;
        Some (e, (if e \<noteq> None then ClientSession_cancel c else c), w, d)
      })"

definition ClientSession_Close :: "ClientSession \<Rightarrow> ClientSession" where
  "ClientSession_Close c =
     (let c = (if cs_connected c then ClientSession_cancel c else c)
      in c\<lparr>cs_connected := False\<rparr>)"

definition client_session_handler :: "'s rd \<Rightarrow> (int \<Rightarrow> byte list option) \<Rightarrow> ('s, ClientSession) SessionsHandler" where
  "client_session_handler rd getlen =
     \<lparr>on_Connect = (\<lambda>d (w, c). do { (e, c, w, d) \<leftarrow> ClientSession_Connect c w d; Some (e, d, w, c) }),
      on_Close = ClientSession_Close,
      on_ReadPump = ClientSession_ReadPump rd getlen,
      on_Done = cs_cancelled\<rparr>"

section \<open>A connection of the server\<close>

text \<open>
  What a client sends: pings and pongs, and messages, each in any number of frames with pings and pongs between them. And
  what it gets: its pings answered where they come, and after each message the message with \<open>recv\<close> before its payload, in frames
  that make one whole message of the same kind.
\<close>

fun session_input :: "('s, dest) ReaderConf \<Rightarrow> frame list \<Rightarrow> bool" where
  "session_input cf [] = False"
| "session_input cf (f # fs) \<longleftrightarrow> message_ok cf quiet_ping StateServerSide (f # fs) \<and>
     (if IsControl (OpCode (Header f)) then quiet_ping (Header f)
      else (OpCode (Header f) = OpText \<longrightarrow> ValidString (plain f @ message_payload fs)) \<and>
        length (plain f @ message_payload fs) < 2 ^ 62)"

definition recv_reply :: "bool \<Rightarrow> byte list \<Rightarrow> dest \<Rightarrow> dest \<Rightarrow> bool" where
  "recv_reply isText p d d' \<longleftrightarrow> (\<exists>gs. whole StateServerSide (if isText then OpText else OpBinary) gs (str_bytes ''recv '' @ p) \<and>
     conn_out d' = conn_out d @ wire gs)"

fun session_output :: "frame list \<Rightarrow> dest \<Rightarrow> dest \<Rightarrow> bool" where
  "session_output [] d d' \<longleftrightarrow> False"
| "session_output (f # fs) d d' \<longleftrightarrow>
     (if IsControl (OpCode (Header f)) then pongs StateServerSide f d d'
      else \<exists>d1. answered (pongs StateServerSide) fs d d1 \<and>
        recv_reply (OpCode (Header f) = OpText) (plain f @ message_payload fs) d1 d')"

fun session_outputs :: "frame list list \<Rightarrow> dest \<Rightarrow> dest \<Rightarrow> bool" where
  "session_outputs [] d d' \<longleftrightarrow> d' = d"
| "session_outputs (u # us) d d' \<longleftrightarrow> (\<exists>d1. session_output u d d1 \<and> session_outputs us d1 d')"

context data_reader
begin

lemma NextFrame_ended:
  assumes "idle r []"
  shows "\<exists>r'. NextFrame rd conf (r, w) = Some (zero_header, Some (ending (src r)), r', w)"
proof -
  have i: "inv (src r)" "data (src r) = []" "\<not> fragmented r" using assms by (simp_all add: idle_def reader_inv_def)
  obtain s' where h: "ReadHeader rd (src r) = Some (zero_header, Some (ending (src r)), s')"
    using io_ReadFull_short [OF i(1), of 2] i(2) by (auto simp: ReadHeader_def)
  have "frame_error conf (r\<lparr>src := s'\<rparr>) zero_header (Some (ending (src r))) = Some (ending (src r))"
    using i(3) by (simp add: frame_error_def fragmented_def)
  then show ?thesis using h by (simp add: NextFrame_def Let_def)
qed

lemma session_serves:
  assumes stS: "st = StateServerSide" and room: "\<And>k. 0 < room k"
  shows "idle r (wire (concat us)) \<Longrightarrow> RState r = st \<Longrightarrow> \<forall>u \<in> set us. session_input conf u \<Longrightarrow> calm d \<Longrightarrow>
    reusable StateServerSide w \<Longrightarrow> \<not> se_cancelled a \<Longrightarrow>
    \<exists>r' d'. connecter_loop rd getlen (sessions_handler rd room getlen) r d w a = Some (FrameError (ending (src r)), r', d', a) \<and>
      session_outputs us d d'"
proof (induction us arbitrary: r d w)
  case Nil
  then have "idle r []" by simp
  from NextFrame_ended [OF this, of d] Nil stS show ?case
    by (subst connecter_loop.simps) (auto simp: sessions_handler_def)
next
  case (Cons u us)
  have nf: "\<not> Fragmented st" unfolding stS by code_simp
  obtain f fs where u: "u = f # fs" using Cons.prems(3) by (cases u) auto
  have m: "message_ok conf quiet_ping (RState r) (f # fs)" using Cons.prems(2,3) u stS by simp
  have us: "\<forall>u \<in> set us. session_input conf u" using Cons.prems(3) by simp
  let ?loop = "connecter_loop rd getlen (sessions_handler rd room getlen)"
  show ?case
  proof (cases "IsControl (OpCode (Header f))")
    case True
    have fs: "fs = []" and q: "quiet_ping (Header f)"
      using Cons.prems(3) u True small_control [of "Header f" StateServerSide] by (auto split: if_splits)
    have a': "idle r (frame_bytes f @ wire (concat us))" using Cons.prems(1) u fs by simp
    have m1: "message_ok conf quiet_ping st [f]" using m [unfolded Cons.prems(2) fs] .
    obtain r1 r2 d2 where h: "NextFrame rd conf (r, d) = Some (Header f, None, r1, d)"
        "ControlFrameHandler getlen (reader_src rd conf) st (Header f) ((r1, d), d) = Some (None, (r2, d), d2)"
        "calm d2" "pongs st f d d2" "idle r2 (wire (concat us))" "RState r2 = st" "ending (src r2) = ending (src r)"
      using control_message [OF a' Cons.prems(2) nf Cons.prems(4) m1 True q] by blast
    have "?loop r d w a = ?loop r2 d2 w a"
      using h(1,2) True Cons.prems(6) stS by (subst connecter_loop.simps) (simp add: sessions_handler_def)
    with Cons.IH [OF h(5,6) us h(3) Cons.prems(5,6)] h(4,7) u fs True stS show ?thesis by auto
  next
    case False
    let ?p = "plain f @ message_payload fs" and ?t = "OpCode (Header f) = OpText"
    have v: "?t \<longrightarrow> ValidString ?p" "length ?p < 2 ^ 62" using Cons.prems(3) u False by auto
    have a': "idle r (wire (f # fs) @ wire (concat us))" using Cons.prems(1) u by simp
    obtain r1 bs e r2 d2 where h: "NextFrame rd conf (r, d) = Some (Header f, None, r1, d)"
        "io_ReadAll (reader_rd rd conf) room (r1, d) = Some (bs, e, (r2, d2))"
        "bs = ?p \<and> e = None \<and> calm d2 \<and> answered (pongs st) fs d d2 \<and> at_rest r2 (wire (concat us)) \<and> RState r2 = RState r \<and>
           ending (src r2) = ending (src r)"
      using ReadAll_message [where room = room, OF a' m room Cons.prems(4)] v(1) by (auto split: if_splits)
    have "length (str_bytes ''recv '' @ ?p) < 2 ^ 63" "str_bytes ''recv '' @ ?p \<noteq> []" using v(2) by (simp_all add: str_bytes_def)
    from write_handler_sends [OF Cons.prems(5) _ this(2,1), of d2 ?t] h(3)
    obtain w' d' gs where wr: "write_handler (Some (bytes_WriteTo Writer_Write)) bytes_read StateServerSide (str_bytes ''recv '' @ ?p) ?t w d2 = Some (None, [], w', d')"
        "reusable StateServerSide w'" "faults d' = []" "recv_reply ?t ?p d2 d'"
      by (auto simp: calm_def recv_reply_def)
    have "Client_ReadPump rd room getlen (Length (Header f)) ?t (r1, d) (w, a) = Some (None, (r2, d'), (w', a))"
      using h(2,3) wr(1) stS Cons.prems(6) by (simp add: Client_ReadPump_def connect_write_handler_def)
    then have "?loop r d w a = ?loop r2 d' w' a"
      using h(1) False Cons.prems(6) stS by (subst connecter_loop.simps) (simp add: sessions_handler_def)
    moreover have "idle r2 (wire (concat us))" "RState r2 = st" "calm d'"
      using h(3) at_rest_idle Cons.prems(2) wr(3) by (auto simp: calm_def)
    ultimately show ?thesis using Cons.IH [OF _ _ us _ wr(2) Cons.prems(6), of r2 d'] h(3) wr(4) u False stS by auto
  qed
qed

lemma session_run:
  assumes stS: "st = StateServerSide" and room: "\<And>k. 0 < room k"
    and s: "inv s" "data s = wire (concat us)" and us: "\<forall>u \<in> set us. session_input conf u" and d: "calm d"
  shows "\<exists>s' d' a'. Connecter_Run rd getlen (sessions_handler rd room getlen) s d a = Some (FrameError (ending s), s', d', a') \<and>
    session_outputs us d d' \<and> se_cancelled a' \<and> maxid (se_sessions a') = maxid (se_sessions a) + 1 \<and>
    items (se_sessions a') = (items (se_sessions a))(maxid (se_sessions a) + 1 := None)"
proof -
  let ?c = "\<lparr>cl_id = maxid (se_sessions a) + 1\<rparr>"
  let ?a = "a\<lparr>se_sessions := snd (Sessions_Connect (se_sessions a)), se_section := Some ?c, se_cancelled := False\<rparr>"
  obtain w where w: "NewWriter d StateServerSide 0 = Some w" using NewWriter_server by blast
  have "\<not> Fragmented StateServerSide" by code_simp
  then have "at_rest (NewReader s st) (wire (concat us))"
    using s stS by (simp add: at_rest_def NewReader_def fragmented_def)
  then have i: "idle (NewReader s st) (wire (concat us))" by (rule at_rest_idle)
  have c: "RState (NewReader s st) = st" "src (NewReader s st) = s" "\<not> se_cancelled ?a" by (simp_all add: NewReader_def)
  obtain r' d' where "connecter_loop rd getlen (sessions_handler rd room getlen) (NewReader s st) d w ?a = Some (FrameError (ending s), r', d', ?a)"
      "session_outputs us d d'"
    using session_serves [where room = room, OF stS room i c(1) us d NewWriter_reusable [OF w] c(3)] unfolding c(2) by blast
  with w stS show ?thesis
    by (simp add: Connecter_Run_def) (simp add: sessions_handler_def Sessions_Connect_def Sessions_Close_def Client_Close_def Client_GetId_def Let_def)
qed

end

section \<open>Properties\<close>

text \<open>
  C22: a connection to the example's server, over the loop of msutil/connecter.go: whatever pings, pongs and messages (in any number of
  frames, with pings and pongs between them) a client sends, however the network cuts the bytes, each ping is answered where it
  comes, and each message with one whole message of the same kind that carries \<open>recv\<close> and its payload, in order and nothing else;
  when the client's side ends, so does the loop, the session's number is taken off the table again, and the
  rest of the table is as before.
\<close>

theorem sessions_answer:
  assumes "conn_sane s" and "conn_data s = wire (concat us)"
    and "\<forall>u \<in> set us. session_input (data_conf conn_read getlen StateServerSide) u"
    and "faults d = []" and "byte_pool getlen" and "\<And>k. 0 < room k"
  shows "\<exists>s' d' a'. Connecter_Run conn_read getlen (sessions_handler conn_read room getlen) s d a =
      Some (FrameError (conn_end s), s', d', a') \<and> session_outputs us d d' \<and> se_cancelled a' \<and>
    maxid (se_sessions a') = maxid (se_sessions a) + 1 \<and>
    items (se_sessions a') = (items (se_sessions a))(maxid (se_sessions a) + 1 := None)"
  by (rule data_reader.session_run [OF conn_data_reader [OF assms(5)] refl assms(6,1-3)]) (simp add: calm_def assms(4))

theorem sessions_answer_witness:
  "let d = \<lparr>sent = [], faults = [], rands = (\<lambda>_. 0)\<rparr>; hi = MaskFrameInPlaceWith (NewTextFrame [104, 105]) (1, 2, 3, 4)
   in \<exists>s' d' a'. Connecter_Run conn_read fresh_pool (sessions_handler conn_read Suc fresh_pool) [REv (frame_bytes hi) None] d
       \<lparr>se_sessions = NewTestSections, se_section = None, se_cancelled = False\<rparr> = Some (FrameError EOF, s', d', a') \<and>
     recv_reply True [104, 105] d d' \<and> items (se_sessions a') = Map.empty"
proof -
  let ?hi = "MaskFrameInPlaceWith (NewTextFrame [104, 105]) (1, 2, 3, 4)"
  have m: "message_ok (data_conf conn_read fresh_pool StateServerSide) quiet_ping StateServerSide [?hi]" by code_simp
  have o: "\<not> IsControl (OpCode (Header ?hi))" "OpCode (Header ?hi) = OpText" "plain ?hi = [104, 105]" "Fin (Header ?hi)" by code_simp+
  have i: "session_input (data_conf conn_read fresh_pool StateServerSide) [?hi]" using m o by simp
  show ?thesis
    using sessions_answer [where s = "[REv (frame_bytes ?hi) None]" and us = "[[?hi]]" and room = Suc and d = "\<lparr>sent = [], faults = [], rands = (\<lambda>_. 0)\<rparr>" and
        a = "\<lparr>se_sessions = NewTestSections, se_section = None, se_cancelled = False\<rparr>", OF _ _ _ _ fresh.byte_pool_axioms] i o
    by (simp add: NewTestSections_def Let_def) blast
qed

text \<open>
  The two examples together: the client's session greets with \<open>Hello\<close> when it is connected, and a server of the example that gets
  what the client wrote answers with the text message \<open>recv Hello\<close>, and with nothing else.
\<close>

theorem hello_answered:
  assumes "NewWriter dc StateClientSide 0 = Some w" and "faults dc = []"
    and "faults ds = []" and "byte_pool getlen" and "\<And>k. 0 < room k"
  shows "\<exists>c' w' dc'. ClientSession_Connect c w dc = Some (None, c', w', dc') \<and> cs_connected c' \<and>
    (\<forall>s. conn_sane s \<and> conn_out dc @ conn_data s = conn_out dc' \<longrightarrow>
      (\<exists>s' ds' a'. Connecter_Run conn_read getlen (sessions_handler conn_read room getlen) s ds a =
          Some (FrameError (conn_end s), s', ds', a') \<and> recv_reply True (str_bytes ''Hello'') ds ds'))"
proof -
  have h: "str_bytes ''Hello'' \<noteq> []" "length (str_bytes ''Hello'') < 2 ^ 62" "ValidString (str_bytes ''Hello'')"
    by (simp_all add: str_bytes_def)
  then have l: "length (str_bytes ''Hello'') < 2 ^ 63" by simp
  obtain w' dc' fs where w': "write_handler (Some (bytes_WriteTo Writer_Write)) bytes_read StateClientSide (str_bytes ''Hello'') True w dc = Some (None, [], w', dc')"
      "whole StateClientSide OpText fs (str_bytes ''Hello'')" "conn_out dc' = conn_out dc @ wire fs"
    using write_handler_sends [OF NewWriter_reusable [OF assms(1)] assms(2) h(1) l, of True] by auto
  let ?cf = "data_conf conn_read getlen StateServerSide :: (rd_event list, dest) ReaderConf"
  have p: "peers StateClientSide StateServerSide" "\<not> Fragmented StateServerSide" by (simp_all add: peers_def) code_simp+
  have mx: "sint (MaxFrameSize ?cf) \<le> 0" by (simp add: data_conf_def zero_conf_def)
  obtain f gs where f: "fs = f # gs" "message_ok ?cf quiet_ping StateServerSide fs" "plain f @ message_payload gs = str_bytes ''Hello''"
      "OpCode (Header f) = OpText"
    using whole_message [OF w'(2) disjI1 [OF refl] p mx, of quiet_ping] by blast
  have ctl: "\<not> IsControl OpText" by code_simp
  have in_: "session_input ?cf fs" using f ctl h by simp
  have "\<exists>s' ds' a'. Connecter_Run conn_read getlen (sessions_handler conn_read room getlen) s ds a = Some (FrameError (conn_end s), s', ds', a') \<and>
      recv_reply True (str_bytes ''Hello'') ds ds'" if "conn_sane s" "conn_out dc @ conn_data s = conn_out dc'" for s
  proof -
    have "conn_data s = wire (concat [fs])" using that(2) w'(3) by simp
    from data_reader.session_run [where room = room, OF conn_data_reader [OF assms(4)] refl assms(5) that(1) this, of ds a] in_ assms(3)
    obtain s' ds' a' where "Connecter_Run conn_read getlen (sessions_handler conn_read room getlen) s ds a = Some (FrameError (conn_end s), s', ds', a')"
        "session_outputs [fs] ds ds'" by (auto simp: calm_def)
    moreover have "answered (pongs StateServerSide) gs ds d1 \<longleftrightarrow> d1 = ds" for d1
      by (rule answered_data) (use whole_data [OF w'(2)] f(1) in auto)
    ultimately show ?thesis using f ctl by auto
  qed
  moreover have "ClientSession_Connect c w dc = Some (None, c\<lparr>cs_connected := True, cs_cancelled := False\<rparr>, w', dc')"
    using w'(1) by (simp add: ClientSession_Connect_def ClientSession_Send_def)
  ultimately show ?thesis
    by (intro exI [of _ "c\<lparr>cs_connected := True, cs_cancelled := False\<rparr>"] exI [of _ w'] exI [of _ dc']) simp
qed

theorem hello_answered_witness:
  "let d = \<lparr>sent = [], faults = [], rands = (\<lambda>_. 7)\<rparr>; a = \<lparr>se_sessions = NewTestSections, se_section = None, se_cancelled = False\<rparr>
   in \<exists>w c' w' dc' s' ds' a'. NewWriter d StateClientSide 0 = Some w \<and>
     ClientSession_Connect \<lparr>cs_connected = False, cs_cancelled = False\<rparr> w d = Some (None, c', w', dc') \<and>
     Connecter_Run conn_read fresh_pool (sessions_handler conn_read Suc fresh_pool) [REv (conn_out dc') None] d a =
       Some (FrameError EOF, s', ds', a') \<and> recv_reply True (str_bytes ''Hello'') d ds'"
proof -
  let ?d = "\<lparr>sent = [], faults = [], rands = (\<lambda>_. 7)\<rparr>" and ?a = "\<lparr>se_sessions = NewTestSections, se_section = None, se_cancelled = False\<rparr>"
  let ?c = "\<lparr>cs_connected = False, cs_cancelled = False\<rparr>"
  have "NewWriter ?d StateClientSide 0 \<noteq> None"
    by (simp add: NewWriter_def NewWriterBufferSize_def make_bytes_def maxAlloc_def NewWriterBuffer_def initBuf_def Let_def reserve_def
        MinHeaderSize_def DefaultWriteBuffer_def len7_def len16_def)
  then obtain w where w: "NewWriter ?d StateClientSide 0 = Some w" by blast
  obtain c' w' dc' where c: "ClientSession_Connect ?c w ?d = Some (None, c', w', dc')"
      "\<And>s. conn_sane s \<Longrightarrow> conn_out ?d @ conn_data s = conn_out dc' \<Longrightarrow>
        \<exists>s' ds' a'. Connecter_Run conn_read fresh_pool (sessions_handler conn_read Suc fresh_pool) s ?d ?a =
          Some (FrameError (conn_end s), s', ds', a') \<and> recv_reply True (str_bytes ''Hello'') ?d ds'"
    using hello_answered [where room = Suc and ds = ?d and a = ?a and c = ?c, OF w _ _ fresh.byte_pool_axioms] by auto
  from c(2) [of "[REv (conn_out dc') None]"] have
      "\<exists>s' ds' a'. Connecter_Run conn_read fresh_pool (sessions_handler conn_read Suc fresh_pool) [REv (conn_out dc') None] ?d ?a =
        Some (FrameError EOF, s', ds', a') \<and> recv_reply True (str_bytes ''Hello'') ?d ds'" by (simp add: conn_out_def)
  with w c(1) show ?thesis unfolding Let_def by blast
qed

end
