(* ===== verification/Relay.thy ===== *)
theory Relay
  imports Writing Sessions
begin

text \<open>
  The echo server of example/autobahn that copies a \<open>Reader\<close> to a \<open>Writer\<close>. Both work on one connection: the control frames that the
  reader meets between fragments are answered on the connection that the writer sends its frames to.
\<close>

section \<open>Copying a reader that writes to the same connection\<close>

text \<open>
  The loop of \<open>ReadFrom\<close> over a reader of which the reads may write to the writer's own destination: a read is given
  the connection and gives it back.
\<close>

partial_function (option) relay_loop ::
  "('r \<times> dest) rd \<Rightarrow> nat \<Rightarrow> 'r \<Rightarrow> Writer \<Rightarrow> (nat \<times> err option \<times> bool \<times> 'r \<times> Writer) option" where
  "relay_loop rd n r w =
     (if Available w = 0 then
        (if noFlush w then Option.bind (Grow (Buffered w) w) (relay_loop rd n r)
         else Option.bind (FlushFragment w) (\<lambda>(e, w).
           case e of Some er \<Rightarrow> Some (n, Some er, False, r, w) | None \<Rightarrow> relay_loop rd n r w))
      else
        Option.bind (read_try rd (Available w) maxEmptyReads (r, wdest w)) (\<lambda>(bs, e, (r, d), stuck).
          let w = w\<lparr>wdest := d\<rparr> in
          if stuck then Some (n, Some ErrNoProgress, True, r, w)
          else
            (let w = fill bs w; n = n + length bs in
             case e of
               None \<Rightarrow> relay_loop rd n r w
             | Some er \<Rightarrow> Some (n, Some er, False, r, w))))"

definition relay :: "('r \<times> dest) rd \<Rightarrow> 'r \<Rightarrow> Writer \<Rightarrow> (nat \<times> err option \<times> 'r \<times> Writer) option" where
  "relay rd r w = do {
     (n, e, stuck, r, w) \<leftarrow> relay_loop rd 0 r w;
     (if \<not> stuck \<and> e = Some EOF then Some (n, None, r, w\<lparr>dirty := True\<rparr>) else Some (n, e, r, w))
   }"

section \<open>The server\<close>

text \<open>
  A turn: a control frame between messages goes to the handler, a message is copied and flushed. The destination of
  the writer is the connection. A control frame between messages is read without callbacks, so that the write side of the handler is the
  connection's. (After an \<open>io.EOF\<close> of a callback inside of a message, which the copy takes for the end of the message, the reader is
  still in it; its source has ended then, and the next frame ends the loop.)
\<close>

partial_function (option) wsutil_loop ::
  "'s rd \<Rightarrow> (int \<Rightarrow> byte list option) \<Rightarrow> 's Reader \<Rightarrow> Writer \<Rightarrow> (err \<times> 's Reader \<times> Writer) option" where
  "wsutil_loop rd getlen r w =
     Option.bind (NextFrame rd (data_conf rd getlen StateServerSide) (r, wdest w)) (\<lambda>(h, e, r, d).
       let w = w\<lparr>wdest := d\<rparr> in
       case e of
         Some er \<Rightarrow> Some (er, r, w)
       | None \<Rightarrow>
           if IsControl (OpCode h) then
             Option.bind (ControlFrameHandler getlen (reader_src rd (data_conf rd getlen StateServerSide)) StateServerSide h ((r, d), d))
               (\<lambda>(e, (r, d'), d).
                 let w = w\<lparr>wdest := d\<rparr> in
                 case e of Some er \<Rightarrow> Some (er, r, w) | None \<Rightarrow> wsutil_loop rd getlen r w)
           else
             Option.bind (Writer_Reset w d StateServerSide (OpCode h)) (\<lambda>w.
             Option.bind (relay (reader_rd rd (data_conf rd getlen StateServerSide)) r w) (\<lambda>(n, e, r, w).
             Option.bind (if e = None then Flush w else Some (e, w)) (\<lambda>(e, w).
               case e of Some er \<Rightarrow> Some (er, r, w) | None \<Rightarrow> wsutil_loop rd getlen r w))))"

declare relay_loop.simps [code] wsutil_loop.simps [code]

definition wsutilHandler ::
  "'s rd \<Rightarrow> (int \<Rightarrow> byte list option) \<Rightarrow> 's \<Rightarrow> dest \<Rightarrow> (err \<times> 's Reader \<times> Writer) option" where
  "wsutilHandler rd getlen s d = do {
     w \<leftarrow> NewWriter d StateServerSide 0;
     wsutil_loop rd getlen (NewReader s StateServerSide) w
   }"

context io_reader
begin

lemma read_try_length: "inv s \<Longrightarrow> read_try rd k i s = Some (bs, e, s', b) \<Longrightarrow> length bs \<le> k"
proof (induction i arbitrary: s)
  case (Suc i)
  obtain cs e1 s1 where r: "rd k s = Some (cs, e1, s1)" using rd_returns [OF Suc.prems(1)] by blast
  with Suc.IH [OF rd_inv [OF Suc.prems(1) r]] Suc.prems(2) rd_length [OF Suc.prems(1) r] show ?case by (auto split: if_splits)
qed simp

lemma read_try_progress:
  "inv s \<Longrightarrow> read_try rd k i s = Some (bs, e, s', b) \<Longrightarrow> bs \<noteq> [] \<Longrightarrow> 0 < k \<Longrightarrow> fin s' < fin s"
proof (induction i arbitrary: s)
  case (Suc i)
  obtain cs e1 s1 where r: "rd k s = Some (cs, e1, s1)" using rd_returns [OF Suc.prems(1)] by blast
  with Suc.IH [OF rd_inv [OF Suc.prems(1) r]] Suc.prems(2-4) rd_progress [OF Suc.prems(1,4) r] rd_fin [OF Suc.prems(1) r]
  show ?case by (auto split: if_splits)
qed simp

end

section \<open>A source that always brings bytes\<close>

locale flowing_reader = data_reader rd inv fin data ending getlen st
  for rd :: "'s rd" and inv and fin and data and ending and getlen and st +
  assumes rd_flows: "inv s \<Longrightarrow> 0 < n \<Longrightarrow> rd n s = Some (bs, None, s') \<Longrightarrow> bs \<noteq> []"

context flowing_reader
begin

text \<open>
  A read without bytes is about a frame: it ends one, or it handles one between the fragments. \<open>pending\<close> counts what there is for
  such reads.
\<close>

definition pending :: "'s Reader \<Rightarrow> frame list \<Rightarrow> nat" where
  "pending r fs = length fs + (if rframe r = None then 0 else 1)"

lemma loaded_empty:
  assumes l: "in_frame r fs rest pl" and ri: "reader_inv inv r" and k: "0 < k"
    and rl: "read_loaded rd conf k (r, w) = Some (n, [], None, r', w')"
  shows "rframe r' = None"
proof -
  obtain m where m: "rawN r = int m" "m \<le> length (data (src r))" using l by (auto simp: in_frame_def)
  have i: "inv (src r)" using ri by (simp add: reader_inv_def)
  have ne: "rframe r \<noteq> None" using l by (auto simp: in_frame_def loaded_base_def split: option.splits)
  show ?thesis
  proof (rule frame_Read_cases [OF ri ne, of k])
    fix b bs e b' N' s' n e' r1
    assume b: "base_read rd k (b, rawN r, src r) = Some (bs, e, (b', N', s'))" and f: "frame_Read rd k r = Some (n, bs, e', r1)"
      and N: "rawN r1 = N'"
    have bs: "bs = []" using rl f by (auto simp: read_loaded_def split: if_splits)
    obtain raw where raw: "limited_read rd k (rawN r, src r) = Some (raw, e, (N', s'))" "length bs = length raw"
      using b by (rule base_readE) auto
    have "m = 0"
    proof (rule ccontr)
      assume "m \<noteq> 0"
      then have "rd (min k m) (src r) = Some (raw, e, s')" using raw(1) m(1) by (auto elim!: limited_readE)
      moreover have p: "0 < min k m" "data (src r) \<noteq> []" using k \<open>m \<noteq> 0\<close> m(2) by auto
      ultimately show False using rd_flows [OF i p(1)] rd_end [OF i] raw(2) bs by (cases e) auto
    qed
    then have "rawN r1 = 0" using raw(1) m(1) N by (auto elim!: limited_readE)
    then show ?thesis using rl f by (auto simp: read_loaded_def resetFragment_def split: if_splits)
  qed
qed

text \<open>The reader in a valid message, a step of it, and its end.\<close>

definition flowing :: "byte list \<Rightarrow> 's Reader \<Rightarrow> dest \<Rightarrow> frame list \<Rightarrow> byte list \<Rightarrow> bool" where
  "flowing rest r w fs pl \<longleftrightarrow> delivering r fs rest pl \<and> calm w \<and> (checks r \<longrightarrow> utf8_run (state (utf8 r)) pl = 0)"

definition moved :: "'s Reader \<Rightarrow> dest \<Rightarrow> frame list \<Rightarrow> 's Reader \<Rightarrow> dest \<Rightarrow> frame list \<Rightarrow> bool" where
  "moved r w fs r' w' fs' \<longleftrightarrow> (\<exists>gs. fs = gs @ fs' \<and> answered (pongs st) gs w w') \<and>
     Clear (RState r') StateFragmented = Clear (RState r) StateFragmented \<and> ending (src r') = ending (src r)"

definition finished :: "byte list \<Rightarrow> 's Reader \<Rightarrow> dest \<Rightarrow> frame list \<Rightarrow> 's Reader \<Rightarrow> dest \<Rightarrow> bool" where
  "finished rest r w fs r' w' \<longleftrightarrow> calm w' \<and> answered (pongs st) fs w w' \<and> at_rest r' rest \<and>
     RState r' = Clear (RState r) StateFragmented \<and> ending (src r') = ending (src r)"

lemma moved_trans: "moved r w fs r1 w1 fs1 \<Longrightarrow> moved r1 w1 fs1 r2 w2 fs2 \<Longrightarrow> moved r w fs r2 w2 fs2"
  unfolding moved_def by (metis append_assoc answered_append)

lemma moved_finished: "moved r w fs r1 w1 fs1 \<Longrightarrow> finished rest r1 w1 fs1 r2 w2 \<Longrightarrow> finished rest r w fs r2 w2"
  unfolding moved_def finished_def by (metis answered_append)

lemma Read_flow:
  assumes f: "flowing rest r w fs pl" and k: "0 < k"
  obtains (More) bs r' w' fs' pl' where "reader_rd rd conf k (r, w) = Some (bs, None, (r', w'))" "pl = bs @ pl'"
      "flowing rest r' w' fs' pl'" "moved r w fs r' w' fs'" "bs = [] \<longrightarrow> pending r' fs' < pending r fs"
    | (End) r' w' where "reader_rd rd conf k (r, w) = Some (pl, Some EOF, (r', w'))" "finished rest r w fs r' w'"
proof -
  have d: "delivering r fs rest pl" "calm w" "checks r \<longrightarrow> utf8_run (state (utf8 r)) pl = 0" using f by (simp_all add: flowing_def)
  have ri: "reader_inv inv r" using d(1) by (simp add: delivering_def)
  obtain n bs e r' w' where st: "Reader_Read rd conf k (r, w) = Some (n, bs, e, r', w')" "read_result r w fs rest pl (n, bs, e, r', w')"
    using Read_step [OF d(1,2), of k] by (auto simp: split_paired_all)
  have rd': "reader_rd rd conf k (r, w) = Some (take n bs, e, (r', w'))" using st(1) by (simp add: reader_rd_def)
  show thesis
  proof (cases e)
    case (Some er)
    then have "er = EOF" "n = length bs" "pl = bs" "finished rest r w fs r' w'"
      using st(2) d(3) by (auto simp: read_result_def finished_def)
    with rd' Some End show thesis by simp
  next
    case None
    then obtain gs fs' pl' where g: "n = length bs" "same_message r r' bs" "calm w'" "fs = gs @ fs'" "answered (pongs st) gs w w'"
        "pl = bs @ pl'" "delivering r' fs' rest pl'"
      using st(2) by (auto simp: read_result_def)
    have fl: "flowing rest r' w' fs' pl'"
      using g d(3) same_message_checks [OF g(2)] by (auto simp: flowing_def same_message_def)
    have mv: "moved r w fs r' w' fs'" using g by (auto simp: moved_def same_message_def)
    show thesis
    proof (cases "bs = []")
      case False
      with More rd' None g(1,6) fl mv show thesis by simp
    next
      case bs: True
      show thesis
      proof (cases "rframe r = None")
        case False
        then have l: "in_frame r fs rest pl" using d(1) by (auto simp: delivering_def between_def)
        have "read_loaded rd conf k (r, w) = Some (n, [], None, r', w')" using st(1) False None bs by (simp add: Reader_Read_def)
        from loaded_empty [OF l ri k this] False g(4) have "pending r' fs' < pending r fs" by (auto simp: pending_def)
        with More rd' None g(1,6) fl mv bs show thesis by simp
      next
        case True
        then have "between r fs rest pl" using d(1) by (auto simp: delivering_def in_frame_def loaded_base_def)
        then obtain c cs where fs: "fs = c # cs" by (cases fs) (auto simp: between_def)
        show thesis
        proof (cases "IsControl (OpCode (Header c))")
          case ctl: True
          obtain r2 w2 where c: "Reader_Read rd conf k (r, w) = Some (0, [], None, r2, w2)" "delivering r2 cs rest pl" "rframe r2 = None"
              "same_message r r2 []" "calm w2" "pongs st c w w2"
            using Read_control [OF d(1) [unfolded fs] True ctl d(2), of k] by blast
          have "flowing rest r2 w2 cs pl" using c(2,4,5) d(3) same_message_checks [OF c(4)] by (auto simp: flowing_def same_message_def)
          moreover have "moved r w fs r2 w2 cs" using c(4,6) ctl fs unfolding moved_def same_message_def
            by (intro conjI exI [of _ "[c]"]) auto
          moreover have "pending r2 cs < pending r fs" using c(3) True fs by (simp add: pending_def)
          moreover have "reader_rd rd conf k (r, w) = Some ([], None, (r2, w2))" using c(1) by (simp add: reader_rd_def)
          ultimately show thesis using More [of "[]" r2 w2 pl cs] by simp
        next
          case dat: False
          obtain r2 where c: "Reader_Read rd conf k (r, w) = read_loaded rd conf k (r2, w)" "delivering r2 cs rest pl" "in_frame r2 cs rest pl"
              "opCode r2 = opCode r" "state (utf8 r2) = state (utf8 r)" "Clear (RState r2) StateFragmented = Clear (RState r) StateFragmented"
              "ending (src r2) = ending (src r)"
            using Read_data [OF d(1) [unfolded fs] True dat, of w] by blast
          have rl: "read_loaded rd conf k (r2, w) = Some (n, [], None, r', w')" using st(1) c(1) None bs by simp
          have "reader_inv inv r2" using c(2) by (simp add: delivering_def)
          from loaded_empty [OF c(3) this k rl] have nr: "rframe r' = None" .
          obtain out where "read_loaded rd conf k (r2, w) = Some out" "read_result r2 w cs rest pl out"
            using read_loaded_step [OF c(2,3) d(2)] by blast
          then obtain hs cs' where h: "same_message r2 r' []" "cs = hs @ cs'" "answered (pongs st) hs w w'" "delivering r' cs' rest pl"
            using rl by (auto simp: read_result_def)
          have "moved r w fs r' w' cs'"
            using h(1-3) c(6,7) dat fs by (auto simp: moved_def same_message_def intro!: exI [of _ "c # hs"])
          moreover have "flowing rest r' w' cs' pl"
            using h(1,4) g(3) d(3) c(4,5) same_message_checks [OF h(1)] by (auto simp: flowing_def same_message_def checks_def)
          moreover have "pending r' cs' < pending r fs" using nr True h(2) fs by (simp add: pending_def)
          ultimately show thesis using More [of "[]" r' w' pl cs'] rd' None bs by simp
        qed
      qed
    qed
  qed
qed

definition tried :: "byte list \<Rightarrow> 's Reader \<Rightarrow> dest \<Rightarrow> frame list \<Rightarrow> byte list \<Rightarrow> (byte list \<times> err option \<times> ('s Reader \<times> dest) \<times> bool) option \<Rightarrow> bool" where
  "tried rest r w fs pl t \<longleftrightarrow>
    (\<exists>bs r' w' fs' pl'. t = Some (bs, None, (r', w'), False) \<and> bs \<noteq> [] \<and> pl = bs @ pl' \<and> flowing rest r' w' fs' pl' \<and> moved r w fs r' w' fs') \<or>
    (\<exists>r' w'. t = Some (pl, Some EOF, (r', w'), False) \<and> finished rest r w fs r' w')"

lemma tried_later:
  assumes "moved r w fs r1 w1 fs1" and "tried rest r1 w1 fs1 pl t"
  shows "tried rest r w fs pl t"
  using assms(2) moved_trans [OF assms(1)] moved_finished [OF assms(1)] unfolding tried_def by metis

lemma read_try_flow:
  "flowing rest r w fs pl \<Longrightarrow> 0 < k \<Longrightarrow> pending r fs < i \<Longrightarrow> tried rest r w fs pl (read_try (reader_rd rd conf) k i (r, w))"
proof (induction i arbitrary: r w fs)
  case 0
  then show ?case by simp
next
  case (Suc i)
  from Suc.prems(1,2) show ?case
  proof (cases rule: Read_flow)
    case (End r' w')
    then show ?thesis by (simp add: tried_def)
  next
    case (More bs r' w' fs' pl')
    show ?thesis
    proof (cases "bs = []")
      case False
      with More have "read_try (reader_rd rd conf) k (Suc i) (r, w) = Some (bs, None, (r', w'), False)" by simp
      with More False show ?thesis unfolding tried_def by blast
    next
      case True
      have "pending r' fs' < i" using More(5) True Suc.prems(3) by simp
      moreover have "flowing rest r' w' fs' pl" using More(2,3) True by simp
      ultimately have "tried rest r' w' fs' pl (read_try (reader_rd rd conf) k i (r', w'))" using Suc.IH Suc.prems(2) by blast
      from tried_later [OF More(4) this] More(1) True show ?thesis by simp
    qed
  qed
qed

end

section \<open>The frames that are sent\<close>

text \<open>
  What goes out is one list of frames. Its data frames are the fragments of the message, its control frames the answers to the pings.
\<close>

definition data_frames :: "frame list \<Rightarrow> frame list" where
  "data_frames fs = filter (\<lambda>f. \<not> IsControl (OpCode (Header f))) fs"

definition control_frames :: "frame list \<Rightarrow> frame list" where
  "control_frames fs = filter (\<lambda>f. IsControl (OpCode (Header f))) fs"

definition pong_frames :: "byte \<Rightarrow> frame list \<Rightarrow> frame list" where
  "pong_frames st fs = map (\<lambda>f. out_frame st OpPong True zeroMask (plain f)) (filter (\<lambda>f. OpCode (Header f) = OpPing) fs)"

lemma frames_append [simp]: "data_frames (fs @ gs) = data_frames fs @ data_frames gs"
  "control_frames (fs @ gs) = control_frames fs @ control_frames gs" "pong_frames st (fs @ gs) = pong_frames st fs @ pong_frames st gs"
  by (simp_all add: data_frames_def control_frames_def pong_frames_def)

lemma op_control: "IsControl OpPong" "IsControl OpPing" "\<not> IsControl OpContinuation" "\<not> IsControl OpText" "\<not> IsControl OpBinary"
  by code_simp+

lemma frames_pongs [simp]: "data_frames (pong_frames st fs) = []" "control_frames (pong_frames st fs) = pong_frames st fs"
  by (simp_all add: data_frames_def control_frames_def pong_frames_def filter_empty_conv op_control)

lemma answered_pongs:
  assumes "\<not> ClientSide st"
  shows "answered (pongs st) fs d d' \<Longrightarrow> conn_out d' = conn_out d @ wire (pong_frames st fs)"
proof (induction fs arbitrary: d)
  case Nil
  then show ?case by (simp add: pong_frames_def)
next
  case (Cons f fs)
  have m: "out_frame st OpPong True m p = out_frame st OpPong True zeroMask p" for m p using assms by (simp add: out_frame_def)
  show ?case
  proof (cases "IsControl (OpCode (Header f))")
    case True
    then obtain d1 where d1: "pongs st f d d1" "answered (pongs st) fs d1 d'" using Cons.prems by auto
    have "conn_out d1 = conn_out d @ wire (pong_frames st [f])"
    proof (cases "OpCode (Header f) = OpPing")
      case True
      then obtain m where "conn_out d1 = conn_out d @ frame_bytes (out_frame st OpPong True m (plain f))"
        using d1(1) by (auto simp: pongs_def)
      with True m [of m] show ?thesis by (simp add: pong_frames_def)
    next
      case False
      with d1(1) show ?thesis by (simp add: pongs_def pong_frames_def)
    qed
    with Cons.IH [OF d1(2)] show ?thesis by (simp add: pong_frames_def)
  next
    case False
    then show ?thesis using Cons.IH [of d] Cons.prems op_control by (auto simp: pong_frames_def)
  qed
qed

text \<open>
  The writer while it relays: since the connection had \<open>out0\<close>, it has taken \<open>q\<close> of the message, and the answers \<open>ps\<close>
  went out between its fragments.
\<close>

definition relaying :: "byte \<Rightarrow> byte \<Rightarrow> byte list \<Rightarrow> frame list \<Rightarrow> byte list \<Rightarrow> Writer \<Rightarrow> bool" where
  "relaying st op out0 ps q w \<longleftrightarrow> wok w \<and> extensions w = [] \<and> werr w = None \<and> \<not> noFlush w \<and> wstate w = st \<and> wop w = op \<and>
     \<not> IsControl op \<and> calm (wdest w) \<and>
     (\<exists>gs. frags st op (data_frames gs) \<and> fseq w = length (data_frames gs) \<and> control_frames gs = ps \<and>
        conn_out (wdest w) = out0 @ wire gs \<and> q = concat (map plain (data_frames gs)) @ buffered_data w)"

lemma relaying_answered:
  assumes "relaying st op out0 ps q w" and "conn_out d = conn_out (wdest w) @ wire (pong_frames st cs)" and "calm d"
  shows "relaying st op out0 (ps @ pong_frames st cs) q (w\<lparr>wdest := d\<rparr>)"
proof -
  obtain gs where gs: "frags st op (data_frames gs)" "fseq w = length (data_frames gs)" "control_frames gs = ps"
      "conn_out (wdest w) = out0 @ wire gs" "q = concat (map plain (data_frames gs)) @ buffered_data w"
    using assms(1) by (auto simp: relaying_def)
  have "wok (w\<lparr>wdest := d\<rparr>)" "buffered_data (w\<lparr>wdest := d\<rparr>) = buffered_data w"
    using assms(1) by (simp_all add: relaying_def wok_def Size_def buffered_data_def)
  with assms gs show ?thesis unfolding relaying_def by (intro conjI exI [of _ "gs @ pong_frames st cs"]) simp_all
qed

lemma relaying_fill:
  assumes "relaying st op out0 ps q w"
  shows "relaying st op out0 ps (q @ take (Available w) p) (fill p w)"
proof -
  have w: "wok w" using assms by (simp add: relaying_def)
  have "extensions (fill p w) = extensions w" "werr (fill p w) = werr w" "noFlush (fill p w) = noFlush w" "wstate (fill p w) = wstate w"
    "wop (fill p w) = wop w" "wdest (fill p w) = wdest w" "fseq (fill p w) = fseq w" by (simp_all add: fill_def)
  with assms fill_ok(1,2) [OF w, of p] show ?thesis by (auto simp: relaying_def)
qed

text \<open>The frame that a flush sends.\<close>

lemma relaying_fragment:
  assumes r: "relaying st op out0 ps q w"
  shows "\<exists>d raw' gs. flushFragment fn w = Some (None, w\<lparr>wdest := d, raw := raw'\<rparr>) \<and> length raw' = length (raw w) \<and> calm d \<and>
    conn_out d = out0 @ wire gs \<and> control_frames gs = ps \<and>
    (\<exists>hs m. data_frames gs = hs @ [out_frame st (if hs = [] then op else OpContinuation) fn m (buffered_data w)] \<and>
       frags st op hs \<and> fseq w = length hs \<and> q = concat (map plain hs) @ buffered_data w)"
proof -
  obtain gs where gs: "frags st op (data_frames gs)" "fseq w = length (data_frames gs)" "control_frames gs = ps"
      "conn_out (wdest w) = out0 @ wire gs" "q = concat (map plain (data_frames gs)) @ buffered_data w"
      and w: "wok w" "extensions w = []" "wstate w = st" "wop w = op" "\<not> IsControl op" "calm (wdest w)"
    using r by (auto simp: relaying_def)
  obtain e w' m k where f: "flushFragment fn w = Some (e, w')" "length (raw w') = length (raw w)"
      "e = None \<longrightarrow> conn_out (wdest w') = conn_out (wdest w) @
        frame_bytes (out_frame (wstate w) (opCode_of w) fn m (buffered_data w))"
      "w' = w\<lparr>wdest := wdest w', raw := raw w'\<rparr>"
      "faults (wdest w) = [] \<longrightarrow> e = None \<and> faults (wdest w') = []"
    using flushFragment_sends [OF w(1,2), of fn] by blast
  have e: "e = None" "calm (wdest w')" using f(5) w(6) by (simp_all add: calm_def)
  have op: "opCode_of w = (if data_frames gs = [] then op else OpContinuation)" using gs(2) w(4) by (simp add: opCode_of_def)
  let ?f = "out_frame st (if data_frames gs = [] then op else OpContinuation) fn m (buffered_data w)"
  have "\<not> IsControl (OpCode (Header ?f))" using w(5) op_control by simp
  then have gs': "control_frames (gs @ [?f]) = ps" "data_frames (gs @ [?f]) = data_frames gs @ [?f]"
    using gs(3) by (simp_all add: control_frames_def data_frames_def del: frames_append)
  have ff: "flushFragment fn w = Some (None, w\<lparr>wdest := wdest w', raw := raw w'\<rparr>)" using f(1,4) e(1) by metis
  have out: "conn_out (wdest w') = out0 @ wire (gs @ [?f])" using f(3) e(1) gs(4) w(3) op by simp
  have "\<exists>hs m. data_frames (gs @ [?f]) = hs @ [out_frame st (if hs = [] then op else OpContinuation) fn m (buffered_data w)] \<and>
      frags st op hs \<and> fseq w = length hs \<and> q = concat (map plain hs) @ buffered_data w"
    unfolding gs'(2) using gs(1,2,5) by blast
  with ff f(2) e(2) out gs'(1) show ?thesis by blast
qed

lemma relaying_FlushFragment:
  assumes r: "relaying st op out0 ps q w" and b: "Buffered w \<noteq> 0"
  shows "\<exists>w'. FlushFragment w = Some (None, w') \<and> relaying st op out0 ps q w' \<and> Available w' \<noteq> 0"
proof -
  have w: "wok w" "werr w = None" using r by (simp_all add: relaying_def)
  obtain d raw' gs hs m where f: "flushFragment False w = Some (None, w\<lparr>wdest := d, raw := raw'\<rparr>)" "length raw' = length (raw w)" "calm d"
      "conn_out d = out0 @ wire gs" "control_frames gs = ps"
      and h: "data_frames gs = hs @ [out_frame st (if hs = [] then op else OpContinuation) False m (buffered_data w)]" "frags st op hs"
        "fseq w = length hs" "q = concat (map plain hs) @ buffered_data w"
    using relaying_fragment [OF r, of False] by blast
  let ?w = "w\<lparr>wdest := d, raw := raw', werr := None, wn := 0, fseq := fseq w + 1\<rparr>"
  have ok: "wok ?w" using wok_cong [OF w(1), of ?w] f(2) by simp
  have lb: "length (buffered_data w) < 2 ^ 63" using wok_length [OF w(1)] by simp
  have "frags st op (data_frames gs)" unfolding h(1) frags_snoc using h(2) is_frag_out [OF lb] by simp
  moreover have "q = concat (map plain (data_frames gs)) @ buffered_data ?w" using h(1,4) by (simp add: out_frame_plain buffered_data_def)
  ultimately have "relaying st op out0 ps q ?w" using r f(3-5) h(1,3) ok
    unfolding relaying_def by (intro conjI exI [of _ gs]) simp_all
  moreover have "FlushFragment w = Some (None, ?w)" using f(1) b w(2) by (simp add: FlushFragment_def)
  moreover have "Available ?w \<noteq> 0" using ok by (simp add: wok_def Available_def Size_def)
  ultimately show ?thesis by blast
qed

lemma relaying_Flush:
  assumes r: "relaying st op out0 ps q w" and d: "dirty w"
  shows "\<exists>w' gs. Flush w = Some (None, w') \<and> reusable st w' \<and> calm (wdest w') \<and> conn_out (wdest w') = out0 @ wire gs \<and>
    whole st op (data_frames gs) q \<and> control_frames gs = ps"
proof -
  have w: "wok w" "werr w = None" "wstate w = st" using r by (simp_all add: relaying_def)
  obtain d' raw' gs hs m where f: "flushFragment True w = Some (None, w\<lparr>wdest := d', raw := raw'\<rparr>)" "length raw' = length (raw w)" "calm d'"
      "conn_out d' = out0 @ wire gs" "control_frames gs = ps"
      and h: "data_frames gs = hs @ [out_frame st (if hs = [] then op else OpContinuation) True m (buffered_data w)]" "frags st op hs"
        "q = concat (map plain hs) @ buffered_data w"
    using relaying_fragment [OF r, of True] by blast
  let ?w = "w\<lparr>wdest := d', raw := raw', werr := None, wn := 0, dirty := False, fseq := 0\<rparr>"
  have "wok ?w" using wok_cong [OF w(1), of ?w] f(2) by simp
  moreover have "whole st op (data_frames gs) q" unfolding whole_def using h wok_length [OF w(1)]
    by (intro exI [of _ hs] exI [of _ m] exI [of _ "buffered_data w"]) simp
  moreover have "Flush w = Some (None, ?w)" using f(1) d w(2) by (simp add: Flush_def)
  ultimately show ?thesis using f(3-5) w(3) by (intro exI [of _ ?w] exI [of _ gs]) (simp add: reusable_def)
qed

section \<open>The echo comes back\<close>

text \<open>
  What a client gets for what it sends: a pong for a ping between messages; and for a message a message with the same payload, with the pongs for the
  pings inside of it between its frames.
\<close>

fun echoed :: "frame list \<Rightarrow> frame list \<Rightarrow> bool" where
  "echoed [] gs \<longleftrightarrow> False"
| "echoed (f # fs) gs \<longleftrightarrow> control_frames gs = pong_frames StateServerSide (f # fs) \<and>
     (if IsControl (OpCode (Header f)) then data_frames gs = []
      else whole StateServerSide (OpCode (Header f)) (data_frames gs) (plain f @ message_payload fs))"

context flowing_reader
begin

lemma relay_loop_copies:
  assumes srv: "\<not> ClientSide st"
  shows "flowing rest r (wdest w) fs pl \<Longrightarrow> length fs + 1 < maxEmptyReads \<Longrightarrow> relaying st op out0 ps q w \<Longrightarrow>
    \<exists>r' w'. relay_loop (reader_rd rd conf) n r w = Some (n + length pl, Some EOF, False, r', w') \<and>
      relaying st op out0 (ps @ pong_frames st fs) (q @ pl) w' \<and> at_rest r' rest \<and>
      RState r' = Clear (RState r) StateFragmented \<and> ending (src r') = ending (src r)"
proof (induction "reader_fin fin r" arbitrary: n r w fs pl ps q rule: less_induct)
  case less
  have go: "\<exists>r' w'. relay_loop (reader_rd rd conf) n r w1 = Some (n + length pl, Some EOF, False, r', w') \<and>
      relaying st op out0 (ps @ pong_frames st fs) (q @ pl) w' \<and> at_rest r' rest \<and>
      RState r' = Clear (RState r) StateFragmented \<and> ending (src r') = ending (src r)"
    if w1: "relaying st op out0 ps q w1" "Available w1 \<noteq> 0" "flowing rest r (wdest w1) fs pl" for w1
  proof -
    have "pending r fs < maxEmptyReads" using less.prems(2) by (simp add: pending_def)
    from read_try_flow [OF w1(3) _ this, of "Available w1"] w1(2)
    have "tried rest r (wdest w1) fs pl (read_try (reader_rd rd conf) (Available w1) maxEmptyReads (r, wdest w1))" by simp
    moreover have "length bs \<le> Available w1" if "read_try (reader_rd rd conf) (Available w1) maxEmptyReads (r, wdest w1) = Some (bs, e, x, b)" for bs e x b
    proof -
      have "(reader_inv inv \<circ> fst) (r, wdest w1)" using w1(3) by (simp add: flowing_def delivering_def)
      from message.read_try_length [OF this that] show ?thesis .
    qed
    ultimately consider
        (More) bs r2 d2 fs2 pl2 where "read_try (reader_rd rd conf) (Available w1) maxEmptyReads (r, wdest w1) = Some (bs, None, (r2, d2), False)"
          "bs \<noteq> []" "pl = bs @ pl2" "flowing rest r2 d2 fs2 pl2" "moved r (wdest w1) fs r2 d2 fs2" "length bs \<le> Available w1"
      | (End) r2 d2 where "read_try (reader_rd rd conf) (Available w1) maxEmptyReads (r, wdest w1) = Some (pl, Some EOF, (r2, d2), False)"
          "finished rest r (wdest w1) fs r2 d2" "length pl \<le> Available w1"
      unfolding tried_def by blast
    then show ?thesis
    proof cases
      case End
      then have d2: "calm d2" "conn_out d2 = conn_out (wdest w1) @ wire (pong_frames st fs)"
        using answered_pongs [OF srv] by (auto simp: finished_def)
      from relaying_fill [OF relaying_answered [OF w1(1) d2(2,1)], of pl] End(3)
      have "relaying st op out0 (ps @ pong_frames st fs) (q @ pl) (fill pl (w1\<lparr>wdest := d2\<rparr>))" by (simp add: Available_def Size_def)
      with End(1,2) w1(2) show ?thesis
        by (subst relay_loop.simps) (simp add: Let_def finished_def)
    next
      case More
      obtain gs where gs: "fs = gs @ fs2" "answered (pongs st) gs (wdest w1) d2" "Clear (RState r2) StateFragmented = Clear (RState r) StateFragmented"
          "ending (src r2) = ending (src r)" using More(5) by (auto simp: moved_def)
      have d2: "calm d2" "conn_out d2 = conn_out (wdest w1) @ wire (pong_frames st gs)"
        using answered_pongs [OF srv gs(2)] More(4) by (auto simp: flowing_def)
      let ?w = "fill bs (w1\<lparr>wdest := d2\<rparr>)"
      have rl: "relaying st op out0 (ps @ pong_frames st gs) (q @ bs) ?w"
        using relaying_fill [OF relaying_answered [OF w1(1) d2(2,1)], of bs] More(6) by (simp add: Available_def Size_def)
      have "(reader_inv inv \<circ> fst) (r, wdest w1)" using w1(3) by (simp add: flowing_def delivering_def)
      from message.read_try_progress [OF this More(1,2)] w1(2) have lt: "reader_fin fin r2 < reader_fin fin r" by simp
      have fl: "flowing rest r2 (wdest ?w) fs2 pl2" using More(4) by (simp add: fill_def)
      have l: "length fs2 + 1 < maxEmptyReads" using less.prems(2) gs(1) by simp
      obtain r' w' where r': "relay_loop (reader_rd rd conf) (n + length bs) r2 ?w = Some (n + length bs + length pl2, Some EOF, False, r', w')"
          "relaying st op out0 ((ps @ pong_frames st gs) @ pong_frames st fs2) ((q @ bs) @ pl2) w'" "at_rest r' rest"
          "RState r' = Clear (RState r2) StateFragmented" "ending (src r') = ending (src r2)"
        using less.hyps [OF lt fl l rl] by blast
      then show ?thesis using More(1,3) w1(2) gs
        by (subst relay_loop.simps) (simp add: Let_def add.assoc)
    qed
  qed
  show ?case
  proof (cases "Available w = 0")
    case False
    with go [of w] less.prems show ?thesis by blast
  next
    case True
    have "Buffered w \<noteq> 0" "\<not> noFlush w"
      using less.prems(3) True by (auto simp: relaying_def wok_def Available_def Size_def Buffered_def)
    obtain w1 where w1: "FlushFragment w = Some (None, w1)" "relaying st op out0 ps q w1" "Available w1 \<noteq> 0"
      using relaying_FlushFragment [OF less.prems(3) \<open>Buffered w \<noteq> 0\<close>] by blast
    have "calm (wdest w1)" using w1(2) by (simp add: relaying_def)
    then have "flowing rest r (wdest w1) fs pl" using less.prems(1) by (simp add: flowing_def)
    with go [OF w1(2,3)] w1(1) True \<open>\<not> noFlush w\<close> show ?thesis by (subst relay_loop.simps) simp
  qed
qed

text \<open>A message: the writer is reset, the reader copied, the rest flushed.\<close>

lemma Reset_relaying:
  assumes "reusable st w" and "calm d" and "\<not> IsControl op"
  shows "\<exists>w'. Writer_Reset w d st op = Some w' \<and> relaying st op (conn_out d) [] [] w' \<and> wdest w' = d"
proof -
  obtain w' where w': "Writer_Reset w d st op = Some w'" "sending (conn_out d) [] w'" "wstate w' = st" "wop w' = op" "\<not> noFlush w'" "wdest w' = d"
    using Writer_Reset_reusable [OF assms(1), of d op] by blast
  then obtain fs where fs: "fseq w' = length fs" "wire fs = []" "buffered_data w' = []" by (auto simp: sending_def)
  have "fs = []" using fs(2) by (cases fs) (auto simp: frame_bytes_def header_bytes_eq)
  then have "relaying st op (conn_out d) [] [] w'"
    using w' fs assms unfolding relaying_def sending_def
    by (intro conjI exI [of _ "[]"]) (simp_all add: frags_def data_frames_def control_frames_def)
  with w'(1,6) show ?thesis by blast
qed

lemma relay_message:
  assumes srv: "\<not> ClientSide st" and fl: "flowing rest r d fs pl" "length fs + 1 < maxEmptyReads"
    and w: "reusable st w" and op: "\<not> IsControl op"
  shows "\<exists>w1 n r' w2 w3 gs. Writer_Reset w d st op = Some w1 \<and> relay (reader_rd rd conf) r w1 = Some (n, None, r', w2) \<and>
    Flush w2 = Some (None, w3) \<and> reusable st w3 \<and> calm (wdest w3) \<and> at_rest r' rest \<and>
    RState r' = Clear (RState r) StateFragmented \<and> ending (src r') = ending (src r) \<and>
    conn_out (wdest w3) = conn_out d @ wire gs \<and> control_frames gs = pong_frames st fs \<and> whole st op (data_frames gs) pl"
proof -
  have c: "calm d" using fl(1) by (simp add: flowing_def)
  obtain w1 where w1: "Writer_Reset w d st op = Some w1" "relaying st op (conn_out d) [] [] w1" "wdest w1 = d"
    using Reset_relaying [OF w c op] by blast
  obtain r' w2 where r': "relay_loop (reader_rd rd conf) 0 r w1 = Some (0 + length pl, Some EOF, False, r', w2)"
      "relaying st op (conn_out d) ([] @ pong_frames st fs) ([] @ pl) w2" "at_rest r' rest"
      "RState r' = Clear (RState r) StateFragmented" "ending (src r') = ending (src r)"
    using relay_loop_copies [OF srv fl(1) [folded w1(3)] fl(2) w1(2), of 0] by blast
  let ?w2 = "w2\<lparr>dirty := True\<rparr>"
  have "relay (reader_rd rd conf) r w1 = Some (length pl, None, r', ?w2)" using r'(1) by (simp add: relay_def)
  moreover have "relaying st op (conn_out d) (pong_frames st fs) pl ?w2"
    using r'(2) by (simp add: relaying_def wok_def Size_def buffered_data_def)
  from relaying_Flush [OF this] obtain w3 gs where "Flush ?w2 = Some (None, w3)" "reusable st w3" "calm (wdest w3)"
      "conn_out (wdest w3) = conn_out d @ wire gs" "whole st op (data_frames gs) pl" "control_frames gs = pong_frames st fs" by auto
  ultimately show ?thesis using w1(1) r'(3-5) by blast
qed

lemma wsutil_serves:
  assumes stS: "st = StateServerSide"
  shows "idle r (wire (concat us)) \<Longrightarrow> RState r = st \<Longrightarrow> \<forall>u \<in> set us. session_input conf u \<and> length u < maxEmptyReads \<Longrightarrow>
    reusable StateServerSide w \<Longrightarrow> calm (wdest w) \<Longrightarrow>
    \<exists>r' w' gss. wsutil_loop rd getlen r w = Some (ending (src r), r', w') \<and> list_all2 echoed us gss \<and>
      conn_out (wdest w') = conn_out (wdest w) @ wire (concat gss)"
proof (induction us arbitrary: r w)
  case Nil
  then have "idle r []" by simp
  from NextFrame_ended [OF this, of "wdest w"] stS show ?case by (subst wsutil_loop.simps) (auto simp: Let_def)
next
  case (Cons u us)
  have nf: "\<not> Fragmented st" and srv: "\<not> ClientSide st" unfolding stS by code_simp+
  obtain f fs where u: "u = f # fs" using Cons.prems(3) by (cases u) auto
  have m: "message_ok conf quiet_ping (RState r) (f # fs)" using Cons.prems(2,3) u stS by simp
  have us: "\<forall>u \<in> set us. session_input conf u \<and> length u < maxEmptyReads" using Cons.prems(3) by simp
  let ?loop = "wsutil_loop rd getlen" and ?d = "wdest w"
  show ?case
  proof (cases "IsControl (OpCode (Header f))")
    case True
    have fs: "fs = []" and q: "quiet_ping (Header f)"
      using Cons.prems(3) u True small_control [of "Header f" StateServerSide] by (auto split: if_splits)
    have a': "idle r (frame_bytes f @ wire (concat us))" using Cons.prems(1) u fs by simp
    have m1: "message_ok conf quiet_ping st [f]" using m [unfolded Cons.prems(2) fs] .
    obtain r1 r2 d2 where h: "NextFrame rd conf (r, ?d) = Some (Header f, None, r1, ?d)"
        "ControlFrameHandler getlen (reader_src rd conf) st (Header f) ((r1, ?d), ?d) = Some (None, (r2, ?d), d2)"
        "calm d2" "pongs st f ?d d2" "idle r2 (wire (concat us))" "RState r2 = st" "ending (src r2) = ending (src r)"
      using control_message [OF a' Cons.prems(2) nf Cons.prems(5) m1 True q] by blast
    have st: "?loop r w = ?loop r2 (w\<lparr>wdest := d2\<rparr>)"
      using h(1,2) True stS by (subst wsutil_loop.simps) (simp add: Let_def)
    have w2: "reusable StateServerSide (w\<lparr>wdest := d2\<rparr>)" "calm (wdest (w\<lparr>wdest := d2\<rparr>))"
      using Cons.prems(4) h(3) by (simp_all add: reusable_def wok_def Size_def)
    have "answered (pongs st) [f] ?d d2" using h(4) True by simp
    from answered_pongs [OF srv this] have o: "conn_out d2 = conn_out ?d @ wire (pong_frames StateServerSide [f])" unfolding stS .
    have e: "echoed u (pong_frames StateServerSide [f])" using u fs True by simp
    obtain r' w' gss where "?loop r2 (w\<lparr>wdest := d2\<rparr>) = Some (ending (src r2), r', w')" "list_all2 echoed us gss"
        "conn_out (wdest w') = conn_out d2 @ wire (concat gss)"
      using Cons.IH [OF h(5,6) us w2] by auto
    with st e o h(7) show ?thesis by (intro exI [of _ r'] exI [of _ w'] exI [of _ "pong_frames StateServerSide [f] # gss"]) simp
  next
    case False
    let ?p = "plain f @ message_payload fs" and ?op = "OpCode (Header f)"
    have v: "?op = OpText \<longrightarrow> ValidString ?p" using Cons.prems(3) u False by auto
    have a': "idle r (wire (f # fs) @ wire (concat us))" using Cons.prems(1) u by simp
    obtain r1 where n: "NextFrame rd conf (r, ?d) = Some (Header f, None, r1, ?d)"
      and dl: "delivering r1 fs (wire (concat us)) ?p" "opCode r1 = ?op" "state (utf8 r1) = 0" "Clear (RState r1) StateFragmented = RState r"
        "ending (src r1) = ending (src r)"
      by (rule NextFrame_message [OF a' m, of ?d])
    have "checks r1 \<longrightarrow> utf8_run (state (utf8 r1)) ?p = 0" using dl(2,3) v by (auto simp: checks_def utf8_run_valid [symmetric])
    then have fl: "flowing (wire (concat us)) r1 ?d fs ?p" using dl(1) Cons.prems(5) by (simp add: flowing_def)
    have l: "length fs + 1 < maxEmptyReads" using Cons.prems(3) u by simp
    obtain w1 k r2 w2 w3 gs where h: "Writer_Reset w ?d st ?op = Some w1" "relay (reader_rd rd conf) r1 w1 = Some (k, None, r2, w2)"
        "Flush w2 = Some (None, w3)" "reusable st w3" "calm (wdest w3)" "at_rest r2 (wire (concat us))"
        "RState r2 = Clear (RState r1) StateFragmented" "ending (src r2) = ending (src r1)"
        "conn_out (wdest w3) = conn_out ?d @ wire gs" "control_frames gs = pong_frames st fs" "whole st ?op (data_frames gs) ?p"
      using relay_message [OF srv fl l Cons.prems(4) [folded stS] False] by blast
    have st: "?loop r w = ?loop r2 w3"
      using n h(1-3) False stS by (subst wsutil_loop.simps) (simp add: Let_def)
    have "OpCode (Header f) \<noteq> OpPing" using False op_control by auto
    then have e: "echoed u gs" using u False h(10,11) stS by (simp add: pong_frames_def)
    obtain r' w' gss where "?loop r2 w3 = Some (ending (src r2), r', w')" "list_all2 echoed us gss"
        "conn_out (wdest w') = conn_out (wdest w3) @ wire (concat gss)"
      using Cons.IH [OF at_rest_idle [OF h(6)] _ us _ h(5)] h(4,7) dl(4) Cons.prems(2) stS by auto
    with st e h(8,9) dl(5) show ?thesis by (intro exI [of _ r'] exI [of _ w'] exI [of _ "gs # gss"]) simp
  qed
qed

text \<open>
  Where the echo does not come back: so many control frames in a row that \<open>ReadFrom\<close>, which reads them as reads without
  bytes, gives up.
\<close>

definition crowded :: "'s Reader \<Rightarrow> dest \<Rightarrow> frame list \<Rightarrow> frame list \<Rightarrow> byte list \<Rightarrow> bool" where
  "crowded r w cs fs rest \<longleftrightarrow> (\<exists>pl. flowing rest r w (cs @ fs) pl) \<and> (\<forall>c \<in> set cs. IsControl (OpCode (Header c))) \<and> fs \<noteq> []"

lemma between_stuck:
  "crowded r w cs fs rest \<Longrightarrow> rframe r = None \<Longrightarrow> i \<le> length cs \<Longrightarrow>
    \<exists>r' w'. read_try (reader_rd rd conf) k i (r, w) = Some ([], None, (r', w'), True)"
proof (induction i arbitrary: r w cs)
  case 0
  then show ?case by simp
next
  case (Suc i)
  then obtain c cs' where cs: "cs = c # cs'" by (cases cs) auto
  obtain pl where pl: "delivering r (c # cs' @ fs) rest pl" "calm w" "checks r \<longrightarrow> utf8_run (state (utf8 r)) pl = 0"
    using Suc.prems(1) cs by (auto simp: crowded_def flowing_def)
  have c: "IsControl (OpCode (Header c))" using Suc.prems(1) cs by (simp add: crowded_def)
  obtain r2 w2 where r2: "Reader_Read rd conf k (r, w) = Some (0, [], None, r2, w2)" "delivering r2 (cs' @ fs) rest pl" "rframe r2 = None"
      "same_message r r2 []" "calm w2"
    using Read_control [OF pl(1) Suc.prems(2) c pl(2), of k] by blast
  have "flowing rest r2 w2 (cs' @ fs) pl"
    using r2(2,4,5) pl(3) same_message_checks [OF r2(4)] by (auto simp: flowing_def same_message_def)
  then have "crowded r2 w2 cs' fs rest" using Suc.prems(1) cs by (auto simp: crowded_def)
  from Suc.IH [OF this r2(3)] Suc.prems(3) cs r2(1) show ?case by (auto simp: reader_rd_def)
qed

lemma crowded_read:
  assumes c: "crowded r w cs fs rest" and l: "i \<le> length cs" and k: "0 < k"
  shows "(\<exists>r' w'. read_try (reader_rd rd conf) k i (r, w) = Some ([], None, (r', w'), True)) \<or>
    (\<exists>bs r'. read_try (reader_rd rd conf) k i (r, w) = Some (bs, None, (r', w), False) \<and> bs \<noteq> [] \<and> crowded r' w cs fs rest)"
proof (cases "rframe r = None \<or> i = 0")
  case True
  then show ?thesis using between_stuck [OF c _ l, of k] by auto
next
  case False
  then obtain j where j: "i = Suc j" by (cases i) auto
  obtain pl where pl: "delivering r (cs @ fs) rest pl" "calm w" "checks r \<longrightarrow> utf8_run (state (utf8 r)) pl = 0"
    using c by (auto simp: crowded_def flowing_def)
  have lf: "in_frame r (cs @ fs) rest pl" using pl(1) False by (auto simp: delivering_def between_def)
  obtain n bs e r' w' where st: "read_loaded rd conf k (r, w) = Some (n, bs, e, r', w')" "read_result r w (cs @ fs) rest pl (n, bs, e, r', w')"
      "read_stays w (cs @ fs) rest pl (n, bs, e, r', w')"
    using read_loaded_step [OF pl(1) lf pl(2), of k] by (auto simp: split_paired_all)
  have e: "e = None" using st(2,3) pl(3) c by (auto simp: read_result_def read_stays_def crowded_def)
  have r': "n = length bs" "same_message r r' bs" "w' = w" "delivering r' (cs @ fs) rest (drop (length bs) pl)" "pl = bs @ drop (length bs) pl"
    using st(2,3) e by (auto simp: read_result_def read_stays_def)
  have "checks r' \<longrightarrow> utf8_run (state (utf8 r')) (drop (length bs) pl) = 0"
  proof -
    have "utf8_run (state (utf8 r)) (bs @ drop (length bs) pl) = 0" if "checks r" using pl(3) r'(5) that by simp
    then show ?thesis using r'(2) same_message_checks [OF r'(2)] by (auto simp: same_message_def)
  qed
  then have c': "crowded r' w cs fs rest" using c r'(4) pl(2) unfolding crowded_def flowing_def by blast
  have rd': "reader_rd rd conf k (r, w) = Some (bs, None, (r', w))"
    using st(1) e r'(1,3) False by (auto simp: reader_rd_def Reader_Read_def)
  show ?thesis
  proof (cases "bs = []")
    case False
    then show ?thesis using rd' c' j by simp
  next
    case True
    have "reader_inv inv r" using pl(1) by (simp add: delivering_def)
    moreover have "read_loaded rd conf k (r, w) = Some (n, [], None, r', w)" using st(1) e r'(3) True by simp
    ultimately have "rframe r' = None" using loaded_empty [OF lf _ k] by blast
    from between_stuck [OF c' this, of j k] l j rd' True show ?thesis by auto
  qed
qed

lemma relay_loop_stuck:
  assumes l: "maxEmptyReads \<le> length cs"
  shows "crowded r (wdest w) cs fs rest \<Longrightarrow> relaying st op out0 ps q w \<Longrightarrow>
    \<exists>n' r' w'. relay_loop (reader_rd rd conf) n r w = Some (n', Some ErrNoProgress, True, r', w')"
proof (induction "reader_fin fin r" arbitrary: n r w q rule: less_induct)
  case less
  have go: "\<exists>n' r' w'. relay_loop (reader_rd rd conf) n r w1 = Some (n', Some ErrNoProgress, True, r', w')"
    if w1: "relaying st op out0 ps q w1" "Available w1 \<noteq> 0" "crowded r (wdest w1) cs fs rest" for w1
  proof -
    have k: "0 < Available w1" using w1(2) by simp
    from crowded_read [OF w1(3) l k] consider
        (Stuck) r' d where "read_try (reader_rd rd conf) (Available w1) maxEmptyReads (r, wdest w1) = Some ([], None, (r', d), True)"
      | (More) bs r' where "read_try (reader_rd rd conf) (Available w1) maxEmptyReads (r, wdest w1) = Some (bs, None, (r', wdest w1), False)"
          "bs \<noteq> []" "crowded r' (wdest w1) cs fs rest" by blast
    then show ?thesis
    proof cases
      case Stuck
      then show ?thesis using w1(2) by (subst relay_loop.simps) simp
    next
      case More
      have "(reader_inv inv \<circ> fst) (r, wdest w1)" using w1(3) by (auto simp: crowded_def flowing_def delivering_def)
      from message.read_try_progress [OF this More(1,2) k] have lt: "reader_fin fin r' < reader_fin fin r" by simp
      have "crowded r' (wdest (fill bs w1)) cs fs rest" using More(3) by (simp add: fill_def)
      from less.hyps [OF lt this relaying_fill [OF w1(1), of bs], of "n + length bs"] More(1) w1(2)
      show ?thesis by (subst relay_loop.simps) (simp add: Let_def)
    qed
  qed
  show ?case
  proof (cases "Available w = 0")
    case False
    with go [of w] less.prems show ?thesis by blast
  next
    case True
    have b: "Buffered w \<noteq> 0" "\<not> noFlush w"
      using less.prems(2) True by (auto simp: relaying_def wok_def Available_def Size_def Buffered_def)
    obtain w1 where w1: "FlushFragment w = Some (None, w1)" "relaying st op out0 ps q w1" "Available w1 \<noteq> 0"
      using relaying_FlushFragment [OF less.prems(2) b(1)] by blast
    have "calm (wdest w1)" using w1(2) by (simp add: relaying_def)
    then have "crowded r (wdest w1) cs fs rest" using less.prems(1) by (auto simp: crowded_def flowing_def)
    with go [OF w1(2,3)] w1(1) True b(2) show ?thesis by (subst relay_loop.simps) simp
  qed
qed

lemma wsutil_crowded:
  assumes stS: "st = StateServerSide" and s: "inv s" "data s = wire (f # cs @ fs) @ rest"
    and u: "session_input conf (f # cs @ fs)" "\<not> IsControl (OpCode (Header f))"
    and cs: "\<forall>c \<in> set cs. IsControl (OpCode (Header c))" "maxEmptyReads \<le> length cs" and d: "calm d"
  shows "\<exists>r w. wsutilHandler rd getlen s d = Some (ErrNoProgress, r, w)"
proof -
  obtain w where w: "NewWriter d StateServerSide 0 = Some w" using NewWriter_server by blast
  have wd: "wdest w = d" using w by (auto simp: NewWriter_def NewWriterBufferSize_def make_bytes_def maxAlloc_def NewWriterBuffer_def initBuf_def Let_def split: if_splits)
  let ?r = "NewReader s st" and ?op = "OpCode (Header f)" and ?p = "plain f @ message_payload (cs @ fs)"
  have "\<not> Fragmented StateServerSide" by code_simp
  then have "at_rest ?r (wire (f # cs @ fs) @ rest)"
    using s stS by (simp add: at_rest_def NewReader_def fragmented_def)
  note i = at_rest_idle [OF this]
  have m: "message_ok conf quiet_ping (RState ?r) (f # cs @ fs)" using u(1) stS by (simp add: NewReader_def)
  obtain r1 where n: "NextFrame rd conf (?r, d) = Some (Header f, None, r1, d)"
    and dl: "delivering r1 (cs @ fs) rest ?p" "opCode r1 = ?op" "state (utf8 r1) = 0"
    by (rule NextFrame_message [OF i m, of d])
  have v: "?op = OpText \<longrightarrow> ValidString ?p" using u by auto
  then have "checks r1 \<longrightarrow> utf8_run (state (utf8 r1)) ?p = 0" using dl(2,3) by (auto simp: checks_def utf8_run_valid [symmetric])
  then have fl: "flowing rest r1 d (cs @ fs) ?p" using dl(1) d by (simp add: flowing_def)
  have "fs \<noteq> []"
  proof
    assume "fs = []"
    moreover have "msg_tail conf quiet_ping st' cs \<Longrightarrow> \<forall>c \<in> set cs. IsControl (OpCode (Header c)) \<Longrightarrow> False" for st' cs
      by (induction cs) auto
    moreover have "cs \<noteq> []" using cs(2) by (auto simp: maxEmptyReads_def)
    ultimately show False using m cs(1) by (auto split: if_splits)
  qed
  then have c: "crowded r1 d cs fs rest" using fl cs(1) by (auto simp: crowded_def)
  obtain w1 where w1: "Writer_Reset w d StateServerSide ?op = Some w1" "relaying st ?op (conn_out d) [] [] w1" "wdest w1 = d"
    using Reset_relaying [OF NewWriter_reusable [OF w, folded stS] d u(2)] unfolding stS by blast
  obtain k r2 w2 where "relay_loop (reader_rd rd conf) 0 r1 w1 = Some (k, Some ErrNoProgress, True, r2, w2)"
    using relay_loop_stuck [OF cs(2) _ w1(2), of r1 fs rest 0] c w1(3) by auto
  then have "relay (reader_rd rd conf) r1 w1 = Some (k, Some ErrNoProgress, r2, w2)" by (simp add: relay_def)
  moreover have "Writer_Reset (w\<lparr>wdest := d\<rparr>) d StateServerSide ?op = Some w1" using w1(1) by (simp add: Writer_Reset_def)
  ultimately have "wsutil_loop rd getlen ?r w = Some (ErrNoProgress, r2, w2)"
    using n wd u(2) stS by (subst wsutil_loop.simps) (simp add: Let_def)
  then show ?thesis using w stS by (simp add: wsutilHandler_def)
qed

lemma wsutil_run:
  assumes stS: "st = StateServerSide" and s: "inv s" "data s = wire (concat us)"
    and us: "\<forall>u \<in> set us. session_input conf u \<and> length u < maxEmptyReads" and d: "calm d"
  shows "\<exists>r w gss. wsutilHandler rd getlen s d = Some (ending s, r, w) \<and> list_all2 echoed us gss \<and>
    conn_out (wdest w) = conn_out d @ wire (concat gss)"
proof -
  obtain w where w: "NewWriter d StateServerSide 0 = Some w" using NewWriter_server by blast
  have wd: "wdest w = d" using w by (auto simp: NewWriter_def NewWriterBufferSize_def make_bytes_def maxAlloc_def NewWriterBuffer_def initBuf_def Let_def split: if_splits)
  have "\<not> Fragmented StateServerSide" by code_simp
  then have "at_rest (NewReader s st) (wire (concat us))"
    using s stS by (simp add: at_rest_def NewReader_def fragmented_def)
  from wsutil_serves [OF stS at_rest_idle [OF this] _ us NewWriter_reusable [OF w]] d
  show ?thesis using w stS by (auto simp: wsutilHandler_def NewReader_def wd)
qed

end

section \<open>The network\<close>

lemma conn_read_flows_inv: "conn_flows s \<Longrightarrow> conn_read n s = Some (bs, e, s') \<Longrightarrow> conn_flows s'"
  by (cases rule: conn_read_cases [of s n]) auto

interpretation flow: framed_stream conn_read "\<lambda>s. conn_sane s \<and> conn_flows s" conn_fin conn_data conn_end
proof unfold_locales
  fix n s bs e s'
  assume "conn_sane s \<and> conn_flows s" and "conn_read n s = Some (bs, e, s')"
  then show "conn_sane s' \<and> conn_flows s'" using net.rd_inv conn_read_flows_inv by blast
next
  fix n s bs s'
  assume "conn_sane s \<and> conn_flows s" and "conn_read n s = Some (bs, None, s')"
  then show "conn_data s = bs @ conn_data s' \<and> conn_end s' = conn_end s" using net.rd_data by blast
next
  fix n s bs e s'
  assume "conn_sane s \<and> conn_flows s" and "conn_read n s = Some (bs, Some e, s')"
  then show "conn_data s = bs \<and> conn_end s = e" and "bs = []" using net.rd_last net.rd_alone by blast+
qed (use conn.rd_returns conn.rd_length conn.rd_progress conn.rd_fin in auto)

lemma conn_flowing_reader:
  assumes "byte_pool getlen"
  shows "flowing_reader conn_read (\<lambda>s. conn_sane s \<and> conn_flows s) conn_fin conn_data conn_end getlen"
proof (rule flowing_reader.intro)
  show "data_reader conn_read (\<lambda>s. conn_sane s \<and> conn_flows s) conn_fin conn_data conn_end getlen"
    by (rule data_reader.intro [OF flow.framed_stream_axioms assms])
  show "flowing_reader_axioms conn_read (\<lambda>s. conn_sane s \<and> conn_flows s)"
    by (rule flowing_reader_axioms.intro) (use conn_read_flows in blast)
qed

interpretation flow_talk: flowing_reader conn_read "\<lambda>s. conn_sane s \<and> conn_flows s" conn_fin conn_data conn_end fresh_pool st for st
  by (rule conn_flowing_reader [OF fresh.byte_pool_axioms])

section \<open>Properties\<close>

text \<open>
  C20: the example's server that copies a reader to a writer: for pings, pongs and messages, each of fewer than a hundred frames, in any cuts of a
  network that brings bytes with every read, the client gets, in order, a pong for each ping and for each message one message of the same
  kind with the same payload, with nothing between its frames but the pongs for the pings that came between the frames of the
  one it sent; when the client's side ends, so does the loop, with the error that says so.
\<close>

theorem wsutil_echoes:
  assumes "conn_sane s" and "conn_flows s" and "conn_data s = wire (concat us)"
    and "\<forall>u \<in> set us. session_input (data_conf conn_read getlen StateServerSide) u \<and> length u < maxEmptyReads"
    and "faults d = []" and "byte_pool getlen"
  shows "\<exists>r w gss. wsutilHandler conn_read getlen s d = Some (conn_end s, r, w) \<and> list_all2 echoed us gss \<and>
    conn_out (wdest w) = conn_out d @ wire (concat gss)"
  by (rule flowing_reader.wsutil_run [OF conn_flowing_reader [OF assms(6)] refl _ assms(3,4)]) (simp_all add: assms(1,2,5) calm_def)

theorem wsutil_echoes_witness:
  "let d = \<lparr>sent = [], faults = [], rands = (\<lambda>_. 0)\<rparr>; m = (\<lambda>f. MaskFrameInPlaceWith f (1, 2, 3, 4));
       u = [m (NewFrame OpText False [104]), m (NewPingFrame [7]), m (NewFrame OpContinuation True [105])]
   in \<exists>r w gs. wsutilHandler conn_read fresh_pool [REv (wire u) None] d = Some (EOF, r, w) \<and> conn_out (wdest w) = wire gs \<and>
     control_frames gs = [NewPongFrame [7]] \<and> whole StateServerSide OpText (data_frames gs) [104, 105]"
proof -
  let ?d = "\<lparr>sent = [], faults = [], rands = (\<lambda>_. 0)\<rparr>" and ?m = "\<lambda>f. MaskFrameInPlaceWith f (1, 2, 3, 4)"
  let ?f = "?m (NewFrame OpText False [104])" and ?fs = "[?m (NewPingFrame [7]), ?m (NewFrame OpContinuation True [105])]"
  let ?u = "?f # ?fs"
  have m: "message_ok (data_conf conn_read fresh_pool StateServerSide) quiet_ping StateServerSide ?u" by code_simp
  have o: "\<not> IsControl (OpCode (Header ?f))" "OpCode (Header ?f) = OpText" "plain ?f @ message_payload ?fs = [104, 105]"
    "pong_frames StateServerSide ?u = [NewPongFrame [7]]" by code_simp+
  have v: "ValidString [104, 105]" by code_simp
  have i: "session_input (data_conf conn_read fresh_pool StateServerSide) ?u"
    unfolding session_input.simps o(3) by (intro conjI m) (use o(1) v in simp)
  have ne: "wire ?u \<noteq> []" by (simp add: frame_bytes_def header_bytes_eq)
  let ?s = "[REv (wire ?u) None]"
  have "\<exists>r w gss. wsutilHandler conn_read fresh_pool ?s ?d = Some (conn_end ?s, r, w) \<and> list_all2 echoed [?u] gss \<and>
      conn_out (wdest w) = conn_out ?d @ wire (concat gss)"
    by (rule wsutil_echoes [OF _ _ _ _ _ fresh.byte_pool_axioms])
      (use ne i in \<open>simp_all add: maxEmptyReads_def del: session_input.simps wire_simps(2)\<close>)
  then obtain r w gss where "wsutilHandler conn_read fresh_pool ?s ?d = Some (EOF, r, w)" "list_all2 echoed [?u] gss"
      "conn_out (wdest w) = wire (concat gss)"
    by (auto simp: conn_out_def simp del: echoed.simps wire_simps(2) list_all2_Cons)
  moreover from this(2) obtain gs where gs: "gss = [gs]" "echoed ?u gs" by (auto simp: list_all2_Cons1 simp del: echoed.simps)
  moreover have "control_frames gs = [NewPongFrame [7]] \<and> whole StateServerSide (OpCode (Header ?f)) (data_frames gs) [104, 105]"
    using gs(2) unfolding echoed.simps o(3,4) if_not_P [OF o(1)] .
  ultimately show ?thesis unfolding Let_def o(2) by auto
qed

lemma pinged_tail:
  assumes "msg_tail cf quiet st gs" and "wf_frame c" and "CheckHeader (Header c) st = None" and "size_ok cf (Header c)" and "quiet (Header c)"
    and "IsControl (OpCode (Header c))"
  shows "msg_tail cf quiet st (replicate n c @ gs) \<and> message_payload (replicate n c @ gs) = message_payload gs"
  using assms by (induction n) simp_all

text \<open>
  C31: where this server fails a client that does nothing wrong: when a hundred or more pings and pongs come in a row between two frames of a
  message, \<open>ReadFrom\<close> takes the reads that only handle a control frame for reads without progress, and the server ends the
  connection with \<open>io.ErrNoProgress\<close>, although each frame is well-formed and accepted by the header check.
\<close>

theorem wsutil_gives_up:
  assumes "conn_sane s" and "conn_flows s" and "conn_data s = wire (f # cs @ fs) @ rest"
    and "session_input (data_conf conn_read getlen StateServerSide) (f # cs @ fs)" and "\<not> IsControl (OpCode (Header f))"
    and "\<forall>c \<in> set cs. IsControl (OpCode (Header c))" and "100 \<le> length cs" and "faults d = []" and "byte_pool getlen"
  shows "\<exists>r w. wsutilHandler conn_read getlen s d = Some (ErrNoProgress, r, w)"
  by (rule flowing_reader.wsutil_crowded [OF conn_flowing_reader [OF assms(9)] refl _ assms(3-6)])
    (simp_all add: assms(1,2,7,8) calm_def maxEmptyReads_def)

theorem wsutil_gives_up_witness:
  "let d = \<lparr>sent = [], faults = [], rands = (\<lambda>_. 0)\<rparr>; m = (\<lambda>f. MaskFrameInPlaceWith f (1, 2, 3, 4));
       u = m (NewFrame OpText False [104]) # replicate 100 (m (NewPingFrame [])) @ [m (NewFrame OpContinuation True [105])]
   in \<exists>r w. wsutilHandler conn_read fresh_pool [REv (wire u) None] d = Some (ErrNoProgress, r, w)"
proof -
  let ?d = "\<lparr>sent = [], faults = [], rands = (\<lambda>_. 0)\<rparr>" and ?m = "\<lambda>f. MaskFrameInPlaceWith f (1, 2, 3, 4)"
  let ?cf = "data_conf conn_read fresh_pool StateServerSide :: (rd_event list, dest) ReaderConf"
  let ?f = "?m (NewFrame OpText False [104])" and ?c = "?m (NewPingFrame [])" and ?g = "?m (NewFrame OpContinuation True [105])"
  have f: "wf_frame ?f" "CheckHeader (Header ?f) StateServerSide = None" "size_ok ?cf (Header ?f)" "\<not> Fin (Header ?f)"
    "\<not> IsControl (OpCode (Header ?f))" "plain ?f = [104]" by code_simp+
  have c: "wf_frame ?c" "CheckHeader (Header ?c) (Set StateServerSide StateFragmented) = None" "size_ok ?cf (Header ?c)"
    "quiet_ping (Header ?c)" "IsControl (OpCode (Header ?c))" by code_simp+
  have g: "msg_tail ?cf quiet_ping (Set StateServerSide StateFragmented) [?g]" "message_payload [?g] = [105]" by code_simp+
  have t: "msg_tail ?cf quiet_ping (Set StateServerSide StateFragmented) (replicate n ?c @ [?g])"
    "message_payload (replicate n ?c @ [?g]) = [105]" for n
    using pinged_tail [OF g(1) c] g(2) by simp_all
  have v: "ValidString ([104] @ [105])" by code_simp
  have i: "session_input ?cf (?f # replicate 100 ?c @ [?g])"
    unfolding session_input.simps message_ok.simps t(2) f(6) using f(1-5) t(1) v by simp
  have ne: "wire (?f # replicate 100 ?c @ [?g]) \<noteq> []" by (simp add: frame_bytes_def header_bytes_eq)
  show ?thesis unfolding Let_def
    by (rule wsutil_gives_up [where rest = "[]", OF _ _ _ i f(5) _ _ _ fresh.byte_pool_axioms])
      (use ne c(5) in \<open>simp_all del: wire_simps(2)\<close>)
qed

end
