(* ===== verification/Spec2Isabelle.thy ===== *)
theory Spec2Isabelle
  imports Session Upgrader Dialer Delivery Totality CutOff ClientHandshake Server Reconnect Deadline Logging DebugUpgrade Examples RawEcho Relay
begin

text \<open>
  A verification library for mogusocket, an implementation of WebSocket (RFC 6455) in Go: the
  packages \<open>mogusocket\<close> (src/) and \<open>msutil\<close> (src/msutil/).

  \<^bold>\<open>The program.\<close> A connection starts with the opening handshake, HTTP written and read through
  \<open>bufio\<close>: the server side is \<open>Upgrader\<close> (upgrader.go), the client side \<open>Dialer\<close> (dialer.go), over the
  functions of http.go, the keys of nonce.go and the small parsers of util.go. After it both sides
  exchange frames: read.go and write.go turn frame headers (frame.go) into bytes and back, cipher.go
  masks payloads, check.go checks headers against the state of an endpoint. On top of
  frames msutil builds messages: \<open>Reader\<close> joins the fragments of a message, unmasks it, checks its UTF-8 and
  hands control frames between them to a callback; \<open>Writer\<close> cuts a message into frames;
  \<open>ControlHandler\<close> answers pings, pongs and close frames; helper.go offers whole messages.
  Sessions (connecter.go, client.go, server.go) run an application over such connections.

  \<^bold>\<open>The model.\<close> Every operation is a function of its state that returns its result and the new state; a
  type \<open>option\<close> around it is a call that may not return (a panic, as of \<open>make([]byte, n)\<close> for a length that cannot be allocated, or a
  loop that never ends: such loops are \<open>partial_function\<close>s). The raw echo server tells panics from returns in its result. Errors are values of the type \<open>err\<close>. Go's integers keep their width where it
  matters: bytes, codes, masks and lengths are words, the length of a header is a 64-bit word read as
  signed, buffers are indexed by natural numbers. Slices that are changed in place are lists that are
  returned. A connection has a read side, a list of what the successive reads will meet
  (\<open>rd_event\<close>, so that a statement for all lists covers every way the network cuts or breaks the
  stream), and a write side, \<open>dest\<close>, which keeps what was sent, what will go wrong, and the random numbers.

  The theories, in the order of their imports:

  \<^item> Prelude, Errors, GoIO, Bufio: words and bytes, the error values (errors.go), the packages \<open>io\<close>,
    \<open>bytes\<close> and \<open>bufio\<close> as far as they are used. The interfaces \<open>io.Reader\<close> and \<open>io.Writer\<close> are the locales
    \<open>io_reader\<close>, \<open>io_source\<close>, \<open>io_stream\<close>, \<open>io_writer\<close>, \<open>lively_stream\<close> and \<open>buffered_writer\<close>, interpreted on the
    connection, on limited, memory, ciphering, UTF-8 and message readers.
  \<^item> CipherXor (cipher.go), Frames and HeaderIO (frame.go, read.go, write.go), Check (check.go): frames.
    The word-wise cipher equals the byte-wise one; headers survive their round trip; the check of headers accepts the
    grammar of the RFC.
  \<^item> CipherIO, Utf8 (msutil/cipher.go, utf8.go): readers and writers in the middle. The table of the
    automaton decides UTF-8 and refuses at the first hopeless byte.
  \<^item> FrameReader, Messages, Reassembly (msutil/reader.go): the code of \<open>Reader\<close>, that it returns under all
    circumstances, and what it delivers over a stream that carries a well-formed message.
  \<^item> FrameWriter, Sending (msutil/writer.go): the code of \<open>Writer\<close> and \<open>ControlWriter\<close>, and an abstract account of
    what has been sent and what is buffered (\<open>sending\<close>).
  \<^item> Control (msutil/handler.go), Helpers, Conversations (msutil/helper.go): control frames, whole messages,
    and conversations in which they mix.
  \<^item> Delivery, Messaging, Totality: from one end to the other, for messages in pieces and whole; and that
    reading returns on every connection, whatever the peer sends. CutOff: messages that are never finished.
  \<^item> Util, Nonce, Http, HttpText (util.go, nonce.go, http.go): parsing, base64 and SHA-1, writing of requests and
    responses, and their texts.
  \<^item> Upgrader, ServerHandshake, DebugUpgrade (upgrader.go, msutil/upgrader.go) and Dialer, ClientHandshake,
    Deadline (dialer.go): the two sides of the handshake. \<open>handshaking\<close> is the interface of a connection a server
    is run on; it is interpreted on the network connection and on the copying reader and writer of
    \<open>DebugUpgrader\<close>. Deadline is the goroutine that watches the context of a dial.
  \<^item> Session, Serving, Reconnect, Server (connecter.go, client.go, server.go, handler.go): the loops over a connection,
    and the goroutines of a server and of a reconnecting client as step relations. In Server each connection goes through the phases
    of the loop of \<open>Connecter.Run\<close>, which waits in a turn for its peer; in Reconnect the start of a new session and the reset of the counter are two
    steps, as in the code.
  \<^item> Copying, Writing (connecter.go, client.go, writer.go): what an application writes through the handler of its session, and what the
    other end reads; and what holds of a writer in every use of it.
  \<^item> Logging (log.go): the loggers. Examples, RawEcho and Relay (example/autobahn): echo servers over the helpers, over the
    functions for frames, and by copying a reader to a writer. Sessions (example/server, example/client): the sessions of the two example programs over the loops of
    connecter.go and client.go.

  \<^bold>\<open>What is shown.\<close> The wire format: the header check accepts exactly the sequences of headers of the RFC, frames and close
  bodies are read back as they were written, from any delivery. Messages: written in
  any pieces through any buffer they arrive whole, in order and unmasked; a text that is read to its end is valid UTF-8;
  control frames are answered between and inside of messages; an echo returns every message.
  The handshake: each side accepts only what the RFC allows, with the accept value of the very key, and the two sides open a connection with each
  other; the server answers every request that has a request line and ends, an error with the response of its status, but neither a
  malformed request line nor a stream that is cut off. Robustness: reading messages and handshakes returns on every connection, and so does the
  server's loop for applications that read their messages to the end; the raw echo server returns or, for a header
  that announces more than can be allocated, panics; failing writes leave a prefix. Concurrency: a connection of the
  server is closed once; once \<open>Run\<close> has returned no connection begins a new turn, and only connections that wait for their peer stay
  open; the session of an example is taken off its table; the deadline of a dialled connection is
  never touched after the dial; the delays of a reconnecting client. Some theorems state where the code does not do what it means
  to: a ping between messages desynchronises the client, a client's protocol-error close frame is refused, a close frame cut off after its
  header ends a message, an error of an extension makes \<open>Write\<close> hang, a hundred pings inside of a message stop a copy, a length
  that cannot be allocated stops the raw echo server.

  \<^bold>\<open>Bounds.\<close> Nothing is bounded by fuel. Loops without a measure of their own (over a connection) are partial functions,
  and that they return is a theorem: each read that goes on uses up the finite list of events of the
  connection. Allocations are limited to \<open>2 ^ 48\<close> bytes, as on the usual 64-bit platforms; that a machine may have less memory is not
  modelled. Buffers that a writer is given are assumed shorter than \<open>2 ^ 60\<close> bytes and messages shorter than \<open>2 ^ 63\<close>, the range of Go's
  \<open>int\<close>. The number of attempts of the reconnecting client, and with it the delay, is a natural number; Go's duration would overflow after
  four thousand million attempts.

  \<^bold>\<open>Not part of the program, and so parameters:\<close> the package \<open>httphead\<close> (its scanners and the writing of options; the
  assumption is that it writes a text of its own), pools of buffers (they give buffers of the wanted length), growth of
  slices in \<open>io.ReadAll\<close> and \<open>bytes.Buffer\<close>, \<open>url.Parse\<close>, dialling and listening, TLS, the random source, the callbacks of applications.
  Of \<open>http.ReadRequest\<close> in \<open>DebugUpgrader\<close> the reading line by line to the empty line is modelled; at which lines it gives up and
  how the body is read are parameters.

  \<^bold>\<open>Not modelled:\<close> what two goroutines could do to each other inside of one session (a callback runs to its end before the
  loop goes on; the goroutine that closes a client's connection shows as an error of a read);
  deadlines on hijacked connections and timers; the log lines of the other components; the
  main programs of example/ (flags, signals, standard input) and the upgrades in front of their handlers.
\<close>

end
